(* ===== verification/Prelude.thy ===== *)
theory Prelude
  imports Main "HOL-Library.Word"
begin

text \<open>
  Shared vocabulary of the development: the machine integers of the C code at their width,
  the outcomes of C code that has no defined behaviour (as values), raw memory blocks with
  checked reads and writes, and the generic lemmas on lists, blocks and words that the
  component theories share.
\<close>

section \<open>Machine types\<close>

text \<open>
  The code is built for x86-64 Linux: \<open>unsigned int\<close> has 32 bits, \<open>unsigned long\<close>,
  \<open>size_t\<close> and pointers have 64 bits, and \<open>char\<close> is signed.  Signed C integers
  are \<open>int\<close>s with their conversions written out.
\<close>

type_synonym byte = "8 word"
type_synonym bytes = "byte list"
type_synonym u32 = "32 word"
type_synonym u64 = "64 word"

text \<open>Addresses of heap cells; the null pointer is 0.\<close>

type_synonym addr = nat

abbreviation (input) NULL :: addr where
  "NULL \<equiv> 0"

section \<open>Outcomes\<close>

text \<open>
  A C execution that leaves the defined behaviour of the language, or that fails one of the
  program's own \<open>assert\<close>s, is a \<open>fault\<close>: a value, so that every such branch of the source is
  a branch of the model and its absence is a theorem.
\<close>

datatype fault =
    NullDeref
  | OutOfBounds
  | UninitRead
  | UseAfterFree
  | Dangling
  | AssertFail
  | DivByZero
  | ShiftRange
  | LibraryDomain
  | SignedOverflow
  | TypeConfusion
  | BadFree

type_synonym 'a res = "fault + 'a"

abbreviation Fault :: "fault \<Rightarrow> 'a res" where
  "Fault \<equiv> Inl"

abbreviation Ok :: "'a \<Rightarrow> 'a res" where
  "Ok \<equiv> Inr"

definition bind_res :: "'a res \<Rightarrow> ('a \<Rightarrow> 'b res) \<Rightarrow> 'b res" where
  "bind_res m f = (case m of Inl e \<Rightarrow> Inl e | Inr x \<Rightarrow> f x)"

text \<open>A loop that may run forever returns a \<open>run\<close>: \<open>None\<close> is non-termination.\<close>

type_synonym 'a run = "'a res option"

abbreviation returns :: "'a \<Rightarrow> 'a run" where
  "returns x \<equiv> Some (Inr x)"

abbreviation faults :: "fault \<Rightarrow> 'a run" where
  "faults e \<equiv> Some (Inl e)"

definition bind_run :: "'a run \<Rightarrow> ('a \<Rightarrow> 'b run) \<Rightarrow> 'b run" where
  "bind_run m f = (case m of None \<Rightarrow> None | Some (Inl e) \<Rightarrow> Some (Inl e) | Some (Inr x) \<Rightarrow> f x)"

lemma bind_res_simps [simp]:
  "bind_res (Inl e) f = Inl e"
  "bind_res (Inr x) f = f x"
  by (simp_all add: bind_res_def)

lemma bind_res_Inr_iff: "bind_res m f = Inr y \<longleftrightarrow> (\<exists>x. m = Inr x \<and> f x = Inr y)"
  by (cases m) auto

lemma bind_run_simps [simp]:
  "bind_run None f = None"
  "bind_run (faults e) f = faults e"
  "bind_run (returns x) f = f x"
  by (simp_all add: bind_run_def)

lemma bind_run_assoc: "bind_run (bind_run m f) g = bind_run m (\<lambda>x. bind_run (f x) g)"
  by (auto simp: bind_run_def split: option.splits sum.splits)

lemma bind_run_returns: "bind_run m f = returns y \<longleftrightarrow> (\<exists>x. m = returns x \<and> f x = returns y)"
  by (auto simp: bind_run_def split: option.splits sum.splits)

lemma bind_run_mono [partial_function_mono]:
  assumes B: "mono_option B" and C: "\<And>y. mono_option (\<lambda>f. C y f)"
  shows "mono_option (\<lambda>f. bind_run (B f) (\<lambda>y. C y f))"
proof (rule monotoneI)
  fix f g :: "'a \<Rightarrow> 'b option"
  assume le: "option.le_fun f g"
  from B have "option_ord (B f) (B g)" by (rule monotoneD) (rule le)
  then have "B f = None \<or> B f = B g" by (simp add: flat_ord_def)
  moreover from C have "option_ord (C y f) (C y g)" for y by (rule monotoneD) (rule le)
  then have "C y f = None \<or> C y f = C y g" for y by (simp add: flat_ord_def)
  then have "bind_run (B g) (\<lambda>y. C y f) = None \<or> bind_run (B g) (\<lambda>y. C y f) = bind_run (B g) (\<lambda>y. C y g)"
    by (cases "B g" rule: option.exhaust; cases "the (B g)") auto
  ultimately show "option_ord (bind_run (B f) (\<lambda>y. C y f)) (bind_run (B g) (\<lambda>y. C y g))"
    by (auto simp: flat_ord_def)
qed

lemma map_sum_id_Ok: "map_sum id g z = Ok y \<longleftrightarrow> (\<exists>x. z = Ok x \<and> g x = y)"
  by (cases z) auto

section \<open>Memory blocks\<close>

text \<open>
  A block obtained from \<open>malloc\<close> is the list of its bytes.  \<open>mem_read\<close> and \<open>mem_write\<close> are
  \<open>memcpy\<close> from and into a block at an offset; leaving the block is \<open>OutOfBounds\<close>.
\<close>

definition mem_read :: "nat \<Rightarrow> nat \<Rightarrow> bytes \<Rightarrow> bytes res" where
  "mem_read off n m = (if off + n \<le> length m then Ok (take n (drop off m)) else Fault OutOfBounds)"

definition mem_write :: "nat \<Rightarrow> bytes \<Rightarrow> bytes \<Rightarrow> bytes res" where
  "mem_write off bs m =
     (if off + length bs \<le> length m then Ok (take off m @ bs @ drop (off + length bs) m)
      else Fault OutOfBounds)"

text \<open>Slot \<open>i\<close> of a block cut into slots of \<open>n\<close> bytes.\<close>

definition mem_slot :: "nat \<Rightarrow> bytes \<Rightarrow> nat \<Rightarrow> bytes" where
  "mem_slot n m i = take n (drop (n * i) m)"

lemma mem_read_Ok [simp]: "off + n \<le> length m \<Longrightarrow> mem_read off n m = Ok (take n (drop off m))"
  by (simp add: mem_read_def)

lemma mem_write_Ok:
  "off + length bs \<le> length m \<Longrightarrow>
     mem_write off bs m = Ok (take off m @ bs @ drop (off + length bs) m)"
  by (simp add: mem_write_def)

lemma mem_write_length: "mem_write off bs m = Ok m' \<Longrightarrow> length m' = length m"
  by (auto simp: mem_write_def split: if_splits)

lemma slot_fits: "(i::nat) < k \<Longrightarrow> n * i + n \<le> n * k"
  by (metis Suc_leI mult_Suc_right add.commute mult_le_mono2)

lemma mem_slot_write_same:
  assumes "mem_write (n * i) bs m = Ok m'" and "length bs = n"
  shows "mem_slot n m' i = bs"
  using assms by (auto simp: mem_write_def mem_slot_def split: if_splits)

lemma mem_slot_write_other:
  assumes w: "mem_write (n * i) bs m = Ok m'" and len: "length bs = n" and ne: "j \<noteq> i"
  shows "mem_slot n m' j = mem_slot n m j"
proof -
  from w have m': "m' = take (n * i) m @ bs @ drop (n * i + length bs) m"
    and fits: "n * i + length bs \<le> length m"
    by (auto simp: mem_write_def split: if_splits)
  show ?thesis
  proof (cases "j < i")
    case True
    then have "n * j + n \<le> n * i" by (rule slot_fits)
    then show ?thesis
      using fits by (simp add: m' mem_slot_def drop_take)
  next
    case False
    with ne have "n * i + n \<le> n * j" using slot_fits[of i j n] by simp
    then obtain k where k: "n * j = n * i + n + k"
      using le_Suc_ex by blast
    have "drop (n * j) m' = drop (n * j) m"
      unfolding k m' using fits len by (simp add: ac_simps)
    then show ?thesis by (simp add: mem_slot_def)
  qed
qed

section \<open>Words\<close>

lemma unat_plus_of_nat_no_overflow:
  "unat (a :: 'a::len word) + n < 2 ^ LENGTH('a) \<Longrightarrow> unat (a + of_nat n) = unat a + n"
  by (simp add: unat_word_ariths unsigned_of_nat take_bit_eq_mod)

lemma unat_plus_mod_dvd:
  assumes "L dvd 2 ^ LENGTH('a)"
  shows "unat ((a :: 'a::len word) + b) mod L = (unat a + unat b) mod L"
  using assms by (simp add: unat_word_ariths mod_mod_cancel)

lemma unat_Suc_no_overflow:
  "unat (a :: 'a::len word) + 1 < 2 ^ LENGTH('a) \<Longrightarrow> unat (a + 1) = unat a + 1"
  using unat_plus_of_nat_no_overflow[of a 1] by simp

lemma unat_diff_le: "(b :: 'a::len word) \<le> a \<Longrightarrow> unat (a - b) = unat a - unat b"
  by (simp add: unat_sub word_le_nat_alt)

lemma unat_ucast_wider:
  assumes "LENGTH('a) \<le> LENGTH('b)"
  shows "unat (ucast (a :: 'a::len word) :: 'b::len word) = unat a"
proof -
  have "unat a < 2 ^ LENGTH('b)"
    using assms unsigned_less[of a] by (meson less_le_trans one_le_numeral power_increasing)
  then show ?thesis
    by (simp add: unsigned_ucast_eq take_bit_nat_eq_self)
qed

lemma unat_lt_2p [simp, intro]: "unat (a :: 'a::len word) < 2 ^ LENGTH('a)"
  by (rule unsigned_less)

text \<open>Slots of a ring of \<open>L\<close> positions that differ by less than \<open>L\<close>.\<close>

lemma ring_slots_differ:
  assumes "i < d" and "d < (L::nat)"
  shows "(h + i) mod L \<noteq> (h + d) mod L"
proof
  assume "(h + i) mod L = (h + d) mod L"
  then have "L dvd (h + d) - (h + i)"
    using assms by (intro mod_eq_dvd_iff_nat[THEN iffD1]) auto
  then show False
    using assms by (simp add: nat_dvd_not_less)
qed

text \<open>The conversion of \<open>unsigned int\<close> to \<open>int\<close>.\<close>

lemma sint_via_uint: "sint (w :: u32) = (uint w + 2 ^ 31) mod 2 ^ 32 - 2 ^ 31"
  using int_word_sint[of "uint w", where 'a = 32] by simp

lemma uint_lt_2p32: "uint (w :: u32) < 2 ^ 32"
  using uint_lt2p[of w] by simp

lemma sint_small:
  assumes "unat (w :: u32) < 2 ^ 31"
  shows "sint w = int (unat w)"
proof -
  have "uint w < 2 ^ 31" using assms by (simp add: uint_nat del: of_nat_unat)
  moreover have "0 \<le> uint w" by simp
  ultimately have "(uint w + 2 ^ 31) mod 2 ^ 32 = uint w + 2 ^ 31"
    by (intro mod_pos_pos_trivial) simp_all
  then show ?thesis by (simp add: sint_via_uint)
qed

lemma sint_large:
  assumes "2 ^ 31 \<le> unat (w :: u32)"
  shows "sint w < 0"
proof -
  have lo: "2 ^ 31 \<le> uint w" using assms by (simp add: uint_nat del: of_nat_unat)
  have "(uint w + 2 ^ 31) mod 2 ^ 32 = (uint w + 2 ^ 31 - 2 ^ 32) mod 2 ^ 32"
    by (rule minus_mod_self2[symmetric])
  also have "\<dots> = uint w + 2 ^ 31 - 2 ^ 32"
    using lo uint_lt_2p32[of w] by (intro mod_pos_pos_trivial) simp_all
  finally show ?thesis
    using uint_lt_2p32[of w] by (simp add: sint_via_uint)
qed

end
