(* ===== verification/Fifo_Spec.thy ===== *)
theory Fifo_Spec
  imports Prelude
begin

text \<open>
  What a bounded queue promises its client, as a locale over the two calls the client makes, and
  what follows for any interleaving of those calls: the elements delivered are a prefix of the
  elements accepted, in order, and the rest is still queued.
\<close>

datatype 'x fifo_op = Enq 'x | Deq

text \<open>
  \<open>fifo_drive\<close> issues a list of calls; it collects the accepted elements (push returned 0) and the
  delivered ones, and stops at the first fault.
\<close>

fun fifo_drive ::
  "('q \<Rightarrow> 'x \<Rightarrow> (int \<times> 'q) res) \<Rightarrow> ('q \<Rightarrow> (int \<times> 'x option \<times> 'q) res) \<Rightarrow>
   'x fifo_op list \<Rightarrow> 'q \<Rightarrow> ('x list \<times> 'x list \<times> 'q) res" where
  "fifo_drive push pop [] q = Ok ([], [], q)"
| "fifo_drive push pop (Enq x # ops) q =
     bind_res (push q x) (\<lambda>(r, q').
       bind_res (fifo_drive push pop ops q') (\<lambda>(acc, dlv, q'').
         Ok (if r = 0 then x # acc else acc, dlv, q'')))"
| "fifo_drive push pop (Deq # ops) q =
     bind_res (pop q) (\<lambda>(r, out, q').
       bind_res (fifo_drive push pop ops q') (\<lambda>(acc, dlv, q'').
         Ok (acc, (case out of None \<Rightarrow> dlv | Some x \<Rightarrow> x # dlv), q'')))"

fun fifo_inputs :: "'x fifo_op list \<Rightarrow> 'x set" where
  "fifo_inputs [] = {}"
| "fifo_inputs (Enq x # ops) = insert x (fifo_inputs ops)"
| "fifo_inputs (Deq # ops) = fifo_inputs ops"

lemma fifo_drive_append:
  "fifo_drive push pop (xs @ ys) q =
     bind_res (fifo_drive push pop xs q) (\<lambda>(a, d, q').
       bind_res (fifo_drive push pop ys q') (\<lambda>(a', d', q''). Ok (a @ a', d @ d', q'')))"
proof (induction xs arbitrary: q)
  case Nil
  show ?case by (cases "fifo_drive push pop ys q") auto
next
  case (Cons x xs)
  show ?case
    by (cases x)
      (auto simp: Cons.IH bind_res_def split: sum.splits option.splits prod.splits)
qed

locale bounded_fifo =
  fixes push :: "'q \<Rightarrow> 'x \<Rightarrow> (int \<times> 'q) res"
    and pop :: "'q \<Rightarrow> (int \<times> 'x option \<times> 'q) res"
    and inv :: "'q \<Rightarrow> bool"
    and items :: "'q \<Rightarrow> 'x list"
    and admissible :: "'x \<Rightarrow> bool"
    and capacity :: "'q \<Rightarrow> nat"
  assumes push_room:
      "inv q \<Longrightarrow> admissible x \<Longrightarrow> length (items q) < capacity q \<Longrightarrow>
         \<exists>q'. push q x = Ok (0, q') \<and> inv q' \<and> items q' = items q @ [x] \<and> capacity q' = capacity q"
    and push_full:
      "inv q \<Longrightarrow> capacity q \<le> length (items q) \<Longrightarrow> push q x = Ok (-1, q)"
    and pop_none: "inv q \<Longrightarrow> items q = [] \<Longrightarrow> pop q = Ok (-1, None, q)"
    and pop_some:
      "inv q \<Longrightarrow> items q = x # xs \<Longrightarrow>
         \<exists>q'. pop q = Ok (0, Some x, q') \<and> inv q' \<and> items q' = xs \<and> capacity q' = capacity q"
    and inv_capacity: "inv q \<Longrightarrow> length (items q) \<le> capacity q"
begin

lemma push_cases:
  assumes "inv q" and "admissible x"
  obtains (room) q' where "push q x = Ok (0, q')" "inv q'" "items q' = items q @ [x]" "capacity q' = capacity q"
    | (full) "push q x = Ok (-1, q)"
  using push_room[OF assms] push_full[OF assms(1), of x] by (meson leI)

lemma pop_cases:
  assumes "inv q"
  obtains (some) x q' where "pop q = Ok (0, Some x, q')" "inv q'" "items q = x # items q'" "capacity q' = capacity q"
    | (none) "pop q = Ok (-1, None, q)" "items q = []"
  using pop_some[OF assms] pop_none[OF assms] by (cases "items q") auto

text \<open>No call faults, and what comes out is what went in, in order, with the rest still queued.\<close>

lemma drive_fifo:
  assumes "inv q" and "\<forall>x\<in>fifo_inputs ops. admissible x"
  shows "\<exists>acc dlv q'. fifo_drive push pop ops q = Ok (acc, dlv, q') \<and> inv q' \<and>
           capacity q' = capacity q \<and> items q @ acc = dlv @ items q'"
  using assms
proof (induction ops arbitrary: q)
  case Nil
  then show ?case by simp
next
  case (Cons x ops)
  show ?case
  proof (cases x)
    case (Enq y)
    have ok: "admissible y" using Cons.prems(2) by (simp add: Enq)
    from Cons.prems(1) ok show ?thesis
    proof (cases rule: push_cases)
      case (room q')
      from Cons.IH[OF room(2)] Cons.prems(2) Enq show ?thesis
        by (fastforce simp: room)
    next
      case full
      from Cons.IH[OF Cons.prems(1)] Cons.prems(2) Enq show ?thesis
        by (fastforce simp: full)
    qed
  next
    case Deq
    from Cons.prems(1) show ?thesis
    proof (cases rule: pop_cases)
      case (some y q')
      from Cons.IH[OF some(2)] Cons.prems(2) Deq show ?thesis
        by (fastforce simp: some)
    next
      case none
      from Cons.IH[OF Cons.prems(1)] Cons.prems(2) Deq show ?thesis
        by (fastforce simp: none)
    qed
  qed
qed

end

end
