(* ===== verification/Ring_Queue.thy ===== *)
theory Ring_Queue
  imports Fifo_Spec
begin

unbundle bit_operations_syntax

text \<open>
  The single-producer single-consumer ring buffer of \<^verbatim>\<open>lib/1r1w_queue.c\<close>: its state with the
  counters at their width, every operation, the abstraction to the list of queued elements, the
  interface \<open>bounded_fifo\<close> that a bounded queue promises, and its interpretation on the ring.
\<close>

section \<open>State and operations\<close>

record queue =
  q_elements :: bytes
  q_length :: u32
  q_elem_length :: u64
  q_head :: u32
  q_tail :: u32
  q_closed :: bool

text \<open>
  \<open>queue_init\<close>: the two booleans say whether the two \<open>malloc\<close>s succeed; \<open>None\<close> is the null
  pointer.  The block size is computed in \<open>unsigned long\<close>, where it can wrap.
\<close>

definition queue_init :: "bool \<Rightarrow> bool \<Rightarrow> u32 \<Rightarrow> u64 \<Rightarrow> queue option" where
  "queue_init malloc_q malloc_elements qlen elem_len =
     (if \<not> malloc_q then None
      else if \<not> malloc_elements then None
      else Some \<lparr>q_elements = replicate (unat (elem_len * ucast qlen)) 0, q_length = qlen,
                 q_elem_length = elem_len, q_head = 0, q_tail = 0, q_closed = False\<rparr>)"

definition queue_close :: "queue \<Rightarrow> queue" where
  "queue_close q = q\<lparr>q_closed := True\<rparr>"

definition queue_closed :: "queue \<Rightarrow> bool" where
  "queue_closed q \<longleftrightarrow> q_closed q \<and> q_tail q - q_head q = 0"

text \<open>The byte offset \<open>elem_length * (counter % length)\<close> of a slot.\<close>

definition slot_offset :: "queue \<Rightarrow> u32 \<Rightarrow> nat" where
  "slot_offset q c = unat (q_elem_length q * ucast (c mod q_length q))"

definition queue_push :: "queue \<Rightarrow> bytes \<Rightarrow> (int \<times> queue) res" where
  "queue_push q elem =
     (if q_tail q - q_head q = q_length q then Ok (-1, q)
      else if q_length q = 0 then Fault DivByZero
      else bind_res (mem_read 0 (unat (q_elem_length q)) elem) (\<lambda>src.
           bind_res (mem_write (slot_offset q (q_tail q)) src (q_elements q)) (\<lambda>m.
             Ok (0, q\<lparr>q_elements := m, q_tail := q_tail q + 1\<rparr>))))"

text \<open>
  \<open>queue_pop\<close> returns the bytes it copied to \<open>elem_targ\<close>, \<open>None\<close> when it left the target
  untouched.
\<close>

definition queue_pop :: "queue \<Rightarrow> (int \<times> bytes option \<times> queue) res" where
  "queue_pop q =
     (let tail = q_tail q in
      if tail - q_head q = 0 then Ok (-1, None, q)
      else if q_length q = 0 then Fault DivByZero
      else bind_res (mem_read (slot_offset q (q_head q)) (unat (q_elem_length q)) (q_elements q))
             (\<lambda>src. Ok (0, Some src, q\<lparr>q_head := q_head q + 1\<rparr>)))"

text \<open>\<open>queue_size\<close> reads both counters with one 64-bit load; either branch is their difference.\<close>

definition queue_size :: "queue \<Rightarrow> u32" where
  "queue_size q = q_tail q - q_head q"

section \<open>Invariant and abstraction\<close>

text \<open>
  The block holds \<open>length\<close> slots and its size did not wrap when it was allocated; at most
  \<open>length\<close> elements are queued.
\<close>

definition queue_wf :: "queue \<Rightarrow> bool" where
  "queue_wf q \<longleftrightarrow>
     length (q_elements q) = unat (q_elem_length q) * unat (q_length q) \<and>
     unat (q_elem_length q) * unat (q_length q) < 2 ^ 64 \<and>
     q_tail q - q_head q \<le> q_length q"

text \<open>
  The counters run freely and wrap at \<open>2 ^ 32\<close>, while the slot is the counter modulo the length.
  Consecutive counters hit consecutive slots when the length divides \<open>2 ^ 32\<close>, and otherwise only
  while the tail has not wrapped past the head.
\<close>

definition queue_aligned :: "queue \<Rightarrow> bool" where
  "queue_aligned q \<longleftrightarrow> unat (q_length q) dvd 2 ^ 32"

definition queue_unwrapped :: "queue \<Rightarrow> bool" where
  "queue_unwrapped q \<longleftrightarrow> q_head q \<le> q_tail q"

definition queue_slot :: "queue \<Rightarrow> nat \<Rightarrow> bytes" where
  "queue_slot q i =
     mem_slot (unat (q_elem_length q)) (q_elements q) ((unat (q_head q) + i) mod unat (q_length q))"

definition queue_items :: "queue \<Rightarrow> bytes list" where
  "queue_items q = map (queue_slot q) [0..<unat (q_tail q - q_head q)]"

section \<open>Lemmas\<close>

lemma queue_closed_drained: "queue_closed q \<Longrightarrow> queue_items q = []"
  by (simp add: queue_closed_def queue_items_def)

lemma length_queue_items [simp]: "length (queue_items q) = unat (queue_size q)"
  by (simp add: queue_items_def queue_size_def)

lemma slot_offset_eq:
  assumes "queue_wf q" and "q_length q \<noteq> 0"
  shows "slot_offset q c = unat (q_elem_length q) * (unat c mod unat (q_length q))"
proof -
  have pos: "0 < unat (q_length q)"
    using assms(2) by (simp add: unat_gt_0)
  have m: "unat (ucast (c mod q_length q) :: u64) = unat c mod unat (q_length q)"
    by (simp add: unat_ucast_wider unat_mod_distrib)
  have "unat (q_elem_length q) * (unat c mod unat (q_length q)) \<le> unat (q_elem_length q) * unat (q_length q)"
    using pos by (intro mult_le_mono2) (simp add: less_imp_le)
  then have "unat (q_elem_length q) * (unat c mod unat (q_length q)) < 2 ^ 64"
    using assms(1) unfolding queue_wf_def by linarith
  then show ?thesis
    by (simp add: slot_offset_def unat_word_ariths m)
qed

lemma slot_offset_fits:
  assumes "queue_wf q" and "q_length q \<noteq> 0"
  shows "slot_offset q c + unat (q_elem_length q) \<le> length (q_elements q)"
proof -
  have "unat c mod unat (q_length q) < unat (q_length q)"
    using assms(2) by (simp add: unat_gt_0)
  then have "unat (q_elem_length q) * (unat c mod unat (q_length q)) + unat (q_elem_length q)
      \<le> unat (q_elem_length q) * unat (q_length q)"
    by (rule slot_fits)
  then show ?thesis
    using assms by (simp add: slot_offset_eq queue_wf_def)
qed

text \<open>The slot the tail points to, counted from the head.\<close>

lemma tail_slot:
  assumes "queue_aligned q \<or> queue_unwrapped q"
  shows "unat (q_tail q) mod unat (q_length q)
       = (unat (q_head q) + unat (q_tail q - q_head q)) mod unat (q_length q)"
  using assms
proof
  assume "queue_aligned q"
  then show ?thesis
    using unat_plus_mod_dvd[of "unat (q_length q)" "q_head q" "q_tail q - q_head q"]
    by (simp add: queue_aligned_def)
next
  assume "queue_unwrapped q"
  then show ?thesis
    by (simp add: queue_unwrapped_def unat_diff_le word_le_nat_alt)
qed

text \<open>Every operation that is not refused works inside the block: no fault.\<close>

lemma queue_push_full:
  "q_tail q - q_head q = q_length q \<Longrightarrow> queue_push q e = Ok (-1, q)"
  by (simp add: queue_push_def)

lemma queue_push_room:
  assumes wf: "queue_wf q" and room: "q_tail q - q_head q \<noteq> q_length q"
    and src: "unat (q_elem_length q) \<le> length e"
  obtains m where
    "mem_write (slot_offset q (q_tail q)) (take (unat (q_elem_length q)) e) (q_elements q) = Ok m"
    "queue_push q e = Ok (0, q\<lparr>q_elements := m, q_tail := q_tail q + 1\<rparr>)"
    "length m = length (q_elements q)"
proof -
  have len0: "q_length q \<noteq> 0"
    using wf room by (auto simp: queue_wf_def)
  have n: "length (take (unat (q_elem_length q)) e) = unat (q_elem_length q)"
    using src by simp
  obtain m where m: "mem_write (slot_offset q (q_tail q)) (take (unat (q_elem_length q)) e) (q_elements q) = Ok m"
    using slot_offset_fits[OF wf len0, of "q_tail q"] n by (simp add: mem_write_def)
  show ?thesis
    using that[OF m] m src room len0 by (simp add: queue_push_def mem_write_length)
qed

lemma queue_pop_empty:
  "q_tail q = q_head q \<Longrightarrow> queue_pop q = Ok (-1, None, q)"
  by (simp add: queue_pop_def)

lemma queue_pop_some:
  assumes wf: "queue_wf q" and ne: "q_tail q \<noteq> q_head q"
  shows "queue_pop q = Ok (0, Some (queue_slot q 0), q\<lparr>q_head := q_head q + 1\<rparr>)"
proof -
  have len0: "q_length q \<noteq> 0"
    using wf ne by (auto simp: queue_wf_def)
  show ?thesis
    using slot_offset_fits[OF wf len0, of "q_head q"] len0 ne
    by (simp add: queue_pop_def Let_def slot_offset_eq[OF wf len0] queue_slot_def mem_slot_def)
qed

lemma queue_size_less:
  assumes "queue_wf q" and "q_tail q - q_head q \<noteq> q_length q"
  shows "unat (queue_size q) < unat (q_length q)"
proof -
  have "queue_size q < q_length q"
    using assms by (auto simp: queue_wf_def queue_size_def order_less_le)
  then show ?thesis by (simp add: word_less_nat_alt)
qed

lemma queue_size_push:
  assumes "queue_wf q" and "q_tail q - q_head q \<noteq> q_length q"
  shows "unat ((q_tail q + 1) - q_head q) = unat (queue_size q) + 1"
proof -
  have "unat (q_tail q - q_head q + 1) = unat (q_tail q - q_head q) + 1"
    using queue_size_less[OF assms] unat_lt_2p[of "q_length q"]
    by (intro unat_Suc_no_overflow) (simp add: queue_size_def)
  then show ?thesis by (simp add: queue_size_def algebra_simps)
qed

lemma queue_size_pop:
  assumes "q_tail q \<noteq> q_head q"
  shows "unat (q_tail q - (q_head q + 1)) = unat (queue_size q) - 1"
proof -
  have "q_tail q - q_head q \<noteq> 0" using assms by simp
  then have "unat (q_tail q - q_head q - 1) = unat (q_tail q - q_head q) - 1"
    by (rule unat_minus_one)
  then show ?thesis by (simp add: queue_size_def algebra_simps)
qed

section \<open>Push appends, pop takes from the front\<close>

text \<open>Filling the slot at the tail leaves the queued elements alone.\<close>

lemma queue_fill_items:
  assumes wf: "queue_wf q" and al: "queue_aligned q \<or> queue_unwrapped q"
    and room: "q_tail q - q_head q \<noteq> q_length q"
    and m: "mem_write (slot_offset q (q_tail q)) e (q_elements q) = Ok m"
    and len: "length e = unat (q_elem_length q)"
  shows "queue_items (q\<lparr>q_elements := m\<rparr>) = queue_items q"
    and "queue_slot (q\<lparr>q_elements := m\<rparr>) (unat (queue_size q)) = e"
proof -
  let ?L = "unat (q_length q)" and ?d = "unat (queue_size q)"
  have len0: "q_length q \<noteq> 0" using wf room by (auto simp: queue_wf_def)
  have d: "?d < ?L" by (rule queue_size_less[OF wf room])
  have w: "mem_write (unat (q_elem_length q) * ((unat (q_head q) + ?d) mod ?L)) e (q_elements q) = Ok m"
    using m tail_slot[OF al] by (simp add: slot_offset_eq[OF wf len0] queue_size_def)
  show "queue_slot (q\<lparr>q_elements := m\<rparr>) ?d = e"
    using mem_slot_write_same[OF w len] by (simp add: queue_slot_def)
  have "queue_slot (q\<lparr>q_elements := m\<rparr>) i = queue_slot q i" if "i < ?d" for i
    using mem_slot_write_other[OF w len ring_slots_differ[OF that d]] by (simp add: queue_slot_def)
  then show "queue_items (q\<lparr>q_elements := m\<rparr>) = queue_items q"
    by (simp add: queue_items_def queue_size_def)
qed

text \<open>Moving the tail publishes the slot it pointed to.\<close>

lemma queue_publish_items:
  assumes wf: "queue_wf q" and room: "q_tail q - q_head q \<noteq> q_length q"
  shows "queue_items (q\<lparr>q_tail := q_tail q + 1\<rparr>) = queue_items q @ [queue_slot q (unat (queue_size q))]"
    and "queue_wf (q\<lparr>q_tail := q_tail q + 1\<rparr>)"
proof -
  let ?q' = "q\<lparr>q_tail := q_tail q + 1\<rparr>" and ?d = "unat (queue_size q)"
  have sz: "unat ((q_tail q + 1) - q_head q) = ?d + 1" by (rule queue_size_push[OF wf room])
  have slot: "queue_slot ?q' = queue_slot q" by (simp add: fun_eq_iff queue_slot_def)
  show "queue_items ?q' = queue_items q @ [queue_slot q ?d]"
    using sz by (simp add: queue_items_def slot) (simp add: queue_size_def)
  show "queue_wf ?q'"
    using wf sz queue_size_less[OF wf room] by (simp add: queue_wf_def word_le_nat_alt)
qed

lemma head_slot:
  assumes "queue_aligned q \<or> queue_unwrapped q" and ne: "q_tail q \<noteq> q_head q"
  shows "unat (q_head q + 1) mod unat (q_length q) = (unat (q_head q) + 1) mod unat (q_length q)"
  using assms(1)
proof
  assume "queue_aligned q"
  then show ?thesis
    using unat_plus_mod_dvd[of "unat (q_length q)" "q_head q" 1] by (simp add: queue_aligned_def)
next
  assume "queue_unwrapped q"
  with ne have "q_head q < q_tail q"
    by (auto simp: queue_unwrapped_def order_less_le)
  then have "unat (q_head q) < unat (q_tail q)"
    by (simp add: word_less_nat_alt)
  then have "unat (q_head q) + 1 < 2 ^ 32"
    using unat_lt_2p[of "q_tail q"] by simp
  then show ?thesis by (simp add: unat_Suc_no_overflow)
qed

text \<open>Moving the head drops the oldest element.\<close>

lemma queue_release_items:
  assumes wf: "queue_wf q" and al: "queue_aligned q \<or> queue_unwrapped q"
    and ne: "q_tail q \<noteq> q_head q"
  shows "queue_items q = queue_slot q 0 # queue_items (q\<lparr>q_head := q_head q + 1\<rparr>)"
    and "queue_wf (q\<lparr>q_head := q_head q + 1\<rparr>)"
proof -
  let ?q' = "q\<lparr>q_head := q_head q + 1\<rparr>" and ?L = "unat (q_length q)" and ?d = "unat (queue_size q)"
  have d0: "0 < ?d" using ne by (simp add: queue_size_def unat_gt_0)
  have sz: "unat (q_tail q - (q_head q + 1)) = ?d - 1" by (rule queue_size_pop[OF ne])
  have shift: "queue_slot ?q' i = queue_slot q (Suc i)" for i
  proof -
    have "(unat (q_head q + 1) + i) mod ?L = (unat (q_head q) + Suc i) mod ?L"
      using head_slot[OF al ne] by (metis add.assoc mod_add_left_eq plus_1_eq_Suc)
    then show ?thesis by (simp add: queue_slot_def)
  qed
  have "queue_items q = queue_slot q 0 # map (queue_slot q) [Suc 0..<?d]"
    using d0 by (simp add: queue_items_def queue_size_def upt_conv_Cons)
  also have "map (queue_slot q) [Suc 0..<?d] = map (\<lambda>i. queue_slot q (Suc i)) [0..<?d - 1]"
    by (rule nth_equalityI) simp_all
  also have "\<dots> = queue_items ?q'"
    using sz by (simp add: queue_items_def shift)
  finally show "queue_items q = queue_slot q 0 # queue_items ?q'" .
  show "queue_wf ?q'"
    using wf sz d0 by (auto simp: queue_wf_def word_le_nat_alt queue_size_def)
qed

lemma queue_push_items:
  assumes wf: "queue_wf q" and al: "queue_aligned q \<or> queue_unwrapped q"
    and room: "q_tail q - q_head q \<noteq> q_length q" and src: "unat (q_elem_length q) \<le> length e"
    and push: "queue_push q e = Ok (r, q')"
  shows "r = 0 \<and> queue_wf q' \<and> queue_items q' = queue_items q @ [take (unat (q_elem_length q)) e]"
proof -
  let ?e = "take (unat (q_elem_length q)) e"
  obtain m where m: "mem_write (slot_offset q (q_tail q)) ?e (q_elements q) = Ok m"
    and q': "queue_push q e = Ok (0, q\<lparr>q_elements := m, q_tail := q_tail q + 1\<rparr>)"
    and lm: "length m = length (q_elements q)"
    using queue_push_room[OF wf room src] by blast
  let ?f = "q\<lparr>q_elements := m\<rparr>"
  have "queue_wf ?f" and "q_tail ?f - q_head ?f \<noteq> q_length ?f"
    using wf lm room by (simp_all add: queue_wf_def)
  note pub = queue_publish_items[OF this]
  have "queue_size ?f = queue_size q" by (simp add: queue_size_def)
  then show ?thesis
    using pub queue_fill_items[OF wf al room m] src q' push by simp
qed

lemma queue_pop_items:
  assumes wf: "queue_wf q" and al: "queue_aligned q \<or> queue_unwrapped q"
    and ne: "q_tail q \<noteq> q_head q" and pop: "queue_pop q = Ok (r, out, q')"
  shows "r = 0 \<and> queue_wf q' \<and> (\<exists>x xs. queue_items q = x # xs \<and> out = Some x \<and> queue_items q' = xs)"
  using queue_release_items[OF wf al ne] queue_pop_some[OF wf ne] pop by auto

section \<open>The ring is a bounded queue\<close>

definition ring_inv :: "u64 \<Rightarrow> queue \<Rightarrow> bool" where
  "ring_inv n q \<longleftrightarrow> queue_wf q \<and> queue_aligned q \<and> q_elem_length q = n"

lemma queue_items_full:
  "queue_wf q \<Longrightarrow> unat (q_length q) \<le> length (queue_items q) \<longleftrightarrow> q_tail q - q_head q = q_length q"
  by (auto simp: queue_size_def queue_wf_def word_le_nat_alt[symmetric])

lemma queue_items_empty: "queue_items q = [] \<longleftrightarrow> q_tail q = q_head q"
  by (simp add: queue_items_def unat_eq_zero)

interpretation ring: bounded_fifo queue_push queue_pop "ring_inv n" queue_items
  "\<lambda>x. length x = unat n" "\<lambda>q. unat (q_length q)" for n
proof unfold_locales
  fix q :: queue and x :: bytes
  assume inv: "ring_inv n q" and x: "length x = unat n"
    and room: "length (queue_items q) < unat (q_length q)"
  have wf: "queue_wf q" and al: "queue_aligned q" and n: "q_elem_length q = n"
    using inv by (simp_all add: ring_inv_def)
  have ne: "q_tail q - q_head q \<noteq> q_length q"
    using room queue_items_full[OF wf] by simp
  obtain m where p: "queue_push q x = Ok (0, q\<lparr>q_elements := m, q_tail := q_tail q + 1\<rparr>)"
    using queue_push_room[OF wf ne, of x] x n by fastforce
  then show "\<exists>q'. queue_push q x = Ok (0, q') \<and> ring_inv n q' \<and>
      queue_items q' = queue_items q @ [x] \<and> unat (q_length q') = unat (q_length q)"
    using queue_push_items[OF wf _ ne _ p] al x n by (simp add: ring_inv_def queue_aligned_def)
next
  fix q :: queue and x :: bytes
  assume "ring_inv n q" and "unat (q_length q) \<le> length (queue_items q)"
  then show "queue_push q x = Ok (-1, q)"
    using queue_items_full by (auto simp: ring_inv_def intro!: queue_push_full)
next
  fix q :: queue
  assume "ring_inv n q" and "queue_items q = []"
  then show "queue_pop q = Ok (-1, None, q)"
    by (simp add: queue_items_empty queue_pop_empty)
next
  fix q :: queue and x :: bytes and xs :: "bytes list"
  assume inv: "ring_inv n q" and ne: "queue_items q = x # xs"
  have wf: "queue_wf q" and al: "queue_aligned q"
    using inv by (simp_all add: ring_inv_def)
  have ht: "q_tail q \<noteq> q_head q"
    using ne queue_items_empty[of q] by auto
  show "\<exists>q'. queue_pop q = Ok (0, Some x, q') \<and> ring_inv n q' \<and> queue_items q' = xs \<and>
      unat (q_length q') = unat (q_length q)"
    using queue_pop_items[OF wf _ ht queue_pop_some[OF wf ht]] al inv ne
    by (auto simp: queue_pop_some[OF wf ht] ring_inv_def queue_aligned_def)
next
  fix q :: queue
  assume "ring_inv n q"
  then show "length (queue_items q) \<le> unat (q_length q)"
    by (simp add: ring_inv_def queue_wf_def queue_size_def word_le_nat_alt)
qed

lemma queue_init_wf:
  assumes "queue_init True True qlen elem_len = Some q" and "unat elem_len * unat qlen < 2 ^ 64"
  shows "queue_wf q \<and> queue_items q = []"
  using assms
  by (auto simp: queue_init_def queue_wf_def queue_items_def unat_word_ariths unat_ucast_wider)

section \<open>Wrap-around\<close>

text \<open>One byte pushed and popped again, \<open>k\<close> times, on a zeroed queue of 50 slots.\<close>

definition zero_queue :: "u32 \<Rightarrow> queue" where
  "zero_queue c = \<lparr>q_elements = replicate 50 0, q_length = 50, q_elem_length = 1,
                    q_head = c, q_tail = c, q_closed = False\<rparr>"

lemma zero_queue_wf: "queue_wf (zero_queue c)"
  by (simp add: queue_wf_def zero_queue_def)

lemma replicate_write_same:
  "i < n \<Longrightarrow> take i (replicate n x) @ x # drop (Suc i) (replicate n x) = replicate n x"
  by (rule nth_equalityI) (auto simp: nth_append nth_Cons')

lemma zero_queue_push:
  "queue_push (zero_queue c) [0] = Ok (0, (zero_queue c)\<lparr>q_tail := c + 1\<rparr>)"
proof -
  have off: "slot_offset (zero_queue c) c = unat c mod 50"
    by (subst slot_offset_eq[OF zero_queue_wf]) (simp_all add: zero_queue_def)
  have "mem_write (unat c mod 50) [0] (replicate 50 0) = Ok (replicate 50 0)"
    using replicate_write_same[of "unat c mod 50" 50 "0 :: byte"]
    by (simp add: mem_write_def Suc_le_eq)
  then show ?thesis
    using off by (simp add: queue_push_def zero_queue_def mem_read_def)
qed

lemma zero_queue_pop:
  "queue_pop ((zero_queue c)\<lparr>q_tail := c + 1\<rparr>) = Ok (0, Some [0], zero_queue (c + 1))"
proof -
  let ?q = "(zero_queue c)\<lparr>q_tail := c + 1\<rparr>"
  have wf: "queue_wf ?q" by (simp add: queue_wf_def zero_queue_def)
  have "(drop (unat c mod 50) (replicate 50 (0::byte))) = replicate (50 - unat c mod 50) 0"
    by simp
  moreover have "unat c mod 50 < 50" by simp
  ultimately have "queue_slot ?q 0 = [0]"
    by (simp add: queue_slot_def zero_queue_def mem_slot_def)
  then show ?thesis
    by (subst queue_pop_some[OF wf]) (simp_all add: zero_queue_def)
qed

lemma zero_queue_rounds:
  "fifo_drive queue_push queue_pop (concat (replicate k [Enq [0], Deq])) (zero_queue c)
     = Ok (replicate k [0], replicate k [0], zero_queue (c + of_nat k))"
proof (induction k arbitrary: c)
  case 0
  then show ?case by simp
next
  case (Suc k)
  show ?case
    using Suc.IH[of "c + 1"] by (simp add: zero_queue_push zero_queue_pop add.assoc)
qed

text \<open>47 different bytes pushed when the counters stand at \<open>2 ^ 32 - 1\<close>, then one pop.\<close>

definition wrap_ops :: "bytes fifo_op list" where
  "wrap_ops = map (\<lambda>i. Enq [word_of_nat i]) [1..<48] @ [Deq]"

lemma zero_queue_wrap:
  "map_sum id (\<lambda>(acc, dlv, q). (acc = map (\<lambda>i. [word_of_nat i]) [1..<48], dlv))
     (fifo_drive queue_push queue_pop wrap_ops (zero_queue (- 1))) = Ok (True, [[47]])"
  by code_simp

section \<open>Properties\<close>

text \<open>
  C14. Whatever sequence of pushes and pops a client issues on a fresh queue whose length divides
  \<open>2 ^ 32\<close>, no call faults, the delivered elements followed by the elements still queued are
  exactly the accepted ones in order, and never more than \<open>length\<close> elements are queued, also after
  the counters wrapped.
\<close>

theorem ring_drive_fifo:
  assumes init: "queue_init True True qlen elem_len = Some q"
    and size: "unat elem_len * unat qlen < 2 ^ 64" and dvd: "unat qlen dvd 2 ^ 32"
    and inputs: "\<forall>x\<in>fifo_inputs ops. length x = unat elem_len"
  shows "\<exists>acc dlv q'. fifo_drive queue_push queue_pop ops q = Ok (acc, dlv, q') \<and>
           acc = dlv @ queue_items q' \<and> length (queue_items q') \<le> unat qlen"
proof -
  have wf: "queue_wf q" and empty: "queue_items q = []"
    using queue_init_wf[OF init size] by simp_all
  have inv: "ring_inv elem_len q" and len: "q_length q = qlen"
    using wf init dvd by (auto simp: ring_inv_def queue_init_def queue_aligned_def)
  from ring.drive_fifo[OF inv inputs] obtain acc dlv q' where
    "fifo_drive queue_push queue_pop ops q = Ok (acc, dlv, q')" "ring_inv elem_len q'"
    "unat (q_length q') = unat (q_length q)" "queue_items q @ acc = dlv @ queue_items q'"
    by blast
  then show ?thesis
    using ring.inv_capacity[of elem_len q'] empty len by auto
qed

theorem ring_drive_fifo_witness:
  "\<exists>acc dlv q'. fifo_drive queue_push queue_pop [Enq [1], Enq [2], Deq, Enq [3]]
       (the (queue_init True True 4 1)) = Ok (acc, dlv, q') \<and>
     acc = dlv @ queue_items q' \<and> length (queue_items q') \<le> unat (4 :: u32)"
proof (rule ring_drive_fifo)
  show "queue_init True True 4 1 = Some (the (queue_init True True 4 1))"
    by (simp add: queue_init_def)
qed simp_all

text \<open>
  One push, for any length of queue: it is refused, and changes nothing, exactly when
  \<open>length\<close> elements are queued; otherwise it stores the first \<open>elem_length\<close> bytes of its argument
  behind the queued elements and the size grows by one.  There is no division by zero, also for a
  queue of length 0, and no byte outside the block is written.
\<close>

lemma queue_push_spec:
  assumes "queue_wf q" and "queue_aligned q \<or> queue_unwrapped q"
    and "unat (q_elem_length q) \<le> length e"
  shows "if unat (queue_size q) = unat (q_length q) then queue_push q e = Ok (-1, q)
         else \<exists>q'. queue_push q e = Ok (0, q') \<and> queue_wf q' \<and>
                queue_items q' = queue_items q @ [take (unat (q_elem_length q)) e] \<and>
                unat (queue_size q') = unat (queue_size q) + 1"
proof (cases "q_tail q - q_head q = q_length q")
  case True
  then show ?thesis by (simp add: queue_push_full queue_size_def)
next
  case False
  then have ne: "unat (queue_size q) \<noteq> unat (q_length q)"
    using queue_size_less[OF assms(1)] by simp
  obtain r q' where p: "queue_push q e = Ok (r, q')"
    using queue_push_room[OF assms(1) False assms(3)] by metis
  note spec = queue_push_items[OF assms(1,2) False assms(3) p]
  then have "unat (queue_size q') = unat (queue_size q) + 1"
    by (metis length_queue_items length_append_singleton Suc_eq_plus1)
  with spec p ne show ?thesis by auto
qed

text \<open>
  C30. A queue of length 50, the length the server uses, does not survive the wrap of its
  counters: 50 does not divide \<open>2 ^ 32\<close>, so after \<open>2 ^ 32 - 1\<close> pushes and pops the slots of queued
  elements collide.  There is a sequence of calls from a fresh queue, none of which is refused or
  faults, whose delivered elements are not a prefix of the accepted ones.
\<close>

theorem ring50_breaks_fifo:
  "\<exists>q ops acc dlv q'. queue_init True True 50 1 = Some q \<and>
     fifo_inputs ops \<subseteq> {x. length x = 1} \<and>
     fifo_drive queue_push queue_pop ops q = Ok (acc, dlv, q') \<and> (\<nexists>rest. acc = dlv @ rest)"
proof -
  let ?k = "2 ^ 32 - 1 :: nat"
  let ?ops = "concat (replicate ?k [Enq [0], Deq]) @ wrap_ops"
  have init: "queue_init True True 50 1 = Some (zero_queue 0)"
    by (simp add: queue_init_def zero_queue_def)
  have k: "0 + of_nat ?k = (- 1 :: u32)" by simp
  obtain q' where w: "fifo_drive queue_push queue_pop wrap_ops (zero_queue (- 1))
      = Ok (map (\<lambda>i. [word_of_nat i]) [1..<48], [[47]], q')"
    using zero_queue_wrap by (cases "fifo_drive queue_push queue_pop wrap_ops (zero_queue (- 1))") auto
  have run: "fifo_drive queue_push queue_pop ?ops (zero_queue 0)
      = Ok (replicate ?k [0] @ map (\<lambda>i. [word_of_nat i]) [1..<48], replicate ?k [0] @ [[47]], q')"
    unfolding fifo_drive_append zero_queue_rounds bind_res_simps prod.case k w ..
  have "fifo_inputs (xs @ ys) = fifo_inputs xs \<union> fifo_inputs ys" for xs ys :: "bytes fifo_op list"
    by (induction xs rule: fifo_inputs.induct) auto
  moreover have "fifo_inputs (concat (replicate n [Enq [0 :: byte], Deq])) \<subseteq> {x. length x = 1}" for n
    by (induction n) auto
  moreover have "fifo_inputs wrap_ops \<subseteq> {x. length x = 1}"
    by (simp add: wrap_ops_def upt_rec)
  ultimately have "fifo_inputs ?ops \<subseteq> {x. length x = 1}" by simp
  moreover have "\<nexists>rest. replicate ?k [0] @ map (\<lambda>i. [word_of_nat i]) [1..<48] = (replicate ?k [0] @ [[47 :: byte]]) @ rest"
    by (simp add: upt_rec)
  ultimately show ?thesis
    using init run by blast
qed

end
