(* ===== verification/Ring_Spsc.thy ===== *)
theory Ring_Spsc
  imports Ring_Queue
begin

text \<open>
  \<^verbatim>\<open>lib/1r1w_queue.c\<close> with its one producer and one consumer running at the same time.  Each
  call is cut where the other thread can see or change something: the test of the counters, the
  \<open>memcpy\<close> of the slot, and the increment that publishes it (the sequentially consistent fence
  stands between the last two).  The steps are a relation; the memory model is sequential
  consistency, which the fences and \<open>volatile\<close> counters ask for.
\<close>

section \<open>The two threads\<close>

datatype push_pc = P_Idle | P_Checked bytes | P_Copied bytes
datatype pop_pc = C_Idle | C_Checked | C_Copied bytes

text \<open>The two lists record what was published and what was handed out; no step reads them.\<close>

record spsc =
  sp_queue :: queue
  sp_prod :: push_pc
  sp_cons :: pop_pc
  sp_sent :: "bytes list"
  sp_got :: "bytes list"

inductive spsc_step :: "spsc \<Rightarrow> spsc \<Rightarrow> bool" where
  push_refused:
    "sp_prod s = P_Idle \<Longrightarrow> q_tail (sp_queue s) - q_head (sp_queue s) = q_length (sp_queue s) \<Longrightarrow>
     spsc_step s s"
| push_check:
    "sp_prod s = P_Idle \<Longrightarrow> q_tail (sp_queue s) - q_head (sp_queue s) \<noteq> q_length (sp_queue s) \<Longrightarrow>
     length e = unat (q_elem_length (sp_queue s)) \<Longrightarrow>
     spsc_step s (s\<lparr>sp_prod := P_Checked e\<rparr>)"
| push_copy:
    "sp_prod s = P_Checked e \<Longrightarrow>
     mem_write (slot_offset (sp_queue s) (q_tail (sp_queue s))) e (q_elements (sp_queue s)) = Ok m \<Longrightarrow>
     spsc_step s (s\<lparr>sp_queue := (sp_queue s)\<lparr>q_elements := m\<rparr>, sp_prod := P_Copied e\<rparr>)"
| push_publish:
    "sp_prod s = P_Copied e \<Longrightarrow>
     spsc_step s (s\<lparr>sp_queue := (sp_queue s)\<lparr>q_tail := q_tail (sp_queue s) + 1\<rparr>,
                    sp_prod := P_Idle, sp_sent := sp_sent s @ [e]\<rparr>)"
| pop_refused:
    "sp_cons s = C_Idle \<Longrightarrow> q_tail (sp_queue s) - q_head (sp_queue s) = 0 \<Longrightarrow> spsc_step s s"
| pop_check:
    "sp_cons s = C_Idle \<Longrightarrow> q_tail (sp_queue s) - q_head (sp_queue s) \<noteq> 0 \<Longrightarrow>
     spsc_step s (s\<lparr>sp_cons := C_Checked\<rparr>)"
| pop_copy:
    "sp_cons s = C_Checked \<Longrightarrow>
     mem_read (slot_offset (sp_queue s) (q_head (sp_queue s))) (unat (q_elem_length (sp_queue s)))
       (q_elements (sp_queue s)) = Ok x \<Longrightarrow>
     spsc_step s (s\<lparr>sp_cons := C_Copied x\<rparr>)"
| pop_publish:
    "sp_cons s = C_Copied x \<Longrightarrow>
     spsc_step s (s\<lparr>sp_queue := (sp_queue s)\<lparr>q_head := q_head (sp_queue s) + 1\<rparr>,
                    sp_cons := C_Idle, sp_got := sp_got s @ [x]\<rparr>)"

inductive_cases spsc_stepE: "spsc_step s t"

definition spsc_init :: "queue \<Rightarrow> spsc" where
  "spsc_init q = \<lparr>sp_queue = q, sp_prod = P_Idle, sp_cons = C_Idle, sp_sent = [], sp_got = []\<rparr>"

inductive spsc_reachable :: "queue \<Rightarrow> spsc \<Rightarrow> bool" for q where
  start: "spsc_reachable q (spsc_init q)"
| step: "spsc_reachable q s \<Longrightarrow> spsc_step s t \<Longrightarrow> spsc_reachable q t"

section \<open>Invariant\<close>

text \<open>
  The producer's test stays true until it publishes, because only the consumer moves the head,
  forwards; the consumer's test stays true for the same reason.  Between copy and publication the
  slot holds the copied bytes.
\<close>

definition prod_inv :: "spsc \<Rightarrow> bool" where
  "prod_inv s \<longleftrightarrow>
     (let q = sp_queue s; room = (q_tail q - q_head q \<noteq> q_length q); n = unat (q_elem_length q) in
      case sp_prod s of
        P_Idle \<Rightarrow> True
      | P_Checked e \<Rightarrow> room \<and> length e = n
      | P_Copied e \<Rightarrow> room \<and> length e = n \<and> queue_slot q (unat (queue_size q)) = e)"

definition cons_inv :: "spsc \<Rightarrow> bool" where
  "cons_inv s \<longleftrightarrow>
     (let q = sp_queue s in
      case sp_cons s of
        C_Idle \<Rightarrow> True
      | C_Checked \<Rightarrow> q_tail q \<noteq> q_head q
      | C_Copied x \<Rightarrow> q_tail q \<noteq> q_head q \<and> queue_slot q 0 = x)"

definition spsc_inv :: "spsc \<Rightarrow> bool" where
  "spsc_inv s \<longleftrightarrow>
     queue_wf (sp_queue s) \<and> queue_aligned (sp_queue s) \<and> prod_inv s \<and> cons_inv s \<and>
     sp_sent s = sp_got s @ queue_items (sp_queue s)"

lemmas spsc_inv_defs = spsc_inv_def prod_inv_def cons_inv_def Let_def

lemma spsc_inv_init:
  "queue_wf q \<Longrightarrow> queue_aligned q \<Longrightarrow> queue_items q = [] \<Longrightarrow> spsc_inv (spsc_init q)"
  by (simp add: spsc_inv_defs spsc_init_def)

lemma queue_slot0: "queue_items q = x # xs \<Longrightarrow> queue_slot q 0 = x"
  by (auto simp: queue_items_def upt_conv_Cons map_eq_Cons_conv upt_eq_Cons_conv)

lemma push_copy_inv:
  assumes inv: "spsc_inv s" and pc: "sp_prod s = P_Checked e"
    and w: "mem_write (slot_offset (sp_queue s) (q_tail (sp_queue s))) e (q_elements (sp_queue s)) = Ok m"
  shows "spsc_inv (s\<lparr>sp_queue := (sp_queue s)\<lparr>q_elements := m\<rparr>, sp_prod := P_Copied e\<rparr>)"
proof -
  let ?q = "sp_queue s" let ?q' = "?q\<lparr>q_elements := m\<rparr>"
  have wf: "queue_wf ?q" and al: "queue_aligned ?q \<or> queue_unwrapped ?q"
    and room: "q_tail ?q - q_head ?q \<noteq> q_length ?q" and len: "length e = unat (q_elem_length ?q)"
    using inv pc by (simp_all add: spsc_inv_defs)
  note fill = queue_fill_items[OF wf al room w len]
  have "queue_slot ?q' 0 = queue_slot ?q 0" if "q_tail ?q \<noteq> q_head ?q"
    using that fill(1) queue_slot0[of ?q] queue_slot0[of ?q'] queue_items_empty[of ?q]
    by (metis list.exhaust)
  then show ?thesis
    using inv pc fill w
    by (auto simp: spsc_inv_defs queue_wf_def queue_aligned_def queue_size_def mem_write_length
        split: pop_pc.splits)
qed

lemma push_publish_inv:
  assumes inv: "spsc_inv s" and pc: "sp_prod s = P_Copied e"
  shows "spsc_inv (s\<lparr>sp_queue := (sp_queue s)\<lparr>q_tail := q_tail (sp_queue s) + 1\<rparr>,
                    sp_prod := P_Idle, sp_sent := sp_sent s @ [e]\<rparr>)"
proof -
  let ?q = "sp_queue s" let ?q' = "?q\<lparr>q_tail := q_tail ?q + 1\<rparr>"
  have wf: "queue_wf ?q" and room: "q_tail ?q - q_head ?q \<noteq> q_length ?q"
    using inv pc by (simp_all add: spsc_inv_defs)
  note pub = queue_publish_items[OF wf room]
  have "q_tail ?q' \<noteq> q_head ?q'"
    using pub(1) queue_items_empty[of ?q'] by auto
  moreover have "queue_slot ?q' = queue_slot ?q" by (simp add: fun_eq_iff queue_slot_def)
  ultimately show ?thesis
    using inv pc pub by (auto simp: spsc_inv_defs queue_aligned_def split: pop_pc.splits)
qed

lemma pop_publish_inv:
  assumes inv: "spsc_inv s" and pc: "sp_cons s = C_Copied x"
  shows "spsc_inv (s\<lparr>sp_queue := (sp_queue s)\<lparr>q_head := q_head (sp_queue s) + 1\<rparr>,
                    sp_cons := C_Idle, sp_got := sp_got s @ [x]\<rparr>)"
proof -
  let ?q = "sp_queue s" let ?q' = "?q\<lparr>q_head := q_head ?q + 1\<rparr>"
  have wf: "queue_wf ?q" and al: "queue_aligned ?q \<or> queue_unwrapped ?q" and al': "queue_aligned ?q"
    and ne: "q_tail ?q \<noteq> q_head ?q" and x: "queue_slot ?q 0 = x"
    using inv pc by (simp_all add: spsc_inv_defs)
  note rel = queue_release_items[OF wf al ne]
  have pos: "0 < unat (queue_size ?q)" using ne by (simp add: queue_size_def unat_gt_0)
  have sz: "unat (queue_size ?q') = unat (queue_size ?q) - 1"
    using queue_size_pop[OF ne] by (simp add: queue_size_def)
  have le: "unat (queue_size ?q) \<le> unat (q_length ?q)"
    using wf by (simp add: queue_wf_def queue_size_def word_le_nat_alt)
  then have "unat (queue_size ?q') \<noteq> unat (q_length ?q)"
    using sz pos by simp
  then have room: "q_tail ?q' - q_head ?q' \<noteq> q_length ?q'" by (auto simp: queue_size_def)
  have "(unat (q_head ?q + 1) + unat (queue_size ?q')) mod unat (q_length ?q)
      = (unat (q_head ?q) + 1 + unat (queue_size ?q')) mod unat (q_length ?q)"
    using head_slot[OF al ne] by (metis mod_add_left_eq)
  then have "queue_slot ?q' (unat (queue_size ?q')) = queue_slot ?q (unat (queue_size ?q))"
    using sz pos by (simp add: queue_slot_def)
  then show ?thesis
    using inv pc rel room x by (auto simp: spsc_inv_defs queue_aligned_def split: push_pc.splits)
qed

lemma pop_copy_inv:
  assumes inv: "spsc_inv s" and pc: "sp_cons s = C_Checked"
    and r: "mem_read (slot_offset (sp_queue s) (q_head (sp_queue s)))
              (unat (q_elem_length (sp_queue s))) (q_elements (sp_queue s)) = Ok x"
  shows "spsc_inv (s\<lparr>sp_cons := C_Copied x\<rparr>)"
proof -
  have wf: "queue_wf (sp_queue s)" and ne: "q_tail (sp_queue s) \<noteq> q_head (sp_queue s)"
    using inv pc by (simp_all add: spsc_inv_defs)
  then have "q_length (sp_queue s) \<noteq> 0" by (auto simp: queue_wf_def)
  from slot_offset_eq[OF wf this] r have "queue_slot (sp_queue s) 0 = x"
    by (auto simp: queue_slot_def mem_slot_def mem_read_def split: if_splits)
  then show ?thesis using inv ne by (simp add: spsc_inv_defs)
qed

lemma spsc_step_inv: "spsc_step s t \<Longrightarrow> spsc_inv s \<Longrightarrow> spsc_inv t"
proof (induction rule: spsc_step.induct)
  case (push_check s e)
  then show ?case by (simp add: spsc_inv_defs)
next
  case (pop_check s)
  then show ?case by (simp add: spsc_inv_defs)
qed (simp_all add: push_copy_inv push_publish_inv pop_copy_inv pop_publish_inv)

lemma spsc_reachable_inv:
  assumes "spsc_reachable q s" and "queue_wf q" and "queue_aligned q" and "queue_items q = []"
  shows "spsc_inv s"
  using assms by (induction rule: spsc_reachable.induct) (auto intro: spsc_inv_init spsc_step_inv)

lemma spsc_start_inv:
  assumes "queue_init True True qlen elem_len = Some q"
    and "unat elem_len * unat qlen < 2 ^ 64" and "unat qlen dvd 2 ^ 32" and "spsc_reachable q s"
  shows "spsc_inv s"
  using assms queue_init_wf[OF assms(1,2)]
  by (intro spsc_reachable_inv[OF assms(4)]) (auto simp: queue_aligned_def queue_init_def)

lemma spsc_step_params: "spsc_step s t \<Longrightarrow> q_length (sp_queue t) = q_length (sp_queue s) \<and>
    q_elem_length (sp_queue t) = q_elem_length (sp_queue s)"
  by (induction rule: spsc_step.induct) auto

lemma spsc_reachable_params: "spsc_reachable q s \<Longrightarrow> q_length (sp_queue s) = q_length q \<and>
    q_elem_length (sp_queue s) = q_elem_length q"
  by (induction rule: spsc_reachable.induct) (auto simp: spsc_init_def dest: spsc_step_params)

text \<open>While both threads are inside their calls they work on different slots.\<close>

lemma spsc_slots_disjoint:
  assumes inv: "spsc_inv s" and p: "sp_prod s \<noteq> P_Idle" and c: "sp_cons s \<noteq> C_Idle"
  shows "slot_offset (sp_queue s) (q_tail (sp_queue s)) + unat (q_elem_length (sp_queue s))
           \<le> slot_offset (sp_queue s) (q_head (sp_queue s)) \<or>
         slot_offset (sp_queue s) (q_head (sp_queue s)) + unat (q_elem_length (sp_queue s))
           \<le> slot_offset (sp_queue s) (q_tail (sp_queue s))"
proof -
  let ?q = "sp_queue s" let ?L = "unat (q_length ?q)" let ?d = "unat (queue_size ?q)"
  have wf: "queue_wf ?q" and al: "queue_aligned ?q \<or> queue_unwrapped ?q"
    using inv by (simp_all add: spsc_inv_def)
  have ne: "q_tail ?q \<noteq> q_head ?q"
    using inv c by (auto simp: spsc_inv_defs split: pop_pc.splits)
  have room: "q_tail ?q - q_head ?q \<noteq> q_length ?q"
    using inv p by (auto simp: spsc_inv_defs split: push_pc.splits)
  have d: "0 < ?d" "?d < ?L"
    using ne queue_size_less[OF wf room] by (simp_all add: queue_size_def unat_gt_0)
  have "q_length ?q \<noteq> 0" using d by auto
  note off = slot_offset_eq[OF wf this]
  have "unat (q_tail ?q) mod ?L \<noteq> unat (q_head ?q) mod ?L"
    using ring_slots_differ[OF d, of "unat (q_head ?q)"] tail_slot[OF al] by (simp add: queue_size_def)
  then show ?thesis
    unfolding off by (meson nat_neq_iff slot_fits)
qed

lemma spsc_no_fault:
  assumes inv: "spsc_inv s"
  shows "sp_prod s = P_Checked e \<Longrightarrow>
      \<exists>m. mem_write (slot_offset (sp_queue s) (q_tail (sp_queue s))) e (q_elements (sp_queue s)) = Ok m"
    and "sp_cons s = C_Checked \<Longrightarrow>
      \<exists>x. mem_read (slot_offset (sp_queue s) (q_head (sp_queue s))) (unat (q_elem_length (sp_queue s)))
        (q_elements (sp_queue s)) = Ok x"
proof -
  let ?q = "sp_queue s"
  have wf: "queue_wf ?q" using inv by (simp add: spsc_inv_def)
  note fits = slot_offset_fits[OF wf]
  show "\<exists>m. mem_write (slot_offset ?q (q_tail ?q)) e (q_elements ?q) = Ok m" if "sp_prod s = P_Checked e"
  proof -
    have "q_length ?q \<noteq> 0" using inv that by (auto simp: spsc_inv_defs queue_wf_def)
    then show ?thesis using fits[of "q_tail ?q"] inv that by (simp add: spsc_inv_defs mem_write_def)
  qed
  show "\<exists>x. mem_read (slot_offset ?q (q_head ?q)) (unat (q_elem_length ?q)) (q_elements ?q) = Ok x"
    if "sp_cons s = C_Checked"
  proof -
    have "q_length ?q \<noteq> 0" using inv that by (auto simp: spsc_inv_defs queue_wf_def)
    then show ?thesis using fits[of "q_head ?q"] by simp
  qed
qed

section \<open>Properties\<close>

text \<open>
  C15. In every interleaving of one producer and one consumer on a fresh queue whose length divides
  \<open>2 ^ 32\<close>, the elements handed to the consumer so far are a prefix of the elements the producer
  published, in order; what is missing is exactly what the ring holds, at most \<open>length\<close> elements.
\<close>

theorem spsc_fifo:
  assumes "queue_init True True qlen elem_len = Some q"
    and "unat elem_len * unat qlen < 2 ^ 64" and "unat qlen dvd 2 ^ 32" and "spsc_reachable q s"
  shows "sp_sent s = sp_got s @ queue_items (sp_queue s) \<and>
         length (queue_items (sp_queue s)) \<le> unat qlen"
proof -
  have "spsc_inv s" by (rule spsc_start_inv[OF assms])
  moreover have "q_length (sp_queue s) = qlen"
    using spsc_reachable_params[OF assms(4)] assms(1) by (auto simp: queue_init_def)
  ultimately show ?thesis
    by (auto simp: spsc_inv_def queue_wf_def queue_size_def word_le_nat_alt)
qed

text \<open>
  C22. No data race and no fault in the overlapping calls: a producer that passed its test can
  copy, a consumer that passed its test can copy, and while both are between their test and their
  publication the byte ranges they touch are disjoint.
\<close>

theorem spsc_race_free:
  assumes "queue_init True True qlen elem_len = Some q"
    and "unat elem_len * unat qlen < 2 ^ 64" and "unat qlen dvd 2 ^ 32" and "spsc_reachable q s"
  shows "(\<forall>e. sp_prod s = P_Checked e \<longrightarrow>
            (\<exists>t. spsc_step s t \<and> sp_prod t = P_Copied e)) \<and>
         (sp_cons s = C_Checked \<longrightarrow> (\<exists>t x. spsc_step s t \<and> sp_cons t = C_Copied x)) \<and>
         (sp_prod s \<noteq> P_Idle \<and> sp_cons s \<noteq> C_Idle \<longrightarrow>
            slot_offset (sp_queue s) (q_tail (sp_queue s)) + unat elem_len
              \<le> slot_offset (sp_queue s) (q_head (sp_queue s)) \<or>
            slot_offset (sp_queue s) (q_head (sp_queue s)) + unat elem_len
              \<le> slot_offset (sp_queue s) (q_tail (sp_queue s)))"
proof -
  have inv: "spsc_inv s" by (rule spsc_start_inv[OF assms])
  have n: "q_elem_length (sp_queue s) = elem_len"
    using spsc_reachable_params[OF assms(4)] assms(1) by (auto simp: queue_init_def)
  have "\<exists>t. spsc_step s t \<and> sp_prod t = P_Copied e" if pc: "sp_prod s = P_Checked e" for e
    using spsc_no_fault(1)[OF inv pc] spsc_step.push_copy[OF pc] by fastforce
  moreover have "\<exists>t x. spsc_step s t \<and> sp_cons t = C_Copied x" if pc: "sp_cons s = C_Checked"
    using spsc_no_fault(2)[OF inv pc] spsc_step.pop_copy[OF pc] by fastforce
  ultimately show ?thesis
    using spsc_slots_disjoint[OF inv] n by blast
qed

text \<open>A run in which both threads are inside their calls.\<close>

definition spsc_busy :: spsc where
  "spsc_busy = \<lparr>sp_queue = (zero_queue 0)\<lparr>q_elements := [5, 0], q_length := 2, q_tail := 1\<rparr>,
     sp_prod = P_Checked [6], sp_cons = C_Checked, sp_sent = [[5]], sp_got = []\<rparr>"

definition small_queue :: queue where
  "small_queue = (zero_queue 0)\<lparr>q_elements := [0, 0], q_length := 2\<rparr>"

lemma small_queue_init: "queue_init True True 2 1 = Some small_queue"
  by code_simp

lemma small_queue_write:
  "mem_write (slot_offset small_queue 0) [5] (q_elements small_queue) = Ok [5, 0]"
  by code_simp

lemmas small_queue_defs = spsc_init_def small_queue_def zero_queue_def spsc_busy_def

lemma spsc_busy_reachable: "spsc_reachable small_queue spsc_busy"
proof -
  let ?q = small_queue let ?s = "spsc_init small_queue"
  have 1: "spsc_step ?s (?s\<lparr>sp_prod := P_Checked [5]\<rparr>)"
    by (rule push_check) (simp_all add: small_queue_defs)
  have 2: "spsc_step (?s\<lparr>sp_prod := P_Checked [5]\<rparr>)
      (?s\<lparr>sp_queue := ?q\<lparr>q_elements := [5, 0]\<rparr>, sp_prod := P_Copied [5]\<rparr>)"
    using push_copy[of "?s\<lparr>sp_prod := P_Checked [5]\<rparr>" "[5]" "[5, 0]"] small_queue_write
    by (simp add: small_queue_defs)
  have 3: "spsc_step (?s\<lparr>sp_queue := ?q\<lparr>q_elements := [5, 0]\<rparr>, sp_prod := P_Copied [5]\<rparr>)
      (spsc_busy\<lparr>sp_prod := P_Idle, sp_cons := C_Idle\<rparr>)"
    using push_publish[of "?s\<lparr>sp_queue := ?q\<lparr>q_elements := [5, 0]\<rparr>, sp_prod := P_Copied [5]\<rparr>" "[5]"]
    by (simp add: small_queue_defs)
  have 4: "spsc_step (spsc_busy\<lparr>sp_prod := P_Idle, sp_cons := C_Idle\<rparr>) (spsc_busy\<lparr>sp_cons := C_Idle\<rparr>)"
    using push_check[of "spsc_busy\<lparr>sp_prod := P_Idle, sp_cons := C_Idle\<rparr>" "[6]"]
    by (simp add: small_queue_defs)
  have 5: "spsc_step (spsc_busy\<lparr>sp_cons := C_Idle\<rparr>) spsc_busy"
    using pop_check[of "spsc_busy\<lparr>sp_cons := C_Idle\<rparr>"] by (simp add: small_queue_defs)
  show ?thesis
    by (rule spsc_reachable.step[OF spsc_reachable.step[OF spsc_reachable.step[OF
          spsc_reachable.step[OF spsc_reachable.step[OF spsc_reachable.start 1] 2] 3] 4] 5])
qed

theorem spsc_fifo_witness:
  "sp_sent spsc_busy = sp_got spsc_busy @ queue_items (sp_queue spsc_busy) \<and>
   length (queue_items (sp_queue spsc_busy)) \<le> unat (2 :: u32)"
  by (rule spsc_fifo[OF small_queue_init _ _ spsc_busy_reachable]) simp_all

theorem spsc_race_free_witness:
  "slot_offset (sp_queue spsc_busy) (q_tail (sp_queue spsc_busy)) + unat (1 :: u64)
     \<le> slot_offset (sp_queue spsc_busy) (q_head (sp_queue spsc_busy)) \<or>
   slot_offset (sp_queue spsc_busy) (q_head (sp_queue spsc_busy)) + unat (1 :: u64)
     \<le> slot_offset (sp_queue spsc_busy) (q_tail (sp_queue spsc_busy))"
proof -
  have "sp_prod spsc_busy \<noteq> P_Idle \<and> sp_cons spsc_busy \<noteq> C_Idle"
    by (simp add: spsc_busy_def)
  then show ?thesis
    using spsc_race_free[OF small_queue_init _ _ spsc_busy_reachable] by simp
qed

end
