(* ===== verification/Reply_Order.thy ===== *)
theory Reply_Order
  imports Prelude
begin

text \<open>
  What the reply path needs from its queue, as a locale: a connection's commands take tickets in
  the order they were received, their replies are committed in any order, and a flush hands out
  the longest run of committed replies at the front.  Proved once here: the replies leave in
  ticket order, each exactly once, and none is held back that could leave.
\<close>

section \<open>Calls\<close>

datatype 'x reply_op = Register | Commit nat 'x | Flush

text \<open>\<open>reply_drive\<close> issues a list of calls and collects what the flushes handed out.\<close>

fun reply_drive ::
  "('q \<Rightarrow> (int \<times> 'q) res) \<Rightarrow> ('q \<Rightarrow> nat \<Rightarrow> 'x \<Rightarrow> 'q res) \<Rightarrow> ('q \<Rightarrow> ('x list \<times> 'q) run) \<Rightarrow>
   'x reply_op list \<Rightarrow> 'q \<Rightarrow> ('x list \<times> 'q) run" where
  "reply_drive reg com flu [] q = returns ([], q)"
| "reply_drive reg com flu (Register # ops) q =
     bind_run (Some (reg q)) (\<lambda>(r, q'). reply_drive reg com flu ops q')"
| "reply_drive reg com flu (Commit t x # ops) q =
     bind_run (Some (com q t x)) (\<lambda>q'. reply_drive reg com flu ops q')"
| "reply_drive reg com flu (Flush # ops) q =
     bind_run (flu q) (\<lambda>(out, q').
       bind_run (reply_drive reg com flu ops q') (\<lambda>(outs, q''). returns (out @ outs, q'')))"

text \<open>
  The same calls on an abstract queue: how many replies have left, and the window of the tickets
  behind them, \<open>Some x\<close> once committed.  A register is refused when \<open>cap\<close> tickets wait.
\<close>

fun ready_prefix :: "'x option list \<Rightarrow> 'x list" where
  "ready_prefix (Some x # w) = x # ready_prefix w"
| "ready_prefix _ = []"

fun unready_rest :: "'x option list \<Rightarrow> 'x option list" where
  "unready_rest (Some x # w) = unready_rest w"
| "unready_rest w = w"

fun reply_spec :: "nat \<Rightarrow> 'x reply_op list \<Rightarrow> nat \<Rightarrow> 'x option list \<Rightarrow> 'x list \<times> nat \<times> 'x option list" where
  "reply_spec cap [] n w = ([], n, w)"
| "reply_spec cap (Register # ops) n w =
     reply_spec cap ops n (if length w < cap then w @ [None] else w)"
| "reply_spec cap (Commit t x # ops) n w = reply_spec cap ops n (w[t - n := Some x])"
| "reply_spec cap (Flush # ops) n w =
     (let (outs, n', w') = reply_spec cap ops (n + length (ready_prefix w)) (unready_rest w)
      in (ready_prefix w @ outs, n', w'))"

text \<open>
  The callers: a reply is committed once, to a ticket that was handed out; it then cannot have
  left.  Fewer than \<open>lim\<close> tickets are taken.
\<close>

fun reply_client :: "nat \<Rightarrow> nat \<Rightarrow> ('x \<Rightarrow> bool) \<Rightarrow> 'x reply_op list \<Rightarrow> nat \<Rightarrow> 'x option list \<Rightarrow> bool" where
  "reply_client cap lim ok [] n w \<longleftrightarrow> True"
| "reply_client cap lim ok (Register # ops) n w \<longleftrightarrow>
     n + length w < lim \<and>
     reply_client cap lim ok ops n (if length w < cap then w @ [None] else w)"
| "reply_client cap lim ok (Commit t x # ops) n w \<longleftrightarrow>
     ok x \<and> n \<le> t \<and> t < n + length w \<and> w ! (t - n) = None \<and>
     reply_client cap lim ok ops n (w[t - n := Some x])"
| "reply_client cap lim ok (Flush # ops) n w \<longleftrightarrow>
     reply_client cap lim ok ops (n + length (ready_prefix w)) (unready_rest w)"

text \<open>The reply of each ticket, over a list of calls.\<close>

fun replies :: "'x reply_op list \<Rightarrow> (nat \<Rightarrow> 'x option) \<Rightarrow> nat \<Rightarrow> 'x option" where
  "replies [] f = f"
| "replies (Register # ops) f = replies ops f"
| "replies (Commit t x # ops) f = replies ops (f(t \<mapsto> x))"
| "replies (Flush # ops) f = replies ops f"

section \<open>The abstract queue delivers in ticket order\<close>

definition window_log :: "nat \<Rightarrow> 'x option list \<Rightarrow> (nat \<Rightarrow> 'x option) \<Rightarrow> bool" where
  "window_log n w f \<longleftrightarrow> (\<forall>i < length w. w ! i = f (n + i)) \<and> (\<forall>t. n + length w \<le> t \<longrightarrow> f t = None)"

lemma window_log_register: "window_log n w f \<Longrightarrow> window_log n (w @ [None]) f"
  by (auto simp: window_log_def nth_append less_Suc_eq)

lemma window_log_commit:
  "window_log n w f \<Longrightarrow> n \<le> t \<Longrightarrow> t < n + length w \<Longrightarrow> window_log n (w[t - n := Some x]) (f(t \<mapsto> x))"
  by (auto simp: window_log_def nth_list_update)

lemma window_split: "map Some (ready_prefix w) @ unready_rest w = w"
  by (induction w rule: ready_prefix.induct) auto

lemma window_log_flush:
  assumes "window_log n w f"
  shows "window_log (n + length (ready_prefix w)) (unready_rest w) f"
    and "i < length (ready_prefix w) \<Longrightarrow> f (n + i) = Some (ready_prefix w ! i)"
proof -
  let ?r = "ready_prefix w" and ?u = "unready_rest w"
  have len: "length w = length ?r + length ?u"
    using arg_cong[OF window_split[of w], of length] by simp
  have nth: "w ! i = (if i < length ?r then Some (?r ! i) else ?u ! (i - length ?r))" for i
    using window_split[of w] by (metis length_map nth_append nth_map)
  show "window_log (n + length ?r) ?u f"
    unfolding window_log_def
  proof (intro conjI allI impI)
    fix i assume "i < length ?u"
    then show "?u ! i = f (n + length ?r + i)"
      using assms len nth[of "length ?r + i"] by (simp add: window_log_def add.assoc)
  next
    fix t assume "n + length ?r + length ?u \<le> t"
    then show "f t = None" using assms len by (simp add: window_log_def)
  qed
  show "f (n + i) = Some (?r ! i)" if "i < length ?r"
    using assms len nth[of i] that by (simp add: window_log_def)
qed

text \<open>Committing a ticket in the window does not touch the replies that have left.\<close>

lemma replies_below:
  assumes "reply_client cap lim ok ops n w" and "t < n"
  shows "replies ops f t = f t"
  using assms
proof (induction cap lim ok ops n w arbitrary: f rule: reply_client.induct)
  case (3 cap lim ok s x ops n w)
  then show ?case by simp
qed auto

lemma reply_spec_order:
  assumes "reply_client cap lim ok ops n w" and "window_log n w f"
    and "reply_spec cap ops n w = (outs, n', w')"
  shows "n' = n + length outs \<and> map (replies ops f) [n..<n + length outs] = map Some outs \<and>
         window_log (n + length outs) w' (replies ops f)"
  using assms
proof (induction cap lim ok ops n w arbitrary: f outs rule: reply_client.induct)
  case (4 cap lim ok ops n w)
  let ?k = "length (ready_prefix w)"
  obtain os where os: "reply_spec cap ops (n + ?k) (unready_rest w) = (os, n', w')"
    and outs: "outs = ready_prefix w @ os"
    using "4.prems"(3) by (auto simp: Let_def split: prod.splits)
  have cl: "reply_client cap lim ok ops (n + ?k) (unready_rest w)"
    using "4.prems"(1) by simp
  note IH = "4.IH"[OF cl window_log_flush(1)[OF "4.prems"(2)] os]
  have "replies ops f (n + i) = Some (ready_prefix w ! i)" if "i < ?k" for i
    using replies_below[OF cl, of "n + i" f] window_log_flush(2)[OF "4.prems"(2) that] that by simp
  then have front: "map (replies ops f) [n..<n + ?k] = map Some (ready_prefix w)"
    by (intro nth_equalityI) simp_all
  have "[n..<n + length outs] = [n..<n + ?k] @ [n + ?k..<n + ?k + length os]"
    using upt_add_eq_append[of n "n + ?k" "length os"] outs by (simp add: add.assoc)
  then have "map (replies ops f) [n..<n + length outs] = map Some outs"
    using IH by (simp only: map_append outs front)
  then show ?case using IH outs by (simp add: add.assoc)
next
  case (2 cap lim ok ops n w)
  have "window_log n (if length w < cap then w @ [None] else w) f"
    using "2.prems"(2) by (simp add: window_log_register)
  from "2.IH"[OF _ this] "2.prems" show ?case by simp
next
  case (3 cap lim ok t x ops n w)
  have "window_log n (w[t - n := Some x]) (f(t \<mapsto> x))"
    using "3.prems"(1,2) by (simp add: window_log_commit)
  from "3.IH"[OF _ this] "3.prems" show ?case by (simp del: fun_upd_apply)
qed simp

lemma unready_rest_hd: "unready_rest w = [] \<or> hd (unready_rest w) = None"
  by (induction w rule: unready_rest.induct) auto

lemma reply_spec_flushed:
  "reply_spec cap (ops @ [Flush]) n w = (outs, n', w') \<Longrightarrow> w' = [] \<or> hd w' = None"
proof (induction cap ops n w arbitrary: outs rule: reply_spec.induct)
  case (1 cap n w)
  then show ?case using unready_rest_hd[of w] by auto
qed (auto simp: Let_def split: prod.splits if_splits)

section \<open>The interface\<close>

locale reply_queue =
  fixes reg :: "'q \<Rightarrow> (int \<times> 'q) res"
    and com :: "'q \<Rightarrow> nat \<Rightarrow> 'x \<Rightarrow> 'q res"
    and flu :: "'q \<Rightarrow> ('x list \<times> 'q) run"
    and inv :: "'q \<Rightarrow> bool"
    and left :: "'q \<Rightarrow> nat"
    and window :: "'q \<Rightarrow> 'x option list"
    and ok :: "'x \<Rightarrow> bool"
    and cap lim :: nat
  assumes register_room:
      "inv q \<Longrightarrow> length (window q) < cap \<Longrightarrow> left q + length (window q) < lim \<Longrightarrow>
        \<exists>q'. reg q = Ok (int (left q + length (window q)), q') \<and> inv q' \<and>
             window q' = window q @ [None] \<and> left q' = left q"
    and register_full: "inv q \<Longrightarrow> cap \<le> length (window q) \<Longrightarrow> reg q = Ok (-1, q)"
    and commit:
      "inv q \<Longrightarrow> ok x \<Longrightarrow> left q \<le> t \<Longrightarrow> t < left q + length (window q) \<Longrightarrow>
        \<exists>q'. com q t x = Ok q' \<and> inv q' \<and> window q' = (window q)[t - left q := Some x] \<and> left q' = left q"
    and flush:
      "inv q \<Longrightarrow>
        \<exists>q'. flu q = returns (ready_prefix (window q), q') \<and> inv q' \<and>
             window q' = unready_rest (window q) \<and> left q' = left q + length (ready_prefix (window q))"
begin

lemma drive_refines:
  assumes "inv q" and "reply_client cap lim ok ops (left q) (window q)"
  shows "\<exists>outs q'. reply_drive reg com flu ops q = returns (outs, q') \<and> inv q' \<and>
           reply_spec cap ops (left q) (window q) = (outs, left q', window q')"
  using assms
proof (induction ops arbitrary: q)
  case Nil
  then show ?case by simp
next
  case (Cons x ops)
  show ?case
  proof (cases x)
    case Register
    show ?thesis
    proof (cases "length (window q) < cap")
      case True
      then obtain q' where "reg q = Ok (int (left q + length (window q)), q')" "inv q'"
        "window q' = window q @ [None]" "left q' = left q"
        using register_room[OF Cons.prems(1) True] Cons.prems(2) Register by auto
      then show ?thesis using Cons.IH[of q'] Cons.prems(2) Register True by simp
    next
      case False
      then show ?thesis
        using Cons.IH[OF Cons.prems(1)] Cons.prems(2) Register register_full[OF Cons.prems(1)] by simp
    qed
  next
    case (Commit t y)
    then obtain q' where "com q t y = Ok q'" "inv q'"
      "window q' = (window q)[t - left q := Some y]" "left q' = left q"
      using commit[OF Cons.prems(1), of y t] Cons.prems(2) by auto
    then show ?thesis using Cons.IH[of q'] Cons.prems(2) Commit by simp
  next
    case Flush
    obtain q' where "flu q = returns (ready_prefix (window q), q')" "inv q'"
      "window q' = unready_rest (window q)" "left q' = left q + length (ready_prefix (window q))"
      using flush[OF Cons.prems(1)] by blast
    then show ?thesis using Cons.IH[of q'] Cons.prems(2) Flush by fastforce
  qed
qed

text \<open>Once the last call is a flush, the first ticket that has not left has no reply yet.\<close>

lemma drive_flushed:
  assumes "inv q" and "reply_client cap lim ok (ops @ [Flush]) (left q) (window q)"
    and "window_log (left q) (window q) f"
    and "reply_drive reg com flu (ops @ [Flush]) q = returns (outs, q')"
  shows "replies (ops @ [Flush]) f (left q + length outs) = None"
proof -
  have spec: "reply_spec cap (ops @ [Flush]) (left q) (window q) = (outs, left q', window q')"
    using drive_refines[OF assms(1,2)] assms(4) by auto
  note order = reply_spec_order[OF assms(2,3) spec]
  have "window q' = [] \<or> hd (window q') = None"
    by (rule reply_spec_flushed[OF spec])
  then show ?thesis
    using order by (cases "window q'") (auto simp: window_log_def)
qed

lemma drive_in_order:
  assumes "inv q" and "reply_client cap lim ok ops (left q) (window q)"
    and "window_log (left q) (window q) f"
  shows "\<exists>outs q'. reply_drive reg com flu ops q = returns (outs, q') \<and> inv q' \<and>
           left q' = left q + length outs \<and>
           map (replies ops f) [left q..<left q + length outs] = map Some outs \<and>
           window_log (left q') (window q') (replies ops f)"
  using drive_refines[OF assms(1,2)] reply_spec_order[OF assms(2,3)] by fastforce

end

end
