(* ===== verification/Send_Queue.thy ===== *)
theory Send_Queue
  imports Reply_Order
begin

unbundle bit_operations_syntax

text \<open>
  The reply queue of \<^verbatim>\<open>lib/send_queue.c\<close>: slots that are registered in request order, committed
  by whichever worker ran the command, and popped in order by whichever worker holds the head
  lock; and the loop of \<^verbatim>\<open>network_parser.c\<close> that pops and sends.  Here each call is one step.
\<close>

section \<open>State and operations\<close>

record send_queue_elem =
  sqe_ready :: bool
  sqe_data :: bytes

record send_queue =
  sq_element_length :: u32
  sq_length :: u32
  sq_head_lock :: u32
  sq_head :: u32
  sq_tail :: u32
  sq_contents :: "send_queue_elem list"

definition zeroed_elem :: "u32 \<Rightarrow> send_queue_elem" where
  "zeroed_elem n = \<lparr>sqe_ready = False, sqe_data = replicate (unat n) 0\<rparr>"

text \<open>The result of \<open>malloc\<close> is used without a test.\<close>

definition send_queue_init :: "bool \<Rightarrow> u32 \<Rightarrow> u32 \<Rightarrow> send_queue res" where
  "send_queue_init malloc_ok len element_len =
     (if \<not> malloc_ok then Fault NullDeref
      else Ok \<lparr>sq_element_length = element_len, sq_length = len, sq_head_lock = 0, sq_head = 0,
               sq_tail = 0, sq_contents = replicate (unat len) (zeroed_elem element_len)\<rparr>)"

text \<open>\<open>SQE_INDEX\<close> of a counter taken modulo the length.\<close>

definition sq_slot :: "send_queue \<Rightarrow> u32 \<Rightarrow> send_queue_elem res" where
  "sq_slot q c =
     (if sq_length q = 0 then Fault DivByZero
      else if unat (c mod sq_length q) < length (sq_contents q)
        then Ok (sq_contents q ! unat (c mod sq_length q)) else Fault OutOfBounds)"

definition sq_slot_set :: "send_queue \<Rightarrow> u32 \<Rightarrow> send_queue_elem \<Rightarrow> send_queue res" where
  "sq_slot_set q c e =
     (if sq_length q = 0 then Fault DivByZero
      else if unat (c mod sq_length q) < length (sq_contents q)
        then Ok (q\<lparr>sq_contents := (sq_contents q)[unat (c mod sq_length q) := e]\<rparr>)
        else Fault OutOfBounds)"

text \<open>\<open>send_queue_register\<close> returns the counter converted to \<open>int\<close>.\<close>

definition send_queue_register :: "send_queue \<Rightarrow> (int \<times> send_queue) res" where
  "send_queue_register q =
     (if sq_tail q - sq_head q < sq_length q then
        let rv = sq_tail q in
        bind_res (sq_slot_set q rv (zeroed_elem (sq_element_length q))) (\<lambda>q'.
          Ok (sint rv, q'\<lparr>sq_tail := sq_tail q' + 1\<rparr>))
      else Ok (-1, q))"

definition send_queue_commit :: "send_queue \<Rightarrow> u32 \<Rightarrow> bytes \<Rightarrow> send_queue res" where
  "send_queue_commit q idx data =
     bind_res (mem_read 0 (unat (sq_element_length q)) data) (\<lambda>src.
       sq_slot_set q idx \<lparr>sqe_ready = True, sqe_data = src\<rparr>)"

text \<open>Both pops return what they copied to the caller's buffer, \<open>None\<close> when they left it alone.\<close>

definition send_queue_pop_start :: "send_queue \<Rightarrow> (int \<times> bytes option \<times> send_queue) res" where
  "send_queue_pop_start q =
     (let attempt_idx = sq_head q in
      if attempt_idx = sq_tail q then Ok (-1, None, q)
      else bind_res (sq_slot q attempt_idx) (\<lambda>e.
        if \<not> sqe_ready e then Ok (-2, None, q)
        else if sq_head_lock q = attempt_idx
          then Ok (0, Some (sqe_data e), q\<lparr>sq_head_lock := attempt_idx + 1\<rparr>)
          else Ok (-3, None, q)))"

definition send_queue_pop_continue :: "send_queue \<Rightarrow> (int \<times> bytes option \<times> send_queue) res" where
  "send_queue_pop_continue q =
     (let head = sq_head q in
      if head + 1 = sq_tail q then Ok (-1, None, q\<lparr>sq_head := sq_head q + 1\<rparr>)
      else bind_res (sq_slot q (head + 1)) (\<lambda>e.
        if sqe_ready e \<and> sq_head_lock q \<noteq> sq_tail q
        then Ok (0, Some (sqe_data e),
                 q\<lparr>sq_head_lock := sq_head_lock q + 1, sq_head := sq_head q + 1\<rparr>)
        else Ok (-1, None, q\<lparr>sq_head := sq_head q + 1\<rparr>)))"

text \<open>
  The sending loop of \<open>onestep_thread\<close>: retry while the head is locked by another thread, then
  send the first reply and go on while there is a next one.  The result lists what was sent.
\<close>

partial_function (option) sq_send_more :: "send_queue \<Rightarrow> bytes list \<Rightarrow> (bytes list \<times> send_queue) run" where
  "sq_send_more q sent =
     (case send_queue_pop_continue q of
        Inl f \<Rightarrow> Some (Inl f)
      | Inr (r, out, q') \<Rightarrow>
          (if r = 0 then sq_send_more q' (sent @ [the out]) else Some (Inr (sent, q'))))"

partial_function (option) sq_send_loop :: "send_queue \<Rightarrow> (bytes list \<times> send_queue) run" where
  "sq_send_loop q =
     (case send_queue_pop_start q of
        Inl f \<Rightarrow> Some (Inl f)
      | Inr (r, out, q') \<Rightarrow>
          (if r = -3 then sq_send_loop q'
           else if r = 0 then sq_send_more q' [the out]
           else Some (Inr ([], q'))))"

text \<open>The threads take a ticket with \<open>do sq_ptr = send_queue_register(..) while (sq_ptr < 0)\<close>.\<close>

partial_function (option) sq_take_ticket :: "send_queue \<Rightarrow> (int \<times> send_queue) run" where
  "sq_take_ticket q =
     (case send_queue_register q of
        Inl f \<Rightarrow> Some (Inl f)
      | Inr (r, q') \<Rightarrow> (if r < 0 then sq_take_ticket q' else Some (Inr (r, q'))))"

section \<open>Invariant and abstraction\<close>

definition sq_wf :: "send_queue \<Rightarrow> bool" where
  "sq_wf q \<longleftrightarrow>
     length (sq_contents q) = unat (sq_length q) \<and> unat (sq_length q) dvd 2 ^ 32 \<and>
     sq_tail q - sq_head q \<le> sq_length q"

definition sq_entry :: "send_queue \<Rightarrow> u32 \<Rightarrow> bytes option" where
  "sq_entry q c =
     (let e = sq_contents q ! unat (c mod sq_length q)
      in if sqe_ready e then Some (sqe_data e) else None)"

definition sq_window :: "send_queue \<Rightarrow> bytes option list" where
  "sq_window q = map (\<lambda>i. sq_entry q (sq_head q + of_nat i)) [0..<unat (sq_tail q - sq_head q)]"

definition sq_unlocked :: "send_queue \<Rightarrow> bool" where
  "sq_unlocked q \<longleftrightarrow> sq_head_lock q = sq_head q"

section \<open>Lemmas\<close>

lemma sq_index:
  assumes "unat (len :: u32) dvd 2 ^ 32"
  shows "unat ((c + of_nat i) mod len) = (unat c + i) mod unat len"
proof -
  have "unat (of_nat i :: u32) mod unat len = i mod unat len"
    using assms by (simp add: unsigned_of_nat take_bit_eq_mod mod_mod_cancel)
  then have "(unat c + unat (of_nat i :: u32)) mod unat len = (unat c + i) mod unat len"
    by (metis mod_add_right_eq)
  then show ?thesis
    using unat_plus_mod_dvd[of "unat len" c "of_nat i"] assms by (simp add: unat_mod)
qed

lemma sq_index_less: "sq_length q \<noteq> 0 \<Longrightarrow> sq_wf q \<Longrightarrow> unat (c mod sq_length q) < length (sq_contents q)"
  by (simp add: sq_wf_def unat_mod unat_gt_0)

lemma sq_slot_Ok:
  "sq_length q \<noteq> 0 \<Longrightarrow> sq_wf q \<Longrightarrow> sq_slot q c = Ok (sq_contents q ! unat (c mod sq_length q))"
  by (simp add: sq_slot_def sq_index_less)

lemma sq_slot_set_Ok:
  "sq_length q \<noteq> 0 \<Longrightarrow> sq_wf q \<Longrightarrow>
     sq_slot_set q c e = Ok (q\<lparr>sq_contents := (sq_contents q)[unat (c mod sq_length q) := e]\<rparr>)"
  by (simp add: sq_slot_set_def sq_index_less)

lemma length_sq_window [simp]: "length (sq_window q) = unat (sq_tail q - sq_head q)"
  by (simp add: sq_window_def)

lemma sq_window_empty: "sq_window q = [] \<longleftrightarrow> sq_head q = sq_tail q"
  by (auto simp: sq_window_def unat_eq_zero)

lemma sq_window_length_le: "sq_wf q \<Longrightarrow> length (sq_window q) \<le> unat (sq_length q)"
  by (simp add: sq_wf_def word_le_nat_alt)

lemma sq_nonempty_length: "sq_wf q \<Longrightarrow> sq_head q \<noteq> sq_tail q \<Longrightarrow> sq_length q \<noteq> 0"
  by (auto simp: sq_wf_def)

text \<open>Writing the slot of the \<open>d\<close>-th counter from the head changes that entry only.\<close>

lemma sq_entry_set:
  assumes wf: "sq_wf q" and d: "d < unat (sq_length q)" and i: "i < unat (sq_length q)"
  shows "sq_entry (q\<lparr>sq_contents := (sq_contents q)[unat ((sq_head q + of_nat d) mod sq_length q) := e]\<rparr>)
           (sq_head q + of_nat i)
       = (if i = d then (if sqe_ready e then Some (sqe_data e) else None)
          else sq_entry q (sq_head q + of_nat i))"
proof -
  have dvd: "unat (sq_length q) dvd 2 ^ 32" and len: "length (sq_contents q) = unat (sq_length q)"
    using wf by (simp_all add: sq_wf_def)
  have "(unat (sq_head q) + i) mod unat (sq_length q) \<noteq> (unat (sq_head q) + d) mod unat (sq_length q)"
    if "i \<noteq> d"
    using that ring_slots_differ[OF _ i, of d "unat (sq_head q)"]
      ring_slots_differ[OF _ d, of i "unat (sq_head q)"] by (metis nat_neq_iff)
  moreover have "(unat (sq_head q) + d) mod unat (sq_length q) < length (sq_contents q)"
    using d len by simp
  ultimately show ?thesis
    by (cases "i = d") (simp_all add: sq_entry_def sq_index[OF dvd] Let_def)
qed

lemma sq_commit_window:
  assumes wf: "sq_wf q" and d: "d < length (sq_window q)"
  shows "sq_window (q\<lparr>sq_contents := (sq_contents q)[unat ((sq_head q + of_nat d) mod sq_length q) :=
            \<lparr>sqe_ready = True, sqe_data = x\<rparr>]\<rparr>) = (sq_window q)[d := Some x]"
proof -
  have L: "i < unat (sq_length q)" if "i < unat (sq_tail q - sq_head q)" for i
    using that wf by (simp add: sq_wf_def word_le_nat_alt)
  show ?thesis
    using d sq_entry_set[OF wf, of d _ "\<lparr>sqe_ready = True, sqe_data = x\<rparr>"] L
    by (intro nth_equalityI) (auto simp: sq_window_def nth_list_update)
qed

lemma sq_wf_contents [simp]:
  "sq_wf (q\<lparr>sq_contents := (sq_contents q)[k := e]\<rparr>) = sq_wf q"
  by (simp add: sq_wf_def)

lemma sq_register_window:
  assumes wf: "sq_wf q" and room: "sq_tail q - sq_head q < sq_length q"
  shows "sq_window (q\<lparr>sq_contents := (sq_contents q)[unat (sq_tail q mod sq_length q) := zeroed_elem n],
           sq_tail := sq_tail q + 1\<rparr>) = sq_window q @ [None]"
    and "sq_wf (q\<lparr>sq_contents := (sq_contents q)[unat (sq_tail q mod sq_length q) := zeroed_elem n],
           sq_tail := sq_tail q + 1\<rparr>)"
proof -
  let ?d = "unat (sq_tail q - sq_head q)" and ?L = "unat (sq_length q)"
  have d: "?d < ?L" using room by (simp add: word_less_nat_alt)
  have tail: "sq_tail q = sq_head q + of_nat ?d" by simp
  have sz: "unat (sq_tail q + 1 - sq_head q) = ?d + 1"
  proof -
    have "unat (sq_tail q - sq_head q + 1) = ?d + 1"
      using d unat_lt_2p[of "sq_length q"] by (intro unat_Suc_no_overflow) simp
    then show ?thesis by (simp add: algebra_simps)
  qed
  note e = sq_entry_set[OF wf d, of _ "zeroed_elem n", folded tail]
  have old: "sq_entry (q\<lparr>sq_contents := (sq_contents q)[unat (sq_tail q mod sq_length q) := zeroed_elem n]\<rparr>)
      (sq_head q + of_nat i) = sq_entry q (sq_head q + of_nat i)" if "i < ?d" for i
    using e[of i] d that by simp
  have new: "sq_entry (q\<lparr>sq_contents := (sq_contents q)[unat (sq_tail q mod sq_length q) := zeroed_elem n]\<rparr>)
      (sq_tail q) = None"
    using e[of ?d] d by (simp add: zeroed_elem_def)
  have ext: "sq_entry (q\<lparr>sq_contents := cs, sq_tail := t\<rparr>) c = sq_entry (q\<lparr>sq_contents := cs\<rparr>) c"
    for cs t c by (simp add: sq_entry_def)
  show "sq_window (q\<lparr>sq_contents := (sq_contents q)[unat (sq_tail q mod sq_length q) := zeroed_elem n],
      sq_tail := sq_tail q + 1\<rparr>) = sq_window q @ [None]"
    using sz old new by (simp add: sq_window_def ext)
  show "sq_wf (q\<lparr>sq_contents := (sq_contents q)[unat (sq_tail q mod sq_length q) := zeroed_elem n],
      sq_tail := sq_tail q + 1\<rparr>)"
    using wf sz d by (simp add: sq_wf_def word_le_nat_alt)
qed

text \<open>The window from one slot further on.\<close>

lemma sq_window_Cons:
  assumes "sq_window q = e # w"
  shows "sq_entry q (sq_head q) = e" and "sq_head q \<noteq> sq_tail q"
    and "sq_window (q\<lparr>sq_head := sq_head q + 1, sq_head_lock := l\<rparr>) = w"
    and "sq_window (q\<lparr>sq_head := sq_head q + 1\<rparr>) = w"
    and "w = [] \<longleftrightarrow> sq_head q + 1 = sq_tail q"
proof -
  let ?d = "unat (sq_tail q - sq_head q)"
  show ne: "sq_head q \<noteq> sq_tail q" using assms sq_window_empty[of q] by auto
  then have "sq_tail q - sq_head q \<noteq> 0" by auto
  then have sz: "unat (sq_tail q - (sq_head q + 1)) = ?d - 1"
    using unat_minus_one[of "sq_tail q - sq_head q"] by (simp add: algebra_simps)
  have d: "0 < ?d" using ne by (simp add: unat_gt_0)
  have ext: "sq_entry (q\<lparr>sq_head := h, sq_head_lock := k\<rparr>) = sq_entry q"
    "sq_entry (q\<lparr>sq_head := h\<rparr>) = sq_entry q" for h k
    by (simp_all add: fun_eq_iff sq_entry_def)
  have "sq_window q = sq_entry q (sq_head q) # map (\<lambda>i. sq_entry q (sq_head q + of_nat i)) [Suc 0..<?d]"
    using d by (simp add: sq_window_def upt_conv_Cons)
  with assms have e: "sq_entry q (sq_head q) = e"
    and w: "w = map (\<lambda>i. sq_entry q (sq_head q + of_nat i)) [Suc 0..<?d]" by simp_all
  show "sq_entry q (sq_head q) = e" by (rule e)
  have "w = map (\<lambda>i. sq_entry q (sq_head q + 1 + of_nat i)) [0..<?d - 1]"
    unfolding w by (intro nth_equalityI) (simp_all add: add.assoc)
  then show "sq_window (q\<lparr>sq_head := sq_head q + 1, sq_head_lock := l\<rparr>) = w"
    and w': "sq_window (q\<lparr>sq_head := sq_head q + 1\<rparr>) = w"
    using sz by (simp_all add: sq_window_def ext)
  show "w = [] \<longleftrightarrow> sq_head q + 1 = sq_tail q"
    using w' sq_window_empty[of "q\<lparr>sq_head := sq_head q + 1\<rparr>"] by simp
qed

lemma sq_wf_head:
  assumes "sq_wf q" and "sq_head q \<noteq> sq_tail q"
  shows "sq_wf (q\<lparr>sq_head := sq_head q + 1, sq_head_lock := l\<rparr>)"
    and "sq_wf (q\<lparr>sq_head := sq_head q + 1\<rparr>)"
proof -
  have "sq_tail q - sq_head q \<noteq> 0" using assms(2) by auto
  then have "unat (sq_tail q - (sq_head q + 1)) = unat (sq_tail q - sq_head q) - 1"
    using unat_minus_one[of "sq_tail q - sq_head q"] by (simp add: algebra_simps)
  then show "sq_wf (q\<lparr>sq_head := sq_head q + 1, sq_head_lock := l\<rparr>)"
    and "sq_wf (q\<lparr>sq_head := sq_head q + 1\<rparr>)"
    using assms(1) by (auto simp: sq_wf_def word_le_nat_alt)
qed

section \<open>The sending loop\<close>

declare sq_send_more.simps [code] sq_send_loop.simps [code]

lemma sq_send_more_spec:
  assumes "sq_wf q" and "sq_window q = e # w" and "sq_head_lock q = sq_head q + 1"
  shows "\<exists>q'. sq_send_more q sent = returns (sent @ ready_prefix w, q') \<and> sq_wf q' \<and> sq_unlocked q' \<and>
           sq_window q' = unready_rest w \<and>
           sq_head q' = sq_head q + 1 + of_nat (length (ready_prefix w)) \<and>
           sq_length q' = sq_length q \<and> sq_element_length q' = sq_element_length q \<and>
           sq_tail q' = sq_tail q"
  using assms
proof (induction w arbitrary: q e sent)
  case Nil
  have "sq_head q + 1 = sq_tail q" using sq_window_Cons(5)[OF Nil.prems(2)] by simp
  then have "send_queue_pop_continue q = Ok (-1, None, q\<lparr>sq_head := sq_head q + 1\<rparr>)"
    by (simp add: send_queue_pop_continue_def)
  then show ?case
    using Nil.prems sq_window_Cons[OF Nil.prems(2)] sq_wf_head(2)[OF Nil.prems(1)]
    by (simp add: sq_send_more.simps[of q] sq_unlocked_def)
next
  case (Cons x w)
  let ?stop = "q\<lparr>sq_head := sq_head q + 1\<rparr>"
  let ?next = "q\<lparr>sq_head := sq_head q + 1, sq_head_lock := sq_head_lock q + 1\<rparr>"
  note win = sq_window_Cons[OF Cons.prems(2)]
  have ne: "sq_head q + 1 \<noteq> sq_tail q" using win(5) by simp
  have len: "sq_length q \<noteq> 0" by (rule sq_nonempty_length[OF Cons.prems(1) win(2)])
  have entry: "sq_entry q (sq_head q + 1) = x"
    using sq_window_Cons(1)[OF win(4)] by (simp add: sq_entry_def)
  note slot = sq_slot_Ok[OF len Cons.prems(1), of "sq_head q + 1"]
  show ?case
  proof (cases x)
    case None
    have "send_queue_pop_continue q = Ok (-1, None, ?stop)"
      using ne slot entry None by (auto simp: send_queue_pop_continue_def sq_entry_def Let_def split: if_splits)
    then show ?thesis
      using None Cons.prems win sq_wf_head(2)[OF Cons.prems(1) win(2)]
      by (simp add: sq_send_more.simps[of q] sq_unlocked_def)
  next
    case (Some y)
    have pop: "send_queue_pop_continue q = Ok (0, Some y, ?next)"
      using ne slot entry Some Cons.prems(3)
      by (auto simp: send_queue_pop_continue_def sq_entry_def Let_def split: if_splits)
    have "sq_head_lock ?next = sq_head ?next + 1" using Cons.prems(3) by simp
    from Cons.IH[OF sq_wf_head(1)[OF Cons.prems(1) win(2)] win(3) this, of "sent @ [y]"]
    show ?thesis
      using Some pop by (simp add: sq_send_more.simps[of q] add.assoc)
  qed
qed

lemma sq_send_loop_spec:
  assumes wf: "sq_wf q" and free: "sq_unlocked q"
  shows "\<exists>q'. sq_send_loop q = returns (ready_prefix (sq_window q), q') \<and> sq_wf q' \<and> sq_unlocked q' \<and>
           sq_window q' = unready_rest (sq_window q) \<and>
           sq_head q' = sq_head q + of_nat (length (ready_prefix (sq_window q))) \<and>
           sq_length q' = sq_length q \<and> sq_element_length q' = sq_element_length q \<and>
           sq_tail q' = sq_tail q"
proof (cases "sq_window q")
  case Nil
  then have "send_queue_pop_start q = Ok (-1, None, q)"
    using sq_window_empty[of q] by (simp add: send_queue_pop_start_def)
  then show ?thesis using Nil wf free by (simp add: sq_send_loop.simps[of q])
next
  case (Cons e w)
  note win = sq_window_Cons[OF Cons]
  have len: "sq_length q \<noteq> 0" by (rule sq_nonempty_length[OF wf win(2)])
  note slot = sq_slot_Ok[OF len wf, of "sq_head q"]
  show ?thesis
  proof (cases e)
    case None
    then have "send_queue_pop_start q = Ok (-2, None, q)"
      using win(1,2) slot by (auto simp: send_queue_pop_start_def sq_entry_def Let_def split: if_splits)
    then show ?thesis using Cons None wf free by (simp add: sq_send_loop.simps[of q])
  next
    case (Some y)
    let ?q' = "q\<lparr>sq_head_lock := sq_head q + 1\<rparr>"
    have pop: "send_queue_pop_start q = Ok (0, Some y, ?q')"
      using win(1,2) slot free Some
      by (auto simp: send_queue_pop_start_def sq_entry_def sq_unlocked_def Let_def split: if_splits)
    have "sq_wf ?q'" and "sq_window ?q' = e # w"
      using wf Cons by (simp_all add: sq_wf_def sq_window_def sq_entry_def)
    from sq_send_more_spec[OF this, of "[y]"] show ?thesis
      using Some Cons pop by (simp add: sq_send_loop.simps[of q] add.assoc)
  qed
qed

section \<open>The queue is a reply queue\<close>

definition sq_inv :: "u32 \<Rightarrow> u32 \<Rightarrow> send_queue \<Rightarrow> bool" where
  "sq_inv len n q \<longleftrightarrow>
     sq_wf q \<and> sq_unlocked q \<and> sq_length q = len \<and> sq_element_length q = n \<and>
     unat (sq_head q) + length (sq_window q) = unat (sq_tail q)"

lemma send_queue_register_room:
  assumes "sq_wf q" and "length (sq_window q) < unat (sq_length q)"
  shows "\<exists>q'. send_queue_register q = Ok (sint (sq_tail q), q') \<and> sq_wf q' \<and>
           sq_window q' = sq_window q @ [None] \<and> sq_head q' = sq_head q \<and> sq_tail q' = sq_tail q + 1 \<and>
           sq_head_lock q' = sq_head_lock q \<and> sq_length q' = sq_length q \<and>
           sq_element_length q' = sq_element_length q"
proof -
  have room: "sq_tail q - sq_head q < sq_length q"
    using assms(2) by (simp add: word_less_nat_alt)
  then have len: "sq_length q \<noteq> 0" by auto
  show ?thesis
    using sq_register_window[OF assms(1) room, of "sq_element_length q"] room
      sq_slot_set_Ok[OF len assms(1), of "sq_tail q"]
    by (simp add: send_queue_register_def Let_def)
qed

lemma send_queue_register_full:
  "unat (sq_length q) \<le> length (sq_window q) \<Longrightarrow> send_queue_register q = Ok (-1, q)"
  by (simp add: send_queue_register_def word_less_nat_alt)

lemma send_queue_commit_window:
  assumes wf: "sq_wf q" and x: "length x = unat (sq_element_length q)" and d: "d < length (sq_window q)"
  shows "\<exists>q'. send_queue_commit q (sq_head q + of_nat d) x = Ok q' \<and> sq_wf q' \<and>
           sq_window q' = (sq_window q)[d := Some x] \<and>
           sq_head q' = sq_head q \<and> sq_tail q' = sq_tail q \<and> sq_head_lock q' = sq_head_lock q \<and>
           sq_length q' = sq_length q \<and> sq_element_length q' = sq_element_length q"
proof -
  have "sq_head q \<noteq> sq_tail q" using d sq_window_empty[of q] by auto
  then have "sq_length q \<noteq> 0" by (rule sq_nonempty_length[OF wf])
  then show ?thesis
    using sq_slot_set_Ok[OF _ wf] sq_commit_window[OF wf d, of x] wf x
    by (simp add: send_queue_commit_def)
qed

interpretation replyq: reply_queue send_queue_register
  "\<lambda>q t x. send_queue_commit q (of_nat t) x" sq_send_loop "sq_inv len n"
  "\<lambda>q. unat (sq_head q)" sq_window "\<lambda>x. length x = unat n" "unat len" "2 ^ 31" for len n
proof unfold_locales
  fix q :: send_queue
  assume inv: "sq_inv len n q" and room: "length (sq_window q) < unat len"
    and lim: "unat (sq_head q) + length (sq_window q) < 2 ^ 31"
  have "unat (sq_tail q + 1) = unat (sq_tail q) + 1"
    using inv lim by (intro unat_Suc_no_overflow) (simp add: sq_inv_def)
  then show "\<exists>q'. send_queue_register q = Ok (int (unat (sq_head q) + length (sq_window q)), q') \<and>
      sq_inv len n q' \<and> sq_window q' = sq_window q @ [None] \<and> unat (sq_head q') = unat (sq_head q)"
    using send_queue_register_room[of q] inv room lim sint_small[of "sq_tail q"]
    by (fastforce simp: sq_inv_def sq_unlocked_def)
next
  fix q :: send_queue
  assume "sq_inv len n q" and "unat len \<le> length (sq_window q)"
  then show "send_queue_register q = Ok (-1, q)"
    by (intro send_queue_register_full) (simp add: sq_inv_def)
next
  fix q :: send_queue and x :: bytes and t :: nat
  assume inv: "sq_inv len n q" and x: "length x = unat n" and t: "unat (sq_head q) \<le> t"
    "t < unat (sq_head q) + length (sq_window q)"
  have "sq_head q + of_nat (t - unat (sq_head q)) = of_nat t"
    using t(1) by (simp add: of_nat_diff)
  then show "\<exists>q'. send_queue_commit q (of_nat t) x = Ok q' \<and> sq_inv len n q' \<and>
      sq_window q' = (sq_window q)[t - unat (sq_head q) := Some x] \<and> unat (sq_head q') = unat (sq_head q)"
    using send_queue_commit_window[of q x "t - unat (sq_head q)"] inv x t
    by (fastforce simp: sq_inv_def sq_unlocked_def simp del: length_sq_window)
next
  fix q :: send_queue
  assume inv: "sq_inv len n q"
  let ?k = "length (ready_prefix (sq_window q))"
  have k: "length (sq_window q) = ?k + length (unready_rest (sq_window q))"
    using arg_cong[OF window_split[of "sq_window q"], of length] by simp
  have "unat (sq_head q + of_nat ?k) = unat (sq_head q) + ?k"
    using inv k unat_lt_2p[of "sq_tail q"] by (intro unat_plus_of_nat_no_overflow) (simp add: sq_inv_def)
  then show "\<exists>q'. sq_send_loop q = returns (ready_prefix (sq_window q), q') \<and> sq_inv len n q' \<and>
      sq_window q' = unready_rest (sq_window q) \<and> unat (sq_head q') = unat (sq_head q) + ?k"
    using sq_send_loop_spec[of q] inv k by (fastforce simp: sq_inv_def)
qed

lemma send_queue_init_inv:
  assumes "send_queue_init True len n = Ok q" and "unat len dvd 2 ^ 32"
  shows "sq_inv len n q" and "sq_window q = []" and "sq_head q = 0"
  using assms by (auto simp: send_queue_init_def sq_inv_def sq_wf_def sq_window_def sq_unlocked_def)

lemma window_log_empty: "window_log 0 [] Map.empty"
  by (simp add: window_log_def)

section \<open>Tickets beyond \<open>INT_MAX\<close>\<close>

definition sq_int_exhausted :: "send_queue \<Rightarrow> bool" where
  "sq_int_exhausted q \<longleftrightarrow>
     sq_wf q \<and> 2 ^ 31 \<le> unat (sq_tail q) \<and> unat (sq_head q) + unat (sq_length q) < 2 ^ 32 \<and>
     unat (sq_tail q) \<le> unat (sq_head q) + unat (sq_length q)"

lemma register_exhausted:
  assumes ex: "sq_int_exhausted q"
  shows "\<exists>r q'. send_queue_register q = Ok (r, q') \<and> r < 0 \<and> sq_int_exhausted q'"
proof (cases "length (sq_window q) < unat (sq_length q)")
  case True
  have wf: "sq_wf q" and hi: "2 ^ 31 \<le> unat (sq_tail q)"
    and bound: "unat (sq_head q) + unat (sq_length q) < 2 ^ 32"
    and le: "unat (sq_tail q) \<le> unat (sq_head q) + unat (sq_length q)"
    using ex by (simp_all add: sq_int_exhausted_def)
  from send_queue_register_room[OF wf True] obtain q' where
    reg: "send_queue_register q = Ok (sint (sq_tail q), q')" and
    q': "sq_wf q'" "sq_head q' = sq_head q" "sq_tail q' = sq_tail q + 1" "sq_length q' = sq_length q"
    and win: "sq_window q' = sq_window q @ [None]"
    by blast
  have "unat (sq_tail q) \<noteq> unat (sq_head q) + unat (sq_length q)"
  proof
    assume full: "unat (sq_tail q) = unat (sq_head q) + unat (sq_length q)"
    then have "unat (sq_tail q - sq_head q) = unat (sq_length q)"
      by (subst unat_diff_le) (simp_all add: word_le_nat_alt)
    with True show False by simp
  qed
  with le have lt: "unat (sq_tail q) < unat (sq_head q) + unat (sq_length q)" by simp
  with bound have "unat (sq_tail q + 1) = unat (sq_tail q) + 1"
    by (intro unat_Suc_no_overflow) simp
  then have "sq_int_exhausted q'"
    using q' hi bound lt by (simp add: sq_int_exhausted_def)
  then show ?thesis using reg sint_large[OF hi] by blast
next
  case False
  then show ?thesis using send_queue_register_full[of q] ex by auto
qed

lemma sq_take_ticket_exhausted:
  "sq_take_ticket q = Some r \<Longrightarrow> \<not> sq_int_exhausted q"
proof (rule sq_take_ticket.raw_induct [where P = "\<lambda>q r. \<not> sq_int_exhausted q"])
  fix f q r
  assume IH: "\<And>q r. f q = Some r \<Longrightarrow> \<not> sq_int_exhausted q"
    and eq: "(case send_queue_register q of Inl f \<Rightarrow> faults f
       | Inr (r, q') \<Rightarrow> if r < 0 then f q' else returns (r, q')) = Some r"
  show "\<not> sq_int_exhausted q"
  proof
    assume "sq_int_exhausted q"
    from register_exhausted[OF this] IH eq show False by fastforce
  qed
qed

section \<open>Properties\<close>

text \<open>
  C11. Replies leave a connection in the order its commands were received.  For every sequence of
  register, commit and send-loop calls on a fresh queue in which each ticket is committed at most
  once and fewer than \<open>2 ^ 31\<close> tickets are taken, the calls neither fault nor loop, what was sent is
  the replies of the tickets 0, 1, 2, ... in that order, each once and unchanged, whatever the order
  of the commits, and every later reply is still in its slot.
\<close>

theorem replies_leave_in_order:
  assumes "send_queue_init True len n = Ok q" and "unat len dvd 2 ^ 32"
    and "reply_client (unat len) (2 ^ 31) (\<lambda>x. length x = unat n) ops 0 []"
  shows "\<exists>outs q'. reply_drive send_queue_register (\<lambda>q t x. send_queue_commit q (of_nat t) x)
             sq_send_loop ops q = returns (outs, q') \<and>
           map (replies ops Map.empty) [0..<length outs] = map Some outs \<and>
           window_log (length outs) (sq_window q') (replies ops Map.empty)"
  using replyq.drive_in_order[of len n q ops Map.empty] send_queue_init_inv[OF assms(1,2)] assms(3)
    window_log_empty by fastforce

text \<open>
  C23. No reply is held back: when the last call is the send loop, the ticket after the last reply
  sent has no reply yet.
\<close>

theorem no_reply_held_back:
  assumes "send_queue_init True len n = Ok q" and "unat len dvd 2 ^ 32"
    and "reply_client (unat len) (2 ^ 31) (\<lambda>x. length x = unat n) (ops @ [Flush]) 0 []"
    and "reply_drive send_queue_register (\<lambda>q t x. send_queue_commit q (of_nat t) x)
           sq_send_loop (ops @ [Flush]) q = returns (outs, q')"
  shows "replies (ops @ [Flush]) Map.empty (length outs) = None"
  using replyq.drive_flushed[of len n q ops Map.empty outs q'] send_queue_init_inv[OF assms(1,2)]
    assms(3,4) window_log_empty by simp

text \<open>
  C31. \<open>send_queue_register\<close> returns its \<open>unsigned int\<close> counter as an \<open>int\<close>.  From the
  \<open>2 ^ 31\<close>-th command of a connection on, a successful registration looks like a full queue: it
  returns a negative number after it has taken the slot, which nobody will commit; and the loop of
  the threads that retries while the result is negative never returns.
\<close>

theorem register_breaks_at_int_max:
  assumes "sq_wf q" and "2 ^ 31 \<le> unat (sq_tail q)"
    and "unat (sq_tail q) = unat (sq_head q) + length (sq_window q)"
    and "length (sq_window q) < unat (sq_length q)"
    and "unat (sq_head q) + unat (sq_length q) < 2 ^ 32"
  shows "(\<exists>r q'. send_queue_register q = Ok (r, q') \<and> r < 0 \<and> sq_window q' = sq_window q @ [None]) \<and>
         sq_take_ticket q = None"
proof -
  have "sq_int_exhausted q" using assms by (simp add: sq_int_exhausted_def)
  then have "sq_take_ticket q = None"
    using sq_take_ticket_exhausted by (cases "sq_take_ticket q") auto
  then show ?thesis
    using send_queue_register_room[OF assms(1,4)] sint_large[OF assms(2)] by blast
qed

text \<open>Concrete runs: a queue of two slots, the second ticket committed first.\<close>

definition two_slots :: send_queue where
  "two_slots = \<lparr>sq_element_length = 1, sq_length = 2, sq_head_lock = 0, sq_head = 0, sq_tail = 0,
     sq_contents = replicate 2 (zeroed_elem 1)\<rparr>"

lemma two_slots_init: "send_queue_init True 2 1 = Ok two_slots"
  by (simp add: send_queue_init_def two_slots_def)

definition crossed_ops :: "bytes reply_op list" where
  "crossed_ops = [Register, Register, Commit 1 [8], Flush, Commit 0 [7]]"

theorem replies_leave_in_order_witness:
  "\<exists>outs q'. reply_drive send_queue_register (\<lambda>q t x. send_queue_commit q (of_nat t) x)
       sq_send_loop (crossed_ops @ [Flush]) two_slots = returns (outs, q') \<and>
     map (replies (crossed_ops @ [Flush]) Map.empty) [0..<length outs] = map Some outs \<and>
     window_log (length outs) (sq_window q') (replies (crossed_ops @ [Flush]) Map.empty)"
  by (rule replies_leave_in_order[OF two_slots_init]) (simp_all add: crossed_ops_def)

lemma crossed_run:
  "\<exists>q'. reply_drive send_queue_register (\<lambda>q t x. send_queue_commit q (of_nat t) x)
       sq_send_loop (crossed_ops @ [Flush]) two_slots = returns ([[7], [8]], q')"
proof -
  have "map_option (map_sum id fst) (reply_drive send_queue_register
      (\<lambda>q t x. send_queue_commit q (of_nat t) x) sq_send_loop (crossed_ops @ [Flush]) two_slots)
      = returns [[7], [8]]"
    by code_simp
  then show ?thesis by (auto simp: map_sum_id_Ok)
qed

theorem no_reply_held_back_witness:
  "replies (crossed_ops @ [Flush]) Map.empty (length [[7 :: byte], [8]]) = None"
proof -
  from crossed_run obtain q' where "reply_drive send_queue_register
      (\<lambda>q t x. send_queue_commit q (of_nat t) x) sq_send_loop (crossed_ops @ [Flush]) two_slots
      = returns ([[7], [8]], q')" by blast
  from no_reply_held_back[OF two_slots_init _ _ this] show ?thesis
    by (simp add: crossed_ops_def)
qed

definition worn_queue :: send_queue where
  "worn_queue = two_slots\<lparr>sq_head_lock := 2147483648, sq_head := 2147483648, sq_tail := 2147483648\<rparr>"

theorem register_breaks_at_int_max_witness:
  "(\<exists>r q'. send_queue_register worn_queue = Ok (r, q') \<and> r < 0 \<and>
      sq_window q' = sq_window worn_queue @ [None]) \<and> sq_take_ticket worn_queue = None"
  by (rule register_breaks_at_int_max)
     (simp_all add: worn_queue_def two_slots_def sq_wf_def sq_window_def)

end
