(* ===== verification/Ht_Bits.thy ===== *)
theory Ht_Bits
  imports Prelude
begin

unbundle bit_operations_syntax

text \<open>
  The bit arithmetic of \<^verbatim>\<open>lib/hashtable.c\<close>: the string hash, the bit reversal that turns a
  hash into a bucket index and a bucket index into the hash of its sentinel, and the search for
  the most significant bit that splits an index into a bucket and an offset.
\<close>

section \<open>Definitions\<close>

text \<open>\<open>hash = ((hash << 5) + hash) + (unsigned int)c\<close>; the \<open>char\<close> is signed.\<close>

fun hash_loop :: "u32 \<Rightarrow> bytes \<Rightarrow> u32" where
  "hash_loop hash [] = hash"
| "hash_loop hash (c # str) = hash_loop ((push_bit 5 hash + hash) + scast c) str"

text \<open>
  A key pointer is \<open>None\<close> for null, otherwise the bytes from the pointer to the end of their
  block; \<open>ht_hash\<close> reads \<open>key_length\<close> of them.
\<close>

definition ht_hash :: "bytes option \<Rightarrow> u32 \<Rightarrow> u32 res" where
  "ht_hash str key_length =
     (if key_length = 0 then Ok 5381
      else case str of
        None \<Rightarrow> Fault NullDeref
      | Some s \<Rightarrow> (if length s < unat key_length then Fault OutOfBounds
                   else Ok (hash_loop 5381 (take (unat key_length) s))))"

function reverse_loop :: "nat \<Rightarrow> u32 \<Rightarrow> u32 \<Rightarrow> u32" where
  "reverse_loop i r b =
     (if i < 32 then
        let r1 = r OR (b AND 1);
            r2 = (if i + 1 \<noteq> 32 then push_bit 1 r1 else r1)
        in reverse_loop (i + 1) r2 (drop_bit 1 b)
      else r)"
  by pat_completeness auto
termination
  by (relation "measure (\<lambda>(i, r, b). 32 - i)") auto

declare reverse_loop.simps [simp del]

definition ht_reverse_bits :: "u32 \<Rightarrow> u32" where
  "ht_reverse_bits b = reverse_loop 0 0 b"

text \<open>The loop of \<open>ht_find_msb\<close>: shift the mask left until it meets no bit of the index.\<close>

lemma mask_shift_decreases:
  assumes "(msk :: u32) \<noteq> 0"
  shows "(LEAST n. push_bit n (push_bit 1 msk) = 0) < (LEAST n. push_bit n msk = 0)"
proof -
  have z: "push_bit 32 msk = 0"
    by (rule bit_eqI) (auto simp: bit_simps)
  let ?n = "LEAST n. push_bit n msk = 0"
  have n: "push_bit ?n msk = 0" by (rule LeastI[of _ 32]) (rule z)
  have "?n \<noteq> 0"
  proof
    assume "?n = 0"
    with n have "push_bit 0 msk = 0" by simp
    with assms show False by simp
  qed
  then obtain k where k: "?n = Suc k" by (cases ?n) auto
  have "push_bit k (push_bit 1 msk) = 0"
    using n unfolding k by (simp add: push_bit_push_bit)
  then have "(LEAST n. push_bit n (push_bit 1 msk) = 0) \<le> k" by (rule Least_le)
  with k show ?thesis by simp
qed

function msb_loop :: "u32 \<Rightarrow> u32 \<Rightarrow> u32 \<Rightarrow> u32" where
  "msb_loop idx msk shift =
     (if idx AND msk \<noteq> 0 then msb_loop idx (push_bit 1 msk) (shift + 1) else shift)"
  by pat_completeness auto
termination
proof (relation "measure (\<lambda>(idx, msk, shift). LEAST n. push_bit n msk = 0)")
  fix idx msk shift :: u32
  assume "idx AND msk \<noteq> 0"
  then have "msk \<noteq> 0" by auto
  then show "((idx, push_bit 1 msk, shift + 1), idx, msk, shift)
      \<in> measure (\<lambda>(idx, msk, shift). LEAST n. push_bit n msk = 0)"
    using mask_shift_decreases by simp
qed simp

declare msb_loop.simps [simp del]

text \<open>\<open>ht_find_msb\<close> returns the most significant bit of its argument and stores its position.\<close>

definition ht_find_msb :: "u32 \<Rightarrow> u32 \<times> u32" where
  "ht_find_msb idx =
     (let shift0 = msb_loop idx (- 1) 0;
          shift = (if shift0 = 0 then 0 else shift0 - 1)
      in (idx AND push_bit (unat shift) (- 1), shift))"

section \<open>Bit reversal\<close>

lemma reverse_loop_bit:
  assumes "i \<le> 31" and "\<not> bit r 0"
  shows "bit (reverse_loop i r b) k \<longleftrightarrow>
           k < 32 \<and> (if k + i \<le> 31 then bit b (31 - i - k) else bit r (k + i - 31))"
  using assms
proof (induction "31 - i" arbitrary: i r b k)
  case 0
  then have "i = 31" by simp
  then have "reverse_loop i r b = r OR (b AND 1)"
    by (simp add: reverse_loop.simps[of 31] reverse_loop.simps[of 32] Let_def)
  then show ?case
    using "0.prems"(2) \<open>i = 31\<close> by (auto simp: bit_simps bit_1_iff dest: bit_imp_le_length)
next
  case (Suc n)
  then have lt: "i < 31" by simp
  let ?r = "push_bit 1 (r OR (b AND 1))"
  have unf: "reverse_loop i r b = reverse_loop (i + 1) ?r (drop_bit 1 b)"
  proof -
    have lt32: "(i < 32) = True" and ne: "(i + 1 \<noteq> 32) = True" using lt by simp_all
    show ?thesis by (simp only: reverse_loop.simps[of i] Let_def lt32 ne if_True)
  qed
  have br: "bit ?r m \<longleftrightarrow> 1 \<le> m \<and> m < 32 \<and> bit (r OR (b AND 1)) (m - 1)" for m
    by (auto simp only: bit_push_bit_iff possible_bit_word len_bit0 len_num1 len_num0)
  have IH: "bit (reverse_loop (i + 1) ?r (drop_bit 1 b)) k \<longleftrightarrow>
      k < 32 \<and> (if k + (i + 1) \<le> 31 then bit (drop_bit 1 b) (31 - (i + 1) - k)
                else bit ?r (k + (i + 1) - 31))"
  proof (rule Suc.hyps(1))
    show "n = 31 - (i + 1)" and "i + 1 \<le> 31" using Suc.hyps(2) lt by simp_all
    show "\<not> bit ?r 0" by (simp only: bit_push_bit_iff) simp
  qed
  show ?case
  proof (cases "k + i \<le> 31")
    case True
    show ?thesis
    proof (cases "k + i = 31")
      case True
      with lt show ?thesis
        unfolding unf IH br using Suc.prems(2) by (auto simp: bit_simps bit_1_iff)
    next
      case False
      with True have "1 + (31 - (i + 1) - k) = 31 - i - k" by simp
      with True False show ?thesis
        unfolding unf IH br by (simp add: bit_drop_bit_eq add.commute)
    qed
  next
    case False
    then have "k + (i + 1) - 31 = Suc (k + i - 31)" and "0 < k + i - 31" by simp_all
    with False lt show ?thesis
      unfolding unf IH br by (auto simp: bit_simps bit_1_iff dest: bit_imp_le_length)
  qed
qed

lemma bit_reverse: "bit (ht_reverse_bits b) k \<longleftrightarrow> k < 32 \<and> bit b (31 - k)"
  using reverse_loop_bit[of 0 0 b k] by (auto simp: ht_reverse_bits_def)

lemma reverse_reverse [simp]: "ht_reverse_bits (ht_reverse_bits b) = b"
  by (rule bit_eqI) (auto simp: bit_reverse)

lemma reverse_and: "ht_reverse_bits (a AND b) = ht_reverse_bits a AND ht_reverse_bits b"
  by (rule bit_eqI) (auto simp: bit_reverse bit_and_iff)

lemma reverse_inject: "ht_reverse_bits a = ht_reverse_bits b \<longleftrightarrow> a = b"
  by (metis reverse_reverse)

lemma reverse_0 [simp]: "ht_reverse_bits 0 = 0"
  by (rule bit_eqI) (simp add: bit_reverse)

text \<open>Clearing bits of an index moves its sentinel towards the front of the list.\<close>

lemma reverse_and_le: "ht_reverse_bits (a AND b) \<le> ht_reverse_bits a"
  by (simp add: reverse_and word_and_le2)

section \<open>The most significant bit\<close>

lemma and_high_mask: "(idx :: u32) AND push_bit k (- 1) = push_bit k (drop_bit k idx)"
  by (rule bit_eqI) (auto simp: bit_simps)

lemma unat_drop_bit: "unat (drop_bit k (idx :: u32)) = unat idx div 2 ^ k"
  unfolding unat_drop_bit_eq by (rule drop_bit_eq_div)

lemma drop_bit_zero_iff: "drop_bit k (idx :: u32) = 0 \<longleftrightarrow> unat idx < 2 ^ k"
proof -
  have "drop_bit k idx = 0 \<longleftrightarrow> unat (drop_bit k idx) = 0" by (simp only: unat_eq_0)
  also have "\<dots> \<longleftrightarrow> unat idx div 2 ^ k = 0" by (simp only: unat_drop_bit)
  finally show ?thesis by (simp add: div_eq_0_iff)
qed

lemma high_bits_zero_iff:
  assumes "k \<le> 32"
  shows "(idx :: u32) AND push_bit k (- 1) = 0 \<longleftrightarrow> unat idx < 2 ^ k"
proof -
  have "idx AND push_bit k (- 1) = 0 \<longleftrightarrow> drop_bit k idx = 0"
  proof
    assume z: "idx AND push_bit k (- 1) = 0"
    show "drop_bit k idx = 0"
    proof (rule bit_eqI)
      fix n
      have "\<not> bit (idx AND push_bit k (- 1)) (k + n)" using z by simp
      then show "bit (drop_bit k idx) n \<longleftrightarrow> bit (0 :: u32) n"
        by (auto simp: bit_simps and_high_mask dest: bit_imp_le_length)
    qed
  qed (simp only: and_high_mask push_bit_of_0)
  then show ?thesis by (simp only: drop_bit_zero_iff)
qed

text \<open>The loop stops at the first power of two above the index.\<close>

lemma msb_loop_spec:
  assumes "k \<le> s" and "s \<le> 32" and "unat idx < 2 ^ s" and "s = 0 \<or> 2 ^ (s - 1) \<le> unat idx"
  shows "msb_loop idx (push_bit k (- 1)) (of_nat k) = of_nat s"
  using assms
proof (induction "s - k" arbitrary: k)
  case 0
  then have "s = k" and z: "idx AND push_bit k (- 1) = 0" by (simp_all only: high_bits_zero_iff) auto
  show ?case unfolding \<open>s = k\<close> by (subst msb_loop.simps) (simp only: z if_False simp_thms)
next
  case (Suc n)
  then have k: "k < s" and kl: "k \<le> 32" by simp_all
  have "(2::nat) ^ k \<le> 2 ^ (s - 1)" using k by (intro power_increasing) auto
  moreover have "2 ^ (s - 1) \<le> unat idx" using Suc.prems(4) k by simp
  ultimately have ge: "\<not> unat idx < 2 ^ k" by linarith
  have "msb_loop idx (push_bit k (- 1)) (of_nat k)
          = msb_loop idx (push_bit 1 (push_bit k (- 1))) (of_nat k + 1)"
    using ge kl by (simp only: msb_loop.simps[of idx "push_bit k (- 1)"] high_bits_zero_iff if_True not_False_eq_True)
  also have "\<dots> = msb_loop idx (push_bit (Suc k) (- 1)) (of_nat (Suc k))"
    by (simp only: push_bit_push_bit) (simp add: add.commute)
  also have "\<dots> = of_nat s"
    using Suc.hyps(2) Suc.prems by (intro Suc.hyps(1)) auto
  finally show ?case .
qed

lemma msb_exists:
  assumes "(idx :: u32) \<noteq> 0"
  obtains s where "s < 32" "2 ^ s \<le> unat idx" "unat idx < 2 ^ Suc s"
proof -
  let ?P = "\<lambda>n. unat idx < 2 ^ n"
  define s where "s = (LEAST n. ?P n)"
  have P32: "?P 32" using unat_lt_2p[of idx] by simp
  have ps: "?P s" unfolding s_def by (rule LeastI[of ?P 32]) (rule P32)
  have le: "s \<le> 32" unfolding s_def by (rule Least_le) (rule P32)
  have "s \<noteq> 0"
  proof
    assume "s = 0"
    with ps have "unat idx = 0" by simp
    with assms show False by (simp add: unat_eq_0)
  qed
  then obtain r where r: "s = Suc r" by (cases s) auto
  have "\<not> ?P r" using not_less_Least[of r ?P] r unfolding s_def by simp
  then show ?thesis using that[of r] r ps le by simp
qed

lemma find_msb_0 [simp]: "ht_find_msb 0 = (0, 0)"
  by (simp add: ht_find_msb_def msb_loop.simps)

lemma drop_bit_msb:
  assumes "2 ^ s \<le> unat idx" and "unat idx < 2 ^ Suc s"
  shows "drop_bit s (idx :: u32) = 1"
proof -
  have "unat (drop_bit s idx) = 1"
    unfolding unat_drop_bit using assms by (intro div_nat_eqI) auto
  then show ?thesis by (simp only: word_unat_eq_iff unat_1)
qed

lemma find_msb_spec:
  assumes "s < 32" and "2 ^ s \<le> unat idx" and "unat idx < 2 ^ Suc s"
  shows "ht_find_msb idx = (push_bit s 1, of_nat s)"
proof -
  have "msb_loop idx (push_bit 0 (- 1)) (of_nat 0) = of_nat (Suc s)"
    using assms by (intro msb_loop_spec) auto
  then have loop: "msb_loop idx (- 1) 0 = of_nat (Suc s)" by simp
  have nz: "(of_nat (Suc s) :: u32) \<noteq> 0"
  proof
    assume "(of_nat (Suc s) :: u32) = 0"
    then have "unat (of_nat (Suc s) :: u32) = 0" by simp
    with assms(1) show False by (simp add: unat_of_nat del: of_nat_Suc)
  qed
  have sh: "(of_nat (Suc s) :: u32) - 1 = of_nat s" by simp
  have us: "unat (of_nat s :: u32) = s" using assms(1) by (simp add: unat_of_nat)
  have "drop_bit s idx = 1" using assms(2,3) by (rule drop_bit_msb)
  then have "idx AND push_bit s (- 1) = push_bit s 1" by (simp only: and_high_mask)
  then show ?thesis using loop nz sh us by (simp add: ht_find_msb_def Let_def)
qed

lemma find_msb_offset:
  assumes "s < 32" and "2 ^ s \<le> unat idx" and "unat idx < 2 ^ Suc s"
  shows "unat (idx AND NOT (push_bit s 1 :: u32)) = unat idx - 2 ^ s"
proof -
  have "idx AND NOT (push_bit s 1 :: u32) = take_bit s idx"
  proof (rule bit_eqI)
    fix k
    have "k \<le> s" if "bit idx k"
    proof (rule ccontr)
      assume "\<not> k \<le> s"
      then have "bit (drop_bit (Suc s) idx) (k - Suc s)"
        using that by (simp only: bit_drop_bit_eq o_def) simp
      moreover have "drop_bit (Suc s) idx = 0" using assms(3) by (simp only: drop_bit_zero_iff)
      ultimately show False by simp
    qed
    then show "bit (idx AND NOT (push_bit s 1 :: u32)) k \<longleftrightarrow> bit (take_bit s idx) k"
      using assms(1) by (auto simp: bit_simps dest: bit_imp_le_length)
  qed
  then have "unat (idx AND NOT (push_bit s 1 :: u32)) = unat idx mod 2 ^ s"
    by (simp only: unsigned_take_bit_eq) (simp only: take_bit_eq_mod)
  also have "\<dots> = unat idx - 2 ^ s"
    using assms(2,3) by (simp add: mod_if le_mod_geq)
  finally show ?thesis .
qed

end
