(* ===== verification/Ht_Table.thy ===== *)
theory Ht_Table
  imports Ht_Bits
begin

unbundle bit_operations_syntax

text \<open>
  The split-ordered hash table of \<^verbatim>\<open>lib/hashtable.c\<close>, run by one thread: its nodes live in an
  explicit heap, so that sharing between the list and the bucket arrays, unlinking and freeing
  are visible.  Every call takes the outcomes of its \<open>malloc\<close>s as an argument.
\<close>

section \<open>Data\<close>

datatype 'v ht_contents = HT_FREE | HT_REALLOC | HT_Value 'v | HT_Uninit

record 'v ht_node =
  nd_next :: addr
  nd_key :: "bytes option"
  nd_key_length :: u32
  nd_key_hash :: u32
  nd_contents :: "'v ht_contents"

type_synonym 'v ht_heap = "addr \<rightharpoonup> 'v ht_node"

text \<open>
  The table proper, with the heap its nodes live in.  \<open>ht_brk\<close> is the next address that was
  never handed out; \<open>ht_buckets\<close> has an entry for each of the 64 pointers of the array.
\<close>

record 'v ht_table =
  ht_heap :: "'v ht_heap"
  ht_brk :: addr
  ht_buckets :: "addr list option list"
  ht_element_count :: u32
  ht_bitlen :: u32
  ht_bitlen_internal :: u32
  ht_use_gc :: bool

datatype ht_status = HT_GOOD | HT_OOM | HT_DUPLICATE_KEY | HT_NOT_FOUND | HT_BADARGS

text \<open>
  The places where the code calls \<open>malloc\<close>.  An environment tells which calls succeed, and what
  the uninitialised \<open>key_length\<close> of a fresh node happens to hold.
\<close>

datatype ht_site =
    TableBlock | BucketsBlock | Bucket0Block | FirstNode | EndNode | SecondNode
  | SentinelNode | SpareNode | BucketBlock | StoreNode | KeyCopy

record ht_env =
  env_ok :: "ht_site \<Rightarrow> bool"
  env_junk :: u32

section \<open>Memory access\<close>

definition ht_node_at :: "'v ht_heap \<Rightarrow> addr \<Rightarrow> 'v ht_node res" where
  "ht_node_at h a =
     (if a = NULL then Fault NullDeref
      else case h a of None \<Rightarrow> Fault UseAfterFree | Some nd \<Rightarrow> Ok nd)"

text \<open>A node straight from \<open>malloc\<close>: nothing reads its link or its contents before they are set.\<close>

definition ht_fresh_node :: "ht_env \<Rightarrow> 'v ht_node" where
  "ht_fresh_node env =
     \<lparr>nd_next = NULL, nd_key = None, nd_key_length = env_junk env, nd_key_hash = 0,
      nd_contents = HT_Uninit\<rparr>"

definition ht_new_node :: "'v ht_node \<Rightarrow> 'v ht_table \<Rightarrow> 'v ht_table \<times> addr" where
  "ht_new_node nd t = (t\<lparr>ht_heap := (ht_heap t)(ht_brk t \<mapsto> nd), ht_brk := ht_brk t + 1\<rparr>, ht_brk t)"

definition ht_set_node :: "addr \<Rightarrow> 'v ht_node \<Rightarrow> 'v ht_table \<Rightarrow> 'v ht_table" where
  "ht_set_node a nd t = t\<lparr>ht_heap := (ht_heap t)(a \<mapsto> nd)\<rparr>"

text \<open>\<open>table->buckets[b][i]\<close>\<close>

definition ht_bucket :: "'v ht_table \<Rightarrow> u32 \<Rightarrow> u32 \<Rightarrow> addr res" where
  "ht_bucket t b i =
     (if length (ht_buckets t) \<le> unat b then Fault OutOfBounds
      else case ht_buckets t ! unat b of
        None \<Rightarrow> Fault NullDeref
      | Some as \<Rightarrow> (if unat i < length as then Ok (as ! unat i) else Fault OutOfBounds))"

definition ht_set_bucket :: "u32 \<Rightarrow> u32 \<Rightarrow> addr \<Rightarrow> 'v ht_table \<Rightarrow> 'v ht_table" where
  "ht_set_bucket b i a t =
     t\<lparr>ht_buckets := (ht_buckets t)
        [unat b := map_option (\<lambda>as. as[unat i := a]) (ht_buckets t ! unat b)]\<rparr>"

section \<open>Creation\<close>

text \<open>
  A null pointer is the result \<open>None\<close>.  When the second sentinel cannot be allocated the cleanup
  loop frees \<open>buckets[0]\<close> and then tests \<open>buckets[0][0]\<close> again.
\<close>

definition ht_init :: "ht_env \<Rightarrow> bool \<Rightarrow> 'v ht_table option res" where
  "ht_init env use_gc =
     (if \<not> env_ok env TableBlock then Ok None
      else if \<not> env_ok env BucketsBlock then Ok None
      else if \<not> env_ok env Bucket0Block then Ok None
      else if \<not> env_ok env FirstNode \<or> \<not> env_ok env EndNode then Ok None
      else if \<not> env_ok env SecondNode then Fault UseAfterFree
      else
        let node = 1; end_node = 2; node1 = 3;
            sentinel = (\<lambda>i next. (ht_fresh_node env)
              \<lparr>nd_next := next, nd_key := None, nd_contents := HT_FREE,
               nd_key_hash := NOT (drop_bit i (- 1))\<rparr>)
        in Ok (Some
          \<lparr>ht_heap = [node \<mapsto> sentinel 0 node1, node1 \<mapsto> sentinel 1 end_node,
             end_node \<mapsto> (ht_fresh_node env)
               \<lparr>nd_next := NULL, nd_key := None, nd_contents := HT_FREE, nd_key_hash := - 1\<rparr>],
           ht_brk = 4,
           ht_buckets = Some [node, node1] # replicate 63 None,
           ht_element_count = 0,
           ht_bitlen = 1,
           ht_bitlen_internal = 1,
           ht_use_gc = use_gc\<rparr>))"

section \<open>Lookup of a sentinel\<close>

text \<open>The parent search of the creating and of the reading caller.\<close>

partial_function (option) sentinel_parent_create :: "'v ht_table \<Rightarrow> u32 \<Rightarrow> u32 \<Rightarrow> addr run" where
  "sentinel_parent_create t offset_offset offset_parent =
     (let (oo, op) =
        (if offset_offset < 2 then (offset_offset, 0)
         else let (msb, op) = ht_find_msb offset_offset in (offset_offset AND NOT msb, op))
      in case ht_bucket t op oo of
           Inl e \<Rightarrow> faults e
         | Inr prev \<Rightarrow> (if prev = NULL then sentinel_parent_create t oo op else returns prev))"

declare sentinel_parent_create.simps [code]

partial_function (option) sentinel_parent_read :: "'v ht_table \<Rightarrow> u32 \<Rightarrow> addr \<Rightarrow> addr run" where
  "sentinel_parent_read t offset_offset prev =
     (if prev = NULL then
        let (msb, op) = ht_find_msb offset_offset; oo = offset_offset AND NOT msb
        in case ht_bucket t op oo of
             Inl e \<Rightarrow> faults e
           | Inr prev' \<Rightarrow> sentinel_parent_read t oo prev'
      else returns prev)"

declare sentinel_parent_read.simps [code]

text \<open>\<open>while (next->key_hash < hash) { prev = next; next = prev->next; }\<close>\<close>

partial_function (option) ht_skip :: "'v ht_heap \<Rightarrow> u32 \<Rightarrow> addr \<Rightarrow> addr \<Rightarrow> (addr \<times> addr) run" where
  "ht_skip h key_hash p n =
     (case ht_node_at h n of
        Inl e \<Rightarrow> faults e
      | Inr nd \<Rightarrow> (if nd_key_hash nd < key_hash then ht_skip h key_hash n (nd_next nd)
                   else returns (p, n)))"

declare ht_skip.simps [code]

text \<open>The index of the bucket entry a hash belongs to.\<close>

definition ht_bucket_index :: "'v ht_table \<Rightarrow> u32 \<Rightarrow> u32" where
  "ht_bucket_index t key_hash =
     ht_reverse_bits key_hash AND NOT (push_bit (unat (ht_bitlen t)) (NOT 0))"

text \<open>
  The creating call (\<open>create\<close> and \<open>new_node != NULL\<close>) returns the sentinel and the spare node, each
  of them null if there is none.  With one thread the compare-and-swaps find what was just read:
  the bucket entry is null and the predecessor's link is \<open>next\<close>.
\<close>

definition ht_get_sentinel_create ::
    "ht_env \<Rightarrow> 'v ht_table \<Rightarrow> u32 \<Rightarrow> ('v ht_table \<times> addr \<times> addr) run" where
  "ht_get_sentinel_create env t key_hash =
     (let idx = ht_bucket_index t key_hash;
          (parent, bucket_idx) = ht_find_msb idx;
          offset = idx AND NOT parent
      in bind_run (Some (ht_bucket t bucket_idx offset)) (\<lambda>entry.
         if entry \<noteq> NULL then returns (t, entry, NULL)
         else bind_run (sentinel_parent_create t offset 0) (\<lambda>prev.
           if \<not> env_ok env SentinelNode then returns (t, NULL, NULL)
           else
             let (t1, nnode) = ht_new_node (ht_fresh_node env) t
             in if \<not> env_ok env SpareNode then returns (t1, NULL, NULL)
             else
               let (t2, new_node) = ht_new_node ((ht_fresh_node env)\<lparr>nd_contents := HT_REALLOC\<rparr>) t1;
                   nn = (ht_fresh_node env)
                     \<lparr>nd_key := None, nd_key_hash := ht_reverse_bits idx, nd_next := prev\<rparr>;
                   t3 = ht_set_bucket bucket_idx offset nnode (ht_set_node nnode nn t2)
               in bind_run (Some (ht_node_at (ht_heap t3) prev)) (\<lambda>prev_nd.
                  if \<not> nd_key_hash prev_nd \<le> nd_key_hash nn then faults AssertFail
                  else bind_run (ht_skip (ht_heap t3) (nd_key_hash nn) prev (nd_next prev_nd))
                    (\<lambda>(prev', next).
                      let t4 = ht_set_node nnode (nn\<lparr>nd_next := next\<rparr>) t3
                      in bind_run (Some (ht_node_at (ht_heap t4) prev')) (\<lambda>pn.
                         returns (ht_set_node prev' (pn\<lparr>nd_next := nnode\<rparr>) t4, nnode, new_node)))))))"

text \<open>The reading call (\<open>create\<close> false, \<open>new_node\<close> null).\<close>

definition ht_get_sentinel_read :: "'v ht_table \<Rightarrow> u32 \<Rightarrow> addr run" where
  "ht_get_sentinel_read t key_hash =
     (let idx = ht_bucket_index t key_hash;
          (parent, bucket_idx) = ht_find_msb idx;
          offset = idx AND NOT parent
      in bind_run (Some (ht_bucket t bucket_idx offset)) (\<lambda>entry.
         if entry \<noteq> NULL then returns entry else sentinel_parent_read t offset entry))"

section \<open>Growth\<close>

text \<open>
  \<open>0\<close> on success and \<open>-1\<close> when the array cannot be allocated.  The last loop waits until
  \<open>bitlen\<close> is the old value, which is forever when it is not and nobody else runs.
\<close>

definition ht_resize :: "ht_env \<Rightarrow> 'v ht_table \<Rightarrow> ('v ht_table \<times> int) run" where
  "ht_resize env t =
     (let bitlen = ht_bitlen_internal t + 1
      in if 64 \<le> unat (bitlen - 1) then faults ShiftRange
      else let bucket_size = (2::nat) ^ unat (bitlen - 1)
      in if \<not> env_ok env BucketBlock then returns (t, - 1)
      else let t1 = t\<lparr>ht_bitlen_internal := bitlen,
                  ht_buckets := (ht_buckets t)[unat (bitlen - 1) := Some (replicate bucket_size NULL)]\<rparr>
      in if ht_bitlen t1 = bitlen - 1 then returns (t1\<lparr>ht_bitlen := bitlen\<rparr>, 0)
      else None)"

section \<open>Store, find, delete\<close>

text \<open>\<open>memcmp\<close> of a nonempty key with the null key of a sentinel is a fault.\<close>

definition ht_key_cmp :: "bytes option \<Rightarrow> u32 \<Rightarrow> 'v ht_node \<Rightarrow> bool res" where
  "ht_key_cmp key key_length node =
     (case key of
        None \<Rightarrow> Ok False
      | Some k \<Rightarrow>
          if key_length \<noteq> nd_key_length node then Ok False
          else if key_length = 0 then Ok True
          else case nd_key node of
            None \<Rightarrow> Fault NullDeref
          | Some k' \<Rightarrow>
              (if length k < unat key_length \<or> length k' < unat key_length then Fault OutOfBounds
               else Ok (take (unat key_length) k = take (unat key_length) k')))"

text \<open>
  \<open>while (n->key_hash == key_hash) { if (ht_key_cmp ..) ..; p = n; n = n->next; }\<close>: the last two
  positions, and whether the comparison ended the loop.
\<close>

partial_function (option) ht_scan ::
    "'v ht_heap \<Rightarrow> u32 \<Rightarrow> bytes option \<Rightarrow> u32 \<Rightarrow> addr \<Rightarrow> addr \<Rightarrow> (bool \<times> addr \<times> addr) run" where
  "ht_scan h key_hash key key_length p n =
     (case ht_node_at h n of
        Inl e \<Rightarrow> faults e
      | Inr nd \<Rightarrow>
          (if nd_key_hash nd = key_hash then
             (case ht_key_cmp key key_length nd of
                Inl e \<Rightarrow> faults e
              | Inr eq \<Rightarrow> (if eq then returns (True, p, n)
                          else ht_scan h key_hash key key_length n (nd_next nd)))
           else returns (False, p, n)))"

declare ht_scan.simps [code]

text \<open>\<open>key_copy\<close> is not tested before the \<open>memcpy\<close>.\<close>

definition ht_store_alloc_node ::
    "ht_env \<Rightarrow> 'v ht_table \<Rightarrow> addr \<Rightarrow> u32 \<Rightarrow> bytes option \<Rightarrow> u32 \<Rightarrow> 'v
       \<Rightarrow> ('v ht_table \<times> ht_status \<times> addr) res" where
  "ht_store_alloc_node env t new_node key_hash key key_length value =
     (if new_node = NULL \<and> \<not> env_ok env StoreNode then Ok (t, HT_OOM, NULL)
      else
        let (t1, nw) = (if new_node = NULL
                        then ht_new_node ((ht_fresh_node env)\<lparr>nd_contents := HT_FREE\<rparr>) t
                        else (t, new_node))
        in bind_res (ht_node_at (ht_heap t1) nw) (\<lambda>nd.
           if \<not> env_ok env KeyCopy then Fault NullDeref
           else case key of None \<Rightarrow> Fault NullDeref
           | Some k \<Rightarrow>
              (if length k < unat key_length then Fault OutOfBounds
               else Ok (ht_set_node nw
                 (nd\<lparr>nd_key := Some (take (unat key_length) k), nd_key_length := key_length,
                     nd_contents := HT_Value value, nd_key_hash := key_hash\<rparr>) t1, HT_GOOD, nw))))"

text \<open>
  \<open>ht_store\<close> from the lookup of the sentinel on.  The result is the new table, the status and the
  node whose contents \<open>*value\<close> points to.
\<close>

definition ht_store_insert ::
    "ht_env \<Rightarrow> 'v ht_table \<Rightarrow> u32 \<Rightarrow> bytes option \<Rightarrow> u32 \<Rightarrow> 'v
       \<Rightarrow> ('v ht_table \<times> ht_status \<times> addr) run" where
  "ht_store_insert env t key_hash key key_length value =
     bind_run (ht_get_sentinel_create env t key_hash) (\<lambda>(t2, op, new_node).
     if op = NULL then returns (t2, HT_OOM, NULL)
     else bind_run (Some (ht_node_at (ht_heap t2) op)) (\<lambda>op_nd.
     bind_run (ht_skip (ht_heap t2) key_hash op (nd_next op_nd)) (\<lambda>(p, n).
     bind_run (ht_scan (ht_heap t2) key_hash key key_length p n) (\<lambda>(found, p, n).
     if found then returns (t2, HT_DUPLICATE_KEY, n)
     else bind_run (Some (ht_store_alloc_node env t2 new_node key_hash key key_length value))
       (\<lambda>(t3, rval, nw).
     if rval \<noteq> HT_GOOD then returns (t3, rval, NULL)
     else bind_run (Some (ht_node_at (ht_heap t3) nw)) (\<lambda>nw_nd.
     let t4 = ht_set_node nw (nw_nd\<lparr>nd_next := n\<rparr>) t3
     in bind_run (Some (ht_node_at (ht_heap t4) p)) (\<lambda>p_nd.
     bind_run (Some (ht_node_at (ht_heap t4) n)) (\<lambda>n_nd.
     if \<not> (nd_key_hash p_nd \<le> key_hash \<and> key_hash \<le> nd_key_hash n_nd) then faults AssertFail
     else returns
       ((ht_set_node p (p_nd\<lparr>nd_next := nw\<rparr>) t4)\<lparr>ht_element_count := ht_element_count t4 + 1\<rparr>,
        HT_GOOD, nw)))))))))"

definition ht_store ::
    "ht_env \<Rightarrow> 'v ht_table \<Rightarrow> bytes option \<Rightarrow> u32 \<Rightarrow> 'v \<Rightarrow> ('v ht_table \<times> ht_status \<times> addr) run" where
  "ht_store env t key key_length value =
     (if key = None \<or> key_length = 0 then returns (t, HT_BADARGS, NULL)
      else if 31 \<le> unat (ht_bitlen t) then faults ShiftRange
      else bind_run
        (if ht_element_count t > push_bit (unat (ht_bitlen t)) 1 then ht_resize env t
         else returns (t, 0)) (\<lambda>(t1, rc).
      if rc \<noteq> 0 then returns (t1, HT_OOM, NULL)
      else bind_run (Some (ht_hash key key_length)) (\<lambda>key_hash.
      if key_hash = 0 then faults AssertFail
      else ht_store_insert env t1 key_hash key key_length value)))"

text \<open>The skipping loop of \<open>ht_find\<close> and \<open>ht_del\<close>, with its assertion.\<close>

partial_function (option) ht_skip_assert :: "'v ht_heap \<Rightarrow> u32 \<Rightarrow> addr \<Rightarrow> addr \<Rightarrow> (addr \<times> addr) run" where
  "ht_skip_assert h key_hash p n =
     (case ht_node_at h n of
        Inl e \<Rightarrow> faults e
      | Inr nd \<Rightarrow>
          (if nd_key_hash nd < key_hash then
             (case ht_node_at h (nd_next nd) of
                Inl e \<Rightarrow> faults e
              | Inr nd' \<Rightarrow> (if nd_key_hash nd \<le> nd_key_hash nd'
                            then ht_skip_assert h key_hash n (nd_next nd)
                            else faults AssertFail))
           else returns (p, n)))"

declare ht_skip_assert.simps [code]

definition ht_find :: "'v ht_table \<Rightarrow> bytes option \<Rightarrow> u32 \<Rightarrow> (ht_status \<times> addr) run" where
  "ht_find t key key_length =
     bind_run (Some (ht_hash key key_length)) (\<lambda>key_hash.
     bind_run (ht_get_sentinel_read t key_hash) (\<lambda>p.
     bind_run (Some (ht_node_at (ht_heap t) p)) (\<lambda>p_nd.
     bind_run (ht_skip_assert (ht_heap t) key_hash p (nd_next p_nd)) (\<lambda>(p, n).
     bind_run (ht_scan (ht_heap t) key_hash key key_length p n) (\<lambda>(found, p, n).
     if found then returns (HT_GOOD, n) else returns (HT_NOT_FOUND, NULL))))))"

text \<open>
  The two functions \<open>ht_del\<close> registers with the garbage collector for the unlinked node, named
  as in the source.
\<close>

datatype ht_gc_func = Ht_default_gc_free_func | Ht_gc_gc_free_func

text \<open>
  \<open>ht_del\<close> returns the status, the contents of the unlinked node, and the node passed to
  \<open>gc_free\<close> with the function that will free it; the node itself stays allocated.
\<close>

definition ht_del ::
    "'v ht_table \<Rightarrow> bytes option \<Rightarrow> u32
       \<Rightarrow> ('v ht_table \<times> ht_status \<times> ('v ht_contents \<times> addr \<times> ht_gc_func) option) run" where
  "ht_del t key key_length =
     bind_run (Some (ht_hash key key_length)) (\<lambda>key_hash.
     bind_run (ht_get_sentinel_read t key_hash) (\<lambda>sentinel.
     bind_run (Some (ht_node_at (ht_heap t) sentinel)) (\<lambda>s_nd.
     bind_run (ht_skip_assert (ht_heap t) key_hash sentinel (nd_next s_nd)) (\<lambda>(p, n).
     bind_run (ht_scan (ht_heap t) key_hash key key_length p n) (\<lambda>(found, p, n).
     if \<not> found then returns (t, HT_NOT_FOUND, None)
     else bind_run (Some (ht_node_at (ht_heap t) n)) (\<lambda>nd.
       bind_run (Some (ht_node_at (ht_heap t) p)) (\<lambda>p_nd.
       returns (ht_set_node p (p_nd\<lparr>nd_next := nd_next nd\<rparr>) t, HT_GOOD,
         Some (nd_contents nd, n,
           if ht_use_gc t then Ht_default_gc_free_func else Ht_gc_gc_free_func)))))))))"

end
