(* ===== verification/Ht_Chain.thy ===== *)
theory Ht_Chain
  imports Ht_Table
begin

text \<open>
  The list of the hash table as a path in the heap, and what its three search loops do on a path.
  A path is described by the addresses of its nodes and their payload; the \<open>nd_next\<close> field of a
  payload is not looked at, so that relinking leaves the description of the other nodes alone.
\<close>

type_synonym 'v ht_entry = "addr \<times> 'v ht_node"

fun ht_path :: "'v ht_heap \<Rightarrow> addr \<Rightarrow> 'v ht_entry list \<Rightarrow> addr \<Rightarrow> bool" where
  "ht_path h a [] z \<longleftrightarrow> a = z"
| "ht_path h a ((b, nd) # xs) z \<longleftrightarrow>
     a = b \<and> a \<noteq> NULL \<and> (\<exists>nx. h a = Some (nd\<lparr>nd_next := nx\<rparr>) \<and> ht_path h nx xs z)"

abbreviation en_hash :: "'v ht_entry \<Rightarrow> u32" where
  "en_hash x \<equiv> nd_key_hash (snd x)"

abbreviation en_key :: "'v ht_entry \<Rightarrow> bytes option" where
  "en_key x \<equiv> nd_key (snd x)"

lemma ht_path_append:
  "ht_path h a (xs @ ys) z \<longleftrightarrow> (\<exists>b. ht_path h a xs b \<and> ht_path h b ys z)"
  by (induction h a xs z rule: ht_path.induct) auto

lemma ht_path_upd [simp]:
  "b \<notin> fst ` set xs \<Longrightarrow> ht_path (h(b := nd)) a xs z = ht_path h a xs z"
  by (induction h a xs z rule: ht_path.induct) auto

lemma ht_path_node:
  assumes "ht_path h a xs z" and "(b, nd) \<in> set xs"
  shows "b \<noteq> NULL \<and> (\<exists>nx. h b = Some (nd\<lparr>nd_next := nx\<rparr>))"
  using assms by (induction h a xs z rule: ht_path.induct) auto

lemma ht_node_at_path:
  assumes "ht_path h a xs z" and "(b, nd) \<in> set xs"
  shows "\<exists>nx. ht_node_at h b = Ok (nd\<lparr>nd_next := nx\<rparr>)"
  using ht_path_node[OF assms] by (auto simp: ht_node_at_def)

text \<open>Changing the link of the last node of a path changes its end.\<close>

lemma ht_path_relink:
  assumes "ht_path h a (xs @ [(p, pn)]) z" and "p \<notin> fst ` set xs"
  shows "ht_path (h(p \<mapsto> pn\<lparr>nd_next := w\<rparr>)) a (xs @ [(p, pn)]) w"
  using assms by (auto simp: ht_path_append)

lemma ht_path_start:
  assumes "ht_path h a ((b, nd) # xs) z"
  obtains nx where "a = b" "ht_node_at h a = Ok (nd\<lparr>nd_next := nx\<rparr>)" "ht_path h nx xs z"
  using assms by (auto simp: ht_node_at_def)

section \<open>The search loops on a path\<close>

text \<open>Where a loop that started with predecessor \<open>p\<close> stands after the nodes \<open>us\<close>.\<close>

abbreviation ht_pred :: "addr \<Rightarrow> 'v ht_entry list \<Rightarrow> addr" where
  "ht_pred p us \<equiv> last (p # map fst us)"

lemma ht_skip_path:
  assumes "ht_path h n (us @ (b, nd) # vs) z"
    and "\<And>u. u \<in> set us \<Longrightarrow> en_hash u < kh" and "kh \<le> nd_key_hash nd"
  shows "ht_skip h kh p n = returns (ht_pred p us, b)"
  using assms
proof (induction us arbitrary: p n)
  case Nil
  then show ?case by (subst ht_skip.simps) (auto simp: ht_node_at_def)
next
  case (Cons u us)
  obtain c m where u: "u = (c, m)" by (cases u)
  from Cons.prems(1) obtain nx where "n = c" and at: "ht_node_at h n = Ok (m\<lparr>nd_next := nx\<rparr>)"
    and rest: "ht_path h nx (us @ (b, nd) # vs) z"
    unfolding u by (auto simp: ht_node_at_def)
  have "nd_key_hash m < kh" using Cons.prems(2)[of u] u by simp
  then have "ht_skip h kh p n = ht_skip h kh n nx"
    using at by (subst ht_skip.simps) simp
  also have "\<dots> = returns (ht_pred n us, b)"
    using Cons.prems(2,3) by (intro Cons.IH[OF rest]) auto
  finally show ?case using u \<open>n = c\<close> by simp
qed

lemma ht_skip_assert_path:
  assumes "ht_path h n (us @ (b, nd) # vs) z"
    and "\<And>u. u \<in> set us \<Longrightarrow> en_hash u < kh" and "kh \<le> nd_key_hash nd"
    and "sorted (map en_hash (us @ (b, nd) # vs))"
  shows "ht_skip_assert h kh p n = returns (ht_pred p us, b)"
  using assms
proof (induction us arbitrary: p n)
  case Nil
  then show ?case by (subst ht_skip_assert.simps) (auto simp: ht_node_at_def)
next
  case (Cons u us)
  obtain c m where u: "u = (c, m)" by (cases u)
  from Cons.prems(1) obtain nx where "n = c" and at: "ht_node_at h n = Ok (m\<lparr>nd_next := nx\<rparr>)"
    and rest: "ht_path h nx (us @ (b, nd) # vs) z"
    unfolding u by (auto simp: ht_node_at_def)
  obtain c' m' ys where hd: "us @ (b, nd) # vs = (c', m') # ys" by (cases us) auto
  obtain nx' where at': "ht_node_at h nx = Ok (m'\<lparr>nd_next := nx'\<rparr>)"
    using rest unfolding hd by (rule ht_path_start)
  have "nd_key_hash m \<le> nd_key_hash m'"
    using Cons.prems(4) unfolding u append_Cons hd by simp
  moreover have "nd_key_hash m < kh" using Cons.prems(2)[of u] u by simp
  ultimately have "ht_skip_assert h kh p n = ht_skip_assert h kh n nx"
    using at at' by (subst ht_skip_assert.simps) simp
  also have "\<dots> = returns (ht_pred n us, b)"
    using Cons.prems(2-4) by (intro Cons.IH[OF rest]) auto
  finally show ?case using u \<open>n = c\<close> by simp
qed

lemma ht_key_cmp_next [simp]:
  "ht_key_cmp key len (nd\<lparr>nd_next := nx\<rparr>) = ht_key_cmp key len nd"
  by (simp add: ht_key_cmp_def split: option.split)

lemma ht_scan_path:
  assumes "ht_path h n (us @ (b, nd) # vs) z"
    and "\<And>u. u \<in> set us \<Longrightarrow> en_hash u = kh \<and> ht_key_cmp key len (snd u) = Ok False"
    and "nd_key_hash nd \<noteq> kh \<and> \<not> found \<or>
         nd_key_hash nd = kh \<and> ht_key_cmp key len nd = Ok True \<and> found"
  shows "ht_scan h kh key len p n = returns (found, ht_pred p us, b)"
  using assms
proof (induction us arbitrary: p n)
  case Nil
  then show ?case by (subst ht_scan.simps) (auto simp: ht_node_at_def)
next
  case (Cons u us)
  obtain c m where u: "u = (c, m)" by (cases u)
  from Cons.prems(1) obtain nx where "n = c" and at: "ht_node_at h n = Ok (m\<lparr>nd_next := nx\<rparr>)"
    and rest: "ht_path h nx (us @ (b, nd) # vs) z"
    unfolding u by (auto simp: ht_node_at_def)
  have "nd_key_hash m = kh" and "ht_key_cmp key len m = Ok False"
    using Cons.prems(2)[of u] u by simp_all
  then have "ht_scan h kh key len p n = ht_scan h kh key len n nx"
    using at by (subst ht_scan.simps) simp
  also have "\<dots> = returns (found, ht_pred n us, b)"
    using Cons.prems(2,3) by (intro Cons.IH[OF rest]) auto
  finally show ?case using u \<open>n = c\<close> by simp
qed

end
