(* ===== verification/Ht_Inv.thy ===== *)
theory Ht_Inv
  imports Ht_Chain
begin

unbundle bit_operations_syntax

text \<open>
  The invariant of the hash table: one list of all nodes, sorted by hash with the sentinels of a
  hash before its data, ended by the node of hash \<open>0xFFFFFFFF\<close>; every bucket entry null or the
  sentinel of its index.  On it rest the search lemma (what the loops of \<open>ht_store\<close>, \<open>ht_find\<close>
  and \<open>ht_del\<close> return from any sentinel not after the key) and the lemmas for the bucket entries.
\<close>

section \<open>Definitions\<close>

abbreviation key_hash :: "bytes \<Rightarrow> u32" where
  "key_hash k \<equiv> hash_loop 5381 k"

text \<open>
  The keys the table is good for.  \<open>ht_key_cmp\<close> reads the \<open>key_length\<close> of sentinels, which no code
  sets; \<open>J\<close> holds the values found there.  A key whose hash can be that of a sentinel (an even one)
  must not have its length there.
\<close>

definition key_ok :: "u32 set \<Rightarrow> bytes \<Rightarrow> bool" where
  "key_ok J k \<longleftrightarrow> 0 < length k \<and> length k < 2 ^ 32 \<and> key_hash k \<noteq> 0 \<and> key_hash k \<noteq> - 1 \<and>
     (bit (key_hash k) 0 \<or> of_nat (length k) \<notin> J)"

text \<open>The place of a node in the list.\<close>

definition nd_ord :: "'v ht_node \<Rightarrow> nat" where
  "nd_ord nd = 2 * unat (nd_key_hash nd) + (if nd_key nd = None then 0 else 1)"

definition node_ok :: "u32 set \<Rightarrow> 'v ht_node \<Rightarrow> bool" where
  "node_ok J nd \<longleftrightarrow>
     (case nd_key nd of
        None \<Rightarrow> nd_key_length nd \<in> J \<and> (bit (nd_key_hash nd) 0 \<longrightarrow> nd_key_hash nd = - 1)
      | Some k \<Rightarrow> key_ok J k \<and> nd_key_length nd = of_nat (length k) \<and>
          nd_key_hash nd = key_hash k \<and> (\<exists>v. nd_contents nd = HT_Value v))"

definition list_ok :: "u32 set \<Rightarrow> 'v ht_entry list \<Rightarrow> bool" where
  "list_ok J xs \<longleftrightarrow>
     distinct (map fst xs) \<and> sorted (map (\<lambda>x. nd_ord (snd x)) xs) \<and>
     (\<forall>x\<in>set xs. node_ok J (snd x)) \<and>
     (\<forall>x\<in>set xs. \<forall>y\<in>set xs. en_key x = en_key y \<longrightarrow> en_key x \<noteq> None \<longrightarrow> x = y) \<and>
     (\<exists>x\<in>set xs. en_hash x = - 1) \<and>
     (\<forall>x\<in>set xs. en_hash x = - 1 \<longrightarrow> en_key x = None)"

definition bucket_base :: "nat \<Rightarrow> nat" where
  "bucket_base b = (if b = 0 then 0 else 2 ^ b)"

definition bucket_len :: "nat \<Rightarrow> nat" where
  "bucket_len b = (if b = 0 then 2 else 2 ^ b)"

text \<open>The sentinel of index \<open>j\<close>.\<close>

definition is_sentinel :: "'v ht_entry list \<Rightarrow> nat \<Rightarrow> addr \<Rightarrow> bool" where
  "is_sentinel xs j a \<longleftrightarrow>
     (\<exists>nd. (a, nd) \<in> set xs \<and> nd_key nd = None \<and> nd_key_hash nd = ht_reverse_bits (of_nat j))"

definition buckets_ok :: "addr list option list \<Rightarrow> nat \<Rightarrow> 'v ht_entry list \<Rightarrow> bool" where
  "buckets_ok bks bl xs \<longleftrightarrow>
     length bks = 64 \<and>
     (\<forall>b<bl. \<exists>as. bks ! b = Some as \<and> length as = bucket_len b \<and>
        (\<forall>i<bucket_len b. as ! i \<noteq> NULL \<longrightarrow> is_sentinel xs (bucket_base b + i) (as ! i))) \<and>
     (\<forall>as. bks ! 0 = Some as \<longrightarrow> as ! 0 \<noteq> NULL \<and> as ! 1 \<noteq> NULL)"

definition ht_inv :: "u32 set \<Rightarrow> 'v ht_table \<Rightarrow> 'v ht_entry list \<Rightarrow> bool" where
  "ht_inv J t xs \<longleftrightarrow>
     (\<exists>a. ht_bucket t 0 0 = Ok a \<and> ht_path (ht_heap t) a xs NULL) \<and>
     list_ok J xs \<and>
     buckets_ok (ht_buckets t) (unat (ht_bitlen t)) xs \<and>
     ht_bitlen_internal t = ht_bitlen t \<and>
     1 \<le> unat (ht_bitlen t) \<and> unat (ht_bitlen t) \<le> 31 \<and>
     0 < ht_brk t \<and> (\<forall>a\<ge>ht_brk t. ht_heap t a = None)"

text \<open>The finite map a list of nodes stands for.\<close>

definition list_map :: "'v ht_entry list \<Rightarrow> (bytes \<rightharpoonup> 'v) \<Rightarrow> bool" where
  "list_map xs m \<longleftrightarrow>
     (\<forall>k v. m k = Some v \<longleftrightarrow> (\<exists>x\<in>set xs. en_key x = Some k \<and> nd_contents (snd x) = HT_Value v))"

definition ht_rep :: "u32 set \<Rightarrow> 'v ht_table \<Rightarrow> (bytes \<rightharpoonup> 'v) \<Rightarrow> bool" where
  "ht_rep J t m \<longleftrightarrow> (\<exists>xs. ht_inv J t xs \<and> list_map xs m)"

section \<open>The order of the list\<close>

lemma nd_ord_hash_mono: "nd_ord a \<le> nd_ord b \<Longrightarrow> nd_key_hash a \<le> nd_key_hash b"
  by (auto simp: nd_ord_def word_le_nat_alt split: if_splits)

lemma nd_ord_mono_hash: "nd_key_hash a < nd_key_hash b \<Longrightarrow> nd_ord a \<le> nd_ord b"
  by (auto simp: nd_ord_def word_less_nat_alt)

lemma list_ok_sorted_hash:
  assumes "list_ok J xs"
  shows "sorted (map en_hash xs)"
proof -
  have "sorted_wrt (\<lambda>x y. nd_ord (snd x) \<le> nd_ord (snd y)) xs"
    using assms by (simp add: list_ok_def sorted_map)
  then have "sorted_wrt (\<lambda>x y. en_hash x \<le> en_hash y) xs"
    by (rule sorted_wrt_mono_rel[rotated]) (rule nd_ord_hash_mono)
  then show ?thesis by (simp add: sorted_map)
qed

lemma minus_one_top: "(x :: u32) \<noteq> - 1 \<Longrightarrow> x < - 1"
  by (metis word_order.not_eq_extremum)

lemma ht_pred_append: "ht_pred (ht_pred s us) ms = ht_pred s (us @ ms)"
  by (cases ms rule: rev_cases) auto

section \<open>Comparing a key with the nodes of its hash\<close>

lemma key_cmp_other:
  assumes ok: "node_ok J nd" "key_ok J k"
    and k: "unat len \<le> length s" "k = take (unat len) s"
    and h: "nd_key_hash nd = key_hash k" and ne: "nd_key nd \<noteq> Some k"
  shows "ht_key_cmp (Some s) len nd = Ok False"
proof -
  have lk: "length k = unat len" using k by simp
  show ?thesis
  proof (cases "nd_key nd")
    case None
    have "nd_key_hash nd \<noteq> - 1" using h ok(2) by (simp add: key_ok_def)
    then have "\<not> bit (key_hash k) 0" and "nd_key_length nd \<in> J"
      using ok(1) None h by (auto simp: node_ok_def)
    then have "of_nat (length k) \<notin> J" using ok(2) by (simp add: key_ok_def)
    then have "len \<noteq> nd_key_length nd" using \<open>nd_key_length nd \<in> J\<close> lk by auto
    then show ?thesis by (simp add: ht_key_cmp_def)
  next
    case (Some k')
    then have l': "nd_key_length nd = of_nat (length k')" and "length k' < 2 ^ 32"
      using ok(1) by (auto simp: node_ok_def key_ok_def)
    show ?thesis
    proof (cases "len = nd_key_length nd")
      case True
      then have "unat len = length k'" using l' \<open>length k' < 2 ^ 32\<close> by (simp add: unat_of_nat)
      moreover have "len \<noteq> 0" using ok(2) lk by (auto simp: key_ok_def)
      ultimately show ?thesis
        using True Some ne k by (simp add: ht_key_cmp_def)
    qed (simp add: ht_key_cmp_def)
  qed
qed

lemma key_cmp_same:
  assumes ok: "node_ok J nd" and k: "unat len \<le> length s" "k = take (unat len) s"
    and key: "nd_key nd = Some k"
  shows "ht_key_cmp (Some s) len nd = Ok True"
proof -
  have "length k = unat len" using k by simp
  moreover have "nd_key_length nd = of_nat (length k)" using ok key by (simp add: node_ok_def)
  ultimately show ?thesis using key k by (auto simp: ht_key_cmp_def)
qed

section \<open>The search\<close>

text \<open>How the nodes after a sentinel fall apart into smaller hashes, misses, and the rest.\<close>

lemma search_split:
  assumes lo: "list_ok J xs" and xs: "xs = A @ (s, sn) # B"
    and sn: "nd_key sn = None" "nd_key_hash sn \<le> key_hash k" and k: "key_ok J k"
  obtains us ms b nd vs where "B = us @ ms @ (b, nd) # vs"
    and "\<forall>x\<in>set us. en_hash x < key_hash k"
    and "\<forall>x\<in>set ms. en_hash x = key_hash k \<and> en_key x \<noteq> Some k"
    and "nd_key_hash nd = key_hash k \<and> nd_key nd = Some k \<or>
         key_hash k < nd_key_hash nd \<and> (\<forall>x\<in>set xs. en_key x \<noteq> Some k)"
proof -
  let ?kh = "key_hash k"
  let ?P = "\<lambda>x. en_hash x < ?kh \<or> en_hash x = ?kh \<and> en_key x \<noteq> Some k"
  let ?T = "takeWhile ?P B"
  have kh: "?kh \<noteq> - 1" using k by (simp add: key_ok_def)
  have srt: "sorted (map en_hash xs)" using lo by (rule list_ok_sorted_hash)
  then have srtB: "sorted (map en_hash B)"
    and leA': "\<forall>x\<in>set A. en_hash x \<le> nd_key_hash sn"
    unfolding xs by (auto simp: sorted_append)
  have ordA: "\<forall>x\<in>set A. nd_ord (snd x) \<le> nd_ord sn"
    using lo unfolding list_ok_def xs by (auto simp: sorted_append)
  obtain e where e: "e \<in> set xs" "en_hash e = - 1" using lo by (auto simp: list_ok_def)
  have "e \<in> set B"
  proof -
    have "\<not> en_hash e \<le> nd_key_hash sn"
      using e(2) sn(2) minus_one_top[OF kh] by (simp del: word_order.extremum)
    then have "e \<notin> set A" and "e \<noteq> (s, sn)" using leA' by auto
    then show ?thesis using e(1) xs by auto
  qed
  moreover have "\<not> ?P e" using e(2) kh minus_one_top[OF kh] by auto
  ultimately have "dropWhile ?P B \<noteq> []" by (auto simp: dropWhile_eq_Nil_conv)
  then obtain x vs where dw: "dropWhile ?P B = x # vs" by (cases "dropWhile ?P B") auto
  obtain b nd where x: "x = (b, nd)" by (cases x)
  have nP: "\<not> ?P x" using hd_dropWhile[of ?P B] dw by auto
  define us ms where us_def: "us = takeWhile (\<lambda>x. en_hash x < ?kh) ?T"
    and ms_def: "ms = dropWhile (\<lambda>x. en_hash x < ?kh) ?T"
  have B: "B = us @ ms @ (b, nd) # vs"
    using takeWhile_dropWhile_id[of ?P B]
    unfolding dw x us_def ms_def append_assoc[symmetric] takeWhile_dropWhile_id by (rule sym)
  have srt_ms: "sorted (map en_hash ms)" and srt_vs: "sorted (map en_hash ((b, nd) # vs))"
    using srtB unfolding B map_append sorted_append by blast+
  have PT: "\<forall>x\<in>set ?T. ?P x" by (auto dest: set_takeWhileD)
  have us: "\<forall>x\<in>set us. en_hash x < ?kh" by (auto simp: us_def dest: set_takeWhileD)
  have ms: "\<forall>x\<in>set ms. en_hash x = ?kh \<and> en_key x \<noteq> Some k"
  proof (cases ms)
    case (Cons y ys)
    have "\<not> en_hash y < ?kh" using Cons unfolding ms_def dropWhile_eq_Cons_conv by blast
    then have "\<forall>x\<in>set ms. ?kh \<le> en_hash x" using srt_ms unfolding Cons by (auto simp: not_less)
    moreover have "\<forall>x\<in>set ms. ?P x" using PT by (auto simp: ms_def dest: set_dropWhileD)
    ultimately show ?thesis using leD by blast
  qed simp
  have "nd_key_hash nd = ?kh \<and> nd_key nd = Some k \<or>
        ?kh < nd_key_hash nd \<and> (\<forall>x\<in>set xs. en_key x \<noteq> Some k)"
  proof (cases "nd_key_hash nd = ?kh")
    case True
    then show ?thesis using nP x by simp
  next
    case False
    then have gt: "?kh < nd_key_hash nd" using nP x by auto
    have "en_key y \<noteq> Some k" if y: "y \<in> set xs" for y
    proof
      assume key: "en_key y = Some k"
      have hy: "en_hash y = ?kh" using lo y key by (auto simp: list_ok_def node_ok_def)
      have "y \<notin> set A"
      proof
        assume "y \<in> set A"
        then have "nd_ord (snd y) \<le> nd_ord sn" using ordA by blast
        then show False using sn hy key by (auto simp: nd_ord_def word_le_nat_alt)
      qed
      moreover have "y \<noteq> (s, sn)" using key sn(1) by auto
      moreover have "y \<notin> set us" using us hy by auto
      moreover have "y \<notin> set ms" using ms key by auto
      moreover have "y \<notin> set ((b, nd) # vs)"
      proof
        assume "y \<in> set ((b, nd) # vs)"
        then have "nd_key_hash nd \<le> en_hash y" using srt_vs by auto
        then show False using gt hy by simp
      qed
      moreover have "set xs = set A \<union> {(s, sn)} \<union> set us \<union> set ms \<union> set ((b, nd) # vs)"
        unfolding xs B by auto
      ultimately show False using y by blast
    qed
    then show ?thesis using gt by blast
  qed
  then show ?thesis using that[OF B us ms] by blast
qed

text \<open>
  What the two loops of \<open>ht_store\<close>, \<open>ht_find\<close> and \<open>ht_del\<close> return when they start at a sentinel
  \<open>a\<close>: whether the key was found, and the last two nodes looked at.
\<close>

definition search_result ::
    "'v ht_heap \<Rightarrow> addr \<Rightarrow> bytes option \<Rightarrow> u32 \<Rightarrow> u32 \<Rightarrow> bool \<Rightarrow> addr \<Rightarrow> addr \<Rightarrow> bool" where
  "search_result h a key len kh found p n \<longleftrightarrow>
     (\<exists>nd p1 n1. ht_node_at h a = Ok nd \<and>
        ht_skip h kh a (nd_next nd) = returns (p1, n1) \<and>
        ht_skip_assert h kh a (nd_next nd) = returns (p1, n1) \<and>
        ht_scan h kh key len p1 n1 = returns (found, p, n))"

lemma ht_search:
  assumes path: "ht_path h a xs NULL" and lo: "list_ok J xs"
    and s: "(s, sn) \<in> set xs" "nd_key sn = None" "nd_key_hash sn \<le> key_hash k"
    and k: "key_ok J k" "unat len \<le> length str" "k = take (unat len) str"
  obtains found ps p pn b nd vs where "xs = ps @ (p, pn) # (b, nd) # vs"
    and "search_result h s (Some str) len (key_hash k) found p b"
    and "nd_key_hash pn \<le> key_hash k" and "key_hash k \<le> nd_key_hash nd"
    and "found \<longrightarrow> nd_key nd = Some k"
    and "\<not> found \<longrightarrow> key_hash k < nd_key_hash nd \<and> (\<forall>x\<in>set xs. en_key x \<noteq> Some k)"
proof -
  obtain A B where xs: "xs = A @ (s, sn) # B" using s(1) by (meson split_list)
  obtain us ms b nd vs where B: "B = us @ ms @ (b, nd) # vs"
    and us: "\<forall>x\<in>set us. en_hash x < key_hash k"
    and ms: "\<forall>x\<in>set ms. en_hash x = key_hash k \<and> en_key x \<noteq> Some k"
    and nd: "nd_key_hash nd = key_hash k \<and> nd_key nd = Some k \<or>
         key_hash k < nd_key_hash nd \<and> (\<forall>x\<in>set xs. en_key x \<noteq> Some k)"
    by (rule search_split[OF lo xs s(2,3) k(1)])
  let ?found = "nd_key nd = Some k"
  have all_ok: "\<forall>x\<in>set xs. node_ok J (snd x)" using lo by (simp add: list_ok_def)
  obtain nx where at: "ht_node_at h s = Ok (sn\<lparr>nd_next := nx\<rparr>)"
    and pB: "ht_path h nx B NULL"
    using path unfolding xs by (auto simp: ht_path_append ht_node_at_def)
  obtain c cn ds where hd: "ms @ (b, nd) # vs = (c, cn) # ds" by (cases ms) auto
  have hc: "key_hash k \<le> nd_key_hash cn"
    using ms nd hd by (cases ms) auto
  have srtB: "sorted (map en_hash B)"
    using list_ok_sorted_hash[OF lo] unfolding xs by (simp add: sorted_append)
  have pB': "ht_path h nx (us @ (c, cn) # ds) NULL" using pB B hd by simp
  have skip: "ht_skip h (key_hash k) s nx = returns (ht_pred s us, c)"
    using us hc by (intro ht_skip_path[OF pB']) auto
  have skipa: "ht_skip_assert h (key_hash k) s nx = returns (ht_pred s us, c)"
    using us hc srtB B hd by (intro ht_skip_assert_path[OF pB']) auto
  have pc: "ht_path h c (ms @ (b, nd) # vs) NULL"
    using pB' hd by (auto simp: ht_path_append)
  have misses: "en_hash u = key_hash k \<and> ht_key_cmp (Some str) len (snd u) = Ok False"
    if "u \<in> set ms" for u
  proof -
    have "node_ok J (snd u)" using that all_ok unfolding xs B by auto
    then show ?thesis using that ms key_cmp_other[OF _ k(1,2,3)] by blast
  qed
  have hit: "nd_key_hash nd \<noteq> key_hash k \<and> \<not> ?found \<or>
      nd_key_hash nd = key_hash k \<and> ht_key_cmp (Some str) len nd = Ok True \<and> ?found"
  proof -
    have "node_ok J nd" and "(b, nd) \<in> set xs" using all_ok unfolding xs B by auto
    then show ?thesis using nd key_cmp_same[OF _ k(2,3)] by fastforce
  qed
  have scan: "ht_scan h (key_hash k) (Some str) len (ht_pred s us) c
      = returns (?found, ht_pred (ht_pred s us) ms, b)"
    by (rule ht_scan_path[OF pc misses hit])
  obtain ps p pn where last: "A @ (s, sn) # us @ ms = ps @ [(p, pn)]"
    by (metis append_is_Nil_conv list.distinct(1) rev_exhaust surj_pair)
  have p: "ht_pred s (us @ ms) = p"
  proof -
    have "last (map fst (A @ (s, sn) # us @ ms)) = p" unfolding last by simp
    then show ?thesis by (simp add: last_append)
  qed
  have res: "search_result h s (Some str) len (key_hash k) ?found p b"
    unfolding search_result_def using at skip skipa scan p ht_pred_append[of s us ms] by auto
  have dec: "xs = ps @ (p, pn) # (b, nd) # vs"
  proof -
    have "xs = (A @ (s, sn) # us @ ms) @ (b, nd) # vs" unfolding xs B by simp
    then show ?thesis unfolding last by simp
  qed
  have hp: "nd_key_hash pn \<le> key_hash k"
  proof -
    have "(p, pn) \<in> set ((s, sn) # us @ ms)"
    proof -
      have "(p, pn) = last ((s, sn) # us @ ms)"
        using last by (metis append_is_Nil_conv last_append last_snoc list.distinct(1))
      then show ?thesis by (metis last_in_set list.distinct(1))
    qed
    then show ?thesis using s(3) us ms by (auto intro: less_imp_le)
  qed
  have hn: "key_hash k \<le> nd_key_hash nd" using nd by auto
  have nf: "\<not> ?found \<longrightarrow> key_hash k < nd_key_hash nd \<and> (\<forall>x\<in>set xs. en_key x \<noteq> Some k)"
    using nd by blast
  show ?thesis using that[OF dec res hp hn _ nf] by blast
qed

end
