(* ===== verification/Ht_Update.thy ===== *)
theory Ht_Update
  imports Ht_Inv
begin

text \<open>
  Editing the list of the hash table: allocating a node, linking it behind another one, unlinking a
  node; what each does to the path, to the order of the list and to the map it stands for.
\<close>

section \<open>The path\<close>

lemma ht_path_fresh:
  assumes "ht_path h a xs z" and "\<And>b. b \<ge> brk \<Longrightarrow> h b = None" and "b \<in> fst ` set xs"
  shows "b < brk"
proof (rule ccontr)
  assume "\<not> b < brk"
  then have "h b = None" using assms(2) by simp
  moreover obtain nd where "(b, nd) \<in> set xs" using assms(3) by auto
  ultimately show False using ht_path_node[OF assms(1)] by force
qed

lemma ht_path_link:
  assumes "ht_path h a (ps @ (p, pn) # ys) z" and "distinct (map fst (ps @ (p, pn) # ys))"
    and "w \<noteq> NULL" and "w \<notin> fst ` set (ps @ (p, pn) # ys)"
    and "h p = Some (pn\<lparr>nd_next := b\<rparr>)" and "h w = Some (wn\<lparr>nd_next := b\<rparr>)"
  shows "ht_path (h(p \<mapsto> pn\<lparr>nd_next := w\<rparr>)) a (ps @ (p, pn) # (w, wn) # ys) z"
proof -
  obtain nx where ps: "ht_path h a ps p" "p \<noteq> NULL" "h p = Some (pn\<lparr>nd_next := nx\<rparr>)"
    and ys: "ht_path h nx ys z"
    using assms(1) by (auto simp: ht_path_append)
  have "pn\<lparr>nd_next := nx\<rparr> = pn\<lparr>nd_next := b\<rparr>" using ps(3) assms(5) by simp
  then have "nd_next (pn\<lparr>nd_next := nx\<rparr>) = nd_next (pn\<lparr>nd_next := b\<rparr>)" by (rule arg_cong)
  then have "nx = b" by simp
  then show ?thesis
    using ps ys assms(2-6) by (auto simp: ht_path_append)
qed

lemma ht_path_unlink:
  assumes "ht_path h a (ps @ (p, pn) # (b, nd) # ys) z"
    and "distinct (map fst (ps @ (p, pn) # (b, nd) # ys))"
    and "h b = Some (nd\<lparr>nd_next := nx\<rparr>)"
  shows "ht_path (h(p \<mapsto> pn\<lparr>nd_next := nx\<rparr>)) a (ps @ (p, pn) # ys) z"
proof -
  obtain nx' where nx': "h b = Some (nd\<lparr>nd_next := nx'\<rparr>)" "ht_path h nx' ys z"
    and ps: "ht_path h a ps p" "p \<noteq> NULL"
    using assms(1) by (auto simp: ht_path_append)
  have "nd_next (nd\<lparr>nd_next := nx'\<rparr>) = nd_next (nd\<lparr>nd_next := nx\<rparr>)" using nx'(1) assms(3) by simp
  then have "nx' = nx" by simp
  then show ?thesis
    using ps nx' assms(2) by (auto simp: ht_path_append)
qed

section \<open>The order\<close>

lemma list_ok_insert:
  assumes lo: "list_ok J (ps @ (p, pn) # (b, nd) # ys)" (is "list_ok J ?xs")
    and w: "w \<notin> fst ` set (ps @ (p, pn) # (b, nd) # ys)" and ok: "node_ok J wn"
    and ord: "nd_ord pn \<le> nd_ord wn" "nd_ord wn \<le> nd_ord nd"
    and key: "nd_key wn = None \<or> (\<forall>x\<in>set (ps @ (p, pn) # (b, nd) # ys). en_key x \<noteq> nd_key wn)"
    and top: "nd_key_hash wn \<noteq> - 1"
  shows "list_ok J (ps @ (p, pn) # (w, wn) # (b, nd) # ys)" (is "list_ok J ?zs")
proof -
  have set: "set ?zs = insert (w, wn) (set ?xs)" by auto
  have d: "distinct (map fst ?zs)" using lo w by (auto simp: list_ok_def)
  have s: "sorted (map (\<lambda>x. nd_ord (snd x)) ?zs)"
  proof -
    have srt: "sorted (map (\<lambda>x. nd_ord (snd x)) ?xs)" using lo by (simp add: list_ok_def)
    then have le: "\<forall>x\<in>set ps. nd_ord (snd x) \<le> nd_ord wn" "\<forall>y\<in>set ys. nd_ord wn \<le> nd_ord (snd y)"
      using ord by (auto simp: sorted_append dest!: bspec)
    show ?thesis using srt le ord by (auto simp: sorted_append)
  qed
  have n: "\<forall>x\<in>set ?zs. node_ok J (snd x)" using lo ok unfolding set by (auto simp: list_ok_def)
  have k: "\<forall>x\<in>set ?zs. \<forall>y\<in>set ?zs. en_key x = en_key y \<longrightarrow> en_key x \<noteq> None \<longrightarrow> x = y"
  proof (intro ballI impI)
    fix x y
    assume xy: "x \<in> set ?zs" "y \<in> set ?zs" "en_key x = en_key y" "en_key x \<noteq> None"
    have old: "\<forall>x\<in>set ?xs. \<forall>y\<in>set ?xs. en_key x = en_key y \<longrightarrow> en_key x \<noteq> None \<longrightarrow> x = y"
      using lo unfolding list_ok_def by blast
    consider "x = (w, wn)" "y = (w, wn)" | "x = (w, wn)" "y \<in> set ?xs" | "x \<in> set ?xs" "y = (w, wn)"
      | "x \<in> set ?xs" "y \<in> set ?xs"
      using xy(1,2) unfolding set by blast
    then show "x = y"
    proof cases
      case 2
      then show ?thesis using key xy(3,4) by (metis snd_conv)
    next
      case 3
      then show ?thesis using key xy(3,4) by (metis snd_conv)
    next
      case 4
      then show ?thesis using old xy(3,4) by blast
    qed simp
  qed
  have e: "\<exists>x\<in>set ?zs. en_hash x = - 1" using lo unfolding set list_ok_def by blast
  have t: "\<forall>x\<in>set ?zs. en_hash x = - 1 \<longrightarrow> en_key x = None"
    using lo top unfolding set list_ok_def by (metis insertE snd_conv)
  show ?thesis unfolding list_ok_def using d s n k e t by blast
qed

lemma list_ok_remove:
  assumes lo: "list_ok J (ps @ (b, nd) # ys)" (is "list_ok J ?xs") and "nd_key nd \<noteq> None"
  shows "list_ok J (ps @ ys)" (is "list_ok J ?zs")
proof -
  have set: "set ?zs \<subseteq> set ?xs" by auto
  have d: "distinct (map fst ?zs)" using lo by (auto simp: list_ok_def)
  have s: "sorted (map (\<lambda>x. nd_ord (snd x)) ?zs)" using lo by (auto simp: list_ok_def sorted_append)
  have "nd_key_hash nd \<noteq> - 1" using lo assms(2) by (auto simp: list_ok_def)
  then have e: "\<exists>x\<in>set ?zs. en_hash x = - 1" using lo by (auto simp: list_ok_def)
  show ?thesis unfolding list_ok_def
    using d s e lo[unfolded list_ok_def] set by blast
qed

section \<open>The map\<close>

lemma list_map_sentinel:
  assumes "list_map (ps @ qs) m" and "nd_key wn = None"
  shows "list_map (ps @ (w, wn) # qs) m"
  using assms by (auto simp: list_map_def)

lemma list_map_insert:
  assumes "list_map (ps @ qs) m" and "\<forall>x\<in>set (ps @ qs). en_key x \<noteq> Some k"
    and "nd_key wn = Some k" and "nd_contents wn = HT_Value v"
  shows "list_map (ps @ (w, wn) # qs) (m(k \<mapsto> v))"
  unfolding list_map_def
proof (intro allI)
  fix k' v'
  show "(m(k \<mapsto> v)) k' = Some v' \<longleftrightarrow>
      (\<exists>x\<in>set (ps @ (w, wn) # qs). en_key x = Some k' \<and> nd_contents (snd x) = HT_Value v')"
  proof (cases "k' = k")
    case True
    then show ?thesis using assms(2-4) by auto
  next
    case False
    then show ?thesis using assms(1,3) by (auto simp: list_map_def)
  qed
qed

lemma list_map_remove:
  assumes "list_map (ps @ (b, nd) # qs) m" and "list_ok J (ps @ (b, nd) # qs)"
    and "nd_key nd = Some k"
  shows "list_map (ps @ qs) (m(k := None))"
  unfolding list_map_def
proof (intro allI)
  fix k' v'
  have uniq: "en_key x \<noteq> Some k" if "x \<in> set (ps @ qs)" for x
  proof
    assume "en_key x = Some k"
    then have "x = (b, nd)" using that assms(2,3) unfolding list_ok_def by auto
    then have "b \<in> fst ` set (ps @ qs)" using that by force
    then show False using assms(2) by (auto simp: list_ok_def)
  qed
  show "(m(k := None)) k' = Some v' \<longleftrightarrow>
      (\<exists>x\<in>set (ps @ qs). en_key x = Some k' \<and> nd_contents (snd x) = HT_Value v')"
  proof (cases "k' = k")
    case True
    then show ?thesis using uniq by auto
  next
    case False
    then show ?thesis using assms(1,3) by (auto simp: list_map_def)
  qed
qed

lemma list_map_absent:
  assumes "list_map xs m" and "\<forall>x\<in>set xs. en_key x \<noteq> Some k"
  shows "m k = None"
  using assms by (cases "m k") (auto simp: list_map_def)

lemma list_map_present:
  assumes "list_map xs m" and "list_ok J xs" and "x \<in> set xs" and "en_key x = Some k"
  shows "\<exists>v. m k = Some v \<and> nd_contents (snd x) = HT_Value v"
proof -
  have "\<exists>v. nd_contents (snd x) = HT_Value v"
    using assms(2-4) by (auto simp: list_ok_def node_ok_def)
  then show ?thesis using assms(1,3,4) by (auto simp: list_map_def)
qed

section \<open>Bucket arrays\<close>

lemma is_sentinel_mono: "set xs \<subseteq> set ys \<Longrightarrow> is_sentinel xs j a \<Longrightarrow> is_sentinel ys j a"
  by (auto simp: is_sentinel_def)

lemma buckets_ok_mono:
  "buckets_ok bks bl xs \<Longrightarrow> (\<And>j a. is_sentinel xs j a \<Longrightarrow> is_sentinel ys j a) \<Longrightarrow> buckets_ok bks bl ys"
  unfolding buckets_ok_def by meson

lemma is_sentinel_remove:
  "is_sentinel (ps @ (b, nd) # ys) j a \<Longrightarrow> nd_key nd \<noteq> None \<Longrightarrow> is_sentinel (ps @ ys) j a"
  by (auto simp: is_sentinel_def)

end
