(* ===== verification/Ht_Sentinel.thy ===== *)
theory Ht_Sentinel
  imports Ht_Update
begin

unbundle bit_operations_syntax

text \<open>
  The bucket arrays of the hash table: which entry an index selects, that the parent searches end
  at a sentinel that is not after the key, and that \<open>ht_get_sentinel\<close> and \<open>ht_resize\<close> keep the
  invariant and the map.
\<close>

section \<open>Indices\<close>

lemma index_split:
  assumes "unat idx < 2 ^ bl" and "1 \<le> bl"
  obtains parent b where "ht_find_msb idx = (parent, b)"
    and "unat idx < 2 \<and> b = 0 \<and> idx AND NOT parent = 0 \<or>
         2 \<le> unat idx \<and> 1 \<le> unat b \<and> unat b < bl \<and> unat (idx AND NOT parent) < 2 ^ unat b \<and>
         2 ^ unat b + unat (idx AND NOT parent) = unat idx"
proof (cases "idx = 0")
  case True
  then show ?thesis using that[of 0 0] by simp
next
  case False
  obtain s where s: "s < 32" "2 ^ s \<le> unat idx" "unat idx < 2 ^ Suc s"
    by (rule msb_exists[OF False])
  have us: "unat (of_nat s :: u32) = s" using s(1) by (simp add: unat_of_nat)
  have off: "unat (idx AND NOT (push_bit s 1 :: u32)) = unat idx - 2 ^ s"
    by (rule find_msb_offset[OF s])
  show ?thesis
  proof (cases "s = 0")
    case True
    have "unat (idx AND NOT (push_bit s 1 :: u32)) = 0" unfolding off using s True by simp
    then have "idx AND NOT (push_bit s 1 :: u32) = 0" by (simp only: unat_eq_0)
    then show ?thesis using that[OF find_msb_spec[OF s]] s True by simp
  next
    case False
    have "(2::nat) ^ s < 2 ^ bl" using s(2) assms(1) by (rule le_less_trans)
    then have "s < bl" by simp
    moreover have "(2::nat) ^ 1 \<le> 2 ^ s" using False by (intro power_increasing) auto
    ultimately show ?thesis
      using that[OF find_msb_spec[OF s]] s us off False by auto
  qed
qed

lemma bucket_index_lt:
  assumes "unat (ht_bitlen t) \<le> 31"
  shows "unat (ht_bucket_index t kh) < 2 ^ unat (ht_bitlen t)"
proof -
  have "ht_bucket_index t kh = take_bit (unat (ht_bitlen t)) (ht_reverse_bits kh)"
    unfolding ht_bucket_index_def by (rule bit_eqI) (auto simp: bit_simps dest: bit_imp_le_length)
  then have "unat (ht_bucket_index t kh) = take_bit (unat (ht_bitlen t)) (unat (ht_reverse_bits kh))"
    by (simp only: unsigned_take_bit_eq)
  then show ?thesis by (simp only: take_bit_nat_less_exp)
qed

lemma bucket_index_hash: "ht_reverse_bits (ht_bucket_index t kh) \<le> kh"
  by (metis ht_bucket_index_def reverse_and_le reverse_reverse)

lemma reverse_and_not_le: "ht_reverse_bits (a AND NOT b) \<le> ht_reverse_bits a"
  by (rule reverse_and_le)

lemma reverse_even:
  assumes "unat idx < 2 ^ 31"
  shows "\<not> bit (ht_reverse_bits idx) 0"
proof -
  have "drop_bit 31 idx = 0" using assms by (simp only: drop_bit_zero_iff)
  then have "\<not> bit (drop_bit 31 idx) 0" by simp
  then show ?thesis by (simp add: bit_reverse bit_drop_bit_eq del: bit_0)
qed

section \<open>Reading the bucket arrays\<close>

lemma bucket_entry:
  assumes "ht_inv J t xs" and "unat b < unat (ht_bitlen t)" and "unat i < bucket_len (unat b)"
  obtains a where "ht_bucket t b i = Ok a"
    and "a \<noteq> NULL \<longrightarrow> is_sentinel xs (bucket_base (unat b) + unat i) a"
    and "b = 0 \<longrightarrow> a \<noteq> NULL"
proof -
  have bk: "buckets_ok (ht_buckets t) (unat (ht_bitlen t)) xs" and "unat (ht_bitlen t) \<le> 31"
    using assms(1) by (simp_all add: ht_inv_def)
  then have len: "\<not> length (ht_buckets t) \<le> unat b"
    using assms(2) by (simp add: buckets_ok_def)
  obtain as where as: "ht_buckets t ! unat b = Some as" "length as = bucket_len (unat b)"
    and ent: "\<forall>i<bucket_len (unat b). as ! i \<noteq> NULL \<longrightarrow> is_sentinel xs (bucket_base (unat b) + i) (as ! i)"
    using bk assms(2) unfolding buckets_ok_def by blast
  have "b = 0 \<longrightarrow> as ! unat i \<noteq> NULL"
  proof
    assume "b = 0"
    then have "ht_buckets t ! 0 = Some as" and "unat i < 2"
      using as assms(3) by (simp_all add: bucket_len_def)
    then show "as ! unat i \<noteq> NULL"
      using bk unfolding buckets_ok_def by (metis One_nat_def less_2_cases)
  qed
  then show ?thesis
    using that[of "as ! unat i"] len as ent assms(3) by (simp add: ht_bucket_def)
qed

text \<open>The sentinel of an index, as an entry of the list.\<close>

lemma is_sentinelE:
  assumes "is_sentinel xs (unat idx) a"
  obtains nd where "(a, nd) \<in> set xs" "nd_key nd = None" "nd_key_hash nd = ht_reverse_bits idx"
  using assms by (auto simp: is_sentinel_def)

section \<open>The parent searches\<close>

definition parent_found :: "'v ht_entry list \<Rightarrow> u32 \<Rightarrow> addr \<Rightarrow> bool" where
  "parent_found xs idx a \<longleftrightarrow>
     (\<exists>nd. (a, nd) \<in> set xs \<and> nd_key nd = None \<and> nd_key_hash nd \<le> ht_reverse_bits idx)"

lemma parent_found_mono:
  "parent_found xs i a \<Longrightarrow> ht_reverse_bits i \<le> ht_reverse_bits j \<Longrightarrow> parent_found xs j a"
  by (meson order.trans parent_found_def)

lemma is_sentinel_parent: "is_sentinel xs (unat idx) a \<Longrightarrow> parent_found xs idx a"
  by (auto simp: is_sentinel_def parent_found_def)

text \<open>One round of either search: the entry of the index without its top bit.\<close>

lemma parent_round:
  assumes "ht_inv J t xs" and "unat oo < 2 ^ unat (ht_bitlen t)"
    and "ht_find_msb oo = (msb, op)"
  obtains a where "ht_bucket t op (oo AND NOT msb) = Ok a"
    and "a \<noteq> NULL \<longrightarrow> parent_found xs oo a"
    and "a = NULL \<longrightarrow> unat (oo AND NOT msb) < unat oo"
proof -
  let ?bl = "unat (ht_bitlen t)"
  have bl: "1 \<le> ?bl" using assms(1) by (simp add: ht_inv_def)
  show ?thesis
  proof (cases "unat oo < 2")
    case True
    then have op: "op = 0" and off: "oo AND NOT msb = 0"
      using index_split[OF assms(2) bl] assms(3) by (metis not_less prod.inject)+
    obtain a where a: "ht_bucket t 0 0 = Ok a" "a \<noteq> NULL \<longrightarrow> is_sentinel xs (unat (0::u32)) a"
      "a \<noteq> NULL"
      using bucket_entry[OF assms(1), of 0 0] bl by (auto simp: bucket_len_def bucket_base_def)
    have "parent_found xs oo a"
      using a(2,3) is_sentinel_parent parent_found_mono[of xs 0 a oo] by (simp add: is_sentinel_parent)
    then show ?thesis using that[of a] a op off by simp
  next
    case False
    then have b: "1 \<le> unat op" "unat op < ?bl" "unat (oo AND NOT msb) < 2 ^ unat op"
      "2 ^ unat op + unat (oo AND NOT msb) = unat oo"
      using index_split[OF assms(2) bl] assms(3) by (metis prod.inject)+
    have "unat (oo AND NOT msb) < bucket_len (unat op)" using b by (simp add: bucket_len_def)
    then obtain a where a: "ht_bucket t op (oo AND NOT msb) = Ok a"
      "a \<noteq> NULL \<longrightarrow> is_sentinel xs (bucket_base (unat op) + unat (oo AND NOT msb)) a"
      by (rule bucket_entry[OF assms(1) b(2)])
    have "bucket_base (unat op) + unat (oo AND NOT msb) = unat oo"
      using b by (simp add: bucket_base_def)
    then have "a \<noteq> NULL \<longrightarrow> parent_found xs oo a"
      using a(2) is_sentinel_parent[of xs oo a] by simp
    moreover have "unat (oo AND NOT msb) < unat oo"
    proof -
      have "(0::nat) < 2 ^ unat op" by simp
      then show ?thesis using b(4) by linarith
    qed
    ultimately show ?thesis using that[OF a(1)] by blast
  qed
qed

lemma parent_create:
  assumes inv: "ht_inv J t xs" and "unat oo < 2 ^ unat (ht_bitlen t)"
  shows "\<exists>a. sentinel_parent_create t oo op = returns a \<and> a \<noteq> NULL \<and> parent_found xs oo a"
  using assms(2)
proof (induction "unat oo" arbitrary: oo op rule: less_induct)
  case less
  have bl: "1 \<le> unat (ht_bitlen t)" using inv by (simp add: ht_inv_def)
  show ?case
  proof (cases "oo < 2")
    case True
    then have "unat oo < 2" by (simp add: word_less_nat_alt)
    then have ub: "unat oo < bucket_len (unat (0::u32))" by (simp add: bucket_len_def)
    obtain a where a: "ht_bucket t 0 oo = Ok a"
      "a \<noteq> NULL \<longrightarrow> is_sentinel xs (bucket_base (unat (0::u32)) + unat oo) a" "a \<noteq> NULL"
      using bucket_entry[OF inv _ ub] bl by auto
    then have "parent_found xs oo a" by (intro is_sentinel_parent) (simp add: bucket_base_def)
    then show ?thesis using True a by (subst sentinel_parent_create.simps) simp
  next
    case False
    obtain msb op' where msb: "ht_find_msb oo = (msb, op')" by (cases "ht_find_msb oo")
    obtain a where a: "ht_bucket t op' (oo AND NOT msb) = Ok a" "a \<noteq> NULL \<longrightarrow> parent_found xs oo a"
      "a = NULL \<longrightarrow> unat (oo AND NOT msb) < unat oo"
      by (rule parent_round[OF inv less.prems msb])
    have unf: "sentinel_parent_create t oo op =
        (if a = NULL then sentinel_parent_create t (oo AND NOT msb) op' else returns a)"
      using False msb a(1) by (subst sentinel_parent_create.simps) simp
    show ?thesis
    proof (cases "a = NULL")
      case True
      obtain c where "sentinel_parent_create t (oo AND NOT msb) op' = returns c" "c \<noteq> NULL"
        "parent_found xs (oo AND NOT msb) c"
        using less.hyps[of "oo AND NOT msb" op'] less.prems a(3) True by (meson less_trans)
      then show ?thesis
        using unf True parent_found_mono[OF _ reverse_and_not_le] by auto
    qed (use unf a(2) in auto)
  qed
qed

lemma parent_read:
  assumes inv: "ht_inv J t xs" and "unat oo < 2 ^ unat (ht_bitlen t)"
  shows "\<exists>a. sentinel_parent_read t oo NULL = returns a \<and> a \<noteq> NULL \<and> parent_found xs oo a"
  using assms(2)
proof (induction "unat oo" arbitrary: oo rule: less_induct)
  case less
  obtain msb op' where msb: "ht_find_msb oo = (msb, op')" by (cases "ht_find_msb oo")
  obtain a where a: "ht_bucket t op' (oo AND NOT msb) = Ok a" "a \<noteq> NULL \<longrightarrow> parent_found xs oo a"
    "a = NULL \<longrightarrow> unat (oo AND NOT msb) < unat oo"
    by (rule parent_round[OF inv less.prems msb])
  have unf: "sentinel_parent_read t oo NULL = sentinel_parent_read t (oo AND NOT msb) a"
    using msb a(1) by (subst sentinel_parent_read.simps) simp
  show ?case
  proof (cases "a = NULL")
    case True
    obtain c where "sentinel_parent_read t (oo AND NOT msb) NULL = returns c" "c \<noteq> NULL"
      "parent_found xs (oo AND NOT msb) c"
      using less.hyps[of "oo AND NOT msb"] less.prems a(3) True by (meson less_trans)
    then show ?thesis
      using unf True parent_found_mono[OF _ reverse_and_not_le] by auto
  next
    case False
    then have "sentinel_parent_read t (oo AND NOT msb) a = returns a"
      by (subst sentinel_parent_read.simps) simp
    then show ?thesis using unf a(2) False by auto
  qed
qed

section \<open>Where a new sentinel goes\<close>

lemma skip_split:
  assumes lo: "list_ok J xs" and path: "ht_path h a xs NULL"
    and s: "(s, sn) \<in> set xs" "nd_key sn = None" "nd_key_hash sn \<le> H" and H: "H \<noteq> - 1"
  obtains ps p pn c cn ds nd where "xs = ps @ (p, pn) # (c, cn) # ds"
    and "ht_node_at h s = Ok nd" and "nd_key_hash nd \<le> H"
    and "ht_skip h H s (nd_next nd) = returns (p, c)"
    and "nd_key_hash pn < H \<or> nd_key pn = None \<and> nd_key_hash pn \<le> H"
    and "H \<le> nd_key_hash cn"
proof -
  obtain A B where xs: "xs = A @ (s, sn) # B" using s(1) by (meson split_list)
  have srt: "sorted (map en_hash xs)" using lo by (rule list_ok_sorted_hash)
  obtain e where e: "e \<in> set xs" "en_hash e = - 1" using lo by (auto simp: list_ok_def)
  have lt: "H < - 1" using H by (rule minus_one_top)
  have "e \<in> set B"
  proof -
    have "\<forall>x\<in>set A. en_hash x \<le> nd_key_hash sn" using srt unfolding xs by (auto simp: sorted_append)
    then have "e \<notin> set A" and "e \<noteq> (s, sn)"
      using e(2) s(3) lt by (metis leD order.trans, metis leD snd_conv)
    then show ?thesis using e(1) xs by auto
  qed
  then have "dropWhile (\<lambda>x. en_hash x < H) B \<noteq> []"
    using e(2) lt by (metis dropWhile_eq_Nil_conv not_less_iff_gr_or_eq)
  then obtain c cn ds where dw: "dropWhile (\<lambda>x. en_hash x < H) B = (c, cn) # ds"
    by (metis list.exhaust surj_pair)
  define us where "us = takeWhile (\<lambda>x. en_hash x < H) B"
  have B: "B = us @ (c, cn) # ds" and hc: "H \<le> nd_key_hash cn"
    using dw unfolding us_def dropWhile_eq_Cons_conv by (simp_all add: not_less)
  have us: "\<forall>u\<in>set us. en_hash u < H" by (auto simp: us_def dest: set_takeWhileD)
  obtain nx where at: "ht_node_at h s = Ok (sn\<lparr>nd_next := nx\<rparr>)" and pB: "ht_path h nx B NULL"
    using path unfolding xs by (auto simp: ht_path_append ht_node_at_def)
  have skip: "ht_skip h H s nx = returns (ht_pred s us, c)"
    using pB us hc unfolding B by (intro ht_skip_path[of h nx us c cn ds NULL]) auto
  obtain ps p pn where last: "A @ (s, sn) # us = ps @ [(p, pn)]"
    by (metis append_is_Nil_conv list.distinct(1) rev_exhaust surj_pair)
  have p: "ht_pred s us = p"
  proof -
    have "last (map fst (A @ (s, sn) # us)) = p" unfolding last by simp
    then show ?thesis by (simp add: last_append)
  qed
  have hp: "nd_key_hash pn < H \<or> nd_key pn = None \<and> nd_key_hash pn \<le> H"
  proof -
    have "(p, pn) = last ((s, sn) # us)"
      using last by (metis append_is_Nil_conv last_append last_snoc list.distinct(1))
    then have "(p, pn) \<in> set ((s, sn) # us)" by (metis last_in_set list.distinct(1))
    then show ?thesis using s(2,3) us by auto
  qed
  have dec: "xs = ps @ (p, pn) # (c, cn) # ds"
  proof -
    have "xs = (A @ (s, sn) # us) @ (c, cn) # ds" unfolding xs B by simp
    then show ?thesis unfolding last by simp
  qed
  show ?thesis using that[OF dec at _ _ hp hc] skip p s(3) by simp
qed

section \<open>Allocation\<close>

lemma ht_inv_new_node:
  assumes "ht_inv J t xs" and "ht_new_node nd t = (t', w)"
  shows "ht_inv J t' xs" and "w \<noteq> NULL" and "w \<notin> fst ` set xs"
    and "ht_heap t' = (ht_heap t)(w \<mapsto> nd)" and "ht_heap t w = None" and "w = ht_brk t"
    and "t' = t\<lparr>ht_heap := (ht_heap t)(ht_brk t \<mapsto> nd), ht_brk := ht_brk t + 1\<rparr>"
proof -
  have t': "t' = t\<lparr>ht_heap := (ht_heap t)(ht_brk t \<mapsto> nd), ht_brk := ht_brk t + 1\<rparr>" "w = ht_brk t"
    using assms(2) by (auto simp: ht_new_node_def)
  obtain a where a: "ht_bucket t 0 0 = Ok a" "ht_path (ht_heap t) a xs NULL"
    using assms(1) by (auto simp: ht_inv_def)
  have fresh: "\<forall>b\<ge>ht_brk t. ht_heap t b = None" and brk: "0 < ht_brk t"
    using assms(1) by (simp_all add: ht_inv_def)
  have w: "ht_brk t \<notin> fst ` set xs"
    using ht_path_fresh[OF a(2), of "ht_brk t" "ht_brk t"] fresh by auto
  show "ht_inv J t' xs"
    using assms(1) a w unfolding t' ht_inv_def by (auto simp: ht_bucket_def)
  show "w \<noteq> NULL" "w \<notin> fst ` set xs" "ht_heap t' = (ht_heap t)(w \<mapsto> nd)" "ht_heap t w = None"
    "w = ht_brk t" "t' = t\<lparr>ht_heap := (ht_heap t)(ht_brk t \<mapsto> nd), ht_brk := ht_brk t + 1\<rparr>"
    using t' w brk fresh by simp_all
qed

text \<open>Overwriting a node outside the list.\<close>

lemma ht_inv_set_node:
  assumes "ht_inv J t xs" and "w \<notin> fst ` set xs" and "w < ht_brk t"
  shows "ht_inv J (ht_set_node w nd t) xs"
  using assms by (auto simp: ht_inv_def ht_set_node_def ht_bucket_def)

lemma ht_set_node_simps [simp]:
  "ht_heap (ht_set_node a nd t) = (ht_heap t)(a \<mapsto> nd)"
  "ht_brk (ht_set_node a nd t) = ht_brk t"
  "ht_buckets (ht_set_node a nd t) = ht_buckets t"
  "ht_bitlen (ht_set_node a nd t) = ht_bitlen t"
  "ht_bitlen_internal (ht_set_node a nd t) = ht_bitlen_internal t"
  "ht_element_count (ht_set_node a nd t) = ht_element_count t"
  "ht_use_gc (ht_set_node a nd t) = ht_use_gc t"
  "ht_bucket (ht_set_node a nd t) b i = ht_bucket t b i"
  by (simp_all add: ht_set_node_def ht_bucket_def)

lemma ht_set_bucket_simps [simp]:
  "ht_heap (ht_set_bucket b i a t) = ht_heap t"
  "ht_brk (ht_set_bucket b i a t) = ht_brk t"
  "ht_bitlen (ht_set_bucket b i a t) = ht_bitlen t"
  "ht_bitlen_internal (ht_set_bucket b i a t) = ht_bitlen_internal t"
  "ht_element_count (ht_set_bucket b i a t) = ht_element_count t"
  "ht_use_gc (ht_set_bucket b i a t) = ht_use_gc t"
  "ht_set_node c nd (ht_set_bucket b i a t) = ht_set_bucket b i a (ht_set_node c nd t)"
  by (simp_all add: ht_set_node_def ht_set_bucket_def)

text \<open>Linking a node between two neighbours.\<close>

lemma ht_inv_link:
  assumes inv: "ht_inv J t (ps @ (p, pn) # (b, nd) # ys)"
    and w: "w \<noteq> NULL" "w \<notin> fst ` set (ps @ (p, pn) # (b, nd) # ys)" "w < ht_brk t"
    and hw: "ht_heap t w = Some (wn\<lparr>nd_next := b\<rparr>)"
    and ok: "node_ok J wn" and ord: "nd_ord pn \<le> nd_ord wn" "nd_ord wn \<le> nd_ord nd"
    and key: "nd_key wn = None \<or> (\<forall>x\<in>set (ps @ (p, pn) # (b, nd) # ys). en_key x \<noteq> nd_key wn)"
    and top: "nd_key_hash wn \<noteq> - 1"
  shows "ht_node_at (ht_heap t) p = Ok (pn\<lparr>nd_next := b\<rparr>)"
    and "ht_inv J (ht_set_node p (pn\<lparr>nd_next := w\<rparr>) t) (ps @ (p, pn) # (w, wn) # (b, nd) # ys)"
proof -
  let ?xs = "ps @ (p, pn) # (b, nd) # ys" and ?zs = "ps @ (p, pn) # (w, wn) # (b, nd) # ys"
  have lo: "list_ok J ?xs" using inv by (simp add: ht_inv_def)
  have d: "distinct (map fst (ps @ (p, pn) # ((b, nd) # ys)))" using lo by (simp add: list_ok_def)
  obtain a where a: "ht_bucket t 0 0 = Ok a" "ht_path (ht_heap t) a ?xs NULL"
    using inv by (auto simp: ht_inv_def)
  have hp: "ht_heap t p = Some (pn\<lparr>nd_next := b\<rparr>)" and p0: "p \<noteq> NULL"
    using a(2) by (auto simp: ht_path_append)
  show "ht_node_at (ht_heap t) p = Ok (pn\<lparr>nd_next := b\<rparr>)" using hp p0 by (simp add: ht_node_at_def)
  have path: "ht_path ((ht_heap t)(p \<mapsto> pn\<lparr>nd_next := w\<rparr>)) a ?zs NULL"
    by (rule ht_path_link[OF a(2) d w(1,2) hp hw])
  have lo': "list_ok J ?zs" by (rule list_ok_insert[OF lo w(2) ok ord key top])
  have bk: "buckets_ok (ht_buckets t) (unat (ht_bitlen t)) ?zs"
  proof (rule buckets_ok_mono)
    show "buckets_ok (ht_buckets t) (unat (ht_bitlen t)) ?xs" using inv by (simp add: ht_inv_def)
    show "is_sentinel ?zs j c" if "is_sentinel ?xs j c" for j c
      using that by (rule is_sentinel_mono[rotated]) auto
  qed
  have "p < ht_brk t"
    using ht_path_fresh[OF a(2), of "ht_brk t" p] inv by (auto simp: ht_inv_def)
  then show "ht_inv J (ht_set_node p (pn\<lparr>nd_next := w\<rparr>) t) ?zs"
    using inv a(1) path lo' bk unfolding ht_inv_def by auto
qed

lemma ht_inv_set_bucket:
  assumes inv: "ht_inv J t xs" and b: "b \<noteq> 0" "unat b < unat (ht_bitlen t)"
    and i: "unat i < bucket_len (unat b)" and a: "is_sentinel xs (bucket_base (unat b) + unat i) a"
  shows "ht_inv J (ht_set_bucket b i a t) xs"
proof -
  have bk: "buckets_ok (ht_buckets t) (unat (ht_bitlen t)) xs" and "unat (ht_bitlen t) \<le> 31"
    using inv by (simp_all add: ht_inv_def)
  then have len: "unat b < length (ht_buckets t)" and len0: "0 < length (ht_buckets t)"
    using b(2) by (simp_all add: buckets_ok_def)
  have b0: "unat b \<noteq> 0" using b(1) by (simp add: unat_eq_0)
  have "buckets_ok (ht_buckets (ht_set_bucket b i a t)) (unat (ht_bitlen t)) xs"
    using bk len b0 a i
    by (auto simp: buckets_ok_def ht_set_bucket_def nth_list_update split: if_splits)
  moreover have "ht_bucket (ht_set_bucket b i a t) 0 0 = ht_bucket t 0 0"
    using len0 b0 by (simp add: ht_bucket_def ht_set_bucket_def)
  ultimately show ?thesis using inv unfolding ht_inv_def by simp
qed

section \<open>\<open>ht_get_sentinel\<close>\<close>

text \<open>A start for the search of a hash: a sentinel of the list that is not after it.\<close>

definition search_start :: "'v ht_entry list \<Rightarrow> u32 \<Rightarrow> addr \<Rightarrow> bool" where
  "search_start xs kh a \<longleftrightarrow> (\<exists>sn. (a, sn) \<in> set xs \<and> nd_key sn = None \<and> nd_key_hash sn \<le> kh)"

lemma parent_search_start:
  "parent_found xs (ht_bucket_index t kh) a \<Longrightarrow> search_start xs kh a"
  unfolding parent_found_def search_start_def by (meson bucket_index_hash order.trans)

text \<open>The entry an index selects.\<close>

lemma index_entry:
  assumes inv: "ht_inv J t xs" and idx: "idx = ht_bucket_index t kh"
  obtains parent b a where "ht_find_msb idx = (parent, b)"
    and "ht_bucket t b (idx AND NOT parent) = Ok a"
    and "a \<noteq> NULL \<longrightarrow> parent_found xs idx a"
    and "a = NULL \<longrightarrow> b \<noteq> 0 \<and> unat b < unat (ht_bitlen t) \<and>
           unat (idx AND NOT parent) < bucket_len (unat b) \<and>
           bucket_base (unat b) + unat (idx AND NOT parent) = unat idx"
    and "unat idx < 2 ^ unat (ht_bitlen t)"
    and "unat (idx AND NOT parent) < 2 ^ unat (ht_bitlen t)"
proof -
  have bl: "1 \<le> unat (ht_bitlen t)" "unat (ht_bitlen t) \<le> 31" using inv by (simp_all add: ht_inv_def)
  have lt: "unat idx < 2 ^ unat (ht_bitlen t)" unfolding idx by (rule bucket_index_lt[OF bl(2)])
  have ltm: "unat (idx AND NOT parent) < 2 ^ unat (ht_bitlen t)" for parent
    using lt word_and_le2[of idx "NOT parent"] by (meson le_less_trans word_le_nat_alt)
  obtain parent b where msb: "ht_find_msb idx = (parent, b)"
    and cs: "unat idx < 2 \<and> b = 0 \<and> idx AND NOT parent = 0 \<or>
         2 \<le> unat idx \<and> 1 \<le> unat b \<and> unat b < unat (ht_bitlen t) \<and>
         unat (idx AND NOT parent) < 2 ^ unat b \<and>
         2 ^ unat b + unat (idx AND NOT parent) = unat idx"
    by (rule index_split[OF lt bl(1)])
  obtain a where a: "ht_bucket t b (idx AND NOT parent) = Ok a"
    "a \<noteq> NULL \<longrightarrow> parent_found xs idx a"
    by (rule parent_round[OF inv lt msb])
  have "b \<noteq> 0 \<and> unat b < unat (ht_bitlen t) \<and> unat (idx AND NOT parent) < bucket_len (unat b) \<and>
      bucket_base (unat b) + unat (idx AND NOT parent) = unat idx" if "a = NULL"
  proof -
    have "b \<noteq> 0"
    proof
      assume "b = 0"
      then have "ht_bucket t 0 0 = Ok NULL" using cs a(1) that by auto
      then show False using bucket_entry[OF inv, of 0 0] bl by (auto simp: bucket_len_def)
    qed
    then show ?thesis using cs by (auto simp: bucket_len_def bucket_base_def)
  qed
  then show ?thesis using that[OF msb a] lt ltm by blast
qed

lemma get_sentinel_read:
  assumes inv: "ht_inv J t xs"
  shows "\<exists>a. ht_get_sentinel_read t kh = returns a \<and> search_start xs kh a"
proof -
  let ?idx = "ht_bucket_index t kh"
  obtain parent b a where msb: "ht_find_msb ?idx = (parent, b)"
    and a: "ht_bucket t b (?idx AND NOT parent) = Ok a" "a \<noteq> NULL \<longrightarrow> parent_found xs ?idx a"
    and off: "unat (?idx AND NOT parent) < 2 ^ unat (ht_bitlen t)"
    by (rule index_entry[OF inv refl])
  obtain c where c: "sentinel_parent_read t (?idx AND NOT parent) NULL = returns c"
    "parent_found xs (?idx AND NOT parent) c"
    using parent_read[OF inv off] by blast
  have "parent_found xs ?idx c" by (rule parent_found_mono[OF c(2) reverse_and_not_le])
  then show ?thesis
    using msb a c(1) parent_search_start[of xs t kh]
    by (cases "a = NULL") (auto simp: ht_get_sentinel_read_def)
qed

lemma get_sentinel_create:
  assumes inv: "ht_inv J t xs" and junk: "env_junk env \<in> J"
  shows "\<exists>t' op w xs'. ht_get_sentinel_create env t kh = returns (t', op, w) \<and>
           ht_inv J t' xs' \<and> (\<forall>m. list_map xs m \<longrightarrow> list_map xs' m) \<and>
           ht_element_count t' = ht_element_count t \<and> ht_use_gc t' = ht_use_gc t \<and>
           ht_bitlen t' = ht_bitlen t \<and>
           (op = NULL \<longrightarrow> \<not> (env_ok env SentinelNode \<and> env_ok env SpareNode)) \<and>
           (op \<noteq> NULL \<longrightarrow> search_start xs' kh op) \<and>
           (w \<noteq> NULL \<longrightarrow> w \<notin> fst ` set xs' \<and> w < ht_brk t' \<and> ht_heap t' w \<noteq> None)"
proof -
  let ?idx = "ht_bucket_index t kh"
  obtain parent b a where msb: "ht_find_msb ?idx = (parent, b)"
    and a: "ht_bucket t b (?idx AND NOT parent) = Ok a" "a \<noteq> NULL \<longrightarrow> parent_found xs ?idx a"
    and nul: "a = NULL \<longrightarrow> b \<noteq> 0 \<and> unat b < unat (ht_bitlen t) \<and>
           unat (?idx AND NOT parent) < bucket_len (unat b) \<and>
           bucket_base (unat b) + unat (?idx AND NOT parent) = unat ?idx"
    and lt: "unat ?idx < 2 ^ unat (ht_bitlen t)"
    and off: "unat (?idx AND NOT parent) < 2 ^ unat (ht_bitlen t)"
    by (rule index_entry[OF inv refl])
  let ?off = "?idx AND NOT parent"
  show ?thesis
  proof (cases "a = NULL")
    case False
    then have "ht_get_sentinel_create env t kh = returns (t, a, NULL)"
      using msb a(1) by (simp add: ht_get_sentinel_create_def)
    then show ?thesis using inv False a(2) parent_search_start[of xs t kh a] by auto
  next
    case True
    obtain prev where prev: "sentinel_parent_create t ?off 0 = returns prev" "prev \<noteq> NULL"
      "parent_found xs ?off prev"
      using parent_create[OF inv off] by blast
    let ?H = "ht_reverse_bits ?idx"
    have start: "parent_found xs ?idx prev"
      by (rule parent_found_mono[OF prev(3) reverse_and_not_le])
    then obtain sn where sn: "(prev, sn) \<in> set xs" "nd_key sn = None" "nd_key_hash sn \<le> ?H"
      by (auto simp: parent_found_def)
    obtain t1 w1 where t1: "ht_new_node (ht_fresh_node env) t = (t1, w1)" by force
    note n1 = ht_inv_new_node[OF inv t1]
    obtain t2 w2 where t2: "ht_new_node ((ht_fresh_node env)\<lparr>nd_contents := HT_REALLOC\<rparr>) t1 = (t2, w2)"
      by force
    note n2 = ht_inv_new_node[OF n1(1) t2]
    have w12: "w1 < ht_brk t1" "ht_brk t2 = ht_brk t1 + 1" "ht_brk t1 = w2" using n1(6,7) n2(6,7) by simp_all
    have same: "ht_buckets t2 = ht_buckets t" "ht_bitlen t2 = ht_bitlen t"
      "ht_element_count t2 = ht_element_count t" "ht_use_gc t2 = ht_use_gc t"
      "ht_bitlen t1 = ht_bitlen t" "ht_element_count t1 = ht_element_count t" "ht_use_gc t1 = ht_use_gc t"
      using n1(7) n2(7) by simp_all
    show ?thesis
    proof (cases "env_ok env SentinelNode \<and> env_ok env SpareNode")
      case False
      then consider "ht_get_sentinel_create env t kh = returns (t, NULL, NULL)"
        | "ht_get_sentinel_create env t kh = returns (t1, NULL, NULL)"
        using msb a(1) True prev(1) t1
        by (cases "env_ok env SentinelNode") (auto simp: ht_get_sentinel_create_def Let_def)
      then show ?thesis
      proof cases
        case 1
        then show ?thesis using inv False by blast
      next
        case 2
        then show ?thesis using n1(1) False same by blast
      qed
    next
      case ok: True
      define nn :: "'a ht_node" where
        "nn = (ht_fresh_node env)\<lparr>nd_key := None, nd_key_hash := ?H, nd_next := prev\<rparr>"
      define t3 where "t3 = ht_set_node w1 nn t2"
      have inv3: "ht_inv J t3 xs"
        unfolding t3_def by (rule ht_inv_set_node[OF n2(1) n1(3)]) (use w12 in simp)
      then obtain s where path3: "ht_path (ht_heap t3) s xs NULL" by (auto simp: ht_inv_def)
      have even: "\<not> bit ?H 0"
      proof (rule reverse_even)
        have "(2::nat) ^ unat (ht_bitlen t) \<le> 2 ^ 31"
          using inv by (intro power_increasing) (simp_all add: ht_inv_def)
        then show "unat ?idx < 2 ^ 31" using lt by (rule less_le_trans[rotated])
      qed
      then have top: "?H \<noteq> - 1" by auto
      have lo: "list_ok J xs" using inv by (simp add: ht_inv_def)
      obtain ps p pn c cn ds nd where xs: "xs = ps @ (p, pn) # (c, cn) # ds"
        and at: "ht_node_at (ht_heap t3) prev = Ok nd" "nd_key_hash nd \<le> ?H"
        and skip: "ht_skip (ht_heap t3) ?H prev (nd_next nd) = returns (p, c)"
        and hp: "nd_key_hash pn < ?H \<or> nd_key pn = None \<and> nd_key_hash pn \<le> ?H"
        and hc: "?H \<le> nd_key_hash cn"
        by (rule skip_split[OF lo path3 sn top])
      have nn: "nd_key nn = None" "nd_key_hash nn = ?H" "nd_key_length nn = env_junk env"
        by (simp_all add: nn_def ht_fresh_node_def)
      define t4 where "t4 = ht_set_node w1 (nn\<lparr>nd_next := c\<rparr>) t3"
      have inv4: "ht_inv J t4 xs"
        unfolding t4_def by (rule ht_inv_set_node[OF inv3 n1(3)]) (use w12 in \<open>simp add: t3_def\<close>)
      have h4: "ht_heap t4 w1 = Some (nn\<lparr>nd_next := c\<rparr>)" by (simp add: t4_def)
      have ord: "nd_ord pn \<le> nd_ord nn" "nd_ord nn \<le> nd_ord cn"
        using hp hc nn by (auto simp: nd_ord_def word_le_nat_alt word_less_nat_alt)
      have nok: "node_ok J nn" using nn even junk by (simp add: node_ok_def)
      have w1brk: "w1 < ht_brk t4" using w12 by (simp add: t4_def t3_def)
      have nnkey: "nd_key nn = None \<or> (\<forall>x\<in>set (ps @ (p, pn) # (c, cn) # ds). en_key x \<noteq> nd_key nn)"
        using nn(1) by blast
      have nntop: "nd_key_hash nn \<noteq> - 1" using nn(2) top by simp
      note link = ht_inv_link[OF inv4[unfolded xs] n1(2) n1(3)[unfolded xs] w1brk h4 nok ord nnkey nntop]
      let ?zs = "ps @ (p, pn) # (w1, nn) # (c, cn) # ds"
      let ?t5 = "ht_set_node p (pn\<lparr>nd_next := w1\<rparr>) t4"
      let ?t' = "ht_set_bucket b ?off w1 ?t5"
      have res: "ht_get_sentinel_create env t kh = returns (?t', w1, w2)"
        using msb a(1) True prev(1) t1 t2 ok at skip link(1) nn(2)
        by (simp add: ht_get_sentinel_create_def Let_def nn_def[symmetric] t3_def t4_def)
      have sent: "is_sentinel ?zs (unat ?idx) w1" using nn by (auto simp: is_sentinel_def)
      have inv': "ht_inv J ?t' ?zs"
        using nul True same sent
        by (intro ht_inv_set_bucket link(2)) (simp_all add: t4_def t3_def)
      have map': "\<forall>m. list_map xs m \<longrightarrow> list_map ?zs m"
        unfolding xs using list_map_sentinel[of "ps @ [(p, pn)]" "(c, cn) # ds" _ nn w1] nn(1) by simp
      have start': "search_start ?zs kh w1"
        using nn bucket_index_hash[of t kh] by (auto simp: search_start_def)
      have w2: "w2 \<notin> fst ` set ?zs" "w2 < ht_brk ?t'" "ht_heap ?t' w2 \<noteq> None"
        using n2(3) n2(4) w12 unfolding xs by (auto simp: t4_def t3_def)
      have "ht_element_count ?t' = ht_element_count t" "ht_use_gc ?t' = ht_use_gc t"
        "ht_bitlen ?t' = ht_bitlen t"
        using same by (simp_all add: t4_def t3_def)
      then show ?thesis using res inv' map' start' w2 n1(2) by blast
    qed
  qed
qed

end
