(* ===== verification/Hashtable.thy ===== *)
theory Hashtable
  imports Ht_Sentinel
begin

unbundle bit_operations_syntax

text \<open>
  The operations of \<^verbatim>\<open>lib/hashtable.c\<close> against a finite map: initialisation, growth, store, find,
  delete and access through the returned slot.
\<close>

section \<open>The abstraction\<close>

text \<open>The table grows only when it holds more than \<open>2 ^ bitlen\<close> stores.\<close>

definition load_ok :: "'v ht_table \<Rightarrow> bool" where
  "load_ok t \<longleftrightarrow> ht_bitlen t = 1 \<or> 2 ^ (unat (ht_bitlen t) - 1) < unat (ht_element_count t)"

definition ht_map :: "u32 set \<Rightarrow> 'v ht_table \<Rightarrow> (bytes \<rightharpoonup> 'v) \<Rightarrow> bool" where
  "ht_map J t m \<longleftrightarrow> load_ok t \<and> ht_rep J t m"

text \<open>What \<open>*value\<close> points to after \<open>ht_store\<close> and \<open>ht_find\<close>, and an assignment through it.\<close>

definition ht_slot :: "'v ht_table \<Rightarrow> addr \<Rightarrow> 'v option" where
  "ht_slot t a =
     (if a = NULL then None
      else case ht_heap t a of
        Some nd \<Rightarrow> (case nd_contents nd of HT_Value v \<Rightarrow> Some v | _ \<Rightarrow> None)
      | None \<Rightarrow> None)"

definition ht_slot_set :: "addr \<Rightarrow> 'v \<Rightarrow> 'v ht_table \<Rightarrow> 'v ht_table" where
  "ht_slot_set a v t =
     (case ht_heap t a of
        Some nd \<Rightarrow> ht_set_node a (nd\<lparr>nd_contents := HT_Value v\<rparr>) t
      | None \<Rightarrow> t)"

text \<open>Node \<open>a\<close> of the table is the node of key \<open>k\<close>.\<close>

definition ht_at :: "u32 set \<Rightarrow> 'v ht_table \<Rightarrow> (bytes \<rightharpoonup> 'v) \<Rightarrow> bytes \<Rightarrow> addr \<Rightarrow> bool" where
  "ht_at J t m k a \<longleftrightarrow>
     (\<exists>xs nd. ht_inv J t xs \<and> list_map xs m \<and> (a, nd) \<in> set xs \<and> nd_key nd = Some k)"

text \<open>The key an argument pair \<open>key, key_length\<close> denotes.\<close>

definition key_arg :: "u32 set \<Rightarrow> bytes \<Rightarrow> u32 \<Rightarrow> bytes \<Rightarrow> bool" where
  "key_arg J str len k \<longleftrightarrow> unat len \<le> length str \<and> k = take (unat len) str \<and> key_ok J k"

lemma key_arg_hash:
  assumes "key_arg J str len k"
  shows "ht_hash (Some str) len = Ok (key_hash k)" and "len \<noteq> 0" and "key_hash k \<noteq> 0"
    and "of_nat (length k) = len"
proof -
  have k: "unat len \<le> length str" "k = take (unat len) str" "0 < length k" "key_hash k \<noteq> 0"
    using assms by (auto simp: key_arg_def key_ok_def)
  then have "len \<noteq> 0" by auto
  then show "ht_hash (Some str) len = Ok (key_hash k)" "len \<noteq> 0" "key_hash k \<noteq> 0"
    using k by (simp_all add: ht_hash_def)
  show "of_nat (length k) = len" using k(1,2) by simp
qed

section \<open>Initialisation\<close>

lemma init_list_ok:
  fixes n0 n1 n2 :: "'v ht_node"
  assumes "nd_key n0 = None" "nd_key n1 = None" "nd_key n2 = None"
    and "nd_key_hash n0 = 0" "nd_key_hash n1 = push_bit 31 1" "nd_key_hash n2 = - 1"
    and "nd_key_length n0 \<in> J" "nd_key_length n1 \<in> J" "nd_key_length n2 \<in> J"
  shows "list_ok J [(1, n0), (3, n1), (2, n2)]"
  proof -
  have top: "unat (- 1 :: u32) = 4294967295"
    by (simp add: unsigned_minus_1_eq_mask mask_eq_exp_minus_1)
  show ?thesis using assms by (simp add: list_ok_def node_ok_def nd_ord_def top)
qed

lemma ht_init_map:
  assumes "\<And>s. env_ok env s"
  shows "\<exists>t :: 'v ht_table. ht_init env gc = Ok (Some t) \<and> ht_map {env_junk env} t Map.empty \<and>
           ht_element_count t = 0 \<and> ht_use_gc t = gc"
proof -
  define n0 :: "'v ht_node" where "n0 = \<lparr>nd_next = 3, nd_key = None, nd_key_length = env_junk env,
      nd_key_hash = 0, nd_contents = HT_FREE\<rparr>"
  define n1 :: "'v ht_node" where "n1 = \<lparr>nd_next = 2, nd_key = None, nd_key_length = env_junk env,
      nd_key_hash = push_bit 31 1, nd_contents = HT_FREE\<rparr>"
  define n2 :: "'v ht_node" where "n2 = \<lparr>nd_next = NULL, nd_key = None, nd_key_length = env_junk env,
      nd_key_hash = - 1, nd_contents = HT_FREE\<rparr>"
  define t :: "'v ht_table" where "t = \<lparr>ht_heap = [1 \<mapsto> n0, 3 \<mapsto> n1, 2 \<mapsto> n2], ht_brk = 4,
      ht_buckets = Some [1, 3] # replicate 63 None, ht_element_count = 0, ht_bitlen = 1,
      ht_bitlen_internal = 1, ht_use_gc = gc\<rparr>"
  let ?xs = "[(1, n0), (3, n1), (2, n2)]"
  have shift: "NOT (drop_bit 1 (- 1 :: u32)) = push_bit 31 1" by (simp add: drop_bit_eq_div)
  have shift0: "NOT (mask 32 :: u32) = 0" by code_simp
  have init: "ht_init env gc = Ok (Some t)"
    using assms shift shift0 by (simp add: ht_init_def t_def n0_def n1_def n2_def ht_fresh_node_def)
  have lo: "list_ok {env_junk env} ?xs"
    by (rule init_list_ok) (simp_all add: n0_def n1_def n2_def)
  have rev1: "ht_reverse_bits 1 = push_bit 31 1"
    by code_simp
  have bk: "buckets_ok (ht_buckets t) 1 ?xs"
    using rev1 by (auto simp: buckets_ok_def t_def bucket_len_def bucket_base_def is_sentinel_def
        less_2_cases_iff n0_def n1_def)
  have path: "ht_path (ht_heap t) 1 ?xs NULL"
    by (simp add: t_def n0_def n1_def n2_def)
  have inv: "ht_inv {env_junk env} t ?xs"
    unfolding ht_inv_def using path lo bk by (auto simp: t_def ht_bucket_def)
  have "list_map ?xs Map.empty" by (auto simp: list_map_def n0_def n1_def n2_def)
  then have "ht_map {env_junk env} t Map.empty"
    using inv by (auto simp: ht_map_def ht_rep_def load_ok_def t_def)
  then show ?thesis using init by (auto simp: t_def)
qed

section \<open>Growth\<close>

lemma resize_inv:
  assumes inv: "ht_inv J t xs" and bl: "unat (ht_bitlen t) < 31"
    and full: "2 ^ unat (ht_bitlen t) < unat (ht_element_count t)"
  shows "\<exists>t' rc. ht_resize env t = returns (t', rc) \<and> ht_inv J t' xs \<and> load_ok t' \<and>
           ht_element_count t' = ht_element_count t \<and> ht_use_gc t' = ht_use_gc t \<and>
           ht_heap t' = ht_heap t \<and>
           (rc \<noteq> 0 \<longrightarrow> \<not> env_ok env BucketBlock \<and> t' = t)"
proof -
  let ?bl = "unat (ht_bitlen t)"
  have bi: "ht_bitlen_internal t = ht_bitlen t" and bl1: "1 \<le> ?bl"
    and bk: "buckets_ok (ht_buckets t) ?bl xs"
    using inv by (simp_all add: ht_inv_def)
  have inc: "unat (ht_bitlen t + 1) = ?bl + 1"
    using bl by (intro unat_Suc_no_overflow) simp
  let ?t' = "t\<lparr>ht_bitlen_internal := ht_bitlen t + 1,
      ht_buckets := (ht_buckets t)[?bl := Some (replicate (2 ^ ?bl) NULL)],
      ht_bitlen := ht_bitlen t + 1\<rparr>"
  have run: "ht_resize env t = (if env_ok env BucketBlock then returns (?t', 0) else returns (t, - 1))"
    using bi bl by (simp add: ht_resize_def Let_def)
  have bk': "buckets_ok (ht_buckets ?t') (?bl + 1) xs"
    using bk bl bl1
    by (auto simp: buckets_ok_def nth_list_update less_Suc_eq bucket_len_def split: if_splits)
  have "ht_bucket ?t' 0 0 = ht_bucket t 0 0" using bl1 by (simp add: ht_bucket_def)
  then have inv': "ht_inv J ?t' xs" using inv bk' inc bl unfolding ht_inv_def by simp
  have load: "load_ok t \<and> load_ok ?t'"
  proof -
    have "(2::nat) ^ (?bl - 1) \<le> 2 ^ ?bl" by (intro power_increasing) auto
    then have "2 ^ (?bl - 1) < unat (ht_element_count t)" using full by (rule le_less_trans)
    then show ?thesis using full inc by (simp add: load_ok_def)
  qed
  show ?thesis
    using run inv inv' load by (cases "env_ok env BucketBlock") auto
qed

lemma load_bound:
  assumes "load_ok t" and "unat (ht_element_count t) < 2 ^ 30"
  shows "unat (ht_bitlen t) < 31"
proof (cases "ht_bitlen t = 1")
  case False
  then have "(2::nat) ^ (unat (ht_bitlen t) - 1) < 2 ^ 30"
    using assms unfolding load_ok_def by linarith
  then have "unat (ht_bitlen t) - 1 < 30" by (rule power_less_imp_less_exp[rotated]) simp
  then show ?thesis by linarith
qed simp

lemma count_limit:
  assumes "unat bl < 31"
  shows "(push_bit (unat bl) 1 < (c :: u32)) \<longleftrightarrow> 2 ^ unat bl < unat c"
proof -
  have "unat (push_bit (unat bl) 1 :: u32) = 2 ^ unat bl"
  proof -
    have "(2::nat) ^ unat bl < 2 ^ 32" using assms by (intro power_strict_increasing) auto
    then show ?thesis
      unfolding unsigned_push_bit_eq by (simp add: take_bit_eq_mod push_bit_eq_mult)
  qed
  then show ?thesis by (simp only: word_less_nat_alt)
qed

section \<open>Find\<close>

lemma ht_slot_node:
  assumes "ht_path (ht_heap t) a xs z" and "(b, nd) \<in> set xs" and "nd_contents nd = HT_Value v"
  shows "ht_slot t b = Some v"
  using ht_path_node[OF assms(1,2)] assms(3) by (auto simp: ht_slot_def)

text \<open>The search of the three operations, in one statement for a table and a map.\<close>

lemma search_map:
  assumes inv: "ht_inv J t xs" and map: "list_map xs m" and key: "key_arg J str len k"
    and start: "search_start xs (key_hash k) s"
  obtains found ps p pn b nd vs where "xs = ps @ (p, pn) # (b, nd) # vs"
    and "search_result (ht_heap t) s (Some str) len (key_hash k) found p b"
    and "nd_key_hash pn \<le> key_hash k" and "key_hash k \<le> nd_key_hash nd"
    and "found \<longrightarrow> nd_key nd = Some k \<and> (\<exists>v. m k = Some v \<and> nd_contents nd = HT_Value v \<and> ht_slot t b = Some v)"
    and "\<not> found \<longrightarrow> key_hash k < nd_key_hash nd \<and> (\<forall>x\<in>set xs. en_key x \<noteq> Some k) \<and> m k = None"
proof -
  obtain a where path: "ht_path (ht_heap t) a xs NULL" using inv by (auto simp: ht_inv_def)
  have lo: "list_ok J xs" using inv by (simp add: ht_inv_def)
  obtain sn where sn: "(s, sn) \<in> set xs" "nd_key sn = None" "nd_key_hash sn \<le> key_hash k"
    using start by (auto simp: search_start_def)
  have k: "key_ok J k" "unat len \<le> length str" "k = take (unat len) str"
    using key unfolding key_arg_def by blast+
  obtain found ps p pn b nd vs where r: "xs = ps @ (p, pn) # (b, nd) # vs"
    "search_result (ht_heap t) s (Some str) len (key_hash k) found p b"
    "nd_key_hash pn \<le> key_hash k" "key_hash k \<le> nd_key_hash nd"
    "found \<longrightarrow> nd_key nd = Some k"
    "\<not> found \<longrightarrow> key_hash k < nd_key_hash nd \<and> (\<forall>x\<in>set xs. en_key x \<noteq> Some k)"
    by (rule ht_search[OF path lo sn k])
  have hit: "\<exists>v. m k = Some v \<and> nd_contents nd = HT_Value v \<and> ht_slot t b = Some v" if f: found
  proof -
    have mem: "(b, nd) \<in> set xs" unfolding r(1) by simp
    then obtain v where v: "m k = Some v" "nd_contents nd = HT_Value v"
      using list_map_present[OF map lo mem] r(5) f by auto
    then show ?thesis using ht_slot_node[OF path mem] by auto
  qed
  have miss: "m k = None" if f: "\<not> found"
    using list_map_absent[OF map] r(6) f by blast
  show ?thesis using that[OF r(1-4)] r(5,6) hit miss by blast
qed

lemma ht_find_map:
  assumes "ht_map J t m" and key: "key_arg J str len k"
  shows "\<exists>st a. ht_find t (Some str) len = returns (st, a) \<and>
           (case m k of None \<Rightarrow> st = HT_NOT_FOUND \<and> a = NULL
            | Some v \<Rightarrow> st = HT_GOOD \<and> ht_slot t a = Some v)"
proof -
  obtain xs where inv: "ht_inv J t xs" and map: "list_map xs m"
    using assms(1) by (auto simp: ht_map_def ht_rep_def)
  obtain s where s: "ht_get_sentinel_read t (key_hash k) = returns s" "search_start xs (key_hash k) s"
    using get_sentinel_read[OF inv] by blast
  obtain found ps p pn b nd vs where "xs = ps @ (p, pn) # (b, nd) # vs"
    and r: "search_result (ht_heap t) s (Some str) len (key_hash k) found p b"
    and "nd_key_hash pn \<le> key_hash k" and "key_hash k \<le> nd_key_hash nd"
    and hit: "found \<longrightarrow> nd_key nd = Some k \<and> (\<exists>v. m k = Some v \<and> nd_contents nd = HT_Value v \<and> ht_slot t b = Some v)"
    and miss: "\<not> found \<longrightarrow> key_hash k < nd_key_hash nd \<and> (\<forall>x\<in>set xs. en_key x \<noteq> Some k) \<and> m k = None"
    by (rule search_map[OF inv map key s(2)])
  have "ht_find t (Some str) len = (if found then returns (HT_GOOD, b) else returns (HT_NOT_FOUND, NULL))"
    using r s(1) key_arg_hash(1)[OF key] by (auto simp: ht_find_def search_result_def)
  then show ?thesis using hit miss by (cases found) auto
qed

text \<open>The node found is the node of the key.\<close>

lemma ht_find_node:
  assumes inv: "ht_inv J t xs" and map: "list_map xs m" and key: "key_arg J str len k"
    and v: "m k = Some v"
  shows "\<exists>b nd. ht_find t (Some str) len = returns (HT_GOOD, b) \<and> (b, nd) \<in> set xs \<and> nd_key nd = Some k"
proof -
  obtain s where s: "ht_get_sentinel_read t (key_hash k) = returns s" "search_start xs (key_hash k) s"
    using get_sentinel_read[OF inv] by blast
  obtain found ps p pn b nd vs where xs: "xs = ps @ (p, pn) # (b, nd) # vs"
    and r: "search_result (ht_heap t) s (Some str) len (key_hash k) found p b"
    and "nd_key_hash pn \<le> key_hash k" and "key_hash k \<le> nd_key_hash nd"
    and hit: "found \<longrightarrow> nd_key nd = Some k \<and> (\<exists>v. m k = Some v \<and> nd_contents nd = HT_Value v \<and> ht_slot t b = Some v)"
    and miss: "\<not> found \<longrightarrow> key_hash k < nd_key_hash nd \<and> (\<forall>x\<in>set xs. en_key x \<noteq> Some k) \<and> m k = None"
    by (rule search_map[OF inv map key s(2)])
  have found using miss v by auto
  then have "ht_find t (Some str) len = returns (HT_GOOD, b)"
    using r s(1) key_arg_hash(1)[OF key] by (auto simp: ht_find_def search_result_def)
  moreover have "(b, nd) \<in> set xs" unfolding xs by simp
  ultimately show ?thesis using hit \<open>found\<close> by blast
qed

section \<open>Assignment through a slot\<close>

definition put_contents :: "addr \<Rightarrow> 'v \<Rightarrow> 'v ht_entry \<Rightarrow> 'v ht_entry" where
  "put_contents b v x = (if fst x = b then (b, (snd x)\<lparr>nd_contents := HT_Value v\<rparr>) else x)"

lemma put_contents_simps [simp]:
  "fst (put_contents b v x) = fst x"
  "en_key (put_contents b v x) = en_key x"
  "en_hash (put_contents b v x) = en_hash x"
  "nd_key_length (snd (put_contents b v x)) = nd_key_length (snd x)"
  "nd_ord (snd (put_contents b v x)) = nd_ord (snd x)"
  by (simp_all add: put_contents_def nd_ord_def)

lemma ht_path_put:
  assumes "ht_path h a xs z" and "h b = Some nd"
  shows "ht_path (h(b \<mapsto> nd\<lparr>nd_contents := HT_Value v\<rparr>)) a (map (put_contents b v) xs) z"
  using assms
proof (induction h a xs z rule: ht_path.induct)
  case (2 h a c cn xs z)
  then obtain nx where a: "a = c" "a \<noteq> NULL" "h a = Some (cn\<lparr>nd_next := nx\<rparr>)" "ht_path h nx xs z"
    by auto
  have put: "put_contents b v (c, cn) = (c, snd (put_contents b v (c, cn)))"
    by (simp add: put_contents_def)
  let ?h = "h(b \<mapsto> nd\<lparr>nd_contents := HT_Value v\<rparr>)"
  have rest: "ht_path ?h nx (map (put_contents b v) xs) z" using 2 a by blast
  have "?h a = Some ((snd (put_contents b v (c, cn)))\<lparr>nd_next := nx\<rparr>)"
  proof (cases "c = b")
    case True
    then have "nd = cn\<lparr>nd_next := nx\<rparr>" using a(1,3) 2(3) by simp
    then show ?thesis using True a(1) by (simp add: put_contents_def)
  next
    case False
    then show ?thesis using a(1,3) by (simp add: put_contents_def)
  qed
  then have "ht_path ?h a ((c, snd (put_contents b v (c, cn))) # map (put_contents b v) xs) z"
    unfolding ht_path.simps using a(1,2) rest by blast
  then show ?case unfolding list.simps(9) put[symmetric] .
qed simp

lemma list_ok_put:
  assumes lo: "list_ok J xs"
  shows "list_ok J (map (put_contents b v) xs)"
proof -
  let ?zs = "map (put_contents b v) xs"
  have d: "map fst ?zs = map fst xs" and o: "map (\<lambda>x. nd_ord (snd x)) ?zs = map (\<lambda>x. nd_ord (snd x)) xs"
    by simp_all
  have n: "\<forall>x\<in>set ?zs. node_ok J (snd x)"
  proof
    fix y
    assume "y \<in> set ?zs"
    then obtain x where x: "x \<in> set xs" "y = put_contents b v x" by auto
    then have "node_ok J (snd x)" using lo by (simp add: list_ok_def)
    then show "node_ok J (snd y)"
      unfolding x(2) by (auto simp: node_ok_def put_contents_def split: option.splits)
  qed
  have k: "\<forall>x\<in>set ?zs. \<forall>y\<in>set ?zs. en_key x = en_key y \<longrightarrow> en_key x \<noteq> None \<longrightarrow> x = y"
  proof (intro ballI impI)
    fix y y'
    assume y: "y \<in> set ?zs" "y' \<in> set ?zs" "en_key y = en_key y'" "en_key y \<noteq> None"
    then obtain x x' where x: "x \<in> set xs" "y = put_contents b v x" "x' \<in> set xs" "y' = put_contents b v x'"
      by auto
    have "en_key x = en_key x'" "en_key x \<noteq> None" using y(3,4) x(2,4) by simp_all
    then have "x = x'" using lo x(1,3) unfolding list_ok_def by blast
    then show "y = y'" using x by simp
  qed
  have e: "\<exists>x\<in>set ?zs. en_hash x = - 1" using lo unfolding list_ok_def by simp
  have t: "\<forall>x\<in>set ?zs. en_hash x = - 1 \<longrightarrow> en_key x = None" using lo unfolding list_ok_def by simp
  have l: "distinct (map fst xs)" "sorted (map (\<lambda>x. nd_ord (snd x)) xs)"
    using lo unfolding list_ok_def by blast+
  show ?thesis
    unfolding list_ok_def d o using l n k e t by blast
qed

lemma list_map_put:
  assumes lo: "list_ok J xs" and map: "list_map xs m" and b: "(b, nd) \<in> set xs" "nd_key nd = Some k"
  shows "list_map (map (put_contents b v) xs) (m(k \<mapsto> v))"
  unfolding list_map_def
proof (intro allI)
  fix k' v'
  have uk: "x = (b, nd)" if "x \<in> set xs" "en_key x = Some k" for x
    using lo that b unfolding list_ok_def by auto
  have ub: "x = (b, nd)" if "x \<in> set xs" "fst x = b" for x
    using lo that b(1) unfolding list_ok_def by (metis eq_key_imp_eq_value prod.collapse)
  have "(\<exists>y\<in>set (map (put_contents b v) xs). en_key y = Some k' \<and> nd_contents (snd y) = HT_Value v')
      \<longleftrightarrow> (\<exists>x\<in>set xs. en_key x = Some k' \<and> nd_contents (snd (put_contents b v x)) = HT_Value v')"
    by auto
  also have "\<dots> \<longleftrightarrow> (m(k \<mapsto> v)) k' = Some v'"
  proof (cases "k' = k")
    case True
    have "(\<exists>x\<in>set xs. en_key x = Some k \<and> nd_contents (snd (put_contents b v x)) = HT_Value v') \<longleftrightarrow>
        nd_contents (snd (put_contents b v (b, nd))) = HT_Value v'"
      using uk b by (metis snd_conv)
    then show ?thesis using True by (auto simp: put_contents_def)
  next
    case False
    have "put_contents b v x = x" if "x \<in> set xs" "en_key x = Some k'" for x
    proof -
      have "fst x \<noteq> b"
      proof
        assume "fst x = b"
        then have "x = (b, nd)" by (rule ub[OF that(1)])
        then show False using that(2) b(2) False by simp
      qed
      then show ?thesis by (simp add: put_contents_def)
    qed
    then show ?thesis using map False by (auto simp: list_map_def)
  qed
  finally show "(m(k \<mapsto> v)) k' = Some v' \<longleftrightarrow>
      (\<exists>y\<in>set (map (put_contents b v) xs). en_key y = Some k' \<and> nd_contents (snd y) = HT_Value v')"
    by blast
qed

lemma is_sentinel_put: 
  assumes "is_sentinel xs j a"
  shows "is_sentinel (map (put_contents b v) xs) j a"
proof -
  obtain nd where nd: "(a, nd) \<in> set xs" "nd_key nd = None" "nd_key_hash nd = ht_reverse_bits (of_nat j)"
    using assms by (auto simp: is_sentinel_def)
  define nd' where "nd' = snd (put_contents b v (a, nd))"
  have nd': "put_contents b v (a, nd) = (a, nd')" by (simp add: nd'_def put_contents_def)
  have "(a, nd') \<in> set (map (put_contents b v) xs)" using nd(1) nd' by force
  moreover have "nd_key nd' = None" "nd_key_hash nd' = nd_key_hash nd"
    using nd(2) nd' by (auto simp: put_contents_def split: if_splits)
  ultimately show ?thesis using nd(3) by (auto simp: is_sentinel_def)
qed

lemma slot_put_map:
  assumes "ht_map J t m" and at: "ht_at J t m k a"
  shows "ht_map J (ht_slot_set a v' t) (m(k \<mapsto> v')) \<and> ht_slot (ht_slot_set a v' t) a = Some v' \<and>
           ht_element_count (ht_slot_set a v' t) = ht_element_count t"
proof -
  have load: "load_ok t" using assms(1) by (simp add: ht_map_def)
  obtain xs nd where inv: "ht_inv J t xs" and map: "list_map xs m"
    and nd: "(a, nd) \<in> set xs" "nd_key nd = Some k"
    using at by (auto simp: ht_at_def)
  obtain s where s: "ht_bucket t 0 0 = Ok s" "ht_path (ht_heap t) s xs NULL"
    using inv by (auto simp: ht_inv_def)
  obtain nd0 where nd0: "ht_heap t a = Some nd0" using ht_path_node[OF s(2) nd(1)] by blast
  have lo: "list_ok J xs" using inv by (simp add: ht_inv_def)
  let ?zs = "map (put_contents a v') xs"
  have t': "ht_slot_set a v' t = ht_set_node a (nd0\<lparr>nd_contents := HT_Value v'\<rparr>) t"
    using nd0 by (simp add: ht_slot_set_def)
  have bk: "buckets_ok (ht_buckets t) (unat (ht_bitlen t)) ?zs"
  proof (rule buckets_ok_mono)
    show "buckets_ok (ht_buckets t) (unat (ht_bitlen t)) xs" using inv by (simp add: ht_inv_def)
    show "is_sentinel ?zs j c" if "is_sentinel xs j c" for j c using that by (rule is_sentinel_put)
  qed
  have fresh: "\<And>c. c \<ge> ht_brk t \<Longrightarrow> ht_heap t c = None" using inv unfolding ht_inv_def by blast
  have "a \<in> fst ` set xs" using nd(1) by (rule image_eqI[rotated]) simp
  then have brk: "a < ht_brk t" using ht_path_fresh[OF s(2), of "ht_brk t" a] fresh by blast
  have "ht_inv J (ht_slot_set a v' t) ?zs"
    unfolding t' ht_inv_def
  proof (intro conjI)
    show "\<exists>c. ht_bucket (ht_set_node a (nd0\<lparr>nd_contents := HT_Value v'\<rparr>) t) 0 0 = Ok c \<and>
        ht_path (ht_heap (ht_set_node a (nd0\<lparr>nd_contents := HT_Value v'\<rparr>) t)) c ?zs NULL"
      using s(1) ht_path_put[OF s(2) nd0, of v'] by simp
    show "\<forall>c\<ge>ht_brk (ht_set_node a (nd0\<lparr>nd_contents := HT_Value v'\<rparr>) t).
        ht_heap (ht_set_node a (nd0\<lparr>nd_contents := HT_Value v'\<rparr>) t) c = None"
      using fresh brk by simp
  qed (use inv list_ok_put[OF lo, of a v'] bk in \<open>simp_all add: ht_inv_def\<close>)
  moreover have "list_map ?zs (m(k \<mapsto> v'))" by (rule list_map_put[OF lo map nd])
  moreover have "load_ok (ht_slot_set a v' t)" using load by (simp add: t' load_ok_def)
  moreover have "ht_slot (ht_slot_set a v' t) a = Some v'"
    using ht_path_node[OF s(2) nd(1)] by (simp add: t' ht_slot_def)
  moreover have "ht_element_count (ht_slot_set a v' t) = ht_element_count t" by (simp add: t')
  ultimately show ?thesis by (auto simp: ht_map_def ht_rep_def)
qed

lemma ht_find_at:
  assumes "ht_map J t m" and key: "key_arg J str len k" and v: "m k = Some v"
    and find: "ht_find t (Some str) len = returns (st, a)"
  shows "ht_at J t m k a"
proof -
  obtain xs where inv: "ht_inv J t xs" and map: "list_map xs m"
    using assms(1) by (auto simp: ht_map_def ht_rep_def)
  show ?thesis using ht_find_node[OF inv map key v] find inv map by (auto simp: ht_at_def)
qed

lemma slot_set_map:
  assumes "ht_map J t m" and key: "key_arg J str len k" and v: "m k = Some v"
    and find: "ht_find t (Some str) len = returns (st, a)"
  shows "ht_map J (ht_slot_set a v' t) (m(k \<mapsto> v'))"
  using slot_put_map[OF assms(1) ht_find_at[OF assms]] by blast

section \<open>Delete\<close>

lemma ht_del_map:
  assumes "ht_map J t m" and key: "key_arg J str len k"
  shows "\<exists>t' st r. ht_del t (Some str) len = returns (t', st, r) \<and> ht_map J t' (m(k := None)) \<and>
           ht_element_count t' = ht_element_count t \<and>
           (case m k of None \<Rightarrow> st = HT_NOT_FOUND \<and> r = None \<and> t' = t
            | Some v \<Rightarrow> st = HT_GOOD \<and> (\<exists>a f. r = Some (HT_Value v, a, f) \<and> ht_slot t a = Some v))"
proof -
  obtain xs where inv: "ht_inv J t xs" and map: "list_map xs m" and load: "load_ok t"
    using assms(1) by (auto simp: ht_map_def ht_rep_def)
  obtain s where s: "ht_get_sentinel_read t (key_hash k) = returns s" "search_start xs (key_hash k) s"
    using get_sentinel_read[OF inv] by blast
  obtain found ps p pn b nd vs where xs: "xs = ps @ (p, pn) # (b, nd) # vs"
    and r: "search_result (ht_heap t) s (Some str) len (key_hash k) found p b"
    and "nd_key_hash pn \<le> key_hash k" and "key_hash k \<le> nd_key_hash nd"
    and hit: "found \<longrightarrow> nd_key nd = Some k \<and> (\<exists>v. m k = Some v \<and> nd_contents nd = HT_Value v \<and> ht_slot t b = Some v)"
    and miss: "\<not> found \<longrightarrow> key_hash k < nd_key_hash nd \<and> (\<forall>x\<in>set xs. en_key x \<noteq> Some k) \<and> m k = None"
    by (rule search_map[OF inv map key s(2)])
  obtain a where a: "ht_bucket t 0 0 = Ok a" and path: "ht_path (ht_heap t) a xs NULL"
    using inv by (auto simp: ht_inv_def)
  have lo: "list_ok J xs" using inv by (simp add: ht_inv_def)
  obtain nx where hb: "ht_heap t b = Some (nd\<lparr>nd_next := nx\<rparr>)" "b \<noteq> NULL"
    using ht_path_node[OF path, of b nd] unfolding xs by auto
  have hp: "ht_heap t p = Some (pn\<lparr>nd_next := b\<rparr>)" "p \<noteq> NULL"
    using path unfolding xs by (auto simp: ht_path_append)
  have at: "ht_node_at (ht_heap t) b = Ok (nd\<lparr>nd_next := nx\<rparr>)"
    "ht_node_at (ht_heap t) p = Ok (pn\<lparr>nd_next := b\<rparr>)"
    using hb hp by (simp_all add: ht_node_at_def)
  let ?g = "if ht_use_gc t then Ht_default_gc_free_func else Ht_gc_gc_free_func"
  let ?t' = "ht_set_node p (pn\<lparr>nd_next := nx\<rparr>) t"
  have run: "ht_del t (Some str) len = (if found
      then returns (?t', HT_GOOD, Some (nd_contents nd, b, ?g)) else returns (t, HT_NOT_FOUND, None))"
    using r s(1) key_arg_hash(1)[OF key] at by (auto simp: ht_del_def search_result_def)
  show ?thesis
  proof (cases found)
    case False
    then have "m(k := None) = m" using miss by (auto simp: fun_upd_idem)
    then show ?thesis using run False miss assms(1) by auto
  next
    case True
    then have key': "nd_key nd = Some k" using hit by blast
    let ?zs = "ps @ (p, pn) # vs"
    have lo': "list_ok J ?zs"
      using list_ok_remove[of J "ps @ [(p, pn)]" b nd vs] lo key' unfolding xs by simp
    have map': "list_map ?zs (m(k := None))"
      using list_map_remove[of "ps @ [(p, pn)]" b nd vs m J k] lo map key' unfolding xs by simp
    have "distinct (map fst (ps @ (p, pn) # (b, nd) # vs))" using lo unfolding xs by (simp add: list_ok_def)
    then have path': "ht_path (ht_heap ?t') a ?zs NULL"
      using ht_path_unlink[OF path[unfolded xs] _ hb(1)] by simp
    have bk': "buckets_ok (ht_buckets t) (unat (ht_bitlen t)) ?zs"
    proof (rule buckets_ok_mono)
      show "buckets_ok (ht_buckets t) (unat (ht_bitlen t)) xs" using inv by (simp add: ht_inv_def)
      show "is_sentinel ?zs j c" if "is_sentinel xs j c" for j c
        using is_sentinel_remove[of "ps @ [(p, pn)]" b nd vs j c] that key' unfolding xs by simp
    qed
    have "p < ht_brk t"
      using ht_path_fresh[OF path, of "ht_brk t" p] inv unfolding xs by (auto simp: ht_inv_def)
    then have inv': "ht_inv J ?t' ?zs"
      using inv a path' lo' bk' unfolding ht_inv_def by auto
    have "load_ok ?t'" using load by (simp add: load_ok_def)
    then have "ht_map J ?t' (m(k := None))"
      using inv' map' by (auto simp: ht_map_def ht_rep_def)
    then show ?thesis using run True hit by auto
  qed
qed

section \<open>Store\<close>

lemma store_alloc:
  assumes inv: "ht_inv J t xs" and key: "key_arg J str len k" and ok: "env_ok env KeyCopy"
    and w: "w \<noteq> NULL \<longrightarrow> w \<notin> fst ` set xs \<and> w < ht_brk t \<and> ht_heap t w \<noteq> None"
  shows "w = NULL \<and> \<not> env_ok env StoreNode \<and>
           ht_store_alloc_node env t w (key_hash k) (Some str) len v = Ok (t, HT_OOM, NULL) \<or>
         (\<exists>t' nw nd. ht_store_alloc_node env t w (key_hash k) (Some str) len v = Ok (t', HT_GOOD, nw) \<and>
           ht_inv J t' xs \<and> nw \<noteq> NULL \<and> nw \<notin> fst ` set xs \<and> nw < ht_brk t' \<and>
           ht_heap t' nw = Some nd \<and> nd_key nd = Some k \<and> nd_key_length nd = len \<and>
           nd_key_hash nd = key_hash k \<and> nd_contents nd = HT_Value v \<and>
           ht_element_count t' = ht_element_count t \<and> ht_bitlen t' = ht_bitlen t \<and>
           ht_use_gc t' = ht_use_gc t)"
proof (cases "w = NULL \<and> \<not> env_ok env StoreNode")
  case True
  then show ?thesis by (simp add: ht_store_alloc_node_def)
next
  case False
  have k: "\<not> length str < unat len" "k = take (unat len) str"
    using key unfolding key_arg_def by simp_all
  define node where "node nd = nd\<lparr>nd_key := Some k, nd_key_length := len,
      nd_contents := HT_Value v, nd_key_hash := key_hash k\<rparr>" for nd :: "'a ht_node"
  have main: "\<exists>t' nd. ht_store_alloc_node env t w (key_hash k) (Some str) len v
        = Ok (ht_set_node nw (node nd) t', HT_GOOD, nw) \<and> ht_inv J t' xs \<and> nw \<noteq> NULL \<and>
        nw \<notin> fst ` set xs \<and> nw < ht_brk t' \<and> ht_element_count t' = ht_element_count t \<and>
        ht_bitlen t' = ht_bitlen t \<and> ht_use_gc t' = ht_use_gc t"
    if nw: "nw = (if w = NULL then ht_brk t else w)" for nw
  proof (cases "w = NULL")
    case True
    obtain t1 w1 where t1: "ht_new_node ((ht_fresh_node env)\<lparr>nd_contents := HT_FREE\<rparr>) t = (t1, w1)"
      by force
    note n1 = ht_inv_new_node[OF inv t1]
    have "w1 = nw" "w1 < ht_brk t1" using n1(6,7) nw True by simp_all
    then show ?thesis
      using True False t1 n1(1-4) n1(7) ok k
      by (intro exI[of _ t1] exI[of _ "(ht_fresh_node env)\<lparr>nd_contents := HT_FREE\<rparr>"])
        (simp add: ht_store_alloc_node_def ht_node_at_def node_def)
  next
    case wn: False
    then obtain nd where nd: "ht_heap t w = Some nd" using w by auto
    then show ?thesis
      using wn nw w inv ok k
      by (intro exI[of _ t] exI[of _ nd]) (simp add: ht_store_alloc_node_def ht_node_at_def node_def)
  qed
  obtain nw t' nd where r: "ht_store_alloc_node env t w (key_hash k) (Some str) len v
        = Ok (ht_set_node nw (node nd) t', HT_GOOD, nw)" "ht_inv J t' xs" "nw \<noteq> NULL"
      "nw \<notin> fst ` set xs" "nw < ht_brk t'" "ht_element_count t' = ht_element_count t"
      "ht_bitlen t' = ht_bitlen t" "ht_use_gc t' = ht_use_gc t"
    using main[OF refl] by blast
  have "ht_inv J (ht_set_node nw (node nd) t') xs" by (rule ht_inv_set_node[OF r(2,4,5)])
  moreover have "nd_key (node nd) = Some k" "nd_key_length (node nd) = len"
    "nd_key_hash (node nd) = key_hash k" "nd_contents (node nd) = HT_Value v"
    by (simp_all add: node_def)
  ultimately show ?thesis using r by (intro disjI2 exI[of _ "ht_set_node nw (node nd) t'"] exI[of _ nw]
      exI[of _ "node nd"]) simp
qed

text \<open>What a store did, by its status.\<close>

definition store_outcome ::
    "u32 set \<Rightarrow> ht_env \<Rightarrow> 'v ht_table \<Rightarrow> (bytes \<rightharpoonup> 'v) \<Rightarrow> bytes \<Rightarrow> 'v
       \<Rightarrow> 'v ht_table \<Rightarrow> ht_status \<Rightarrow> addr \<Rightarrow> bool" where
  "store_outcome J env t m k v t' st a =
     (case st of
        HT_GOOD \<Rightarrow> m k = None \<and> ht_map J t' (m(k \<mapsto> v)) \<and> ht_slot t' a = Some v \<and>
                   ht_at J t' (m(k \<mapsto> v)) k a \<and>
                   ht_element_count t' = ht_element_count t + 1
      | HT_DUPLICATE_KEY \<Rightarrow> m k \<noteq> None \<and> ht_map J t' m \<and> ht_slot t' a = m k \<and> ht_at J t' m k a \<and>
                   ht_element_count t' = ht_element_count t
      | HT_OOM \<Rightarrow> ht_map J t' m \<and> a = NULL \<and> ht_element_count t' = ht_element_count t \<and>
                   \<not> (env_ok env BucketBlock \<and> env_ok env SentinelNode \<and> env_ok env SpareNode \<and>
                     env_ok env StoreNode)
      | _ \<Rightarrow> False)"

lemma ht_inv_count [simp]: "ht_inv J (t\<lparr>ht_element_count := c\<rparr>) xs = ht_inv J t xs"
  by (simp add: ht_inv_def ht_bucket_def)

lemma load_ok_more:
  assumes "load_ok t" and "unat (ht_element_count t) < 2 ^ 30"
    and "ht_bitlen t' = ht_bitlen t" and "ht_element_count t' = ht_element_count t + 1"
  shows "load_ok t'"
proof -
  have "unat (ht_element_count t + 1) = unat (ht_element_count t) + 1"
    using assms(2) by (intro unat_Suc_no_overflow) simp
  then show ?thesis using assms(1,3,4) by (auto simp: load_ok_def)
qed

text \<open>The store once the table has grown.\<close>

lemma store_grown:
  assumes inv: "ht_inv J t xs" and load: "load_ok t" and map: "list_map xs m"
    and key: "key_arg J str len k" and junk: "env_junk env \<in> J" and ok: "env_ok env KeyCopy"
    and cnt: "unat (ht_element_count t) < 2 ^ 30"
  shows "\<exists>t' st a. ht_store_insert env t (key_hash k) (Some str) len v = returns (t', st, a) \<and>
           store_outcome J env t m k v t' st a"
proof -
  obtain t2 op w xs2 where c: "ht_get_sentinel_create env t (key_hash k) = returns (t2, op, w)"
    and inv2: "ht_inv J t2 xs2" and map2: "list_map xs2 m"
    and same2: "ht_element_count t2 = ht_element_count t" "ht_bitlen t2 = ht_bitlen t"
    and oom: "op = NULL \<longrightarrow> \<not> (env_ok env SentinelNode \<and> env_ok env SpareNode)"
    and start: "op \<noteq> NULL \<longrightarrow> search_start xs2 (key_hash k) op"
    and w: "w \<noteq> NULL \<longrightarrow> w \<notin> fst ` set xs2 \<and> w < ht_brk t2 \<and> ht_heap t2 w \<noteq> None"
    using get_sentinel_create[OF inv junk, of "key_hash k"] map by blast
  have load2: "load_ok t2" using load same2 by (simp add: load_ok_def)
  have rep2: "ht_map J t2 m" using inv2 map2 load2 by (auto simp: ht_map_def ht_rep_def)
  show ?thesis
  proof (cases "op = NULL")
    case True
    then show ?thesis using c rep2 oom same2 by (auto simp: ht_store_insert_def store_outcome_def)
  next
    case False
    then have start: "search_start xs2 (key_hash k) op" using start by blast
    obtain found ps p pn b nd vs where xs2: "xs2 = ps @ (p, pn) # (b, nd) # vs"
      and r: "search_result (ht_heap t2) op (Some str) len (key_hash k) found p b"
      and hp: "nd_key_hash pn \<le> key_hash k" and hn: "key_hash k \<le> nd_key_hash nd"
      and hit: "found \<longrightarrow> nd_key nd = Some k \<and> (\<exists>v. m k = Some v \<and> nd_contents nd = HT_Value v \<and> ht_slot t2 b = Some v)"
      and miss: "\<not> found \<longrightarrow> key_hash k < nd_key_hash nd \<and> (\<forall>x\<in>set xs2. en_key x \<noteq> Some k) \<and> m k = None"
      by (rule search_map[OF inv2 map2 key start])
    obtain op_nd p1 n1 where
      at: "ht_node_at (ht_heap t2) op = Ok op_nd"
      and skip: "ht_skip (ht_heap t2) (key_hash k) op (nd_next op_nd) = returns (p1, n1)"
      and scan: "ht_scan (ht_heap t2) (key_hash k) (Some str) len p1 n1 = returns (found, p, b)"
      using r by (auto simp: search_result_def)
    note pre = c False at skip scan
    show ?thesis
    proof (cases found)
      case True
      have "(b, nd) \<in> set xs2" unfolding xs2 by simp
      then have "ht_at J t2 m k b"
        unfolding ht_at_def using inv2 map2 hit True by (intro exI[of _ xs2] exI[of _ nd]) simp
      then show ?thesis using True pre hit rep2 same2 by (auto simp: ht_store_insert_def store_outcome_def)
    next
      case nf: False
      consider (oom) "w = NULL" "\<not> env_ok env StoreNode"
          "ht_store_alloc_node env t2 w (key_hash k) (Some str) len v = Ok (t2, HT_OOM, NULL)"
        | (good) t3 nw nwn where
          "ht_store_alloc_node env t2 w (key_hash k) (Some str) len v = Ok (t3, HT_GOOD, nw)"
          "ht_inv J t3 xs2" "nw \<noteq> NULL" "nw \<notin> fst ` set xs2" "nw < ht_brk t3"
          "ht_heap t3 nw = Some nwn" "nd_key nwn = Some k" "nd_key_length nwn = len"
          "nd_key_hash nwn = key_hash k" "nd_contents nwn = HT_Value v"
          "ht_element_count t3 = ht_element_count t2" "ht_bitlen t3 = ht_bitlen t2"
        using store_alloc[OF inv2 key ok w, of v] by blast
      then show ?thesis
      proof cases
        case oom
        then show ?thesis using pre nf rep2 same2 by (auto simp: ht_store_insert_def store_outcome_def)
      next
        case good
        let ?t4 = "ht_set_node nw (nwn\<lparr>nd_next := b\<rparr>) t3"
        let ?zs = "ps @ (p, pn) # (nw, nwn) # (b, nd) # vs"
        have inv4: "ht_inv J ?t4 (ps @ (p, pn) # (b, nd) # vs)"
          unfolding xs2[symmetric] by (rule ht_inv_set_node[OF good(2,4,5)])
        have kh: "key_ok J k" "of_nat (length k) = len"
          using key key_arg_hash(4)[OF key] unfolding key_arg_def by blast+
        have nok: "node_ok J nwn" using good(7-10) kh by (simp add: node_ok_def)
        have ord: "nd_ord pn \<le> nd_ord nwn" "nd_ord nwn \<le> nd_ord nd"
          using hp miss nf good(7,9) by (auto simp: nd_ord_def word_le_nat_alt word_less_nat_alt)
        have newkey: "nd_key nwn = None \<or> (\<forall>x\<in>set (ps @ (p, pn) # (b, nd) # vs). en_key x \<noteq> nd_key nwn)"
          using miss nf good(7) unfolding xs2 by simp
        have top: "nd_key_hash nwn \<noteq> - 1" using kh(1) good(9) by (simp add: key_ok_def)
        have brk: "nw < ht_brk ?t4" and hw: "ht_heap ?t4 nw = Some (nwn\<lparr>nd_next := b\<rparr>)"
          using good(5) by simp_all
        note link = ht_inv_link[OF inv4 good(3) good(4)[unfolded xs2] brk hw nok ord newkey top]
        have atb: "\<exists>nx. ht_node_at (ht_heap ?t4) b = Ok (nd\<lparr>nd_next := nx\<rparr>)"
        proof -
          obtain a where "ht_path (ht_heap ?t4) a (ps @ (p, pn) # (b, nd) # vs) NULL"
            using inv4 by (auto simp: ht_inv_def)
          then show ?thesis by (rule ht_node_at_path) simp
        qed
        let ?t5 = "ht_set_node p (pn\<lparr>nd_next := nw\<rparr>) ?t4"
        let ?t' = "?t5\<lparr>ht_element_count := ht_element_count t + 1\<rparr>"
        have map': "list_map ?zs (m(k \<mapsto> v))"
          using list_map_insert[of "ps @ [(p, pn)]" "(b, nd) # vs" m k nwn v nw] map2 miss nf good(7,10)
          unfolding xs2 by simp
        have load': "load_ok ?t'"
          by (rule load_ok_more[OF load cnt]) (simp_all add: good(12) same2)
        have inv': "ht_inv J ?t' ?zs" using link(2) by simp
        have "ht_map J ?t' (m(k \<mapsto> v))"
          using inv' map' load' by (auto simp: ht_map_def ht_rep_def)
        moreover have "ht_slot ?t' nw = Some v"
        proof -
          obtain a where "ht_path (ht_heap ?t') a ?zs NULL" using inv' by (auto simp: ht_inv_def)
          then show ?thesis by (rule ht_slot_node[OF _ _ good(10)]) simp
        qed
        moreover have "ht_at J ?t' (m(k \<mapsto> v)) k nw"
          unfolding ht_at_def using inv' map' good(7) by (intro exI[of _ ?zs] exI[of _ nwn]) auto
        ultimately have "store_outcome J env t m k v ?t' HT_GOOD nw"
          using miss nf by (simp add: store_outcome_def)
        moreover obtain nx where "ht_node_at (ht_heap ?t4) b = Ok (nd\<lparr>nd_next := nx\<rparr>)"
          using atb by blast
        ultimately show ?thesis
          using pre nf good(1,3,6) link(1) hp hn good(11) same2(1)
          by (simp add: ht_store_insert_def ht_node_at_def[of "ht_heap t3"] Let_def)
      qed
    qed
  qed
qed

lemma ht_store_map:
  assumes "ht_map J t m" and key: "key_arg J str len k" and junk: "env_junk env \<in> J"
    and ok: "env_ok env KeyCopy" and cnt: "unat (ht_element_count t) < 2 ^ 30"
  shows "\<exists>t' st a. ht_store env t (Some str) len v = returns (t', st, a) \<and>
           store_outcome J env t m k v t' st a"
proof -
  obtain xs where inv: "ht_inv J t xs" and map: "list_map xs m" and load: "load_ok t"
    using assms(1) by (auto simp: ht_map_def ht_rep_def)
  have bl: "unat (ht_bitlen t) < 31" by (rule load_bound[OF load cnt])
  note hash = key_arg_hash[OF key]
  let ?full = "ht_element_count t > push_bit (unat (ht_bitlen t)) 1"
  have grown: "\<exists>t1 rc. (if ?full then ht_resize env t else returns (t, 0)) = returns (t1, rc) \<and>
      ht_inv J t1 xs \<and> load_ok t1 \<and> ht_element_count t1 = ht_element_count t \<and>
      (rc \<noteq> 0 \<longrightarrow> \<not> env_ok env BucketBlock \<and> t1 = t)"
    using resize_inv[OF inv bl, of env] count_limit[OF bl] inv load by (cases ?full) auto
  then obtain t1 rc where g: "(if ?full then ht_resize env t else returns (t, 0)) = returns (t1, rc)"
    and inv1: "ht_inv J t1 xs" and load1: "load_ok t1"
    and cnt1: "ht_element_count t1 = ht_element_count t"
    and rc: "rc \<noteq> 0 \<longrightarrow> \<not> env_ok env BucketBlock \<and> t1 = t"
    by blast
  have not31: "\<not> 31 \<le> unat (ht_bitlen t)" using bl by simp
  show ?thesis
  proof (cases "rc = 0")
    case False
    then have "ht_store env t (Some str) len v = returns (t, HT_OOM, NULL)"
      using g hash not31 rc by (simp add: ht_store_def)
    then show ?thesis using rc False assms(1) by (auto simp: store_outcome_def)
  next
    case True
    have out: "store_outcome J env t1 m k v t' st a = store_outcome J env t m k v t' st a" for t' st a
      by (simp only: store_outcome_def cnt1)
    have "ht_store env t (Some str) len v = ht_store_insert env t1 (key_hash k) (Some str) len v"
      using g hash not31 True by (simp add: ht_store_def)
    then show ?thesis
      using store_grown[OF inv1 load1 map key junk ok, of v] cnt cnt1 out by simp
  qed
qed

end
