(* ===== verification/Kv_Spec.thy ===== *)
theory Kv_Spec
  imports Prelude
begin

text \<open>
  What a key-value table promises: each operation answers as a finite map does, except that a store
  may be refused for want of memory and then changes nothing.  The interface is relational, because
  which of the stores that are short of memory are refused is not the table's choice; a store that is not
  short of memory is not refused.
\<close>

datatype 'v kv_op = Put bytes 'v | Get bytes | Del bytes

datatype 'v kv_reply = Stored | Exists 'v | Refused | Found 'v | Missing | Deleted 'v

fun kv_key :: "'v kv_op \<Rightarrow> bytes" where
  "kv_key (Put k v) = k"
| "kv_key (Get k) = k"
| "kv_key (Del k) = k"

text \<open>
  The answers a map may give to an operation, and the map after it; \<open>short\<close> says that the operation is
  short of memory.
\<close>

fun kv_answers :: "bool \<Rightarrow> (bytes \<rightharpoonup> 'v) \<Rightarrow> 'v kv_op \<Rightarrow> 'v kv_reply list" where
  "kv_answers short m (Put k v) =
     (case m k of None \<Rightarrow> Stored | Some w \<Rightarrow> Exists w) # (if short then [Refused] else [])"
| "kv_answers short m (Get k) = (case m k of None \<Rightarrow> [Missing] | Some w \<Rightarrow> [Found w])"
| "kv_answers short m (Del k) = (case m k of None \<Rightarrow> [Missing] | Some w \<Rightarrow> [Deleted w])"

fun kv_next :: "(bytes \<rightharpoonup> 'v) \<Rightarrow> 'v kv_op \<Rightarrow> 'v kv_reply \<Rightarrow> (bytes \<rightharpoonup> 'v)" where
  "kv_next m (Put k v) Stored = m(k \<mapsto> v)"
| "kv_next m (Del k) _ = m(k := None)"
| "kv_next m _ _ = m"

fun kv_trace ::
    "('e \<Rightarrow> bool) \<Rightarrow> (bytes \<rightharpoonup> 'v) \<Rightarrow> (('e \<times> 'v kv_op) \<times> 'v kv_reply) list \<Rightarrow> bool" where
  "kv_trace short m [] \<longleftrightarrow> True"
| "kv_trace short m (((e, x), r) # tr) \<longleftrightarrow>
     r \<in> set (kv_answers (short e) m x) \<and> kv_trace short (kv_next m x r) tr"

text \<open>Running operations one after the other, each in its environment.\<close>

fun kv_run :: "('e \<Rightarrow> 's \<Rightarrow> 'v kv_op \<Rightarrow> ('s \<times> 'v kv_reply) run) \<Rightarrow> 's \<Rightarrow> ('e \<times> 'v kv_op) list
    \<Rightarrow> ('s \<times> 'v kv_reply list) run" where
  "kv_run step s [] = returns (s, [])"
| "kv_run step s ((e, x) # xs) =
     bind_run (step e s x) (\<lambda>(s', r).
     bind_run (kv_run step s' xs) (\<lambda>(s'', rs). returns (s'', r # rs)))"

locale kv_store =
  fixes rep :: "'s \<Rightarrow> (bytes \<rightharpoonup> 'v) \<Rightarrow> bool"
    and load :: "'s \<Rightarrow> nat"
    and limit :: nat
    and good_key :: "bytes \<Rightarrow> bool"
    and good_env :: "'e \<Rightarrow> bool"
    and short :: "'e \<Rightarrow> bool"
    and step :: "'e \<Rightarrow> 's \<Rightarrow> 'v kv_op \<Rightarrow> ('s \<times> 'v kv_reply) run"
  assumes step_law: "rep s m \<Longrightarrow> load s < limit \<Longrightarrow> good_key (kv_key x) \<Longrightarrow> good_env e \<Longrightarrow>
      \<exists>s' r. step e s x = returns (s', r) \<and> r \<in> set (kv_answers (short e) m x) \<and> rep s' (kv_next m x r) \<and>
        load s' \<le> load s + 1"
begin

lemma run_refines:
  assumes "rep s m" and "load s + length xs \<le> limit"
    and "\<forall>(e, x)\<in>set xs. good_env e \<and> good_key (kv_key x)"
  shows "\<exists>s' rs. kv_run step s xs = returns (s', rs) \<and> length rs = length xs \<and>
           kv_trace short m (zip xs rs)"
  using assms
proof (induction xs arbitrary: s m)
  case (Cons ex xs)
  obtain e x where ex: "ex = (e, x)" by (cases ex)
  obtain s1 r where s1: "step e s x = returns (s1, r)" "r \<in> set (kv_answers (short e) m x)"
    "rep s1 (kv_next m x r)" "load s1 \<le> load s + 1"
    using step_law[OF Cons.prems(1), of x e] Cons.prems(2,3) ex by auto
  obtain s2 rs where "kv_run step s1 xs = returns (s2, rs)" "length rs = length xs"
    "kv_trace short (kv_next m x r) (zip xs rs)"
    using Cons.IH[OF s1(3)] s1(4) Cons.prems(2,3) by auto
  then show ?case using s1 ex by simp
qed simp

end

text \<open>A map that was told to store a value and not to delete it answers with that value.\<close>

lemma kv_next_keeps: "m k = Some v \<Longrightarrow> x \<noteq> Del k \<Longrightarrow> r \<in> set (kv_answers b m x) \<Longrightarrow> kv_next m x r k = Some v"
  by (cases x; cases r) (auto split: option.splits if_splits)

lemma kv_trace_get:
  assumes "kv_trace short m (tr @ [((e, Get k), r)])" and "m k = Some v" and "\<forall>((_, x), _)\<in>set tr. x \<noteq> Del k"
  shows "r = Found v"
  using assms
proof (induction tr arbitrary: m)
  case (Cons p tr)
  obtain e' x q where p: "p = ((e', x), q)" by (metis prod.exhaust)
  then have "kv_next m x q k = Some v"
    using Cons.prems by (intro kv_next_keeps) auto
  then show ?case using Cons p by auto
qed simp

end
