(* ===== verification/Ht_Map.thy ===== *)
theory Ht_Map
  imports Hashtable Kv_Spec
begin

text \<open>
  The hash table as a provider of the key-value interface: its three operations, each with the read
  of the returned slot that every caller does, answer as a finite map does.
\<close>

definition ht_read_slot :: "'v ht_table \<Rightarrow> addr \<Rightarrow> 'v res" where
  "ht_read_slot t a =
     bind_res (ht_node_at (ht_heap t) a) (\<lambda>nd.
       case nd_contents nd of HT_Value v \<Rightarrow> Ok v | _ \<Rightarrow> Fault UninitRead)"

fun ht_step :: "ht_env \<Rightarrow> 'v ht_table \<Rightarrow> 'v kv_op \<Rightarrow> ('v ht_table \<times> 'v kv_reply) run" where
  "ht_step env t (Put k v) =
     bind_run (ht_store env t (Some k) (of_nat (length k)) v) (\<lambda>(t', st, a).
       if st = HT_GOOD then returns (t', Stored)
       else if st = HT_DUPLICATE_KEY then
         bind_run (Some (ht_read_slot t' a)) (\<lambda>w. returns (t', Exists w))
       else returns (t', Refused))"
| "ht_step env t (Get k) =
     bind_run (ht_find t (Some k) (of_nat (length k))) (\<lambda>(st, a).
       if st = HT_GOOD then bind_run (Some (ht_read_slot t a)) (\<lambda>w. returns (t, Found w))
       else returns (t, Missing))"
| "ht_step env t (Del k) =
     bind_run (ht_del t (Some k) (of_nat (length k))) (\<lambda>(t', st, r).
       case r of Some (HT_Value w, a, f) \<Rightarrow> returns (t', Deleted w)
       | Some _ \<Rightarrow> faults UninitRead
       | None \<Rightarrow> returns (t', Missing))"

lemma ht_read_slot_value: "ht_slot t a = Some v \<Longrightarrow> ht_read_slot t a = Ok v"
  by (auto simp: ht_slot_def ht_read_slot_def ht_node_at_def
      split: option.splits ht_contents.splits if_splits)

lemma key_arg_self: "key_ok J k \<Longrightarrow> key_arg J k (of_nat (length k)) k"
  by (auto simp: key_arg_def key_ok_def unat_of_nat)

interpretation httab: kv_store "ht_map J" "\<lambda>t. unat (ht_element_count t)" "2 ^ 30" "key_ok J"
    "\<lambda>env :: ht_env. env_junk env \<in> J \<and> env_ok env KeyCopy" "\<lambda>env. \<not> (\<forall>x. env_ok env x)" ht_step for J
proof
  fix t :: "'v ht_table" and m and x :: "'v kv_op" and env :: ht_env
  assume map: "ht_map J t m" and cnt: "unat (ht_element_count t) < 2 ^ 30"
    and good: "key_ok J (kv_key x)" and env: "env_junk env \<in> J \<and> env_ok env KeyCopy"
  have inc: "unat (ht_element_count t + 1) = unat (ht_element_count t) + 1"
    using cnt by (intro unat_Suc_no_overflow) simp
  show "\<exists>s' r. ht_step env t x = returns (s', r) \<and> r \<in> set (kv_answers (\<not> (\<forall>x. env_ok env x)) m x) \<and>
      ht_map J s' (kv_next m x r) \<and> unat (ht_element_count s') \<le> unat (ht_element_count t) + 1"
  proof (cases x)
    case (Put k v)
    then have key: "key_arg J k (of_nat (length k)) k" using good by (intro key_arg_self) simp
    obtain t' st a where run: "ht_store env t (Some k) (of_nat (length k)) v = returns (t', st, a)"
      and out: "store_outcome J env t m k v t' st a"
      using ht_store_map[OF map key _ _ cnt] env by blast
    show ?thesis
    proof (cases st)
      case HT_GOOD
      then show ?thesis using run out Put inc by (simp add: store_outcome_def)
    next
      case HT_DUPLICATE_KEY
      then show ?thesis
        using run out Put ht_read_slot_value[of t' a] by (auto simp: store_outcome_def)
    qed (use run out Put in \<open>auto simp: store_outcome_def split: option.splits\<close>)
  next
    case (Get k)
    then have key: "key_arg J k (of_nat (length k)) k" using good by (intro key_arg_self) simp
    show ?thesis
      using ht_find_map[OF map key] Get map ht_read_slot_value[of t]
      by (auto split: option.splits)
  next
    case (Del k)
    then have key: "key_arg J k (of_nat (length k)) k" using good by (intro key_arg_self) simp
    show ?thesis
      using ht_del_map[OF map key] Del map by (fastforce split: option.splits)
  qed
qed

section \<open>Properties\<close>

text \<open>An environment in which every allocation succeeds and fresh memory is zero.\<close>

definition calm_env :: ht_env where
  "calm_env = \<lparr>env_ok = (\<lambda>_. True), env_junk = 0\<rparr>"

lemma calm_env_simps [simp]: "env_ok calm_env s" "env_junk calm_env = 0"
  by (simp_all add: calm_env_def)

lemma hash_a: "key_hash [97] = 177670"
  by code_simp

lemma key_ok_a: "key_ok {0} [97]"
  by (simp add: key_ok_def hash_a)

text \<open>A table with one key, as the code builds it.\<close>

lemma one_key_table:
  "\<exists>t t' a. ht_init calm_env True = Ok (Some t) \<and>
     ht_store calm_env t (Some [97]) 1 True = returns (t', HT_GOOD, a) \<and>
     ht_map {0} t' [[97] \<mapsto> True]"
proof -
  obtain t :: "bool ht_table" where t: "ht_init calm_env True = Ok (Some t)"
    "ht_map {0} t Map.empty" "ht_element_count t = 0"
    using ht_init_map[of calm_env True] by auto
  have "key_arg {0} [97] 1 [97]" using key_ok_a by (simp add: key_arg_def)
  then obtain t' st a where r: "ht_store calm_env t (Some [97]) 1 True = returns (t', st, a)"
    and out: "store_outcome {0} calm_env t Map.empty [97] True t' st a"
    using ht_store_map[OF t(2), of "[97]" 1 "[97]" calm_env True] t(3) by auto
  have "st = HT_GOOD" and "ht_map {0} t' [[97] \<mapsto> True]"
    using out by (auto simp: store_outcome_def split: ht_status.splits)
  then show ?thesis using t(1) r by auto
qed

text \<open>
  C9.  Starting from \<open>ht_init\<close> with all its allocations granted, any sequence of up to \<open>2 ^ 30\<close> stores, finds
  and deletes runs to its end without a fault, and every answer is that of a finite map from keys to values;
  a store may be refused only when one of its allocations fails, and then changes nothing.  Of the allocations
  the copy of the key must succeed.  Keys are those the table can hold (\<open>key_ok\<close>): between 1 and
  \<open>2 ^ 32 - 1\<close> bytes, with a hash other than the two that are reserved, and, when the hash is even, not as long as what
  happens to be in the key length of a new sentinel, which is never set.
\<close>

theorem hashtable_is_a_map:
  assumes "\<And>s. env_ok env s" and "length xs \<le> 2 ^ 30"
    and "\<forall>(e, x)\<in>set xs. env_junk e = env_junk env \<and> env_ok e KeyCopy \<and> key_ok {env_junk env} (kv_key x)"
  shows "\<exists>t t' rs. ht_init env gc = Ok (Some t) \<and> kv_run ht_step t xs = returns (t', rs) \<and>
           length rs = length xs \<and> kv_trace (\<lambda>e. \<not> (\<forall>s. env_ok e s)) Map.empty (zip xs rs)"
proof -
  obtain t :: "'a ht_table" where t: "ht_init env gc = Ok (Some t)"
    "ht_map {env_junk env} t Map.empty" "ht_element_count t = 0"
    using ht_init_map[OF assms(1), where gc = gc] by blast
  have len: "unat (ht_element_count t) + length xs \<le> 2 ^ 30" using assms(2) t(3) by simp
  have good: "\<forall>(e, x)\<in>set xs. (env_junk e \<in> {env_junk env} \<and> env_ok e KeyCopy) \<and>
      key_ok {env_junk env} (kv_key x)"
    using assms(3) by auto
  show ?thesis using httab.run_refines[OF t(2) len good] t(1) by blast
qed

theorem hashtable_is_a_map_witness:
  "\<exists>t t' rs. ht_init calm_env True = Ok (Some t) \<and>
     kv_run ht_step t [(calm_env, Put [97] True), (calm_env, Get [97]), (calm_env, Del [97])]
       = returns (t', rs) \<and>
     rs = [Stored, Found True, Deleted True]"
proof -
  let ?xs = "[(calm_env, Put [97] True), (calm_env, Get [97]), (calm_env, Del [97])]"
  obtain t t' rs where r: "ht_init calm_env True = Ok (Some t)" "kv_run ht_step t ?xs = returns (t', rs)"
    "length rs = length ?xs" "kv_trace (\<lambda>e. \<not> (\<forall>s. env_ok e s)) Map.empty (zip ?xs rs)"
    using hashtable_is_a_map[of calm_env ?xs True] key_ok_a by (auto simp del: kv_run.simps zip_Cons_Cons)
  then obtain a b c where rs: "rs = [a, b, c]" by (auto simp: length_Suc_conv)
  have "rs = [Stored, Found True, Deleted True]" using r(4) unfolding rs by auto
  then show ?thesis using r(1,2) by blast
qed

text \<open>
  C16.  \<open>ht_store\<close> returns for every good key, in a table of fewer than \<open>2 ^ 30\<close> elements, when the copy of the key is
  granted: a new key is stored, the count goes up and the slot returned holds the value; for a present key
  no key, value or count changes (the table itself may get larger) and the slot returned holds the old value; when
  one of the other allocations fails it may answer \<open>HT_OOM\<close>, and then again no key, value or count changes and the
  slot is null.
\<close>

theorem ht_store_spec:
  assumes "ht_map J t m" and "key_arg J str len k" and "env_junk env \<in> J"
    and "env_ok env KeyCopy" and "unat (ht_element_count t) < 2 ^ 30"
  shows "\<exists>t' st a. ht_store env t (Some str) len v = returns (t', st, a) \<and>
           store_outcome J env t m k v t' st a"
  using assms by (rule ht_store_map)

theorem ht_store_spec_witness:
  "\<exists>t t' st a. ht_init calm_env True = Ok (Some t) \<and>
     ht_store calm_env t (Some [97]) 1 True = returns (t', st, a) \<and>
     store_outcome {0} calm_env t Map.empty [97] True t' st a"
proof -
  obtain t :: "bool ht_table" where t: "ht_init calm_env True = Ok (Some t)"
    "ht_map {0} t Map.empty" "ht_element_count t = 0"
    using ht_init_map[of calm_env True] by auto
  have "key_arg {0} [97] 1 [97]" using key_ok_a by (simp add: key_arg_def)
  then show ?thesis using ht_store_spec[OF t(2), of "[97]" 1 "[97]" calm_env True] t by auto
qed

text \<open>
  C19.  \<open>ht_find\<close> returns for every good key: the slot of the node that holds the key's value, or
  \<open>HT_NOT_FOUND\<close> exactly when the map has no such key.
\<close>

theorem ht_find_spec:
  assumes "ht_map J t m" and "key_arg J str len k"
  shows "\<exists>st a. ht_find t (Some str) len = returns (st, a) \<and>
           (case m k of None \<Rightarrow> st = HT_NOT_FOUND \<and> a = NULL
            | Some v \<Rightarrow> st = HT_GOOD \<and> ht_slot t a = Some v)"
  using assms by (rule ht_find_map)

theorem ht_find_spec_witness:
  "\<exists>t t' a b. ht_init calm_env True = Ok (Some t) \<and>
     ht_store calm_env t (Some [97]) 1 True = returns (t', HT_GOOD, a) \<and>
     ht_find t' (Some [97, 98]) 1 = returns (HT_GOOD, b) \<and> ht_slot t' b = Some True"
proof -
  obtain t t' a where t: "ht_init calm_env True = Ok (Some t)"
    "ht_store calm_env t (Some [97]) 1 True = returns (t', HT_GOOD, a)"
    and map: "ht_map {0} t' [[97] \<mapsto> True]"
    using one_key_table by blast
  have "key_arg {0} [97, 98] 1 [97]" using key_ok_a by (simp add: key_arg_def)
  then show ?thesis using ht_find_spec[OF map, of "[97, 98]" 1 "[97]"] t by auto
qed

text \<open>
  C20.  \<open>ht_del\<close> removes exactly the given key and hands back the value it had, with the unlinked
  node for the collector; the table after it is well-formed.  The element count does not go down.
\<close>

theorem ht_del_spec:
  assumes "ht_map J t m" and "key_arg J str len k"
  shows "\<exists>t' st r. ht_del t (Some str) len = returns (t', st, r) \<and> ht_map J t' (m(k := None)) \<and>
           ht_element_count t' = ht_element_count t \<and>
           (case m k of None \<Rightarrow> st = HT_NOT_FOUND \<and> r = None \<and> t' = t
            | Some v \<Rightarrow> st = HT_GOOD \<and> (\<exists>a f. r = Some (HT_Value v, a, f) \<and> ht_slot t a = Some v))"
  using assms by (rule ht_del_map)

theorem ht_del_spec_witness:
  "\<exists>t t' t'' a b f. ht_init calm_env True = Ok (Some t) \<and>
     ht_store calm_env t (Some [97]) 1 True = returns (t', HT_GOOD, a) \<and>
     ht_del t' (Some [97]) 1 = returns (t'', HT_GOOD, Some (HT_Value True, b, f)) \<and>
     ht_map {0} t'' Map.empty"
proof -
  obtain t t' a where t: "ht_init calm_env True = Ok (Some t)"
    "ht_store calm_env t (Some [97]) 1 True = returns (t', HT_GOOD, a)"
    and map: "ht_map {0} t' [[97] \<mapsto> True]"
    using one_key_table by blast
  have "key_arg {0} [97] 1 [97]" using key_ok_a by (simp add: key_arg_def)
  then show ?thesis using ht_del_spec[OF map, of "[97]" 1 "[97]"] t by fastforce
qed

text \<open>
  C21.  The pointer \<open>ht_find\<close> hands out is good for assignment: writing a value through it changes
  the map at that key and nowhere else.
\<close>

theorem slot_assignment:
  assumes "ht_map J t m" and "key_arg J str len k" and "m k = Some v"
    and "ht_find t (Some str) len = returns (st, a)"
  shows "st = HT_GOOD \<and> ht_map J (ht_slot_set a v' t) (m(k \<mapsto> v'))"
proof -
  have st: "st = HT_GOOD" using ht_find_map[OF assms(1,2)] assms(3,4) by auto
  then show ?thesis using slot_set_map[OF assms] by blast
qed

theorem slot_assignment_witness:
  "\<exists>t t' a b. ht_init calm_env True = Ok (Some t) \<and>
     ht_store calm_env t (Some [97]) 1 True = returns (t', HT_GOOD, a) \<and>
     ht_find t' (Some [97]) 1 = returns (HT_GOOD, b) \<and>
     ht_map {0} (ht_slot_set b False t') [[97] \<mapsto> False]"
proof -
  obtain t t' a where t: "ht_init calm_env True = Ok (Some t)"
    "ht_store calm_env t (Some [97]) 1 True = returns (t', HT_GOOD, a)"
    and map: "ht_map {0} t' [[97] \<mapsto> True]"
    using one_key_table by blast
  have key: "key_arg {0} [97] 1 [97]" using key_ok_a by (simp add: key_arg_def)
  obtain st b where f: "ht_find t' (Some [97]) 1 = returns (st, b)"
    using ht_find_map[OF map key] by blast
  show ?thesis using slot_assignment[OF map key _ f, of True False] t f by auto
qed

section \<open>The two hashes the table cannot hold\<close>

text \<open>
  C28.  A key whose hash is \<open>0\<close> makes \<open>ht_store\<close> fail its assertion, in any table and whatever the
  allocator does for the new nodes; \<open>glidpk\<close> is such a key.
\<close>

theorem store_hash_zero_aborts:
  assumes "ht_map J t m" and "0 < length k" and "length k < 2 ^ 32" and "key_hash k = 0"
    and "env_ok env BucketBlock" and "unat (ht_element_count t) < 2 ^ 30"
  shows "ht_store env t (Some k) (of_nat (length k)) v = faults AssertFail"
proof -
  obtain xs where inv: "ht_inv J t xs" and load: "load_ok t"
    using assms(1) by (auto simp: ht_map_def ht_rep_def)
  have bl: "unat (ht_bitlen t) < 31" by (rule load_bound[OF load assms(6)])
  have n: "unat (of_nat (length k) :: u32) = length k" using assms(3) by (simp add: unat_of_nat)
  then have nz: "(of_nat (length k) :: u32) \<noteq> 0" using assms(2) by auto
  have "ht_hash (Some k) (of_nat (length k)) = Ok 0" using n nz assms(4) by (simp add: ht_hash_def)
  let ?full = "ht_element_count t > push_bit (unat (ht_bitlen t)) 1"
  obtain t1 where g: "(if ?full then ht_resize env t else returns (t, 0)) = returns (t1, 0)"
    using resize_inv[OF inv bl, of env] count_limit[OF bl] assms(5) by (cases ?full) auto
  have nk: "((Some k = None) \<or> (of_nat (length k) :: u32) = 0) = False" using nz by simp
  have n31: "(31 \<le> unat (ht_bitlen t)) = False" using bl by simp
  show ?thesis
    unfolding ht_store_def nk n31 if_False g bind_run_simps prod.case \<open>ht_hash (Some k) _ = Ok 0\<close>
    by simp
qed

theorem store_hash_zero_aborts_witness:
  "\<exists>t. ht_init calm_env True = Ok (Some t) \<and>
     ht_store calm_env t (Some [103, 108, 105, 100, 112, 107]) 6 True = faults AssertFail"
proof -
  obtain t :: "bool ht_table" where t: "ht_init calm_env True = Ok (Some t)"
    "ht_map {0} t Map.empty" "ht_element_count t = 0"
    using ht_init_map[of calm_env True] by auto
  have "key_hash [103, 108, 105, 100, 112, 107] = 0" by code_simp
  then show ?thesis
    using store_hash_zero_aborts[OF t(2), of "[103, 108, 105, 100, 112, 107]" calm_env True] t by auto
qed

text \<open>The loop over the nodes of hash \<open>0xFFFFFFFF\<close>, none of which has a key.\<close>

lemma scan_off_the_end:
  assumes "ht_path h n ms NULL" and "\<forall>x\<in>set ms. en_hash x = kh \<and> en_key x = None" and "len \<noteq> 0"
  shows "ht_scan h kh (Some str) len p n = faults NullDeref"
  using assms
proof (induction ms arbitrary: p n)
  case Nil
  then show ?case by (subst ht_scan.simps) (simp add: ht_node_at_def)
next
  case (Cons x ms)
  obtain b nd where x: "x = (b, nd)" by (cases x)
  obtain nx where nx: "ht_node_at h n = Ok (nd\<lparr>nd_next := nx\<rparr>)" "ht_path h nx ms NULL"
    using Cons.prems(1) unfolding x by (rule ht_path_start)
  have "ht_scan h kh (Some str) len n nx = faults NullDeref"
    using Cons.prems(2,3) by (intro Cons.IH[OF nx(2)]) auto
  moreover have "nd_key_hash nd = kh" "nd_key nd = None" using Cons.prems(2) x by auto
  ultimately show ?case
    using nx(1) Cons.prems(3) by (subst ht_scan.simps) (auto simp: ht_key_cmp_def)
qed

text \<open>
  Looking up a key whose hash is \<open>0xFFFFFFFF\<close> runs off the end of the list and dereferences
  the null pointer, in any table; \<open>glidpj\<close> is such a key.
\<close>

lemma find_top_hash_crashes:
  assumes "ht_map J t m" and "0 < length k" and "length k < 2 ^ 32" and "key_hash k = - 1"
  shows "ht_find t (Some k) (of_nat (length k)) = faults NullDeref"
proof -
  obtain xs where inv: "ht_inv J t xs" using assms(1) by (auto simp: ht_map_def ht_rep_def)
  have n: "unat (of_nat (length k) :: u32) = length k" using assms(3) by (simp add: unat_of_nat)
  then have nz: "(of_nat (length k) :: u32) \<noteq> 0" using assms(2) by auto
  have hash: "ht_hash (Some k) (of_nat (length k)) = Ok (- 1)"
    using n nz assms(4) by (simp add: ht_hash_def)
  obtain s where s: "ht_get_sentinel_read t (- 1) = returns s" "search_start xs (- 1) s"
    using get_sentinel_read[OF inv] by blast
  obtain a where a: "ht_bucket t 0 0 = Ok a" and path: "ht_path (ht_heap t) a xs NULL"
    using inv by (auto simp: ht_inv_def)
  have lo: "list_ok J xs" using inv by (simp add: ht_inv_def)
  have srt: "sorted (map en_hash xs)" using lo by (rule list_ok_sorted_hash)
  obtain sn where sn: "(s, sn) \<in> set xs" using s(2) by (auto simp: search_start_def)
  then obtain A B where xs: "xs = A @ (s, sn) # B" by (meson split_list)
  obtain nx where at: "ht_node_at (ht_heap t) s = Ok (sn\<lparr>nd_next := nx\<rparr>)"
    and pB: "ht_path (ht_heap t) nx B NULL"
    using path unfolding xs by (auto simp: ht_path_append ht_node_at_def)
  define us rest where "us = takeWhile (\<lambda>x. en_hash x < - 1) B"
    and "rest = dropWhile (\<lambda>x. en_hash x < - 1) B"
  have B: "B = us @ rest" by (simp add: us_def rest_def)
  have run: "ht_find t (Some k) (of_nat (length k)) =
      bind_run (ht_skip_assert (ht_heap t) (- 1) s nx) (\<lambda>(p, n).
      bind_run (ht_scan (ht_heap t) (- 1) (Some k) (of_nat (length k)) p n) (\<lambda>(found, p, n).
      if found then returns (HT_GOOD, n) else returns (HT_NOT_FOUND, NULL)))"
    unfolding ht_find_def hash s(1) at bind_run_simps by simp
  show ?thesis
  proof (cases rest)
    case Nil
    have "B = []"
    proof (rule ccontr)
      assume "B \<noteq> []"
      obtain e where e: "e \<in> set xs" "en_hash e = - 1" using lo by (auto simp: list_ok_def)
      have small: "\<forall>x\<in>set B. en_hash x < - 1"
        using Nil unfolding rest_def dropWhile_eq_Nil_conv .
      have "e \<in> set (A @ [(s, sn)])" using e small unfolding xs by auto
      then have "en_hash e \<le> en_hash (hd B)"
        using srt \<open>B \<noteq> []\<close> unfolding xs by (auto simp: sorted_append)
      moreover have "en_hash (hd B) < - 1" using small \<open>B \<noteq> []\<close> by simp
      ultimately show False using e(2) by simp
    qed
    then have "nx = NULL" using pB by simp
    then have "ht_skip_assert (ht_heap t) (- 1) s nx = faults NullDeref"
      by (subst ht_skip_assert.simps) (simp add: ht_node_at_def)
    then show ?thesis unfolding run by simp
  next
    case (Cons c ds)
    obtain b nd where c: "c = (b, nd)" by (cases c)
    have top: "en_hash x = - 1" if "x \<in> set rest" for x
    proof -
      have "\<not> en_hash c < - 1"
        using Cons unfolding rest_def dropWhile_eq_Cons_conv by blast
      moreover have "sorted (map en_hash rest)"
        using srt unfolding xs B by (simp add: sorted_append)
      ultimately have "\<not> en_hash x < - 1" using that unfolding Cons by auto
      then show ?thesis using minus_one_top by blast
    qed
    have keys: "\<forall>x\<in>set rest. en_hash x = - 1 \<and> en_key x = None"
      using top lo unfolding list_ok_def xs B by auto
    have pB': "ht_path (ht_heap t) nx (us @ (b, nd) # ds) NULL" using pB unfolding B Cons c .
    have "ht_skip_assert (ht_heap t) (- 1) s nx = returns (ht_pred s us, b)"
    proof (rule ht_skip_assert_path[OF pB'])
      show "en_hash u < - 1" if "u \<in> set us" for u using that by (auto simp: us_def dest: set_takeWhileD)
      show "- 1 \<le> nd_key_hash nd" using top[of c] unfolding Cons c by simp
      show "sorted (map en_hash (us @ (b, nd) # ds))"
        using srt unfolding xs B Cons c by (simp add: sorted_append)
    qed
    moreover have "ht_scan (ht_heap t) (- 1) (Some k) (of_nat (length k)) (ht_pred s us) b = faults NullDeref"
    proof (rule scan_off_the_end)
      show "ht_path (ht_heap t) b rest NULL" using pB' unfolding Cons c by (auto simp: ht_path_append)
      show "\<forall>x\<in>set rest. en_hash x = - 1 \<and> en_key x = None" by (rule keys)
    qed (rule nz)
    ultimately show ?thesis unfolding run by simp
  qed
qed

end
