(* ===== verification/Ht_Iter.thy ===== *)
theory Ht_Iter
  imports Ht_Map
begin

text \<open>
  Walking and releasing the hash table: \<open>ht_head\<close>, \<open>ht_next\<close>, \<open>ht_value\<close> and \<open>ht_free\<close> of
  \<^verbatim>\<open>lib/hashtable.c\<close>.
\<close>

section \<open>Definitions\<close>

definition ht_head :: "'v ht_table \<Rightarrow> addr res" where
  "ht_head t = ht_bucket t 0 0"

text \<open>The condition reads \<open>n->key\<close> before it compares \<open>n\<close> with null.\<close>

partial_function (option) ht_next_loop :: "'v ht_heap \<Rightarrow> addr \<Rightarrow> addr run" where
  "ht_next_loop h n =
     (case ht_node_at h n of
        Inl e \<Rightarrow> faults e
      | Inr nd \<Rightarrow> (if nd_key nd = None \<and> n \<noteq> NULL then ht_next_loop h (nd_next nd) else returns n))"

declare ht_next_loop.simps [code]

definition ht_next :: "'v ht_table \<Rightarrow> addr \<Rightarrow> addr run" where
  "ht_next t i = bind_run (Some (ht_node_at (ht_heap t) i)) (\<lambda>nd. ht_next_loop (ht_heap t) (nd_next nd))"

definition ht_value :: "'v ht_table \<Rightarrow> addr \<Rightarrow> 'v ht_contents res" where
  "ht_value t i = bind_res (ht_node_at (ht_heap t) i) (\<lambda>nd. Ok (nd_contents nd))"

text \<open>
  \<open>ht_free\<close>: the values given to \<open>free_node\<close> (if there is one), in order, and the heap without the
  nodes.  The bucket arrays and the table are freed after the loop and not looked at again.
\<close>

partial_function (option) ht_free_loop ::
    "bool \<Rightarrow> 'v ht_heap \<Rightarrow> addr \<Rightarrow> 'v ht_contents list \<Rightarrow> ('v ht_heap \<times> 'v ht_contents list) run" where
  "ht_free_loop free_node h node freed =
     (if node = NULL then returns (h, freed)
      else case ht_node_at h node of
        Inl e \<Rightarrow> faults e
      | Inr nd \<Rightarrow> ht_free_loop free_node (h(node := None)) (nd_next nd)
          (if nd_key nd \<noteq> None \<and> free_node then freed @ [nd_contents nd] else freed))"

declare ht_free_loop.simps [code]

definition ht_free :: "'v ht_table \<Rightarrow> bool \<Rightarrow> ('v ht_heap \<times> 'v ht_contents list) run" where
  "ht_free t free_node =
     bind_run (Some (ht_bucket t 0 0)) (\<lambda>node. ht_free_loop free_node (ht_heap t) node [])"

section \<open>Iteration\<close>

lemma ht_next_loop_path:
  assumes "ht_path h n ms NULL"
  shows "ht_next_loop h n =
           (case dropWhile (\<lambda>x. en_key x = None) ms of [] \<Rightarrow> faults NullDeref | (b, _) # _ \<Rightarrow> returns b)"
  using assms
proof (induction ms arbitrary: n)
  case Nil
  then show ?case by (subst ht_next_loop.simps) (simp add: ht_node_at_def)
next
  case (Cons x ms)
  obtain b nd where x: "x = (b, nd)" by (cases x)
  obtain nx where nx: "ht_node_at h n = Ok (nd\<lparr>nd_next := nx\<rparr>)" "ht_path h nx ms NULL" "n = b"
    using Cons.prems(1) unfolding x by (metis ht_path_start)
  have "n \<noteq> NULL" using Cons.prems x by simp
  then show ?case
    using nx Cons.IH[OF nx(2)] x by (subst ht_next_loop.simps) simp
qed

text \<open>
  \<open>ht_next\<close> moves to the next node that holds a key, skipping sentinels; at the last such node
  it dereferences the null pointer instead of returning it, so that a loop
  \<open>while (i != NULL) i = ht_next(i)\<close> never ends well.
\<close>

lemma ht_next_spec:
  assumes "ht_inv J t (ps @ (i, nd) # ms)"
  shows "ht_next t i =
           (case dropWhile (\<lambda>x. en_key x = None) ms of [] \<Rightarrow> faults NullDeref | (b, _) # _ \<Rightarrow> returns b)"
proof -
  obtain a where path: "ht_path (ht_heap t) a (ps @ (i, nd) # ms) NULL"
    using assms by (auto simp: ht_inv_def)
  then obtain nx where "ht_node_at (ht_heap t) i = Ok (nd\<lparr>nd_next := nx\<rparr>)" "ht_path (ht_heap t) nx ms NULL"
    by (auto simp: ht_path_append ht_node_at_def)
  then show ?thesis by (simp add: ht_next_def ht_next_loop_path)
qed

section \<open>Release\<close>

definition keyed_contents :: "'v ht_entry list \<Rightarrow> 'v ht_contents list" where
  "keyed_contents xs = map (\<lambda>x. nd_contents (snd x)) (filter (\<lambda>x. en_key x \<noteq> None) xs)"

lemma ht_free_loop_path:
  assumes "ht_path h a xs NULL" and "distinct (map fst xs)"
  shows "\<exists>h'. ht_free_loop ff h a freed = returns (h', freed @ (if ff then keyed_contents xs else [])) \<and>
           (\<forall>b. h' b = (if b \<in> fst ` set xs then None else h b))"
  using assms
proof (induction xs arbitrary: h a freed)
  case Nil
  then show ?case by (subst ht_free_loop.simps) (simp add: keyed_contents_def)
next
  case (Cons x xs)
  obtain b nd where x: "x = (b, nd)" by (cases x)
  obtain nx where nx: "ht_node_at h a = Ok (nd\<lparr>nd_next := nx\<rparr>)" "ht_path h nx xs NULL" "a = b"
    using Cons.prems(1) unfolding x by (metis ht_path_start)
  have nz: "a \<noteq> NULL" using Cons.prems(1) x by simp
  have notin: "a \<notin> fst ` set xs" and d: "distinct (map fst xs)" using Cons.prems(2) x nx(3) by auto
  have "ht_path (h(a := None)) nx xs NULL"
    using nx(2) notin
  proof (induction h nx xs NULL rule: ht_path.induct)
    case (2 h n c m zs)
    then show ?case by auto
  qed simp
  then obtain h' where h': "ht_free_loop ff (h(a := None)) nx
        (if nd_key nd \<noteq> None \<and> ff then freed @ [nd_contents nd] else freed)
      = returns (h', (if nd_key nd \<noteq> None \<and> ff then freed @ [nd_contents nd] else freed) @
          (if ff then keyed_contents xs else []))"
    and dom: "\<forall>c. h' c = (if c \<in> fst ` set xs then None else (h(a := None)) c)"
    using Cons.IH d by blast
  have "ht_free_loop ff h a freed = ht_free_loop ff (h(a := None)) nx
        (if nd_key nd \<noteq> None \<and> ff then freed @ [nd_contents nd] else freed)"
    using nx(1) nz by (subst ht_free_loop.simps) simp
  then have "ht_free_loop ff h a freed = returns (h', freed @ (if ff then keyed_contents (x # xs) else []))"
    using h' x by (simp add: keyed_contents_def)
  moreover have "\<forall>c. h' c = (if c \<in> fst ` set (x # xs) then None else h c)"
    using dom x nx(3) by auto
  ultimately show ?case by blast
qed

text \<open>
  C27.  \<open>ht_free\<close> ends, frees every node of the list once and nothing else, and passes the value of
  every key, and only those, to the callback.
\<close>

theorem ht_free_spec:
  assumes "ht_inv J t xs"
  shows "\<exists>h'. ht_free t ff = returns (h', if ff then keyed_contents xs else []) \<and>
           (\<forall>a. h' a = (if a \<in> fst ` set xs then None else ht_heap t a))"
proof -
  obtain a where a: "ht_bucket t 0 0 = Ok a" "ht_path (ht_heap t) a xs NULL"
    using assms by (auto simp: ht_inv_def)
  have "distinct (map fst xs)" using assms by (simp add: ht_inv_def list_ok_def)
  then show ?thesis using ht_free_loop_path[OF a(2), of ff "[]"] a(1) by (simp add: ht_free_def)
qed

theorem ht_free_spec_witness:
  "\<exists>t t' a h'. ht_init calm_env True = Ok (Some t) \<and>
     ht_store calm_env t (Some [97]) 1 True = returns (t', HT_GOOD, a) \<and>
     ht_free t' False = returns (h', [])"
proof -
  obtain t t' a where t: "ht_init calm_env True = Ok (Some t)"
    "ht_store calm_env t (Some [97]) 1 True = returns (t', HT_GOOD, a)"
    and map: "ht_map {0} t' [[97] \<mapsto> True]"
    using one_key_table by blast
  obtain xs where "ht_inv {0} t' xs" using map by (auto simp: ht_map_def ht_rep_def)
  then show ?thesis using ht_free_spec[of "{0}" t' xs False] t by auto
qed

end
