(* ===== verification/C_Strings.thy ===== *)
theory C_Strings
  imports Prelude
begin

text \<open>
  The functions of \<^verbatim>\<open>string.h\<close>, \<^verbatim>\<open>ctype.h\<close> and \<^verbatim>\<open>stdlib.h\<close> the program calls, on blocks of bytes
  and in the C locale.  Reading past the block is a fault.
\<close>

definition tolower_byte :: "byte \<Rightarrow> byte" where
  "tolower_byte c = (if 65 \<le> c \<and> c \<le> 90 then c + 32 else c)"

text \<open>\<open>strncasecmp(a, b, n) == 0\<close>: it stops at the first difference or at a common NUL.\<close>

fun strncasecmp_eq :: "bytes \<Rightarrow> bytes \<Rightarrow> nat \<Rightarrow> bool res" where
  "strncasecmp_eq a b 0 = Ok True"
| "strncasecmp_eq (x # a) (y # b) (Suc n) =
     (if tolower_byte x \<noteq> tolower_byte y then Ok False
      else if x = 0 then Ok True
      else strncasecmp_eq a b n)"
| "strncasecmp_eq a b (Suc n) = Fault OutOfBounds"

text \<open>\<open>memchr\<close>: the offset of the first byte \<open>c\<close> among the first \<open>n\<close>.\<close>

fun memchr_offset :: "byte \<Rightarrow> bytes \<Rightarrow> nat \<Rightarrow> nat option" where
  "memchr_offset c bs 0 = None"
| "memchr_offset c [] (Suc n) = None"
| "memchr_offset c (b # bs) (Suc n) = (if b = c then Some 0 else map_option Suc (memchr_offset c bs n))"

text \<open>
  \<open>strtol(s, &end, 10)\<close>: the value, clamped to the range of \<open>long\<close>, and the number of bytes before
  \<open>end\<close>; none when there are no digits.  The text has to be terminated.
\<close>

definition is_space :: "byte \<Rightarrow> bool" where
  "is_space c \<longleftrightarrow> c = 32 \<or> (9 \<le> c \<and> c \<le> 13)"

definition is_digit :: "byte \<Rightarrow> bool" where
  "is_digit c \<longleftrightarrow> 48 \<le> c \<and> c \<le> 57"

definition clamp_long :: "int \<Rightarrow> int" where
  "clamp_long i = max (- (2 ^ 63)) (min (2 ^ 63 - 1) i)"

fun digits_value :: "nat \<Rightarrow> bytes \<Rightarrow> nat" where
  "digits_value acc [] = acc"
| "digits_value acc (d # ds) = digits_value (acc * 10 + (unat d - 48)) ds"

definition strtol10 :: "bytes \<Rightarrow> (int \<times> nat) res" where
  "strtol10 s =
     (let ws = takeWhile is_space s;
          s1 = dropWhile is_space s;
          neg = (s1 \<noteq> [] \<and> hd s1 = 45);
          sgn = (s1 \<noteq> [] \<and> (hd s1 = 45 \<or> hd s1 = 43));
          s2 = (if sgn then tl s1 else s1);
          ds = takeWhile is_digit s2;
          v = int (digits_value 0 ds)
      in if length (dropWhile is_digit s2) = 0 then Fault OutOfBounds
         else if ds = [] then Ok (0, 0)
         else Ok (clamp_long (if neg then - v else v),
                  length ws + (if sgn then 1 else 0) + length ds))"

text \<open>Names compared without case.\<close>

definition same_name :: "bytes \<Rightarrow> bytes \<Rightarrow> bool" where
  "same_name a b \<longleftrightarrow> map tolower_byte a = map tolower_byte b"

lemma same_name_refl [simp]: "same_name a a"
  by (simp add: same_name_def)

lemma same_name_sym: "same_name a b \<Longrightarrow> same_name b a"
  by (simp add: same_name_def)

lemma same_name_trans: "same_name a b \<Longrightarrow> same_name b c \<Longrightarrow> same_name a c"
  by (simp add: same_name_def)

lemma same_name_length: "same_name a b \<Longrightarrow> length a = length b"
  by (metis length_map same_name_def)

text \<open>A name as the program writes it: no NUL before its last byte.\<close>

definition plain_name :: "bytes \<Rightarrow> bool" where
  "plain_name b \<longleftrightarrow> 0 \<notin> set (butlast b)"

lemma tolower_zero [simp]: "tolower_byte 0 = 0"
  by (simp add: tolower_byte_def)

lemma strncasecmp_name:
  assumes "length a = n" and "length b = n" and "plain_name b"
  shows "strncasecmp_eq a b n = Ok (same_name a b)"
  using assms
proof (induction a b n rule: strncasecmp_eq.induct)
  case (2 x a y b n)
  show ?case
  proof (cases "tolower_byte x = tolower_byte y \<and> x \<noteq> 0")
    case True
    have "plain_name b" using 2(4) by (cases b) (auto simp: plain_name_def)
    then have "strncasecmp_eq a b n = Ok (same_name a b)" using True 2 by simp
    then show ?thesis using True by (simp add: same_name_def)
  next
    case False
    show ?thesis
    proof (cases "tolower_byte x = tolower_byte y")
      case True
      then have x: "x = 0" using False by simp
      have "y = 0"
      proof (cases "65 \<le> y \<and> y \<le> 90")
        case True
        have "\<forall>y :: byte. 65 \<le> y \<longrightarrow> y \<le> 90 \<longrightarrow> y + 32 \<noteq> 0"
        proof (intro allI impI notI)
          fix z :: byte
          assume z: "65 \<le> z" "z \<le> 90" "z + 32 = 0"
          have "unat (z + 32) = (unat z + 32) mod 256" by (simp add: unat_word_ariths)
          then have "(unat z + 32) mod 256 = 0" using z(3) by simp
          moreover have "65 \<le> unat z" "unat z \<le> 90" using z(1,2) by (simp_all add: word_le_nat_alt)
          ultimately show False by simp
        qed
        then show ?thesis using True \<open>tolower_byte x = tolower_byte y\<close> x
          by (auto simp: tolower_byte_def)
      next
        case False
        then show ?thesis using \<open>tolower_byte x = tolower_byte y\<close> x by (auto simp: tolower_byte_def split: if_splits)
      qed
      then have "b = []" using 2(4) by (cases b) (auto simp: plain_name_def)
      then show ?thesis using True x 2(2,3) by (simp add: same_name_def)
    qed (simp add: same_name_def)
  qed
qed (auto simp: same_name_def)

text \<open>A \<open>char\<close> as an \<open>int\<close>.\<close>

lemma sint_byte: "sint (c :: byte) = (uint c + 128) mod 256 - 128"
  using int_word_sint[of "uint c", where 'a = 8] by simp

lemma sint_byte_small:
  assumes "c < 128"
  shows "sint (c :: byte) = uint c"
proof -
  have "uint c < 128" using assms by (simp add: word_less_def)
  moreover have "0 \<le> uint c" by simp
  ultimately have "(uint c + 128) mod 256 = uint c + 128" by (intro mod_pos_pos_trivial) simp_all
  then show ?thesis by (simp add: sint_byte)
qed

end
