(* ===== verification/Probe_Table.thy ===== *)
theory Probe_Table
  imports C_Strings
begin

text \<open>
  The probing loop that \<^verbatim>\<open>lib/type_ht.c\<close> and \<^verbatim>\<open>lib/command_ht.c\<close> share, and the registry interface
  both tables provide.  In \<open>index = index + 1 % ht->size\<close> the remainder is taken of \<open>1\<close>, so the
  index never wraps: it runs off the array, or, for a table of one element, stays.
\<close>

section \<open>The loop\<close>

definition probe_next :: "u32 \<Rightarrow> u32 \<Rightarrow> u32" where
  "probe_next sz index = index + 1 mod sz"

text \<open>
  \<open>while (busy(elements[index])) { index = index + 1 % sz; if (index == base) return full; }\<close>
  The result is the index, or \<open>None\<close> when the loop returned.
\<close>

partial_function (option) probe_loop ::
    "('e \<Rightarrow> bool res) \<Rightarrow> 'e list \<Rightarrow> u32 \<Rightarrow> u32 \<Rightarrow> u32 \<Rightarrow> u32 option run" where
  "probe_loop busy els sz base index =
     (if length els \<le> unat index then faults OutOfBounds
      else case busy (els ! unat index) of
        Inl e \<Rightarrow> faults e
      | Inr b \<Rightarrow>
          (if b then
             if probe_next sz index = base then returns None
             else probe_loop busy els sz base (probe_next sz index)
           else returns (Some index)))"

declare probe_loop.simps [code]

text \<open>The hash of both tables is a 64-bit number; \<open>% sz\<close> is taken at that width.\<close>

definition probe_base :: "u64 \<Rightarrow> u32 \<Rightarrow> u32 res" where
  "probe_base h sz = (if sz = 0 then Fault DivByZero else Ok (ucast (h mod ucast sz)))"

lemma probe_base_lt:
  assumes "sz \<noteq> 0"
  shows "\<exists>b. probe_base h sz = Ok b \<and> unat b < unat sz"
proof -
  have "unat (ucast sz :: u64) = unat sz" by (rule unat_ucast_wider) simp
  then have "unat (h mod ucast sz) < unat sz"
    using assms by (metis mod_less_divisor unat_mod unat_gt_0)
  moreover have "unat sz < 2 ^ 32" using unat_lt_2p[of sz] by simp
  ultimately have "unat (ucast (h mod ucast sz) :: u32) < unat sz"
    by (simp add: unsigned_ucast_eq take_bit_eq_mod)
  then show ?thesis using assms by (simp add: probe_base_def)
qed

text \<open>The base index, for any table size.\<close>

lemma home_base:
  assumes "2 \<le> unat sz"
  shows "\<exists>b. probe_base h sz = Ok b \<and> unat b = unat (h mod ucast sz) \<and> unat b < unat sz"
proof -
  have nz: "sz \<noteq> 0" using assms by auto
  obtain b where b: "probe_base h sz = Ok b" "unat b < unat sz"
    using probe_base_lt[OF nz] by blast
  have u: "unat (ucast sz :: u64) = unat sz" by (rule unat_ucast_wider) simp
  have "unat (h mod ucast sz) < unat sz" using assms by (simp only: unat_mod u) simp
  then have "unat (h mod ucast sz) < 2 ^ 32" using unat_lt_2p[of sz] by simp
  moreover have "b = ucast (h mod ucast sz)" using b(1) nz by (simp add: probe_base_def)
  ultimately have "unat b = unat (h mod ucast sz)" by (simp add: unsigned_ucast_eq take_bit_eq_mod)
  then show ?thesis using b by blast
qed

section \<open>What the loop finds\<close>

lemma probe_next_Suc:
  assumes "2 \<le> unat sz"
  shows "probe_next sz index = index + 1"
proof -
  have "unat (1 mod sz) = 1" using assms by (simp only: unat_mod unat_1) simp
  then have "(1 :: u32) mod sz = 1" by (simp only: word_unat_eq_iff unat_1)
  then show ?thesis by (simp add: probe_next_def)
qed

lemma probe_loop_stop:
  assumes "unat sz = length els" and "2 \<le> length els"
    and "unat base \<le> unat index" and "unat index \<le> j" and "j < length els"
    and "\<And>i. unat index \<le> i \<Longrightarrow> i < j \<Longrightarrow> busy (els ! i) = Ok True" and "busy (els ! j) = Ok False"
  shows "probe_loop busy els sz base index = returns (Some (of_nat j))"
  using assms(3,4,6)
proof (induction "j - unat index" arbitrary: index)
  case 0
  then have "unat index = j" by simp
  then have "index = of_nat j" by auto
  then show ?case using assms(5,7) \<open>unat index = j\<close> by (subst probe_loop.simps) simp
next
  case (Suc n)
  have one: "probe_next sz index = index + 1" using assms(1,2) by (intro probe_next_Suc) simp
  have lt: "unat index < j" using Suc.hyps(2) by simp
  have inc: "unat (index + 1) = unat index + 1"
  proof (rule unat_Suc_no_overflow)
    have "length els \<le> 2 ^ 32 - 1" using assms(1) unat_lt_2p[of sz] by simp
    then show "unat index + 1 < 2 ^ LENGTH(32)" using lt assms(5) by simp
  qed
  have "index + 1 \<noteq> base" using inc Suc.prems(1) by auto
  then have "probe_loop busy els sz base index = probe_loop busy els sz base (index + 1)"
    using lt assms(5) Suc.prems(3)[of "unat index"] one by (subst probe_loop.simps) simp
  also have "\<dots> = returns (Some (of_nat j))"
    using Suc.hyps(2) Suc.prems inc by (intro Suc.hyps(1)) auto
  finally show ?case .
qed

text \<open>No free cell from the hash on: the loop leaves the array.\<close>

lemma probe_loop_overrun:
  assumes "unat sz = length els" and "2 \<le> length els" and "unat base \<le> unat index"
    and "\<And>i. unat index \<le> i \<Longrightarrow> i < length els \<Longrightarrow> busy (els ! i) = Ok True"
    and "unat index \<le> length els"
  shows "probe_loop busy els sz base index = faults OutOfBounds"
  using assms(3-5)
proof (induction "length els - unat index" arbitrary: index)
  case 0
  then show ?case by (subst probe_loop.simps) simp
next
  case (Suc n)
  have one: "probe_next sz index = index + 1" using assms(1,2) by (intro probe_next_Suc) simp
  have lt: "unat index < length els" using Suc.hyps(2) by simp
  have inc: "unat (index + 1) = unat index + 1"
  proof (rule unat_Suc_no_overflow)
    have "length els \<le> 2 ^ 32 - 1" using assms(1) unat_lt_2p[of sz] by simp
    then show "unat index + 1 < 2 ^ LENGTH(32)" using lt by simp
  qed
  have "index + 1 \<noteq> base" using inc Suc.prems(1) by auto
  then have "probe_loop busy els sz base index = probe_loop busy els sz base (index + 1)"
    using lt Suc.prems(2)[of "unat index"] one by (subst probe_loop.simps) simp
  also have "\<dots> = faults OutOfBounds"
    using Suc.hyps(2) Suc.prems inc by (intro Suc.hyps(1)) auto
  finally show ?case .
qed

text \<open>The loop stops at the first free cell, or runs off the array.\<close>

lemma probe_loop_cases:
  assumes "unat sz = length els" and "2 \<le> length els" and "unat base < length els"
    and "\<And>i. i < length els \<Longrightarrow> \<exists>b. busy (els ! i) = Ok b"
  obtains (stop) j where "unat base \<le> j" "j < length els" "busy (els ! j) = Ok False"
      "\<And>i. unat base \<le> i \<Longrightarrow> i < j \<Longrightarrow> busy (els ! i) = Ok True"
      "probe_loop busy els sz base base = returns (Some (of_nat j))"
      "unat (of_nat j :: u32) = j"
  | (overrun) "\<And>i. unat base \<le> i \<Longrightarrow> i < length els \<Longrightarrow> busy (els ! i) = Ok True"
      "probe_loop busy els sz base base = faults OutOfBounds"
proof (cases "\<exists>j. unat base \<le> j \<and> j < length els \<and> busy (els ! j) = Ok False")
  case True
  define j where "j = (LEAST j. unat base \<le> j \<and> j < length els \<and> busy (els ! j) = Ok False)"
  have j: "unat base \<le> j" "j < length els" "busy (els ! j) = Ok False"
    using LeastI_ex[OF True] unfolding j_def by blast+
  have before: "busy (els ! i) = Ok True" if i: "unat base \<le> i" "i < j" for i
  proof -
    have "i < length els" using i(2) j(2) by simp
    moreover have "busy (els ! i) \<noteq> Ok False"
      using not_less_Least[of i "\<lambda>j. unat base \<le> j \<and> j < length els \<and> busy (els ! j) = Ok False"] i
        \<open>i < length els\<close> unfolding j_def by blast
    ultimately show ?thesis using assms(4)[of i] by auto
  qed
  have "probe_loop busy els sz base base = returns (Some (of_nat j))"
  proof (rule probe_loop_stop[OF assms(1,2)])
    show "busy (els ! i) = Ok True" if "unat base \<le> i" "i < j" for i using that by (rule before)
  qed (use j in simp_all)
  moreover have "unat (of_nat j :: u32) = j"
    using j(2) assms(1) unat_lt_2p[of sz] by (simp add: unat_of_nat)
  ultimately show ?thesis using stop j before by blast
next
  case False
  then have "busy (els ! i) = Ok True" if "unat base \<le> i" "i < length els" for i
    using that assms(4)[of i] by (metis (full_types))
  note busy = this
  have "probe_loop busy els sz base base = faults OutOfBounds"
  proof (rule probe_loop_overrun[OF assms(1,2)])
    show "busy (els ! i) = Ok True" if "unat base \<le> i" "i < length els" for i using that by (rule busy)
  qed (use assms(3) in simp_all)
  then show ?thesis using overrun busy by blast
qed

section \<open>Registries\<close>

text \<open>
  What the client of either table relies on: a name registered with success is found again, in any
  capitalisation, and the first registration of a name wins.  \<open>entry\<close> is what the table keeps of
  the argument of a registration.
\<close>

definition reg_lookup :: "(bytes \<times> 'v) list \<Rightarrow> bytes \<Rightarrow> 'v option" where
  "reg_lookup rs n = map_option snd (find (\<lambda>(m, _). same_name n m) rs)"

fun reg_all :: "('s \<Rightarrow> bytes \<Rightarrow> 'v \<Rightarrow> ('s \<times> int) run) \<Rightarrow> 's \<Rightarrow> (bytes \<times> 'v) list \<Rightarrow> ('s \<times> int list) run" where
  "reg_all store s [] = returns (s, [])"
| "reg_all store s ((n, v) # rs) =
     bind_run (store s n v) (\<lambda>(s', r).
     bind_run (reg_all store s' rs) (\<lambda>(s'', rvals). returns (s'', r # rvals)))"

locale registry =
  fixes rep :: "'s \<Rightarrow> (bytes \<times> 'v) list \<Rightarrow> bool"
    and good_name :: "bytes \<Rightarrow> bool"
    and store :: "'s \<Rightarrow> bytes \<Rightarrow> 'a \<Rightarrow> ('s \<times> int) run"
    and entry :: "'a \<Rightarrow> 'v"
    and fetch :: "'s \<Rightarrow> bytes \<Rightarrow> 'v option run"
  assumes store_law: "rep s rs \<Longrightarrow> good_name n \<Longrightarrow> store s n a = returns (s', 0) \<Longrightarrow>
      rep s' (rs @ [(n, entry a)])"
    and fetch_law: "rep s rs \<Longrightarrow> good_name n \<Longrightarrow> reg_lookup rs n = Some v \<Longrightarrow> fetch s n = returns (Some v)"
begin

lemma reg_all_rep:
  assumes "rep s rs" and "\<forall>(n, a)\<in>set xs. good_name n" and "reg_all store s xs = returns (s', replicate (length xs) 0)"
  shows "rep s' (rs @ map (apsnd entry) xs)"
  using assms
proof (induction xs arbitrary: s rs)
  case (Cons x xs)
  obtain n a where x: "x = (n, a)" by (cases x)
  obtain s1 where s1: "store s n a = returns (s1, 0)" "reg_all store s1 xs = returns (s', replicate (length xs) 0)"
    using Cons.prems(3) x by (auto simp: bind_run_def split: option.splits sum.splits)
  have "rep s1 (rs @ [(n, entry a)])" using store_law[OF Cons.prems(1) _ s1(1)] Cons.prems(2) x by simp
  then have "rep s' ((rs @ [(n, entry a)]) @ map (apsnd entry) xs)" using Cons.prems(2) by (intro Cons.IH[OF _ _ s1(2)]) auto
  then show ?case using x by simp
qed simp

lemma registered_is_found:
  assumes "rep s []" and "\<forall>(n, a)\<in>set xs. good_name n"
    and "reg_all store s xs = returns (s', replicate (length xs) 0)"
    and "good_name n" and "reg_lookup (map (apsnd entry) xs) n = Some v"
  shows "fetch s' n = returns (Some v)"
  using fetch_law[OF _ assms(4,5)] reg_all_rep[OF assms(1-3)] by simp

end

text \<open>An array of optional registrations, as both tables are, searched from the hash of the name.\<close>

definition reg_found ::
    "('e \<Rightarrow> (bytes \<times> 'v) option) \<Rightarrow> 'e list \<Rightarrow> nat \<Rightarrow> bytes \<Rightarrow> 'v \<Rightarrow> nat \<Rightarrow> bool" where
  "reg_found cell els b n v j \<longleftrightarrow>
     b \<le> j \<and> j < length els \<and>
     (\<forall>i. b \<le> i \<longrightarrow> i < j \<longrightarrow> (\<exists>m w. cell (els ! i) = Some (m, w) \<and> \<not> same_name n m)) \<and>
     (\<exists>m. cell (els ! j) = Some (m, v) \<and> same_name n m)"

definition reg_rep ::
    "('e \<Rightarrow> (bytes \<times> 'v) option) \<Rightarrow> (bytes \<Rightarrow> nat) \<Rightarrow> 'e list \<Rightarrow> (bytes \<times> 'v) list \<Rightarrow> bool" where
  "reg_rep cell home els rs \<longleftrightarrow>
     (\<forall>e\<in>set els. \<forall>m w. cell e = Some (m, w) \<longrightarrow> (m, w) \<in> set rs \<and> plain_name m) \<and>
     (\<forall>n v. reg_lookup rs n = Some v \<longrightarrow> (\<exists>j. reg_found cell els (home n) n v j))"

lemma reg_lookup_none: "reg_lookup rs n = None \<longleftrightarrow> (\<forall>(m, w)\<in>set rs. \<not> same_name n m)"
  by (auto simp: reg_lookup_def find_None_iff)

lemma reg_lookup_snoc:
  "reg_lookup (rs @ [(m, w)]) n =
     (case reg_lookup rs n of Some v \<Rightarrow> Some v | None \<Rightarrow> if same_name n m then Some w else None)"
  by (induction rs) (auto simp: reg_lookup_def split: option.splits)

lemma reg_rep_store:
  assumes rep: "reg_rep cell home els rs"
    and home: "\<And>m. same_name m n \<Longrightarrow> home m = home n"
    and k: "home n \<le> k" "k < length els" "cell (els ! k) = None"
    and before: "\<And>i. home n \<le> i \<Longrightarrow> i < k \<Longrightarrow> cell (els ! i) \<noteq> None"
    and e: "cell e = Some (n, v)" "plain_name n"
  shows "reg_rep cell home (els[k := e]) (rs @ [(n, v)])"
proof -
  have cells: "\<forall>c\<in>set (els[k := e]). \<forall>m w. cell c = Some (m, w) \<longrightarrow> (m, w) \<in> set (rs @ [(n, v)]) \<and> plain_name m"
  proof
    fix c
    assume "c \<in> set (els[k := e])"
    then have "c = e \<or> c \<in> set els" using set_update_subset_insert by fastforce
    then show "\<forall>m w. cell c = Some (m, w) \<longrightarrow> (m, w) \<in> set (rs @ [(n, v)]) \<and> plain_name m"
      using rep e unfolding reg_rep_def by auto
  qed
  have found: "\<exists>j. reg_found cell (els[k := e]) (home m) m w j"
    if look: "reg_lookup (rs @ [(n, v)]) m = Some w" for m w
  proof (cases "reg_lookup rs m")
    case (Some w')
    then have "w' = w" using look by (simp add: reg_lookup_snoc)
    then obtain j where j: "reg_found cell els (home m) m w j"
      using rep Some unfolding reg_rep_def by blast
    then have "j \<noteq> k" using k(3) by (auto simp: reg_found_def)
    moreover have "\<not> (home m \<le> k \<and> k < j)" using j k(3) by (auto simp: reg_found_def)
    ultimately have "reg_found cell (els[k := e]) (home m) m w j"
      using j by (auto simp: reg_found_def nth_list_update)
    then show ?thesis by blast
  next
    case None
    then have same: "same_name m n" and w: "w = v"
      using look by (auto simp: reg_lookup_snoc split: if_splits)
    have hm: "home m = home n" by (rule home[OF same])
    have "\<exists>m' w'. cell (els ! i) = Some (m', w') \<and> \<not> same_name m m'" if i: "home n \<le> i" "i < k" for i
    proof -
      obtain m' w' where c: "cell (els ! i) = Some (m', w')" using before[OF i] by auto
      have "els ! i \<in> set els" using i k(2) by simp
      then have "(m', w') \<in> set rs" using rep c unfolding reg_rep_def by blast
      then have "\<not> same_name m m'" using None by (auto simp: reg_lookup_none)
      then show ?thesis using c by blast
    qed
    then have "reg_found cell (els[k := e]) (home m) m w k"
      using k e same w hm by (auto simp: reg_found_def nth_list_update)
    then show ?thesis by blast
  qed
  show ?thesis unfolding reg_rep_def using cells found by blast
qed

end
