(* ===== verification/Type_Ht.thy ===== *)
theory Type_Ht
  imports Probe_Table
begin

text \<open>
  The table of data types, \<^verbatim>\<open>lib/type_ht.c\<close>: open addressing over a fixed array, names compared
  without case.  A type is a pair of functions, given here by a type variable.
\<close>

section \<open>Definitions\<close>

record 'f type_raw =
  tr_init :: "'f option"
  tr_free :: "'f option"

record 'f type_elem =
  te_name :: "bytes option"
  te_raw :: "'f type_raw"
  te_name_length :: u32

record 'f type_ht =
  tt_elements :: "'f type_elem list"
  tt_size :: u32

text \<open>The arguments tell whether the two \<open>malloc\<close>s succeed.\<close>

definition type_ht_init :: "bool \<Rightarrow> bool \<Rightarrow> u32 \<Rightarrow> 'f type_ht option" where
  "type_ht_init ok_ht ok_elements sz =
     (if \<not> ok_ht then None
      else if \<not> ok_elements then None
      else Some \<lparr>tt_elements = replicate (unat sz)
             \<lparr>te_name = None, te_raw = \<lparr>tr_init = None, tr_free = None\<rparr>, te_name_length = 0\<rparr>,
           tt_size = sz\<rparr>)"

text \<open>
  \<open>tolower\<close> of a \<open>char\<close>, which is signed: its argument has to be \<open>EOF\<close> or an \<open>unsigned char\<close>.
\<close>

definition tolower_char :: "byte \<Rightarrow> u32 res" where
  "tolower_char c =
     (if sint c < - 1 then Fault LibraryDomain
      else if 65 \<le> sint c \<and> sint c \<le> 90 then Ok (word_of_int (sint c + 32))
      else Ok (word_of_int (sint c)))"

fun type_hash_loop :: "u64 \<Rightarrow> bytes \<Rightarrow> nat \<Rightarrow> u64 res" where
  "type_hash_loop hash str 0 = Ok hash"
| "type_hash_loop hash [] (Suc len) = Fault OutOfBounds"
| "type_hash_loop hash (c # str) (Suc len) =
     bind_res (tolower_char c) (\<lambda>l. type_hash_loop ((push_bit 5 hash + hash) + ucast l) str len)"

definition type_hash :: "bytes \<Rightarrow> u32 \<Rightarrow> u64 res" where
  "type_hash str len = type_hash_loop 5381 str (unat len)"

definition type_ht_store ::
    "'f type_ht \<Rightarrow> bytes \<Rightarrow> u32 \<Rightarrow> 'f type_raw option \<Rightarrow> ('f type_ht \<times> int) run" where
  "type_ht_store ht type_name type_name_length type_raw =
     (case type_raw of
        None \<Rightarrow> returns (ht, - 1)
      | Some raw \<Rightarrow>
          bind_run (Some (type_hash type_name type_name_length)) (\<lambda>h.
          bind_run (Some (probe_base h (tt_size ht))) (\<lambda>base_index.
          bind_run (probe_loop (\<lambda>e. Ok (te_name e \<noteq> None)) (tt_elements ht) (tt_size ht) base_index base_index)
            (\<lambda>r. case r of
               None \<Rightarrow> returns (ht, 1)
             | Some index \<Rightarrow> returns
                 (ht\<lparr>tt_elements := (tt_elements ht)
                    [unat index := \<lparr>te_name = Some type_name,
                        te_raw = \<lparr>tr_init = tr_init raw, tr_free = tr_free raw\<rparr>,
                        te_name_length = type_name_length\<rparr>]\<rparr>, 0)))))"

text \<open>The element is passed over when it has a name and the name is another one.\<close>

definition type_elem_other :: "bytes \<Rightarrow> u32 \<Rightarrow> 'f type_elem \<Rightarrow> bool res" where
  "type_elem_other type_name type_name_length e =
     (case te_name e of
        None \<Rightarrow> Ok False
      | Some nm \<Rightarrow>
          if te_name_length e \<noteq> type_name_length then Ok True
          else bind_res (strncasecmp_eq type_name nm (unat type_name_length)) (\<lambda>eq. Ok (\<not> eq)))"

text \<open>The result code, and the index of the element whose \<open>type_raw\<close> is pointed to.\<close>

definition type_ht_fetch :: "'f type_ht \<Rightarrow> bytes \<Rightarrow> u32 \<Rightarrow> (int \<times> u32 option) run" where
  "type_ht_fetch ht type_name type_name_length =
     bind_run (Some (type_hash type_name type_name_length)) (\<lambda>h.
     bind_run (Some (probe_base h (tt_size ht))) (\<lambda>base_index.
     bind_run (probe_loop (type_elem_other type_name type_name_length) (tt_elements ht) (tt_size ht)
         base_index base_index) (\<lambda>r.
       case r of
         None \<Rightarrow> returns (- 1, None)
       | Some index \<Rightarrow>
           if te_name (tt_elements ht ! unat index) = None then returns (- 1, None)
           else returns (0, Some index))))"

section \<open>The registry\<close>

text \<open>Names of characters below 128, no NUL inside.\<close>

definition type_name_ok :: "bytes \<Rightarrow> bool" where
  "type_name_ok n \<longleftrightarrow> plain_name n \<and> (\<forall>c\<in>set n. c < 128) \<and> length n < 2 ^ 32"

definition type_cell :: "'f type_elem \<Rightarrow> (bytes \<times> 'f type_raw) option" where
  "type_cell e = map_option (\<lambda>n. (take (unat (te_name_length e)) n, te_raw e)) (te_name e)"

fun ascii_hash :: "u64 \<Rightarrow> bytes \<Rightarrow> u64" where
  "ascii_hash h [] = h"
| "ascii_hash h (c # s) = ascii_hash ((push_bit 5 h + h) + ucast (tolower_byte c)) s"

lemma tolower_char_ascii:
  assumes "c < 128"
  shows "tolower_char c = Ok (ucast (tolower_byte c))"
proof -
  have si: "sint c = uint c" using assms by (rule sint_byte_small)
  have up: "(65 \<le> sint c \<and> sint c \<le> 90) = (65 \<le> c \<and> c \<le> 90)"
    by (simp add: si word_le_def)
  have nn: "\<not> sint c < - 1" unfolding si by (simp add: not_less order.trans[of "- 1" 0])
  have "word_of_int (uint c + 32) = (ucast (c + 32) :: u32)" if "65 \<le> c" "c \<le> 90"
  proof -
    have "uint c \<le> 90" using that(2) by (simp add: word_le_def)
    then have "uint (c + 32) = uint c + 32"
      by (simp add: uint_word_ariths)
    then show ?thesis by (simp only: ucast_eq)
  qed
  then show ?thesis
    unfolding tolower_char_def up tolower_byte_def using nn by (simp add: si ucast_eq[symmetric])
qed

lemma ucast_8_32_64: "(ucast (ucast (c :: byte) :: u32) :: u64) = ucast c"
  by (rule bit_eqI) (auto simp: bit_simps dest: bit_imp_le_length)

lemma type_hash_ascii:
  assumes "\<forall>c\<in>set (take n str). c < 128" and "n \<le> length str"
  shows "type_hash_loop h str n = Ok (ascii_hash h (take n str))"
  using assms
proof (induction h str n rule: type_hash_loop.induct)
  case (3 hash c str len)
  then show ?case by (simp add: tolower_char_ascii ucast_8_32_64)
qed simp_all

lemma ascii_hash_foldl:
  "ascii_hash h a = foldl (\<lambda>h c. (push_bit 5 h + h) + ucast c) h (map tolower_byte a)"
  by (induction h a rule: ascii_hash.induct) (simp_all only: ascii_hash.simps list.map foldl.simps)

lemma ascii_hash_same: "same_name a b \<Longrightarrow> ascii_hash h a = ascii_hash h b"
  unfolding ascii_hash_foldl same_name_def by (rule arg_cong)

definition type_home :: "'f type_ht \<Rightarrow> bytes \<Rightarrow> nat" where
  "type_home ht n = unat (ascii_hash 5381 n mod ucast (tt_size ht))"

definition type_rep :: "'f type_ht \<Rightarrow> (bytes \<times> 'f type_raw) list \<Rightarrow> bool" where
  "type_rep ht rs \<longleftrightarrow>
     unat (tt_size ht) = length (tt_elements ht) \<and> 2 \<le> length (tt_elements ht) \<and>
     (\<forall>e\<in>set (tt_elements ht). \<forall>n. te_name e = Some n \<longrightarrow> unat (te_name_length e) = length n) \<and>
     reg_rep type_cell (type_home ht) (tt_elements ht) rs"

definition type_register :: "'f type_ht \<Rightarrow> bytes \<Rightarrow> 'f type_raw \<Rightarrow> ('f type_ht \<times> int) run" where
  "type_register ht n raw = type_ht_store ht n (of_nat (length n)) (Some raw)"

definition type_get :: "'f type_ht \<Rightarrow> bytes \<Rightarrow> 'f type_raw option run" where
  "type_get ht n = bind_run (type_ht_fetch ht n (of_nat (length n))) (\<lambda>(rc, i).
     returns (map_option (\<lambda>i. te_raw (tt_elements ht ! unat i)) i))"

lemma type_hash_name:
  assumes "type_name_ok n"
  shows "type_hash n (of_nat (length n)) = Ok (ascii_hash 5381 n)"
    and "unat (of_nat (length n) :: u32) = length n"
proof -
  show l: "unat (of_nat (length n) :: u32) = length n"
    using assms by (simp add: type_name_ok_def unat_of_nat)
  have "type_hash_loop 5381 n (length n) = Ok (ascii_hash 5381 (take (length n) n))"
    using assms by (intro type_hash_ascii) (auto simp: type_name_ok_def)
  then show "type_hash n (of_nat (length n)) = Ok (ascii_hash 5381 n)"
    by (simp add: type_hash_def l)
qed

lemma type_base:
  assumes "2 \<le> unat (tt_size ht)"
  shows "\<exists>b. probe_base (ascii_hash 5381 n) (tt_size ht) = Ok b \<and> unat b = type_home ht n \<and>
           unat b < unat (tt_size ht)"
  unfolding type_home_def by (rule home_base[OF assms])

lemma type_elem_other_cell:
  assumes "type_name_ok n" and "\<forall>m. te_name e = Some m \<longrightarrow> unat (te_name_length e) = length m"
    and "\<forall>m w. type_cell e = Some (m, w) \<longrightarrow> plain_name m"
  shows "type_elem_other n (of_nat (length n)) e =
           Ok (case type_cell e of None \<Rightarrow> False | Some (m, _) \<Rightarrow> \<not> same_name n m)"
proof (cases "te_name e")
  case None
  then show ?thesis by (simp add: type_elem_other_def type_cell_def)
next
  case (Some m)
  then have lm: "unat (te_name_length e) = length m" and c: "type_cell e = Some (m, te_raw e)"
    using assms(2) by (simp_all add: type_cell_def)
  have ln: "unat (of_nat (length n) :: u32) = length n" by (rule type_hash_name(2)[OF assms(1)])
  show ?thesis
  proof (cases "te_name_length e = of_nat (length n)")
    case True
    then have "length m = length n" using lm ln by simp
    then have "strncasecmp_eq n m (length n) = Ok (same_name n m)"
      using assms(3) c by (intro strncasecmp_name) auto
    then show ?thesis using Some True c ln by (simp add: type_elem_other_def)
  next
    case False
    then have "length m \<noteq> length n" using lm ln by (simp only: word_unat_eq_iff) simp
    then have "\<not> same_name n m" using same_name_length by metis
    then show ?thesis using Some False c by (simp add: type_elem_other_def)
  qed
qed

text \<open>A store either fills the first free cell from the hash on or runs off the array.\<close>

lemma type_register_cases:
  assumes ht: "unat (tt_size ht) = length (tt_elements ht)" "2 \<le> length (tt_elements ht)"
    and n: "type_name_ok n"
  obtains (stored) k where "type_home ht n \<le> k" "k < length (tt_elements ht)"
      "te_name (tt_elements ht ! k) = None"
      "\<And>i. type_home ht n \<le> i \<Longrightarrow> i < k \<Longrightarrow> te_name (tt_elements ht ! i) \<noteq> None"
      "type_register ht n raw = returns (ht\<lparr>tt_elements := (tt_elements ht)
         [k := \<lparr>te_name = Some n, te_raw = raw, te_name_length = of_nat (length n)\<rparr>]\<rparr>, 0)"
  | (overrun) "\<And>i. type_home ht n \<le> i \<Longrightarrow> i < length (tt_elements ht) \<Longrightarrow> te_name (tt_elements ht ! i) \<noteq> None"
      "type_register ht n raw = faults OutOfBounds"
proof -
  obtain b where b: "probe_base (ascii_hash 5381 n) (tt_size ht) = Ok b" "unat b = type_home ht n"
    "unat b < unat (tt_size ht)"
    using type_base[of ht n] ht by auto
  have hash: "type_hash n (of_nat (length n)) = Ok (ascii_hash 5381 n)" by (rule type_hash_name(1)[OF n])
  have bl: "unat b < length (tt_elements ht)" using b(3) ht(1) by simp
  have eta: "\<lparr>tr_init = tr_init raw, tr_free = tr_free raw\<rparr> = raw" by (cases raw) simp
  show ?thesis
  proof (rule probe_loop_cases[OF ht bl, of "\<lambda>e. Ok (te_name e \<noteq> None)"])
    show "\<exists>c. Ok (te_name (tt_elements ht ! i) \<noteq> None) = Ok c" for i by simp
  next
    fix j
    assume j: "unat b \<le> j" "j < length (tt_elements ht)"
      "Ok (te_name (tt_elements ht ! j) \<noteq> None) = (Ok False :: bool res)"
      and before: "\<And>i. unat b \<le> i \<Longrightarrow> i < j \<Longrightarrow> Ok (te_name (tt_elements ht ! i) \<noteq> None) = (Ok True :: bool res)"
      and run: "probe_loop (\<lambda>e. Ok (te_name e \<noteq> None)) (tt_elements ht) (tt_size ht) b b = returns (Some (of_nat j))"
      and uj: "unat (of_nat j :: u32) = j"
    show thesis
    proof (rule stored)
      show "type_register ht n raw = returns (ht\<lparr>tt_elements := (tt_elements ht)
         [j := \<lparr>te_name = Some n, te_raw = raw, te_name_length = of_nat (length n)\<rparr>]\<rparr>, 0)"
        using hash b(1) run uj by (simp add: type_register_def type_ht_store_def eta)
    qed (use j before b(2) in auto)
  next
    assume all: "\<And>i. unat b \<le> i \<Longrightarrow> i < length (tt_elements ht) \<Longrightarrow> Ok (te_name (tt_elements ht ! i) \<noteq> None) = (Ok True :: bool res)"
      and run: "probe_loop (\<lambda>e. Ok (te_name e \<noteq> None)) (tt_elements ht) (tt_size ht) b b = faults OutOfBounds"
    show thesis
    proof (rule overrun)
      show "type_register ht n raw = faults OutOfBounds"
        using hash b(1) run by (simp add: type_register_def type_ht_store_def)
    qed (use all b(2) in auto)
  qed
qed

lemma type_store_law:
  assumes rep: "type_rep ht rs" and n: "type_name_ok n" and run: "type_register ht n v = returns (ht', 0)"
  shows "type_rep ht' (rs @ [(n, v)])"
proof -
  have ht: "unat (tt_size ht) = length (tt_elements ht)" "2 \<le> length (tt_elements ht)"
    and lens: "\<forall>e\<in>set (tt_elements ht). \<forall>n. te_name e = Some n \<longrightarrow> unat (te_name_length e) = length n"
    and reg: "reg_rep type_cell (type_home ht) (tt_elements ht) rs"
    using rep by (simp_all add: type_rep_def)
  show ?thesis
  proof (cases rule: type_register_cases[OF ht n, where raw = v, case_names stored overrun])
    case (stored k)
    let ?e = "\<lparr>te_name = Some n, te_raw = v, te_name_length = of_nat (length n)\<rparr>"
    have ht': "ht' = ht\<lparr>tt_elements := (tt_elements ht)[k := ?e]\<rparr>" using stored(5) run by simp
    have home': "type_home ht' = type_home ht" by (rule ext) (simp add: type_home_def ht')
    have ln: "unat (of_nat (length n) :: u32) = length n" by (rule type_hash_name(2)[OF n])
    have "reg_rep type_cell (type_home ht) ((tt_elements ht)[k := ?e]) (rs @ [(n, v)])"
    proof (rule reg_rep_store[OF reg _ stored(1,2)])
      show "type_home ht m = type_home ht n" if "same_name m n" for m
        using ascii_hash_same[OF that] by (simp add: type_home_def)
      show "type_cell (tt_elements ht ! k) = None" using stored(3) by (simp add: type_cell_def)
      show "type_cell (tt_elements ht ! i) \<noteq> None" if "type_home ht n \<le> i" "i < k" for i
        using stored(4)[OF that] by (simp add: type_cell_def)
      show "type_cell ?e = Some (n, v)" by (simp add: type_cell_def ln)
      show "plain_name n" using n by (simp add: type_name_ok_def)
    qed
    moreover have "\<forall>e\<in>set ((tt_elements ht)[k := ?e]). \<forall>n. te_name e = Some n \<longrightarrow> unat (te_name_length e) = length n"
      using lens ln set_update_subset_insert[of "tt_elements ht" k ?e] by auto
    ultimately show ?thesis using ht home' by (simp add: type_rep_def ht')
  next
    case overrun
    then show ?thesis using run by simp
  qed
qed

lemma type_fetch_law:
  assumes rep: "type_rep ht rs" and n: "type_name_ok n" and look: "reg_lookup rs n = Some v"
  shows "type_get ht n = returns (Some v)"
proof -
  have ht: "unat (tt_size ht) = length (tt_elements ht)" "2 \<le> length (tt_elements ht)"
    and lens: "\<forall>e\<in>set (tt_elements ht). \<forall>n. te_name e = Some n \<longrightarrow> unat (te_name_length e) = length n"
    and reg: "reg_rep type_cell (type_home ht) (tt_elements ht) rs"
    using rep by (simp_all add: type_rep_def)
  obtain j where j: "reg_found type_cell (tt_elements ht) (type_home ht n) n v j"
    using reg look unfolding reg_rep_def by blast
  obtain b where b: "probe_base (ascii_hash 5381 n) (tt_size ht) = Ok b" "unat b = type_home ht n"
    using type_base[of ht n] ht by auto
  have hash: "type_hash n (of_nat (length n)) = Ok (ascii_hash 5381 n)" by (rule type_hash_name(1)[OF n])
  have jl: "j < length (tt_elements ht)" and bj: "unat b \<le> j" using j b(2) by (simp_all add: reg_found_def)
  have other: "type_elem_other n (of_nat (length n)) (tt_elements ht ! i) =
      Ok (case type_cell (tt_elements ht ! i) of None \<Rightarrow> False | Some (m, _) \<Rightarrow> \<not> same_name n m)"
    if "i < length (tt_elements ht)" for i
  proof (rule type_elem_other_cell[OF n])
    have mem: "tt_elements ht ! i \<in> set (tt_elements ht)" using that by simp
    show "\<forall>m. te_name (tt_elements ht ! i) = Some m \<longrightarrow> unat (te_name_length (tt_elements ht ! i)) = length m"
      using lens mem by blast
    show "\<forall>m w. type_cell (tt_elements ht ! i) = Some (m, w) \<longrightarrow> plain_name m"
      using reg mem unfolding reg_rep_def by blast
  qed
  have "probe_loop (type_elem_other n (of_nat (length n))) (tt_elements ht) (tt_size ht) b b
      = returns (Some (of_nat j))"
  proof (rule probe_loop_stop[OF ht])
    show "type_elem_other n (of_nat (length n)) (tt_elements ht ! i) = Ok True"
      if "unat b \<le> i" "i < j" for i
      using other[of i] that jl j b(2) by (auto simp: reg_found_def)
    show "type_elem_other n (of_nat (length n)) (tt_elements ht ! j) = Ok False"
      using other[OF jl] j by (auto simp: reg_found_def)
  qed (use bj jl in simp_all)
  moreover have "unat (of_nat j :: u32) = j"
    using jl ht(1) unat_lt_2p[of "tt_size ht"] by (simp add: unat_of_nat)
  moreover have "te_name (tt_elements ht ! j) \<noteq> None" "te_raw (tt_elements ht ! j) = v"
    using j by (auto simp: reg_found_def type_cell_def)
  ultimately show ?thesis
    using hash b(1) by (auto simp: type_get_def type_ht_fetch_def)
qed

interpretation types: registry type_rep type_name_ok type_register "\<lambda>v. v" type_get
  by (unfold_locales) (rule type_store_law, assumption+, rule type_fetch_law)

section \<open>Properties\<close>

lemma type_init_rep:
  assumes "2 \<le> unat sz" and "type_ht_init True True sz = Some ht"
  shows "type_rep ht []"
  using assms by (auto simp: type_ht_init_def type_rep_def reg_rep_def type_cell_def reg_lookup_def)

definition demo_raw :: "nat type_raw" where
  "demo_raw = \<lparr>tr_init = Some 1, tr_free = Some 2\<rparr>"

definition demo_types :: "nat type_ht" where
  "demo_types = the (type_ht_init True True 4)"

lemma demo_register:
  "\<exists>ht'. reg_all type_register demo_types [([115, 116, 114, 105, 110, 103], demo_raw)] = returns (ht', [0])"
proof -
  have "map_option (map_sum id snd)
      (reg_all type_register demo_types [([115, 116, 114, 105, 110, 103], demo_raw)]) = returns [0]"
    by code_simp
  then show ?thesis by (auto simp: map_sum_id_Ok)
qed

text \<open>
  C26.  A type registered with result \<open>0\<close> is found under its name in any capitalisation, and the
  first registration of a name wins, whatever else is registered.
\<close>

theorem registered_types_are_found:
  assumes "type_ht_init True True sz = Some ht" and "2 \<le> unat sz"
    and "\<forall>(n, v)\<in>set xs. type_name_ok n"
    and "reg_all type_register ht xs = returns (ht', replicate (length xs) 0)"
    and "type_name_ok n" and "reg_lookup xs n = Some v"
  shows "type_get ht' n = returns (Some v)"
  by (rule types.registered_is_found[OF type_init_rep[OF assms(2,1)] assms(3-5)])
    (simp add: apsnd_def map_prod_def assms(6))

theorem registered_types_are_found_witness:
  "\<exists>ht'. reg_all type_register demo_types [([115, 116, 114, 105, 110, 103], demo_raw)]
       = returns (ht', [0]) \<and>
     type_get ht' [83, 84, 82, 73, 78, 71] = returns (Some demo_raw)"
proof -
  obtain ht' where reg: "reg_all type_register demo_types [([115, 116, 114, 105, 110, 103], demo_raw)]
      = returns (ht', replicate (length [([115, 116, 114, 105, 110, 103 :: byte], demo_raw)]) 0)"
    using demo_register by auto
  have init: "type_ht_init True True 4 = Some demo_types"
    by (simp add: demo_types_def type_ht_init_def)
  have names: "\<forall>(n, v)\<in>set [([115, 116, 114, 105, 110, 103], demo_raw)]. type_name_ok n"
    by (simp add: type_name_ok_def plain_name_def)
  have look: "reg_lookup [([115, 116, 114, 105, 110, 103], demo_raw)] [83, 84, 82, 73, 78, 71] = Some demo_raw"
    by (simp add: reg_lookup_def same_name_def tolower_byte_def)
  have "type_get ht' [83, 84, 82, 73, 78, 71] = returns (Some demo_raw)"
    by (rule registered_types_are_found[OF init _ names reg _ look])
      (simp_all add: type_name_ok_def plain_name_def)
  then show ?thesis using reg by auto
qed

text \<open>
  A registration fills the first free element from the hash of the name on; when there is none
  up to the end of the array it does not wrap around but reads past the array.
\<close>

lemma type_store_never_wraps:
  assumes "unat (tt_size ht) = length (tt_elements ht)" and "2 \<le> length (tt_elements ht)"
    and "type_name_ok n"
  shows "(\<exists>k. type_home ht n \<le> k \<and> k < length (tt_elements ht) \<and> te_name (tt_elements ht ! k) = None \<and>
            type_register ht n raw = returns (ht\<lparr>tt_elements := (tt_elements ht)
              [k := \<lparr>te_name = Some n, te_raw = raw, te_name_length = of_nat (length n)\<rparr>]\<rparr>, 0)) \<or>
         (\<forall>i\<in>{type_home ht n..<length (tt_elements ht)}. te_name (tt_elements ht ! i) \<noteq> None) \<and>
            type_register ht n raw = faults OutOfBounds"
  by (rule type_register_cases[OF assms, of raw]) auto

text \<open>A table of four with only its first element free; \<open>hash\<close> belongs to the second.\<close>

definition crowded_types :: "nat type_ht" where
  "crowded_types = \<lparr>tt_elements = \<lparr>te_name = None, te_raw = demo_raw, te_name_length = 0\<rparr> #
       replicate 3 \<lparr>te_name = Some [120], te_raw = demo_raw, te_name_length = 1\<rparr>, tt_size = 4\<rparr>"

end
