(* ===== verification/Format_String.thy ===== *)
theory Format_String
  imports Type_Ht
begin

text \<open>
  The parser of argument formats, \<open>parse_format_string\<close> of \<^verbatim>\<open>lib/command_ht.c\<close>: a format such as
  \<open>W{string}S\<close> says for each argument of a command whether it names a key, of which type and how it
  is accessed, or is plain text; \<open>a|b|c\<close> marks a part that is looped over.
\<close>

section \<open>Definitions\<close>

datatype access_type =
    FSTRING_READONLY | FSTRING_READONLY_OPTIONAL | FSTRING_MODIFY_NOCREATE | FSTRING_MODIFY_CREATE
  | FSTRING_CREATE | FSTRING_STRING | FSTRING_JUMP

text \<open>The union of a type pointer (null, or the index of its element) and a jump target.\<close>

datatype fs_details = FsNull | FsType u32 | FsJump u32

record fs_node =
  fn_details :: fs_details
  fn_access_type :: access_type

record format_string =
  fs_contents :: "fs_node list"
  fs_length :: u32
  fs_optional_argument_count :: u32

text \<open>
  What \<open>*fstring\<close> is set to: an allocated format, or, for the empty format, the address of a
  compound literal that is dead when the function has returned.
\<close>

datatype fs_pointer = FsAt format_string | FsDead

text \<open>The outcomes of \<open>malloc\<close>: for the n-th list node, the array, and the result.\<close>

record fs_env =
  fe_node :: "nat \<Rightarrow> bool"
  fe_array :: bool
  fe_final :: bool

text \<open>The variables of the loop; the linked list is given by its nodes in order.\<close>

record fs_state =
  fp_stridx :: nat
  fp_nodes :: "fs_node list"
  fp_jmp_target :: int
  fp_seen_jump_node :: bool
  fp_access_type :: access_type
  fp_optargs_count :: u32

definition char_at :: "bytes \<Rightarrow> nat \<Rightarrow> byte res" where
  "char_at str i = (if i < length str then Ok (str ! i) else Fault OutOfBounds)"

text \<open>
  The \<open>switch\<close>: a result code to return with, or the new state with \<open>expect_type\<close> and
  \<open>allocate_node\<close>.
\<close>

definition fs_switch :: "bytes \<Rightarrow> fs_state \<Rightarrow> (int + fs_state \<times> bool \<times> bool) res" where
  "fs_switch str st =
     bind_res (char_at str (fp_stridx st)) (\<lambda>c.
       let next = st\<lparr>fp_stridx := fp_stridx st + 1\<rparr> in
       if c = 82 then Ok (Inr (next\<lparr>fp_access_type := FSTRING_READONLY\<rparr>, True, True))
       else if c = 114 then Ok (Inr (next\<lparr>fp_access_type := FSTRING_READONLY_OPTIONAL\<rparr>, True, True))
       else if c = 67 then Ok (Inr (next\<lparr>fp_access_type := FSTRING_CREATE\<rparr>, True, True))
       else if c = 87 then Ok (Inr (next\<lparr>fp_access_type := FSTRING_MODIFY_CREATE\<rparr>, True, True))
       else if c = 77 then Ok (Inr (next\<lparr>fp_access_type := FSTRING_MODIFY_NOCREATE\<rparr>, True, True))
       else if c = 83 then Ok (Inr (next\<lparr>fp_access_type := FSTRING_STRING\<rparr>, False, True))
       else if c = 124 then
         (if fp_seen_jump_node st then Ok (Inl (- 6))
          else if fp_jmp_target st = - 1 then
            Ok (Inr (next\<lparr>fp_jmp_target := int (length (fp_nodes st))\<rparr>, False, False))
          else Ok (Inr (next\<lparr>fp_seen_jump_node := True, fp_access_type := FSTRING_JUMP\<rparr>, False, True)))
       else if c = 63 then
         (if fp_seen_jump_node st then Ok (Inl (- 7))
          else bind_res (strtol10 (drop (fp_stridx st + 1) str)) (\<lambda>(raw, n).
            if raw < 0 then Ok (Inl (- 5))
            else if fp_stridx st + 1 + n \<noteq> fp_stridx st then Ok (Inl (- 4))
            else Ok (Inr (st\<lparr>fp_optargs_count := word_of_int raw\<rparr>, False, False))))
       else Ok (Inl (- 1)))"

definition fs_push :: "fs_details \<Rightarrow> nat \<Rightarrow> fs_state \<Rightarrow> fs_state" where
  "fs_push d i st = st\<lparr>fp_stridx := i,
     fp_nodes := fp_nodes st @ [\<lparr>fn_details = d, fn_access_type = fp_access_type st\<rparr>]\<rparr>"

text \<open>
  The part under \<open>if (allocate_node)\<close>.  Without a closing brace \<open>memchr\<close> returns null, from which the
  code then subtracts.
\<close>

definition fs_allocate ::
    "'f type_ht \<Rightarrow> bytes \<Rightarrow> u32 \<Rightarrow> fs_env \<Rightarrow> fs_state \<Rightarrow> bool \<Rightarrow> (int + fs_state) run" where
  "fs_allocate th str len env st expect_type =
     (if \<not> fe_node env (length (fp_nodes st)) then returns (Inl (- 4))
      else if fp_access_type st = FSTRING_JUMP then
        returns (Inr (fs_push (FsJump (word_of_int (fp_jmp_target st))) (fp_stridx st) st))
      else if expect_type then
        bind_run (Some (char_at str (fp_stridx st))) (\<lambda>c.
        if c \<noteq> 123 then returns (Inl (- 2))
        else
          let i = fp_stridx st + 1; n = unat (len - of_nat i) in
          case memchr_offset 125 (drop i str) n of
            None \<Rightarrow> faults (if n \<le> length (drop i str) then NullDeref else OutOfBounds)
          | Some off \<Rightarrow>
              bind_run (type_ht_fetch th (drop i str) (of_nat off)) (\<lambda>(rc, ty).
              case ty of
                Some k \<Rightarrow> if rc \<noteq> 0 then returns (Inl (- 3))
                          else returns (Inr (fs_push (FsType k) (i + off + 1) st))
              | None \<Rightarrow> returns (Inl (- 3))))
      else returns (Inr (fs_push FsNull (fp_stridx st) st)))"

partial_function (option) fs_loop ::
    "'f type_ht \<Rightarrow> bytes \<Rightarrow> u32 \<Rightarrow> fs_env \<Rightarrow> fs_state \<Rightarrow> (int + fs_state) run" where
  "fs_loop th str len env st =
     (if fp_stridx st < unat len then
        case fs_switch str st of
          Inl e \<Rightarrow> faults e
        | Inr (Inl code) \<Rightarrow> returns (Inl code)
        | Inr (Inr (st1, expect_type, allocate_node)) \<Rightarrow>
            if allocate_node then
              case fs_allocate th str len env st1 expect_type of
                None \<Rightarrow> None
              | Some (Inl e) \<Rightarrow> faults e
              | Some (Inr (Inl code)) \<Rightarrow> returns (Inl code)
              | Some (Inr (Inr st2)) \<Rightarrow> fs_loop th str len env st2
            else fs_loop th str len env st1
      else returns (Inr st))"

declare fs_loop.simps [code]

text \<open>
  The conversion of the list to an array.  \<open>next\<close> starts as \<open>0x1\<close>, so that it is not null after the
  loop when there is no node.
\<close>

definition fs_finish :: "fs_env \<Rightarrow> fs_state \<Rightarrow> int \<times> fs_pointer option" where
  "fs_finish env st =
     (if \<not> fe_array env then (- 9, None)
      else if fp_nodes st = [] then (- 5, None)
      else if \<not> fe_final env then (- 6, None)
      else (0, Some (FsAt \<lparr>fs_contents = fp_nodes st, fs_length = of_nat (length (fp_nodes st)),
              fs_optional_argument_count = fp_optargs_count st\<rparr>)))"

definition fs_start :: fs_state where
  "fs_start = \<lparr>fp_stridx = 0, fp_nodes = [], fp_jmp_target = - 1, fp_seen_jump_node = False,
     fp_access_type = FSTRING_READONLY, fp_optargs_count = 0\<rparr>"

definition parse_format_string ::
    "'f type_ht \<Rightarrow> bytes \<Rightarrow> u32 \<Rightarrow> fs_env \<Rightarrow> (int \<times> fs_pointer option) run" where
  "parse_format_string th str len env =
     (if len = 0 then returns (0, Some FsDead)
      else bind_run (fs_loop th str len env fs_start) (\<lambda>r.
        case r of Inl code \<Rightarrow> returns (code, None) | Inr st \<Rightarrow> returns (fs_finish env st)))"

section \<open>Reading back what a format says\<close>

datatype fs_item = FsArg access_type bytes | FsText

fun access_char :: "access_type \<Rightarrow> byte" where
  "access_char FSTRING_READONLY = 82"
| "access_char FSTRING_READONLY_OPTIONAL = 114"
| "access_char FSTRING_CREATE = 67"
| "access_char FSTRING_MODIFY_CREATE = 87"
| "access_char FSTRING_MODIFY_NOCREATE = 77"
| "access_char _ = 0"

fun print_item :: "fs_item \<Rightarrow> bytes" where
  "print_item (FsArg a n) = access_char a # 123 # n @ [125]"
| "print_item FsText = [83]"

definition print_items :: "fs_item list \<Rightarrow> bytes" where
  "print_items xs = concat (map print_item xs)"

text \<open>An argument of a registered type, accessed in one of the five ways.\<close>

definition item_ok :: "'f type_ht \<Rightarrow> fs_item \<Rightarrow> bool" where
  "item_ok th it \<longleftrightarrow>
     (case it of FsText \<Rightarrow> True
      | FsArg a n \<Rightarrow> a \<noteq> FSTRING_STRING \<and> a \<noteq> FSTRING_JUMP \<and> type_name_ok n \<and> 125 \<notin> set n \<and>
          (\<exists>k. type_ht_fetch th n (of_nat (length n)) = returns (0, Some k)))"

fun item_node :: "'f type_ht \<Rightarrow> fs_item \<Rightarrow> fs_node \<Rightarrow> bool" where
  "item_node th FsText nd \<longleftrightarrow> nd = \<lparr>fn_details = FsNull, fn_access_type = FSTRING_STRING\<rparr>"
| "item_node th (FsArg a n) nd \<longleftrightarrow>
     (\<exists>k. type_ht_fetch th n (of_nat (length n)) = returns (0, Some k) \<and>
        nd = \<lparr>fn_details = FsType k, fn_access_type = a\<rparr>)"

lemma type_hash_loop_prefix:
  "n \<le> length a \<Longrightarrow> type_hash_loop h (a @ r) n = type_hash_loop h a n"
proof (induction h a n rule: type_hash_loop.induct)
  case (3 hash c str len)
  show ?case
  proof (cases "tolower_char c")
    case (Inr l)
    then show ?thesis using 3 by simp
  qed simp
qed simp_all

lemma strncasecmp_prefix:
  "n \<le> length a \<Longrightarrow> strncasecmp_eq (a @ r) b n = strncasecmp_eq a b n"
proof (induction n arbitrary: a b)
  case (Suc n)
  then show ?case by (cases a; cases b) auto
qed simp

lemma type_ht_fetch_prefix:
  assumes "unat len \<le> length a"
  shows "type_ht_fetch th (a @ r) len = type_ht_fetch th a len"
proof -
  have other: "type_elem_other (a @ r) len = type_elem_other a len"
    using assms by (intro ext) (simp add: type_elem_other_def strncasecmp_prefix split: option.split)
  show ?thesis
    unfolding type_ht_fetch_def type_hash_def type_hash_loop_prefix[OF assms] other ..
qed

lemma memchr_offset_found:
  "c \<notin> set n \<Longrightarrow> length n < m \<Longrightarrow> memchr_offset c (n @ c # rest) m = Some (length n)"
proof (induction n arbitrary: m)
  case Nil
  then show ?case by (cases m) auto
next
  case (Cons x n)
  then show ?case by (cases m) auto
qed

lemma access_chars:
  "a \<noteq> FSTRING_STRING \<Longrightarrow> a \<noteq> FSTRING_JUMP \<Longrightarrow> access_char a \<in> {82, 114, 67, 87, 77}"
  by (cases a) auto

lemma fs_switch_access:
  assumes "a \<noteq> FSTRING_STRING" and "a \<noteq> FSTRING_JUMP"
    and "fp_stridx st < length str" and "str ! fp_stridx st = access_char a"
  shows "fs_switch str st =
           Ok (Inr (st\<lparr>fp_stridx := fp_stridx st + 1, fp_access_type := a\<rparr>, True, True))"
  using assms by (cases a) (auto simp: fs_switch_def char_at_def Let_def)

lemma unat_room:
  assumes "i < unat (len :: u32)"
  shows "unat (len - of_nat i) = unat len - i"
proof -
  have "i < 2 ^ 32" using assms unat_lt_2p[of len] by simp
  then have i: "unat (of_nat i :: u32) = i" by (simp add: unat_of_nat)
  then have "(of_nat i :: u32) \<le> len" using assms by (simp add: word_le_nat_alt)
  then show ?thesis using i by (simp add: unat_diff_le)
qed

text \<open>The state after a node for the whole of an item.\<close>

definition fs_after :: "fs_node list \<Rightarrow> nat \<Rightarrow> access_type \<Rightarrow> fs_state \<Rightarrow> fs_state" where
  "fs_after nds i a st = st\<lparr>fp_stridx := i, fp_nodes := fp_nodes st @ nds, fp_access_type := a\<rparr>"

lemma fs_loop_item:
  assumes ok: "item_ok th it" and env: "\<And>n. fe_node env n"
    and str: "str = pre @ print_item it @ post" and idx: "fp_stridx st = length pre"
    and len: "length pre + length (print_item it) \<le> unat len"
  shows "\<exists>nd a. item_node th it nd \<and>
           fs_loop th str len env st = fs_loop th str len env (fs_after [nd] (length pre + length (print_item it)) a st)"
proof (cases it)
  case FsText
  have c: "fp_stridx st < length str" "str ! fp_stridx st = 83" using str idx FsText by simp_all
  have lt: "fp_stridx st < unat len" using len idx FsText by simp
  let ?nd = "\<lparr>fn_details = FsNull, fn_access_type = FSTRING_STRING\<rparr>"
  let ?st1 = "st\<lparr>fp_stridx := fp_stridx st + 1, fp_access_type := FSTRING_STRING\<rparr>"
  have sw: "fs_switch str st = Ok (Inr (?st1, False, True))"
    using c by (simp add: fs_switch_def char_at_def Let_def)
  have al: "fs_allocate th str len env ?st1 False = returns (Inr (fs_push FsNull (fp_stridx ?st1) ?st1))"
    using env by (simp add: fs_allocate_def)
  have "fs_push FsNull (fp_stridx ?st1) ?st1 = fs_after [?nd] (length pre + 1) FSTRING_STRING st"
    using idx by (simp add: fs_push_def fs_after_def)
  then have "fs_loop th str len env st = fs_loop th str len env (fs_after [?nd] (length pre + 1) FSTRING_STRING st)"
    using lt sw al by (subst fs_loop.simps) simp
  then show ?thesis using FsText by (intro exI[of _ ?nd] exI[of _ FSTRING_STRING]) simp
next
  case (FsArg a n)
  then have a: "a \<noteq> FSTRING_STRING" "a \<noteq> FSTRING_JUMP" and n: "type_name_ok n" "125 \<notin> set n"
    and ex: "\<exists>k. type_ht_fetch th n (of_nat (length n)) = returns (0, Some k)"
    using ok by (auto simp: item_ok_def)
  obtain k where k: "type_ht_fetch th n (of_nat (length n)) = returns (0, Some k)" using ex by blast
  have c: "fp_stridx st < length str" "str ! fp_stridx st = access_char a" using str idx FsArg by simp_all
  let ?st1 = "st\<lparr>fp_stridx := fp_stridx st + 1, fp_access_type := a\<rparr>"
  have sw: "fs_switch str st = Ok (Inr (?st1, True, True))" by (rule fs_switch_access[OF a c])
  have lp: "length (print_item it) = length n + 3" using FsArg by simp
  have lt: "fp_stridx st < unat len" using len idx lp by simp
  have brace: "char_at str (fp_stridx ?st1) = Ok 123"
    using str idx FsArg by (simp add: char_at_def nth_append)
  have rest: "drop (length pre + 2) str = n @ 125 # post" using str FsArg by simp
  have room: "unat (len - of_nat (length pre + 2)) = unat len - (length pre + 2)"
    using len lp by (intro unat_room) simp
  have mem: "memchr_offset 125 (drop (length pre + 2) str) (unat (len - of_nat (length pre + 2))) = Some (length n)"
    unfolding rest room using n(2) len lp by (intro memchr_offset_found) auto
  have ln: "unat (of_nat (length n) :: u32) = length n" by (rule type_hash_name(2)[OF n(1)])
  have fetch: "type_ht_fetch th (drop (length pre + 2) str) (of_nat (length n)) = returns (0, Some k)"
    unfolding rest using type_ht_fetch_prefix[of "of_nat (length n)" n th] ln k by simp
  let ?nd = "\<lparr>fn_details = FsType k, fn_access_type = a\<rparr>"
  have i2: "fp_stridx ?st1 + 1 = length pre + 2" using idx by simp
  have al: "fs_allocate th str len env ?st1 True = returns (Inr (fs_push (FsType k) (length pre + 2 + length n + 1) ?st1))"
    using env a(2) brace mem fetch unfolding fs_allocate_def i2 by simp
  have "fs_push (FsType k) (length pre + 2 + length n + 1) ?st1 = fs_after [?nd] (length pre + (length n + 3)) a st"
    by (simp add: fs_push_def fs_after_def)
  then have "fs_loop th str len env st = fs_loop th str len env (fs_after [?nd] (length pre + (length n + 3)) a st)"
    using lt sw al by (subst fs_loop.simps) simp
  moreover have "item_node th it ?nd" using FsArg k by simp
  ultimately show ?thesis unfolding lp by blast
qed

lemma fs_loop_items:
  assumes ok: "\<forall>it\<in>set its. item_ok th it" and env: "\<And>n. fe_node env n"
    and str: "str = pre @ print_items its @ post" and idx: "fp_stridx st = length pre"
    and len: "length pre + length (print_items its) \<le> unat len"
  shows "\<exists>nds a. list_all2 (item_node th) its nds \<and>
           fs_loop th str len env st = fs_loop th str len env (fs_after nds (length pre + length (print_items its)) a st)"
  using assms
proof (induction its arbitrary: pre st)
  case Nil
  have "fs_after [] (length pre + length (print_items [])) (fp_access_type st) st = st"
    using Nil.prems(4) by (simp add: fs_after_def print_items_def)
  then show ?case by (intro exI[of _ "[]"] exI[of _ "fp_access_type st"]) simp
next
  case (Cons it its)
  have pc: "print_items (it # its) = print_item it @ print_items its" by (simp add: print_items_def)
  obtain nd a where nd: "item_node th it nd"
    and l1: "fs_loop th str len env st = fs_loop th str len env (fs_after [nd] (length pre + length (print_item it)) a st)"
    using fs_loop_item[of th it env str pre "print_items its @ post" st len] Cons.prems pc by auto
  let ?st1 = "fs_after [nd] (length pre + length (print_item it)) a st"
  have "\<exists>nds b. list_all2 (item_node th) its nds \<and>
      fs_loop th str len env ?st1 = fs_loop th str len env
        (fs_after nds (length (pre @ print_item it) + length (print_items its)) b ?st1)"
    using Cons.prems pc by (intro Cons.IH) (auto simp: fs_after_def)
  then obtain nds b where nds: "list_all2 (item_node th) its nds"
    and l2: "fs_loop th str len env ?st1 = fs_loop th str len env
        (fs_after nds (length (pre @ print_item it) + length (print_items its)) b ?st1)"
    by blast
  have "fs_after nds (length (pre @ print_item it) + length (print_items its)) b ?st1
      = fs_after (nd # nds) (length pre + length (print_items (it # its))) b st"
    using pc by (simp add: fs_after_def)
  then show ?case using nd nds l1 l2 by (intro exI[of _ "nd # nds"] exI[of _ b]) simp
qed

section \<open>Bars and question marks\<close>

lemma fs_loop_done: "fp_stridx st = unat len \<Longrightarrow> fs_loop th str len env st = returns (Inr st)"
  by (subst fs_loop.simps) simp

lemma fs_loop_first_bar:
  assumes "fp_stridx st < unat len" and "fp_stridx st < length str" and "str ! fp_stridx st = 124"
    and "\<not> fp_seen_jump_node st" and "fp_jmp_target st = - 1"
  shows "fs_loop th str len env st = fs_loop th str len env
           (st\<lparr>fp_stridx := fp_stridx st + 1, fp_jmp_target := int (length (fp_nodes st))\<rparr>)"
  using assms by (subst fs_loop.simps) (simp add: fs_switch_def char_at_def Let_def)

lemma fs_loop_second_bar:
  assumes "fp_stridx st < unat len" and "fp_stridx st < length str" and "str ! fp_stridx st = 124"
    and "\<not> fp_seen_jump_node st" and "fp_jmp_target st \<noteq> - 1" and "\<And>n. fe_node env n"
  shows "fs_loop th str len env st = fs_loop th str len env
           (st\<lparr>fp_seen_jump_node := True, fp_access_type := FSTRING_JUMP, fp_stridx := fp_stridx st + 1,
               fp_nodes := fp_nodes st @ [\<lparr>fn_details = FsJump (word_of_int (fp_jmp_target st)),
                 fn_access_type = FSTRING_JUMP\<rparr>]\<rparr>)"
  using assms
  by (subst fs_loop.simps) (simp add: fs_switch_def char_at_def fs_allocate_def fs_push_def Let_def)

lemma fs_loop_question:
  assumes "fp_stridx st < unat len" and "fp_stridx st < length str" and "str ! fp_stridx st = 63"
    and "\<not> fp_seen_jump_node st" and "strtol10 (drop (fp_stridx st + 1) str) = Ok (v, n)"
  shows "fs_loop th str len env st = returns (Inl (if v < 0 then - 5 else - 4))"
  using assms by (subst fs_loop.simps) (simp add: fs_switch_def char_at_def Let_def)

lemma print_items_Nil [simp]: "print_items [] = []"
  by (simp add: print_items_def)

lemma print_items_pos: "its \<noteq> [] \<Longrightarrow> 0 < length (print_items its)"
  by (cases its) (auto simp: print_items_def intro: Nat.gr0I split: fs_item.splits elim: print_item.elims)

section \<open>Properties\<close>

definition fs_all_ok :: "fs_env \<Rightarrow> bool" where
  "fs_all_ok env \<longleftrightarrow> (\<forall>n. fe_node env n) \<and> fe_array env \<and> fe_final env"

lemma fs_all_ok_node: "fs_all_ok env \<Longrightarrow> fe_node env n"
  by (simp add: fs_all_ok_def)

text \<open>A table with the type \<open>string\<close> only, and an allocator that never fails.\<close>

definition string_table :: "nat type_ht" where
  "string_table = \<lparr>tt_elements =
     \<lparr>te_name = Some [115, 116, 114, 105, 110, 103], te_raw = demo_raw, te_name_length = 6\<rparr> #
     replicate 3 \<lparr>te_name = None, te_raw = \<lparr>tr_init = None, tr_free = None\<rparr>, te_name_length = 0\<rparr>,
     tt_size = 4\<rparr>"

definition calm_fs :: fs_env where
  "calm_fs = \<lparr>fe_node = (\<lambda>_. True), fe_array = True, fe_final = True\<rparr>"

lemma calm_fs_ok: "fs_all_ok calm_fs"
  by (simp add: fs_all_ok_def calm_fs_def)

lemma string_table_fetch:
  "type_ht_fetch string_table [115, 116, 114, 105, 110, 103] 6 = returns (0, Some 0)"
  by code_simp

lemma string_items_ok:
  "a \<noteq> FSTRING_STRING \<Longrightarrow> a \<noteq> FSTRING_JUMP \<Longrightarrow>
     item_ok string_table (FsArg a [115, 116, 114, 105, 110, 103])"
  "item_ok string_table FsText"
  using string_table_fetch by (simp_all add: item_ok_def type_name_ok_def plain_name_def)

text \<open>
  C24.  Parsing inverts printing: the format of a nonempty list of arguments of registered types gives
  one node per argument, in order, with its access mode and its type.
\<close>

theorem format_roundtrip:
  assumes "\<forall>it\<in>set its. item_ok th it" and "its \<noteq> []" and "fs_all_ok env"
    and "unat len = length (print_items its)"
  shows "\<exists>nds. list_all2 (item_node th) its nds \<and>
           parse_format_string th (print_items its @ post) len env = returns (0, Some (FsAt
             \<lparr>fs_contents = nds, fs_length = of_nat (length its), fs_optional_argument_count = 0\<rparr>))"
proof -
  obtain nds a where nds: "list_all2 (item_node th) its nds"
    and run: "fs_loop th (print_items its @ post) len env fs_start =
      fs_loop th (print_items its @ post) len env (fs_after nds (length (print_items its)) a fs_start)"
    using fs_loop_items[of its th env "print_items its @ post" "[]" post fs_start len] assms
    by (auto simp: fs_start_def fs_all_ok_node)
  let ?st = "fs_after nds (length (print_items its)) a fs_start"
  have "fs_loop th (print_items its @ post) len env ?st = returns (Inr ?st)"
    using assms(4) by (intro fs_loop_done) (simp add: fs_after_def)
  moreover have "len \<noteq> 0" using assms(2,4) print_items_pos[of its] by auto
  moreover have "nds \<noteq> []" and "length nds = length its"
    using nds assms(2) by (auto simp: list_all2_lengthD list_all2_Nil2)
  ultimately have "parse_format_string th (print_items its @ post) len env = returns (0, Some (FsAt
      \<lparr>fs_contents = nds, fs_length = of_nat (length its), fs_optional_argument_count = 0\<rparr>))"
    using run assms(3)
    by (simp add: parse_format_string_def fs_finish_def fs_all_ok_def fs_after_def fs_start_def)
  then show ?thesis using nds by blast
qed

text \<open>The format \<open>W{string}S\<close> of \<open>SET\<close>.\<close>

theorem format_roundtrip_witness:
  "\<exists>nds. length nds = 2 \<and>
     parse_format_string string_table [87, 123, 115, 116, 114, 105, 110, 103, 125, 83, 0] 10 calm_fs =
       returns (0, Some (FsAt \<lparr>fs_contents = nds, fs_length = 2, fs_optional_argument_count = 0\<rparr>))"
  using format_roundtrip[of "[FsArg FSTRING_MODIFY_CREATE [115, 116, 114, 105, 110, 103], FsText]"
      string_table calm_fs 10 "[0]"] string_items_ok calm_fs_ok
  by (auto simp: print_items_def dest: list_all2_lengthD)

text \<open>
  Two bars make a loop: \<open>a|b|c\<close> gives the nodes of \<open>a\<close> and \<open>b\<close>, a jump to the first node of
  \<open>b\<close>, and the nodes of \<open>c\<close>.
\<close>

lemma format_loop_roundtrip:
  assumes "\<forall>it\<in>set (xs @ ys @ zs). item_ok th it" and "fs_all_ok env"
    and "str = print_items xs @ 124 # print_items ys @ 124 # print_items zs @ post"
    and "unat len = length (print_items xs) + length (print_items ys) + length (print_items zs) + 2"
  shows "\<exists>nx ny nz. list_all2 (item_node th) xs nx \<and> list_all2 (item_node th) ys ny \<and>
           list_all2 (item_node th) zs nz \<and>
           parse_format_string th str len env = returns (0, Some (FsAt
             \<lparr>fs_contents = nx @ ny @
                [\<lparr>fn_details = FsJump (of_nat (length xs)), fn_access_type = FSTRING_JUMP\<rparr>] @ nz,
              fs_length = of_nat (length xs + length ys + 1 + length zs),
              fs_optional_argument_count = 0\<rparr>))"
proof -
  let ?px = "print_items xs" and ?py = "print_items ys" and ?pz = "print_items zs"
  have oks: "\<forall>it\<in>set xs. item_ok th it" "\<forall>it\<in>set ys. item_ok th it" "\<forall>it\<in>set zs. item_ok th it"
    using assms(1) by auto
  have env: "\<And>n. fe_node env n" using assms(2) by (rule fs_all_ok_node)
  obtain nx a where nx: "list_all2 (item_node th) xs nx"
    and run1: "fs_loop th str len env fs_start = fs_loop th str len env (fs_after nx (length ?px) a fs_start)"
    using fs_loop_items[OF oks(1) env, of str "[]" "124 # ?py @ 124 # ?pz @ post" fs_start len] assms(3,4)
    by (auto simp: fs_start_def)
  define st1 where "st1 = fs_after nx (length ?px) a fs_start"
  define st2 where "st2 = st1\<lparr>fp_stridx := fp_stridx st1 + 1, fp_jmp_target := int (length (fp_nodes st1))\<rparr>"
  have run2: "fs_loop th str len env st1 = fs_loop th str len env st2"
    unfolding st2_def using assms(3,4)
    by (intro fs_loop_first_bar) (simp_all add: st1_def fs_after_def fs_start_def nth_append)
  obtain ny b where ny: "list_all2 (item_node th) ys ny"
    and run3: "fs_loop th str len env st2 = fs_loop th str len env (fs_after ny (length ?px + 1 + length ?py) b st2)"
    using fs_loop_items[OF oks(2) env, of str "?px @ [124]" "124 # ?pz @ post" st2 len] assms(3,4)
    by (auto simp: st2_def st1_def fs_after_def fs_start_def)
  define st3 where "st3 = fs_after ny (length ?px + 1 + length ?py) b st2"
  define st4 where "st4 = st3\<lparr>fp_seen_jump_node := True, fp_access_type := FSTRING_JUMP,
      fp_stridx := fp_stridx st3 + 1,
      fp_nodes := fp_nodes st3 @ [\<lparr>fn_details = FsJump (word_of_int (fp_jmp_target st3)),
                 fn_access_type = FSTRING_JUMP\<rparr>]\<rparr>"
  have run4: "fs_loop th str len env st3 = fs_loop th str len env st4"
    unfolding st4_def using assms(3,4) env
    by (intro fs_loop_second_bar)
      (simp_all add: st3_def st2_def st1_def fs_after_def fs_start_def nth_append)
  obtain nz c where nz: "list_all2 (item_node th) zs nz"
    and run5: "fs_loop th str len env st4 = fs_loop th str len env (fs_after nz (unat len) c st4)"
    using fs_loop_items[OF oks(3) env, of str "?px @ [124] @ ?py @ [124]" post st4 len] assms(3,4)
    by (auto simp: st4_def st3_def st2_def st1_def fs_after_def fs_start_def)
  define st5 where "st5 = fs_after nz (unat len) c st4"
  have run6: "fs_loop th str len env st5 = returns (Inr st5)"
    by (rule fs_loop_done) (simp add: st5_def fs_after_def)
  have loop: "fs_loop th str len env fs_start = returns (Inr st5)"
    using run1 run2 run3 run4 run5 run6 unfolding st1_def[symmetric] st3_def[symmetric] st5_def[symmetric]
    by simp
  have lens: "length nx = length xs" "length ny = length ys" "length nz = length zs"
    using nx ny nz by (simp_all add: list_all2_lengthD)
  have nodes: "fp_nodes st5 = nx @ ny @
      [\<lparr>fn_details = FsJump (of_nat (length xs)), fn_access_type = FSTRING_JUMP\<rparr>] @ nz"
    using lens by (simp add: st5_def st4_def st3_def st2_def st1_def fs_after_def fs_start_def)
  have opt: "fp_optargs_count st5 = 0"
    by (simp add: st5_def st4_def st3_def st2_def st1_def fs_after_def fs_start_def)
  have "len \<noteq> 0" using assms(4) by auto
  then have "parse_format_string th str len env = returns (0, Some (FsAt
             \<lparr>fs_contents = nx @ ny @
                [\<lparr>fn_details = FsJump (of_nat (length xs)), fn_access_type = FSTRING_JUMP\<rparr>] @ nz,
              fs_length = of_nat (length xs + length ys + 1 + length zs),
              fs_optional_argument_count = 0\<rparr>))"
    using loop nodes opt lens assms(2)
    by (simp add: parse_format_string_def fs_finish_def fs_all_ok_def)
  then show ?thesis using nx ny nz by blast
qed

text \<open>The format \<open>S|r{string}|S\<close> of \<open>MGET\<close>.\<close>

text \<open>
  C29.  A format with optional arguments is never accepted: whatever number follows the question mark,
  the parser answers \<open>-4\<close> or \<open>-5\<close>.
\<close>

theorem optional_arguments_never_parse:
  assumes "\<forall>it\<in>set its. item_ok th it" and "fs_all_ok env"
    and "str = print_items its @ 63 # post" and "length (print_items its) < unat len"
    and "strtol10 post = Ok (v, n)"
  shows "parse_format_string th str len env = returns (if v < 0 then - 5 else - 4, None)"
proof -
  have env: "\<And>n. fe_node env n" using assms(2) by (rule fs_all_ok_node)
  obtain nds a where
    run: "fs_loop th str len env fs_start = fs_loop th str len env (fs_after nds (length (print_items its)) a fs_start)"
    using fs_loop_items[OF assms(1) env, of str "[]" "63 # post" fs_start len] assms(3,4)
    by (auto simp: fs_start_def)
  have "fs_loop th str len env (fs_after nds (length (print_items its)) a fs_start)
      = returns (Inl (if v < 0 then - 5 else - 4))"
    using assms(3-5) by (intro fs_loop_question[where n = n]) (simp_all add: fs_after_def fs_start_def nth_append)
  moreover have "len \<noteq> 0" using assms(4) by auto
  ultimately show ?thesis using run by (simp add: parse_format_string_def)
qed

theorem optional_arguments_never_parse_witness:
  "parse_format_string string_table [83, 63, 49, 0] 3 calm_fs = returns (- 4, None)"
proof -
  have "strtol10 [49, 0] = Ok (1, 1)" by code_simp
  then show ?thesis
    using optional_arguments_never_parse[of "[FsText]" string_table calm_fs "[83, 63, 49, 0]" "[49, 0]" 3 1 1]
      string_items_ok calm_fs_ok
    by (simp add: print_items_def)
qed

end
