(* ===== verification/Command_Ht.thy ===== *)
theory Command_Ht
  imports Format_String
begin

text \<open>
  The table of commands, \<^verbatim>\<open>lib/command_ht.c\<close>: the probing of the type table, with a parsed argument
  format for every normal command.  A command function is a value of a type variable.
\<close>

section \<open>Definitions\<close>

record 'c command_elem =
  ce_name :: "bytes option"
  ce_command :: "'c option"
  ce_fstring :: "fs_pointer option"
  ce_name_length :: u32
  ce_is_meta :: bool

record ('c, 'f) command_ht =
  ct_elements :: "'c command_elem list"
  ct_type_ht :: "'f type_ht"
  ct_size :: u32

text \<open>The arguments tell whether the two \<open>malloc\<close>s succeed.\<close>

definition command_ht_init :: "bool \<Rightarrow> bool \<Rightarrow> u32 \<Rightarrow> 'f type_ht \<Rightarrow> ('c, 'f) command_ht option" where
  "command_ht_init ok_ht ok_elements sz th =
     (if \<not> ok_ht then None
      else if \<not> ok_elements then None
      else Some \<lparr>ct_elements = replicate (unat sz)
             \<lparr>ce_name = None, ce_command = None, ce_fstring = None, ce_name_length = 0, ce_is_meta = False\<rparr>,
           ct_type_ht = th, ct_size = sz\<rparr>)"

text \<open>The formats freed, in order; the format of an empty string is no allocated object.\<close>

fun command_ht_free_loop :: "'c command_elem list \<Rightarrow> format_string list res" where
  "command_ht_free_loop [] = Ok []"
| "command_ht_free_loop (e # es) =
     (case ce_fstring e of
        None \<Rightarrow> command_ht_free_loop es
      | Some FsDead \<Rightarrow> Fault Dangling
      | Some (FsAt f) \<Rightarrow> bind_res (command_ht_free_loop es) (\<lambda>fs. Ok (f # fs)))"

definition command_ht_free :: "('c, 'f) command_ht \<Rightarrow> format_string list res" where
  "command_ht_free ht =
     (if length (ct_elements ht) < unat (ct_size ht) then Fault OutOfBounds
      else command_ht_free_loop (take (unat (ct_size ht)) (ct_elements ht)))"

text \<open>
  The hash reads \<open>unsigned char\<close>s.  Its index is an \<open>int\<close>; lengths from \<open>2 ^ 31\<close> on overflow it.
\<close>

fun command_hash_loop :: "u64 \<Rightarrow> bytes \<Rightarrow> nat \<Rightarrow> u64 res" where
  "command_hash_loop hash str 0 = Ok hash"
| "command_hash_loop hash [] (Suc len) = Fault OutOfBounds"
| "command_hash_loop hash (c # str) (Suc len) =
     command_hash_loop ((push_bit 5 hash + hash) + ucast (tolower_byte c)) str len"

definition command_hash :: "bytes \<Rightarrow> u32 \<Rightarrow> u64 res" where
  "command_hash str len =
     (if (2147483648 :: u32) \<le> len then Fault OutOfBounds else command_hash_loop 5381 str (unat len))"

text \<open>The loop shared by the two stores: the index of the first element without a command.\<close>

definition command_free_slot :: "('c, 'f) command_ht \<Rightarrow> bytes \<Rightarrow> u32 \<Rightarrow> u32 option run" where
  "command_free_slot ht name len =
     bind_run (Some (command_hash name len)) (\<lambda>h.
     bind_run (Some (probe_base h (ct_size ht))) (\<lambda>base_index.
     probe_loop (\<lambda>e. Ok (ce_command e \<noteq> None)) (ct_elements ht) (ct_size ht) base_index base_index))"

definition command_set_elem :: "u32 \<Rightarrow> 'c command_elem \<Rightarrow> ('c, 'f) command_ht \<Rightarrow> ('c, 'f) command_ht" where
  "command_set_elem i e ht = ht\<lparr>ct_elements := (ct_elements ht)[unat i := e]\<rparr>"

definition command_ht_store ::
    "fs_env \<Rightarrow> ('c, 'f) command_ht \<Rightarrow> bytes \<Rightarrow> u32 \<Rightarrow> 'c option \<Rightarrow> bytes \<Rightarrow> u32
       \<Rightarrow> (('c, 'f) command_ht \<times> int) run" where
  "command_ht_store env ht name len command fstring_string fstring_length =
     bind_run (command_free_slot ht name len) (\<lambda>r.
       case r of None \<Rightarrow> returns (ht, 1)
       | Some index \<Rightarrow>
           bind_run (parse_format_string (ct_type_ht ht) fstring_string fstring_length env) (\<lambda>(rc, fs).
           if rc \<noteq> 0 then returns (ht, - 1)
           else returns (command_set_elem index
                  \<lparr>ce_name = Some name, ce_command = command, ce_fstring = fs, ce_name_length = len,
                   ce_is_meta = False\<rparr> ht, 0)))"

definition command_ht_store_meta ::
    "('c, 'f) command_ht \<Rightarrow> bytes \<Rightarrow> u32 \<Rightarrow> 'c option \<Rightarrow> (('c, 'f) command_ht \<times> int) run" where
  "command_ht_store_meta ht name len command =
     bind_run (command_free_slot ht name len) (\<lambda>r.
       case r of None \<Rightarrow> returns (ht, 1)
       | Some index \<Rightarrow> returns (command_set_elem index
           \<lparr>ce_name = Some name, ce_command = command, ce_fstring = None, ce_name_length = len,
            ce_is_meta = True\<rparr> ht, 0))"

definition command_elem_other :: "bytes \<Rightarrow> u32 \<Rightarrow> 'c command_elem \<Rightarrow> bool res" where
  "command_elem_other name len e =
     (case ce_name e of
        None \<Rightarrow> Ok False
      | Some nm \<Rightarrow>
          if ce_name_length e \<noteq> len then Ok True
          else bind_res (strncasecmp_eq name nm (unat len)) (\<lambda>eq. Ok (\<not> eq)))"

text \<open>The result code, and what \<open>*fstring\<close>, \<open>*command_func\<close> and \<open>*is_meta\<close> are set to.\<close>

definition command_ht_fetch ::
    "('c, 'f) command_ht \<Rightarrow> bytes \<Rightarrow> u32 \<Rightarrow> (int \<times> (fs_pointer option \<times> 'c option \<times> bool) option) run" where
  "command_ht_fetch ht name len =
     bind_run (Some (command_hash name len)) (\<lambda>h.
     bind_run (Some (probe_base h (ct_size ht))) (\<lambda>base_index.
     bind_run (probe_loop (command_elem_other name len) (ct_elements ht) (ct_size ht) base_index base_index)
       (\<lambda>r. case r of None \<Rightarrow> returns (1, None)
        | Some index \<Rightarrow>
            let e = ct_elements ht ! unat index in
            if ce_name e = None then returns (2, None)
            else returns (0, Some (ce_fstring e, ce_command e, ce_is_meta e)))))"

text \<open>The names \<open>command_ht_print_commands\<close> prints.\<close>

definition command_ht_print_commands :: "('c, 'f) command_ht \<Rightarrow> bytes list" where
  "command_ht_print_commands ht =
     map (\<lambda>e. case ce_name e of Some n \<Rightarrow> take (unat (ce_name_length e)) n | None \<Rightarrow> [])
       (filter (\<lambda>e. ce_command e \<noteq> None) (take (unat (ct_size ht)) (ct_elements ht)))"

section \<open>The registry\<close>

definition command_name_ok :: "bytes \<Rightarrow> bool" where
  "command_name_ok n \<longleftrightarrow> plain_name n \<and> length n < 2 ^ 31"

text \<open>A registration is a function with its format, or with none for a meta command.\<close>

type_synonym 'c command_reg = "'c \<times> bytes option"

type_synonym 'c command_entry = "fs_pointer option \<times> 'c option \<times> bool"

definition command_register ::
    "fs_env \<Rightarrow> ('c, 'f) command_ht \<Rightarrow> bytes \<Rightarrow> 'c command_reg \<Rightarrow> (('c, 'f) command_ht \<times> int) run" where
  "command_register env ht n r =
     (case r of
        (c, None) \<Rightarrow> command_ht_store_meta ht n (of_nat (length n)) (Some c)
      | (c, Some fmt) \<Rightarrow>
          command_ht_store env ht n (of_nat (length n)) (Some c) (fmt @ [0]) (of_nat (length fmt)))"

definition parsed_format :: "fs_env \<Rightarrow> 'f type_ht \<Rightarrow> bytes \<Rightarrow> fs_pointer option" where
  "parsed_format env th fmt =
     (case parse_format_string th (fmt @ [0]) (of_nat (length fmt)) env of
        Some (Inr (rc, fs)) \<Rightarrow> fs | _ \<Rightarrow> None)"

definition command_entry :: "fs_env \<Rightarrow> 'f type_ht \<Rightarrow> 'c command_reg \<Rightarrow> 'c command_entry" where
  "command_entry env th r =
     (case r of (c, None) \<Rightarrow> (None, Some c, True) | (c, Some fmt) \<Rightarrow> (parsed_format env th fmt, Some c, False))"

definition command_lookup :: "('c, 'f) command_ht \<Rightarrow> bytes \<Rightarrow> 'c command_entry option run" where
  "command_lookup ht n = bind_run (command_ht_fetch ht n (of_nat (length n))) (\<lambda>(rc, e). returns e)"

definition command_cell :: "'c command_elem \<Rightarrow> (bytes \<times> 'c command_entry) option" where
  "command_cell e = map_option (\<lambda>n. (take (unat (ce_name_length e)) n, (ce_fstring e, ce_command e, ce_is_meta e)))
     (ce_name e)"

definition command_home :: "('c, 'f) command_ht \<Rightarrow> bytes \<Rightarrow> nat" where
  "command_home ht n = unat (ascii_hash 5381 n mod ucast (ct_size ht))"

definition command_elem_ok :: "'c command_elem \<Rightarrow> bool" where
  "command_elem_ok e \<longleftrightarrow> (ce_command e = None \<longleftrightarrow> ce_name e = None) \<and>
     (\<forall>n. ce_name e = Some n \<longrightarrow> unat (ce_name_length e) = length n)"

definition command_rep :: "'f type_ht \<Rightarrow> ('c, 'f) command_ht \<Rightarrow> (bytes \<times> 'c command_entry) list \<Rightarrow> bool" where
  "command_rep th ht rs \<longleftrightarrow>
     ct_type_ht ht = th \<and> unat (ct_size ht) = length (ct_elements ht) \<and> 2 \<le> length (ct_elements ht) \<and>
     (\<forall>e\<in>set (ct_elements ht). command_elem_ok e) \<and>
     reg_rep command_cell (command_home ht) (ct_elements ht) rs"

lemma command_hash_name:
  assumes "command_name_ok n"
  shows "command_hash n (of_nat (length n)) = Ok (ascii_hash 5381 n)"
    and "unat (of_nat (length n) :: u32) = length n"
proof -
  show l: "unat (of_nat (length n) :: u32) = length n"
    using assms by (simp add: command_name_ok_def unat_of_nat)
  have "command_hash_loop h n (length n) = Ok (ascii_hash h n)" for h
    by (induction n arbitrary: h) (simp_all del: push_bit_of_Suc_0)
  then show "command_hash n (of_nat (length n)) = Ok (ascii_hash 5381 n)"
    using assms by (simp add: command_hash_def l command_name_ok_def word_le_nat_alt)
qed

lemma command_base:
  assumes "2 \<le> unat (ct_size ht)"
  shows "\<exists>b. probe_base (ascii_hash 5381 n) (ct_size ht) = Ok b \<and> unat b = command_home ht n \<and>
           unat b < unat (ct_size ht)"
  unfolding command_home_def by (rule home_base[OF assms])

lemma command_elem_other_cell:
  assumes n: "command_name_ok n" and e: "command_elem_ok e"
    and plain: "\<forall>m w. command_cell e = Some (m, w) \<longrightarrow> plain_name m"
  shows "command_elem_other n (of_nat (length n)) e =
           Ok (case command_cell e of None \<Rightarrow> False | Some (m, _) \<Rightarrow> \<not> same_name n m)"
proof (cases "ce_name e")
  case None
  then show ?thesis by (simp add: command_elem_other_def command_cell_def)
next
  case (Some m)
  then have lm: "unat (ce_name_length e) = length m"
    and c: "command_cell e = Some (m, (ce_fstring e, ce_command e, ce_is_meta e))"
    using e by (simp_all add: command_cell_def command_elem_ok_def)
  have ln: "unat (of_nat (length n) :: u32) = length n" by (rule command_hash_name(2)[OF n])
  show ?thesis
  proof (cases "ce_name_length e = of_nat (length n)")
    case True
    then have "length m = length n" using lm ln by simp
    then have "strncasecmp_eq n m (length n) = Ok (same_name n m)"
      using plain c by (intro strncasecmp_name) auto
    then show ?thesis using Some True c ln by (simp add: command_elem_other_def)
  next
    case False
    then have "length m \<noteq> length n" using lm ln by (simp only: word_unat_eq_iff) simp
    then have "\<not> same_name n m" using same_name_length by metis
    then show ?thesis using Some False c by (simp add: command_elem_other_def)
  qed
qed

text \<open>The search for a free element, with its two outcomes.\<close>

lemma command_free_slot_cases:
  assumes ht: "unat (ct_size ht) = length (ct_elements ht)" "2 \<le> length (ct_elements ht)"
    and n: "command_name_ok n"
  obtains (slot) k where "command_home ht n \<le> k" "k < length (ct_elements ht)"
      "ce_command (ct_elements ht ! k) = None"
      "\<And>i. command_home ht n \<le> i \<Longrightarrow> i < k \<Longrightarrow> ce_command (ct_elements ht ! i) \<noteq> None"
      "command_free_slot ht n (of_nat (length n)) = returns (Some (of_nat k))" "unat (of_nat k :: u32) = k"
  | (overrun) "command_free_slot ht n (of_nat (length n)) = faults OutOfBounds"
      "\<And>i. command_home ht n \<le> i \<Longrightarrow> i < length (ct_elements ht) \<Longrightarrow> ce_command (ct_elements ht ! i) \<noteq> None"
proof -
  obtain b where b: "probe_base (ascii_hash 5381 n) (ct_size ht) = Ok b" "unat b = command_home ht n"
    "unat b < unat (ct_size ht)"
    using command_base[of ht n] ht by auto
  have hash: "command_hash n (of_nat (length n)) = Ok (ascii_hash 5381 n)" by (rule command_hash_name(1)[OF n])
  have bl: "unat b < length (ct_elements ht)" using b(3) ht(1) by simp
  have run: "command_free_slot ht n (of_nat (length n)) =
      probe_loop (\<lambda>e. Ok (ce_command e \<noteq> None)) (ct_elements ht) (ct_size ht) b b"
    unfolding command_free_slot_def hash b(1) bind_run_simps ..
  show ?thesis
  proof (rule probe_loop_cases[OF ht bl, of "\<lambda>e. Ok (ce_command e \<noteq> None)"])
    show "\<exists>c. Ok (ce_command (ct_elements ht ! i) \<noteq> None) = Ok c" for i by simp
  next
    fix j
    assume j: "unat b \<le> j" "j < length (ct_elements ht)"
      "Ok (ce_command (ct_elements ht ! j) \<noteq> None) = (Ok False :: bool res)"
      and before: "\<And>i. unat b \<le> i \<Longrightarrow> i < j \<Longrightarrow> Ok (ce_command (ct_elements ht ! i) \<noteq> None) = (Ok True :: bool res)"
      and stop: "probe_loop (\<lambda>e. Ok (ce_command e \<noteq> None)) (ct_elements ht) (ct_size ht) b b = returns (Some (of_nat j))"
      and uj: "unat (of_nat j :: u32) = j"
    show thesis by (rule slot[of j]) (use j before b(2) run stop uj in auto)
  next
    assume all: "\<And>i. unat b \<le> i \<Longrightarrow> i < length (ct_elements ht) \<Longrightarrow> Ok (ce_command (ct_elements ht ! i) \<noteq> None) = (Ok True :: bool res)"
      and stop: "probe_loop (\<lambda>e. Ok (ce_command e \<noteq> None)) (ct_elements ht) (ct_size ht) b b = faults OutOfBounds"
    show thesis by (rule overrun) (use all b(2) run stop in auto)
  qed
qed

text \<open>Filling the element found.\<close>

lemma command_set_rep:
  assumes rep: "command_rep th ht rs" and n: "command_name_ok n"
    and k: "command_home ht n \<le> k" "k < length (ct_elements ht)" "ce_command (ct_elements ht ! k) = None"
    and before: "\<And>i. command_home ht n \<le> i \<Longrightarrow> i < k \<Longrightarrow> ce_command (ct_elements ht ! i) \<noteq> None"
    and uk: "unat (of_nat k :: u32) = k"
    and e: "ce_name e = Some n" "ce_name_length e = of_nat (length n)" "ce_command e \<noteq> None"
  shows "command_rep th (command_set_elem (of_nat k) e ht) (rs @ [(n, (ce_fstring e, ce_command e, ce_is_meta e))])"
proof -
  have ht: "ct_type_ht ht = th" "unat (ct_size ht) = length (ct_elements ht)" "2 \<le> length (ct_elements ht)"
    and oks: "\<forall>e\<in>set (ct_elements ht). command_elem_ok e"
    and reg: "reg_rep command_cell (command_home ht) (ct_elements ht) rs"
    using rep by (simp_all add: command_rep_def)
  let ?ht = "command_set_elem (of_nat k) e ht"
  have els: "ct_elements ?ht = (ct_elements ht)[k := e]" "ct_size ?ht = ct_size ht" "ct_type_ht ?ht = ct_type_ht ht"
    by (simp_all add: command_set_elem_def uk)
  have home: "command_home ?ht = command_home ht" by (rule ext) (simp add: command_home_def els)
  have ln: "unat (of_nat (length n) :: u32) = length n" by (rule command_hash_name(2)[OF n])
  have "command_elem_ok e" using e ln by (simp add: command_elem_ok_def)
  then have oks': "\<forall>c\<in>set (ct_elements ?ht). command_elem_ok c"
    using oks set_update_subset_insert[of "ct_elements ht" k e] unfolding els by auto
  have same: "command_cell (ct_elements ht ! i) = None \<longleftrightarrow> ce_command (ct_elements ht ! i) = None"
    if "i < length (ct_elements ht)" for i
    using oks that by (auto simp: command_cell_def command_elem_ok_def)
  have "reg_rep command_cell (command_home ht) ((ct_elements ht)[k := e])
      (rs @ [(n, (ce_fstring e, ce_command e, ce_is_meta e))])"
  proof (rule reg_rep_store[OF reg _ k(1,2)])
    show "command_home ht m = command_home ht n" if "same_name m n" for m
      using ascii_hash_same[OF that] by (simp add: command_home_def)
    show "command_cell (ct_elements ht ! k) = None" using same k(2,3) by simp
    show "command_cell (ct_elements ht ! i) \<noteq> None" if "command_home ht n \<le> i" "i < k" for i
      using same[of i] before[OF that] that(2) k(2) by simp
    show "command_cell e = Some (n, (ce_fstring e, ce_command e, ce_is_meta e))"
      using e ln by (simp add: command_cell_def)
    show "plain_name n" using n by (simp add: command_name_ok_def)
  qed
  then show ?thesis using ht oks' home els by (simp add: command_rep_def)
qed

lemma command_store_law:
  assumes rep: "command_rep th ht rs" and n: "command_name_ok n"
    and run: "command_register env ht n r = returns (ht', 0)"
  shows "command_rep th ht' (rs @ [(n, command_entry env th r)])"
proof -
  have ht: "unat (ct_size ht) = length (ct_elements ht)" "2 \<le> length (ct_elements ht)" "ct_type_ht ht = th"
    using rep by (simp_all add: command_rep_def)
  obtain c f where r: "r = (c, f)" by (cases r)
  show ?thesis
  proof (cases rule: command_free_slot_cases[OF ht(1,2) n, case_names slot overrun])
    case (slot k)
    let ?e = "\<lambda>fs mt. \<lparr>ce_name = Some n, ce_command = Some c, ce_fstring = fs,
        ce_name_length = of_nat (length n), ce_is_meta = mt\<rparr>"
    have upd: "command_rep th (command_set_elem (of_nat k) (?e fs mt) ht) (rs @ [(n, (fs, Some c, mt))])" for fs mt
      using command_set_rep[OF rep n slot(1,2,3,4) slot(6), of "?e fs mt"] by simp
    show ?thesis
    proof (cases f)
      case None
      then have "ht' = command_set_elem (of_nat k) (?e None True) ht"
        using run slot(5) r by (simp add: command_register_def command_ht_store_meta_def)
      then show ?thesis using upd[of None True] r None by (simp add: command_entry_def)
    next
      case (Some fmt)
      then obtain fs where p: "parse_format_string th (fmt @ [0]) (of_nat (length fmt)) env = returns (0, fs)"
        and "ht' = command_set_elem (of_nat k) (?e fs False) ht"
        using run slot(5) r ht(3)
        by (auto simp: command_register_def command_ht_store_def bind_run_def
            split: option.splits sum.splits if_splits)
      moreover have "parsed_format env th fmt = fs" using p by (simp add: parsed_format_def)
      ultimately show ?thesis using upd[of fs False] r Some by (simp add: command_entry_def)
    qed
  next
    case overrun
    then show ?thesis
      using run r by (cases f) (simp_all add: command_register_def command_ht_store_def command_ht_store_meta_def)
  qed
qed

lemma command_fetch_law:
  assumes rep: "command_rep th ht rs" and n: "command_name_ok n" and look: "reg_lookup rs n = Some v"
  shows "command_lookup ht n = returns (Some v)"
proof -
  have ht: "unat (ct_size ht) = length (ct_elements ht)" "2 \<le> length (ct_elements ht)"
    and oks: "\<forall>e\<in>set (ct_elements ht). command_elem_ok e"
    and reg: "reg_rep command_cell (command_home ht) (ct_elements ht) rs"
    using rep by (simp_all add: command_rep_def)
  obtain j where j: "reg_found command_cell (ct_elements ht) (command_home ht n) n v j"
    using reg look unfolding reg_rep_def by blast
  obtain b where b: "probe_base (ascii_hash 5381 n) (ct_size ht) = Ok b" "unat b = command_home ht n"
    using command_base[of ht n] ht by auto
  have hash: "command_hash n (of_nat (length n)) = Ok (ascii_hash 5381 n)" by (rule command_hash_name(1)[OF n])
  have jl: "j < length (ct_elements ht)" and bj: "unat b \<le> j" using j b(2) by (simp_all add: reg_found_def)
  have other: "command_elem_other n (of_nat (length n)) (ct_elements ht ! i) =
      Ok (case command_cell (ct_elements ht ! i) of None \<Rightarrow> False | Some (m, _) \<Rightarrow> \<not> same_name n m)"
    if "i < length (ct_elements ht)" for i
  proof (rule command_elem_other_cell[OF n])
    have mem: "ct_elements ht ! i \<in> set (ct_elements ht)" using that by simp
    show "command_elem_ok (ct_elements ht ! i)" using oks mem by blast
    show "\<forall>m w. command_cell (ct_elements ht ! i) = Some (m, w) \<longrightarrow> plain_name m"
      using reg mem unfolding reg_rep_def by blast
  qed
  have "probe_loop (command_elem_other n (of_nat (length n))) (ct_elements ht) (ct_size ht) b b
      = returns (Some (of_nat j))"
  proof (rule probe_loop_stop[OF ht])
    show "command_elem_other n (of_nat (length n)) (ct_elements ht ! i) = Ok True"
      if "unat b \<le> i" "i < j" for i
      using other[of i] that jl j b(2) by (auto simp: reg_found_def)
    show "command_elem_other n (of_nat (length n)) (ct_elements ht ! j) = Ok False"
      using other[OF jl] j by (auto simp: reg_found_def)
  qed (use bj jl in simp_all)
  moreover have "unat (of_nat j :: u32) = j"
    using jl ht(1) unat_lt_2p[of "ct_size ht"] by (simp add: unat_of_nat)
  moreover have "ce_name (ct_elements ht ! j) \<noteq> None"
    "(ce_fstring (ct_elements ht ! j), ce_command (ct_elements ht ! j), ce_is_meta (ct_elements ht ! j)) = v"
    using j by (auto simp: reg_found_def command_cell_def)
  ultimately show ?thesis
    using hash b(1) by (auto simp: command_lookup_def command_ht_fetch_def Let_def)
qed

interpretation commands: registry "command_rep th" command_name_ok "command_register env"
    "command_entry env th" command_lookup for th :: "'f type_ht" and env
  by (unfold_locales) (rule command_store_law, assumption+, rule command_fetch_law)

section \<open>Properties\<close>

lemma command_init_rep:
  assumes "2 \<le> unat sz" and "command_ht_init True True sz th = Some ht"
  shows "command_rep th ht []"
  using assms
  by (auto simp: command_ht_init_def command_rep_def reg_rep_def command_cell_def reg_lookup_def command_elem_ok_def)

text \<open>
  C25.  A command registered with result \<open>0\<close>, normal or meta, is found under its name in any
  capitalisation, with its function and its parsed format; the first registration of a name wins.
\<close>

theorem registered_commands_are_found:
  assumes "command_ht_init True True sz th = Some ht" and "2 \<le> unat sz"
    and "\<forall>(n, r)\<in>set xs. command_name_ok n"
    and "reg_all (command_register env) ht xs = returns (ht', replicate (length xs) 0)"
    and "command_name_ok n" and "reg_lookup (map (apsnd (command_entry env th)) xs) n = Some v"
  shows "command_lookup ht' n = returns (Some v)"
  by (rule commands.registered_is_found[OF command_init_rep[OF assms(2,1)] assms(3-6)])

definition demo_commands :: "(nat, nat) command_ht" where
  "demo_commands = the (command_ht_init True True 4 string_table)"

text \<open>The format \<open>R{string}\<close> of \<open>GET\<close>, and the meta command \<open>del\<close>.\<close>

definition demo_regs :: "(bytes \<times> nat command_reg) list" where
  "demo_regs = [([103, 101, 116], (7, Some [82, 123, 115, 116, 114, 105, 110, 103, 125])),
                ([100, 101, 108], (8, None))]"

theorem registered_commands_are_found_witness:
  "\<exists>ht'. reg_all (command_register calm_fs) demo_commands demo_regs = returns (ht', [0, 0]) \<and>
     command_lookup ht' [71, 69, 84] = returns (Some (Some (FsAt
       \<lparr>fs_contents = [\<lparr>fn_details = FsType 0, fn_access_type = FSTRING_READONLY\<rparr>], fs_length = 1,
        fs_optional_argument_count = 0\<rparr>), Some 7, False))"
proof -
  have "map_option (map_sum id snd) (reg_all (command_register calm_fs) demo_commands demo_regs) = returns [0, 0]"
    by code_simp
  then obtain ht' where reg: "reg_all (command_register calm_fs) demo_commands demo_regs
      = returns (ht', replicate (length demo_regs) 0)"
    by (auto simp: map_sum_id_Ok demo_regs_def)
  have init: "command_ht_init True True 4 string_table = Some demo_commands"
    by (simp add: demo_commands_def command_ht_init_def)
  have names: "\<forall>(n, r)\<in>set demo_regs. command_name_ok n"
    by (simp add: demo_regs_def command_name_ok_def plain_name_def)
  let ?v = "(Some (FsAt
       \<lparr>fs_contents = [\<lparr>fn_details = FsType 0, fn_access_type = FSTRING_READONLY\<rparr>], fs_length = 1,
        fs_optional_argument_count = 0\<rparr>), Some (7::nat), False)"
  have look: "reg_lookup (map (apsnd (command_entry calm_fs string_table)) demo_regs) [71, 69, 84] = Some ?v"
    by code_simp
  have "command_lookup ht' [71, 69, 84] = returns (Some ?v)"
    by (rule registered_commands_are_found[OF init _ names reg _ look])
      (simp_all add: command_name_ok_def plain_name_def)
  then show ?thesis using reg by (auto simp: demo_regs_def)
qed

text \<open>
  \<open>main\<close> registers \<open>load\<close> with \<open>sizeof\<close> its name, which counts the terminating NUL: a client
  that sends the four letters is told that there is no such command, and only one that sends a fifth
  byte NUL reaches it.
\<close>

lemma load_is_unreachable:
  "map_option (map_sum id (\<lambda>(ht, rc).
       (rc, command_ht_fetch ht [108, 111, 97, 100] 4,
        map_option (map_sum id fst) (command_ht_fetch ht [108, 111, 97, 100, 0] 5))))
     (command_ht_store calm_fs (the (command_ht_init True True 256 string_table))
        [108, 111, 97, 100, 0] 5 (Some (7::nat)) [83, 0] 1)
   = returns (0, returns (2, None), returns 0)"
  by code_simp

end
