(* ===== verification/Redis_Bits.thy ===== *)
theory Redis_Bits
  imports Prelude
begin

unbundle bit_operations_syntax

text \<open>
  The two bit routines of \<^verbatim>\<open>commands/redis/string.c\<close>, \<open>redisPopcount\<close> and \<open>redisBitpos\<close>, over the bytes
  of a string at an address: the unaligned bytes first, then whole words (28 bytes at a time with
  the count of bits in parallel, or 8 bytes at a time), then the rest.  The address matters through its
  alignment only.  Reading past the bytes is a fault.
\<close>

section \<open>Definitions\<close>

subsection \<open>Counting bits\<close>

definition bitsinbyte :: "nat list" where
  "bitsinbyte =
    [0, 1, 1, 2, 1, 2, 2, 3, 1, 2, 2, 3, 2, 3, 3, 4, 1, 2, 2, 3, 2, 3, 3, 4, 2, 3, 3, 4, 3, 4, 4, 5,
     1, 2, 2, 3, 2, 3, 3, 4, 2, 3, 3, 4, 3, 4, 4, 5, 2, 3, 3, 4, 3, 4, 4, 5, 3, 4, 4, 5, 4, 5, 5, 6,
     1, 2, 2, 3, 2, 3, 3, 4, 2, 3, 3, 4, 3, 4, 4, 5, 2, 3, 3, 4, 3, 4, 4, 5, 3, 4, 4, 5, 4, 5, 5, 6,
     2, 3, 3, 4, 3, 4, 4, 5, 3, 4, 4, 5, 4, 5, 5, 6, 3, 4, 4, 5, 4, 5, 5, 6, 4, 5, 5, 6, 5, 6, 6, 7,
     1, 2, 2, 3, 2, 3, 3, 4, 2, 3, 3, 4, 3, 4, 4, 5, 2, 3, 3, 4, 3, 4, 4, 5, 3, 4, 4, 5, 4, 5, 5, 6,
     2, 3, 3, 4, 3, 4, 4, 5, 3, 4, 4, 5, 4, 5, 5, 6, 3, 4, 4, 5, 4, 5, 5, 6, 4, 5, 5, 6, 5, 6, 6, 7,
     2, 3, 3, 4, 3, 4, 4, 5, 3, 4, 4, 5, 4, 5, 5, 6, 3, 4, 4, 5, 4, 5, 5, 6, 4, 5, 5, 6, 5, 6, 6, 7,
     3, 4, 4, 5, 4, 5, 5, 6, 4, 5, 5, 6, 5, 6, 6, 7, 4, 5, 5, 6, 5, 6, 6, 7, 5, 6, 6, 7, 6, 7, 7, 8]"

definition byte_count :: "byte \<Rightarrow> u64" where
  "byte_count b = of_nat (bitsinbyte ! unat b)"

text \<open>The bytes up to an address divisible by 4; the result is \<open>bits\<close>, the rest and \<open>count\<close>.\<close>

fun popcount_align :: "u64 \<Rightarrow> bytes \<Rightarrow> int \<Rightarrow> u64 \<Rightarrow> (u64 \<times> bytes \<times> int) res" where
  "popcount_align p [] count bits =
     (if p AND 3 \<noteq> 0 \<and> count \<noteq> 0 then Fault OutOfBounds else Ok (bits, [], count))"
| "popcount_align p (b # bs) count bits =
     (if p AND 3 \<noteq> 0 \<and> count \<noteq> 0 then popcount_align (p + 1) bs (count - 1) (bits + byte_count b)
      else Ok (bits, b # bs, count))"

text \<open>A little-endian \<open>uint32_t\<close>, and the counts of its four bytes, in its four bytes.\<close>

fun load32 :: "bytes \<Rightarrow> u32 res" where
  "load32 (b0 # b1 # b2 # b3 # _) =
     Ok (ucast b0 + push_bit 8 (ucast b1) + push_bit 16 (ucast b2) + push_bit 24 (ucast b3))"
| "load32 _ = Fault OutOfBounds"

definition swar_pairs :: "u32 \<Rightarrow> u32" where
  "swar_pairs aux = aux - (drop_bit 1 aux AND 0x55555555)"

definition swar_nibbles :: "u32 \<Rightarrow> u32" where
  "swar_nibbles aux = (aux AND 0x33333333) + (drop_bit 2 aux AND 0x33333333)"

definition swar_bytes :: "u32 \<Rightarrow> u32" where
  "swar_bytes aux = (aux + drop_bit 4 aux) AND 0x0F0F0F0F"

definition swar_word :: "u32 \<Rightarrow> u32" where
  "swar_word aux = swar_bytes (swar_nibbles (swar_pairs aux))"

fun load32s :: "nat \<Rightarrow> bytes \<Rightarrow> u32 list res" where
  "load32s 0 bs = Ok []"
| "load32s (Suc n) bs = bind_res (load32 bs) (\<lambda>w. bind_res (load32s n (drop 4 bs)) (\<lambda>ws. Ok (w # ws)))"

text \<open>
  One round of the loop over 28 bytes: the sum of the seven words, multiplied and shifted at
  32 bits, then added to the \<open>size_t\<close>.
\<close>

definition popcount_round :: "u32 list \<Rightarrow> u64" where
  "popcount_round auxs = ucast (drop_bit 24 (fold (\<lambda>aux s. s + swar_word aux) auxs 0 * 0x01010101))"

function popcount_words :: "bytes \<Rightarrow> int \<Rightarrow> u64 \<Rightarrow> (u64 \<times> bytes \<times> int) res" where
  "popcount_words bs count bits =
     (if 28 \<le> count then
        bind_res (load32s 7 bs) (\<lambda>auxs. popcount_words (drop 28 bs) (count - 28) (bits + popcount_round auxs))
      else Ok (bits, bs, count))"
  by pat_completeness auto
termination by (relation "measure (\<lambda>(bs, count, bits). nat count)") auto

declare popcount_words.simps [simp del]

fun popcount_rest :: "bytes \<Rightarrow> int \<Rightarrow> u64 \<Rightarrow> u64 res" where
  "popcount_rest [] count bits = (if count \<noteq> 0 then Fault OutOfBounds else Ok bits)"
| "popcount_rest (b # bs) count bits =
     (if count \<noteq> 0 then popcount_rest bs (count - 1) (bits + byte_count b) else Ok bits)"

definition redisPopcount :: "u64 \<Rightarrow> bytes \<Rightarrow> int \<Rightarrow> u64 res" where
  "redisPopcount s bs count =
     bind_res (popcount_align s bs count 0) (\<lambda>(bits, bs, count).
     bind_res (popcount_words bs count bits) (\<lambda>(bits, bs, count).
     popcount_rest bs count bits))"

subsection \<open>The position of a bit\<close>

text \<open>
  \<open>count\<close> is unsigned and never decremented at 0.  The first loop gives \<open>found\<close>, the rest of the bytes,
  \<open>count\<close> and \<open>pos\<close>.
\<close>

fun bitpos_align :: "byte \<Rightarrow> u64 \<Rightarrow> bytes \<Rightarrow> nat \<Rightarrow> int \<Rightarrow> (bool \<times> bytes \<times> nat \<times> int) res" where
  "bitpos_align skipval c [] count pos =
     (if c AND 7 \<noteq> 0 \<and> count \<noteq> 0 then Fault OutOfBounds else Ok (False, [], count, pos))"
| "bitpos_align skipval c (b # bs) count pos =
     (if c AND 7 \<noteq> 0 \<and> count \<noteq> 0 then
        if b \<noteq> skipval then Ok (True, b # bs, count, pos)
        else bitpos_align skipval (c + 1) bs (count - 1) (pos + 8)
      else Ok (False, b # bs, count, pos))"

text \<open>A little-endian word.\<close>

fun le_word :: "bytes \<Rightarrow> 'a::len word" where
  "le_word [] = 0"
| "le_word (b # bs) = ucast b + push_bit 8 (le_word bs)"

definition load64 :: "bytes \<Rightarrow> u64 res" where
  "load64 bs = (if 8 \<le> length bs then Ok (le_word (take 8 bs)) else Fault OutOfBounds)"

function bitpos_words :: "u64 \<Rightarrow> bytes \<Rightarrow> nat \<Rightarrow> int \<Rightarrow> (bytes \<times> nat \<times> int) res" where
  "bitpos_words skipval bs count pos =
     (if 8 \<le> count then
        bind_res (load64 bs) (\<lambda>l.
          if l \<noteq> skipval then Ok (bs, count, pos)
          else bitpos_words skipval (drop 8 bs) (count - 8) (pos + 64))
      else Ok (bs, count, pos))"
  by pat_completeness auto
termination by (relation "measure (\<lambda>(skipval, bs, count, pos). count)") auto

declare bitpos_words.simps [simp del]

fun bitpos_load :: "nat \<Rightarrow> bytes \<Rightarrow> nat \<Rightarrow> u64 \<Rightarrow> u64 res" where
  "bitpos_load 0 c count word = Ok word"
| "bitpos_load (Suc j) c count word =
     (let word = push_bit 8 word in
      if count \<noteq> 0 then
        case c of [] \<Rightarrow> Fault OutOfBounds
        | b # c' \<Rightarrow> bitpos_load j c' (count - 1) (word OR ucast b)
      else bitpos_load j c count word)"

function bitpos_scan :: "u64 \<Rightarrow> u64 \<Rightarrow> int \<Rightarrow> int \<Rightarrow> int" where
  "bitpos_scan one word want pos =
     (if one = 0 then 0
      else if (if one AND word \<noteq> 0 then 1 else 0) = want then pos
      else bitpos_scan (drop_bit 1 one) word want (pos + 1))"
  by pat_completeness auto
termination
proof (relation "measure (\<lambda>(one, word, want, pos). unat one)")
  fix one word :: u64 and want pos :: int
  assume "one \<noteq> 0"
  moreover have "unat (drop_bit 1 one) = unat one div 2"
    by (subst unat_drop_bit_eq) (simp add: drop_bit_eq_div)
  ultimately show "((drop_bit 1 one, word, want, pos + 1), one, word, want, pos) \<in> measure (\<lambda>(one, word, want, pos). unat one)"
    by (simp add: unat_gt_0)
qed simp

declare bitpos_scan.simps [simp del]

definition redisBitpos :: "u64 \<Rightarrow> bytes \<Rightarrow> nat \<Rightarrow> int \<Rightarrow> int res" where
  "redisBitpos s bs count want =
     bind_res (bitpos_align (if want \<noteq> 0 then 0 else 255) s bs count 0) (\<lambda>(found, bs, count, pos).
     bind_res (if \<not> found then bitpos_words (if want \<noteq> 0 then 0 else - 1) bs count pos else Ok (bs, count, pos))
       (\<lambda>(bs, count, pos).
     bind_res (bitpos_load 8 bs count 0) (\<lambda>word.
       if want = 1 \<and> word = 0 then Ok (- 1)
       else Ok (bitpos_scan (NOT (drop_bit 1 (- 1))) word want pos))))"

section \<open>The bits of a string\<close>

text \<open>From left to right: the first bit is the most significant bit of the first byte.\<close>

definition byte_bits :: "byte \<Rightarrow> bool list" where
  "byte_bits b = map (\<lambda>i. bit b (7 - i)) [0..<8]"

definition string_bits :: "bytes \<Rightarrow> bool list" where
  "string_bits bs = concat (map byte_bits bs)"

definition count_ones :: "bytes \<Rightarrow> nat" where
  "count_ones bs = length (filter id (string_bits bs))"

lemma count_ones_simps [simp]:
  "count_ones [] = 0"
  "count_ones (b # bs) = length (filter id (byte_bits b)) + count_ones bs"
  "count_ones (xs @ ys) = count_ones xs + count_ones ys"
  by (simp_all add: count_ones_def string_bits_def)

text \<open>The table and the arithmetic on one byte are the count of its bits.\<close>

definition pop_int :: "int \<Rightarrow> int" where
  "pop_int n = n mod 2 + n div 2 mod 2 + n div 4 mod 2 + n div 8 mod 2
     + n div 16 mod 2 + n div 32 mod 2 + n div 64 mod 2 + n div 128 mod 2"

definition swar_int :: "int \<Rightarrow> int" where
  "swar_int b =
     (let p = b - ((b div 2) AND 0x55);
          q = (p AND 0x33) + ((p div 4) AND 0x33)
      in (q + q div 16) AND 0x0F)"

lemma bitsinbyte_pop: "map int bitsinbyte = map pop_int [0..255]"
  by (simp add: bitsinbyte_def pop_int_def upto_rec1)

lemma swar_pop_all: "list_all (\<lambda>n. swar_int n = pop_int n) [0..255]"
  by (simp add: swar_int_def pop_int_def upto_rec1)

lemma bitsinbyte_nth:
  assumes "n < 256"
  shows "int (bitsinbyte ! n) = pop_int (int n)"
proof -
  have "length bitsinbyte = 256" using arg_cong[OF bitsinbyte_pop, of length] by simp
  then have "int (bitsinbyte ! n) = map int bitsinbyte ! n" using assms by simp
  also have "\<dots> = pop_int (int n)" unfolding bitsinbyte_pop using assms by simp
  finally show ?thesis .
qed

definition swar_byte :: "nat \<Rightarrow> nat" where
  "swar_byte b =
     (let p = b - ((b div 2) AND 0x55);
          q = (p AND 0x33) + ((p div 4) AND 0x33)
      in (q + q div 16) AND 0x0F)"

lemma int_and_nat: "int (a AND b) = int a AND int b"
  by (rule of_nat_and_eq)

lemma and_nat_le: "(a :: nat) AND b \<le> a"
proof -
  have "int (a AND b) \<le> int a"
    using AND_upper1[of "int a" "int b"] by (simp only: int_and_nat of_nat_0_le_iff)
  then show ?thesis by simp
qed

lemma and_nat_le2: "(a :: nat) AND b \<le> b"
  using and_nat_le[of b a] by (simp add: and.commute)

lemma swar_byte_int: "int (swar_byte b) = swar_int (int b)"
proof -
  have "(b div 2) AND 0x55 \<le> b" by (meson and_nat_le div_le_dividend order_trans)
  then have "int (b - ((b div 2) AND 0x55)) = int b - ((int b div 2) AND 0x55)"
    by (simp add: of_nat_diff int_and_nat zdiv_int)
  then show ?thesis
    by (simp add: swar_byte_def swar_int_def Let_def int_and_nat zdiv_int)
qed

lemma unat_byte_lt: "unat (b :: byte) < 256"
  using unat_lt_2p[of b] by simp

lemma byte_bits_pop: "int (length (filter id (byte_bits b))) = pop_int (uint b)"
proof -
  have bit: "bit b i \<longleftrightarrow> odd (uint b div 2 ^ i)" for i
  proof -
    have "bit b i \<longleftrightarrow> bit (uint b) i" by (auto simp: bit_uint_iff dest: bit_imp_le_length)
    then show ?thesis by (simp only: bit_iff_odd)
  qed
  have l: "byte_bits b = [bit b 7, bit b 6, bit b 5, bit b 4, bit b 3, bit b 2, bit b 1, bit b 0]"
    by (simp add: byte_bits_def upt_conv_Cons)
  have m: "uint b div 2 ^ i mod 2 = of_bool (bit b i)" for i
    unfolding bit by (simp add: mod2_eq_if)
  have f: "int (length (filter id (x # xs))) = of_bool x + int (length (filter id xs))" for x xs
    by simp
  have "int (length (filter id (byte_bits b))) =
          of_bool (bit b 7) + (of_bool (bit b 6) + (of_bool (bit b 5) + (of_bool (bit b 4) +
          (of_bool (bit b 3) + (of_bool (bit b 2) + (of_bool (bit b 1) + of_bool (bit b 0)))))))"
    unfolding l f by (simp only: filter.simps(1) list.size(3) of_nat_0 add_0_right)
  also have "\<dots> = pop_int (uint b)"
    unfolding pop_int_def m[symmetric] by (simp only: power_0 div_by_1 power_one_right) simp
  finally show ?thesis .
qed

lemma swar_byte_bits: "swar_byte (unat b) = length (filter id (byte_bits b)) \<and> swar_byte (unat b) \<le> 8"
proof -
  have "uint b \<in> {0..255}" using uint_lt2p[of b] by simp
  then have "swar_int (int (unat b)) = pop_int (int (unat b))"
    using swar_pop_all by (simp add: list_all_iff)
  then have "int (swar_byte (unat b)) = int (length (filter id (byte_bits b)))"
    by (simp add: swar_byte_int byte_bits_pop)
  moreover have "length (filter id (byte_bits b)) \<le> 8"
    using length_filter_le[of id "byte_bits b"] by (simp add: byte_bits_def)
  ultimately show ?thesis by simp
qed

lemma byte_count_bits: "unat (byte_count b) = length (filter id (byte_bits b))"
proof -
  have "int (bitsinbyte ! unat b) = int (length (filter id (byte_bits b)))"
    using bitsinbyte_nth[OF unat_byte_lt, of b] by (simp add: byte_bits_pop)
  then have n: "bitsinbyte ! unat b = length (filter id (byte_bits b))" by simp
  moreover have "length (filter id (byte_bits b)) < 2 ^ 64"
    using length_filter_le[of id "byte_bits b"] by (simp add: byte_bits_def)
  ultimately show ?thesis
    by (simp add: byte_count_def unsigned_of_nat take_bit_nat_eq_self)
qed

subsection \<open>The parallel count, byte by byte\<close>

lemma bit_cat:
  fixes a b :: nat
  assumes "a < 2 ^ k"
  shows "bit (a + 2 ^ k * b) n \<longleftrightarrow> (if n < k then bit a n else bit b (n - k))"
proof (cases "n < k")
  case True
  then obtain m where k: "k = n + Suc m" using less_imp_Suc_add by auto
  have "(a + 2 ^ n * (2 * (2 ^ m * b))) div 2 ^ n = a div 2 ^ n + 2 * (2 ^ m * b)"
    by (subst div_mult_self2) simp_all
  moreover have "2 ^ k * b = 2 ^ n * (2 * (2 ^ m * b))" by (simp add: k power_add)
  ultimately have "(a + 2 ^ k * b) div 2 ^ n = a div 2 ^ n + 2 * (2 ^ m * b)" by metis
  then show ?thesis using True by (simp add: bit_iff_odd)
next
  case False
  then have n: "n = k + (n - k)" by simp
  have "(a + 2 ^ k * b) div 2 ^ (k + (n - k)) = b div 2 ^ (n - k)"
    using assms by (simp only: power_add div_mult2_eq) simp
  then show ?thesis using False n by (simp add: bit_iff_odd)
qed

lemma and_cat:
  fixes a b c d :: nat
  assumes "a < 2 ^ k" and "c < 2 ^ k"
  shows "(a + 2 ^ k * b) AND (c + 2 ^ k * d) = (a AND c) + 2 ^ k * (b AND d)"
proof -
  have "a AND c < 2 ^ k" using order.strict_trans1[OF and_nat_le assms(1)] .
  then show ?thesis using assms by (intro bit_eqI) (auto simp: bit_cat bit_and_iff)
qed

text \<open>The bits that a shift brings in from the next byte are masked away.\<close>

lemma and_cat_low:
  fixes x y m r :: nat
  assumes "x < 2 ^ j" and "m < 2 ^ j"
  shows "(x + 2 ^ j * y) AND m = x AND m"
  using and_cat[OF assms, of y 0] by simp

definition pairs_nat :: "nat \<Rightarrow> nat \<Rightarrow> nat" where
  "pairs_nat m x = x - ((x div 2) AND m)"

definition nibbles_nat :: "nat \<Rightarrow> nat \<Rightarrow> nat" where
  "nibbles_nat m x = (x AND m) + ((x div 4) AND m)"

definition bytes_nat :: "nat \<Rightarrow> nat \<Rightarrow> nat" where
  "bytes_nat m x = (x + x div 16) AND m"

lemma div_cat_byte:
  fixes b w :: nat
  assumes "k + j = 8"
  shows "(b + 256 * w) div 2 ^ k = b div 2 ^ k + 2 ^ j * (w mod 2 ^ k) + 256 * (w div 2 ^ k)"
proof -
  have e: "(256 :: nat) = 2 ^ k * 2 ^ j" using assms by (simp flip: power_add)
  have "(b + 2 ^ k * (2 ^ j * w)) div 2 ^ k = b div 2 ^ k + 2 ^ j * w" by simp
  moreover have "2 ^ j * w = 2 ^ j * (w mod 2 ^ k) + 2 ^ j * (2 ^ k * (w div 2 ^ k))"
    by (metis mod_mult_div_eq distrib_left)
  ultimately show ?thesis by (simp add: e mult.assoc mult.left_commute)
qed

lemma shift_and_cat:
  fixes b w c m :: nat
  assumes b: "b < 256" and k: "k + j = 8" and c: "c < 2 ^ j"
  shows "((b + 256 * w) div 2 ^ k) AND (c + 256 * m) =
           ((b div 2 ^ k) AND c) + 256 * ((w div 2 ^ k) AND m)"
proof -
  have e: "(256 :: nat) = 2 ^ j * 2 ^ k" using k by (simp add: add.commute flip: power_add)
  have x: "b div 2 ^ k < 2 ^ j" using b e by (simp add: less_mult_imp_div_less mult.commute)
  have "b div 2 ^ k + 2 ^ j * (w mod 2 ^ k) < 2 ^ j * (1 + w mod 2 ^ k)" using x by simp
  also have "\<dots> \<le> 2 ^ j * 2 ^ k" by (intro mult_le_mono2) (simp add: Suc_le_eq)
  finally have lt: "b div 2 ^ k + 2 ^ j * (w mod 2 ^ k) < 2 ^ 8" using e by simp
  have "(2 :: nat) ^ j \<le> 2 ^ 8" using k by (intro power_increasing) auto
  then have c8: "c < 2 ^ 8" using c by simp
  have "(b div 2 ^ k + 2 ^ j * (w mod 2 ^ k) + 256 * (w div 2 ^ k)) AND (c + 256 * m) =
          ((b div 2 ^ k + 2 ^ j * (w mod 2 ^ k)) AND c) + 256 * ((w div 2 ^ k) AND m)"
    using and_cat[OF lt c8] by simp
  then show ?thesis unfolding div_cat_byte[OF k] and_cat_low[OF x c] .
qed

lemma pairs_cat:
  assumes "b < 256"
  shows "pairs_nat (0x55 + 256 * m) (b + 256 * w) = pairs_nat 0x55 b + 256 * pairs_nat m w"
proof -
  have "((b + 256 * w) div 2) AND (0x55 + 256 * m) = ((b div 2) AND 0x55) + 256 * ((w div 2) AND m)"
    using shift_and_cat[where b = b and k = 1 and j = 7 and c = 85 and w = w and m = m] assms by simp
  moreover have "(b div 2) AND 0x55 \<le> b" "(w div 2) AND m \<le> w"
    by (meson and_nat_le div_le_dividend order_trans)+
  ultimately show ?thesis by (simp add: pairs_nat_def diff_mult_distrib2)
qed

lemma nibbles_cat:
  assumes "b < 256"
  shows "nibbles_nat (0x33 + 256 * m) (b + 256 * w) = nibbles_nat 0x33 b + 256 * nibbles_nat m w"
  using shift_and_cat[where b = b and k = 2 and j = 6 and c = 51 and w = w and m = m]
    and_cat[where a = b and k = 8 and c = 51 and b = w and d = m] assms
  by (simp add: nibbles_nat_def algebra_simps)

lemma bytes_cat:
  assumes "b \<le> 0x66" and "w mod 16 \<le> 6"
  shows "bytes_nat (0x0F + 256 * m) (b + 256 * w) = bytes_nat 0x0F b + 256 * bytes_nat m w"
proof -
  have d: "(b + 256 * w) div 16 = b div 16 + 16 * (w mod 16) + 256 * (w div 16)"
    using div_cat_byte[of 4 4 b w] by simp
  have s: "b + b div 16 + 16 * (w mod 16) < 2 ^ 8" using assms by simp
  have low: "(b + b div 16 + 16 * (w mod 16)) AND 0x0F = (b + b div 16) AND 0x0F"
  proof -
    have "n AND 0x0F = n mod 16" for n :: nat
      using take_bit_eq_mask[of 4 n] by (simp add: take_bit_eq_mod mask_eq_exp_minus_1)
    then show ?thesis by presburger
  qed
  have e: "b + 256 * w + (b + 256 * w) div 16 = (b + b div 16 + 16 * (w mod 16)) + 256 * (w + w div 16)"
    unfolding d by simp
  then show ?thesis
    unfolding bytes_nat_def e using and_cat[OF s, of "0x0F" "w + w div 16" m] low by simp
qed

lemma and_33_mod: "((x :: nat) AND 0x33) mod 16 \<le> 3"
proof -
  have "(x mod 16 + 2 ^ 4 * (x div 16)) AND (3 + 2 ^ 4 * 3) = (x mod 16 AND 3) + 2 ^ 4 * (x div 16 AND 3)"
    by (rule and_cat) simp_all
  then have "(x AND 0x33) mod 16 = (x mod 16 AND 3) mod 16" by simp
  also have "\<dots> \<le> 3" using and_nat_le2[of "x mod 16" 3] by simp
  finally show ?thesis .
qed

lemma nibbles_byte_le: "nibbles_nat 0x33 x \<le> 0x66 \<and> nibbles_nat 0x33 x mod 16 \<le> 6"
proof
  show "nibbles_nat 0x33 x \<le> 0x66"
    using and_nat_le2[of x 51] and_nat_le2[of "x div 4" 51] by (simp add: nibbles_nat_def)
  have "nibbles_nat 0x33 x mod 16 = ((x AND 0x33) mod 16 + ((x div 4) AND 0x33) mod 16) mod 16"
    by (simp add: nibbles_nat_def mod_add_eq)
  also have "\<dots> \<le> 6" using and_33_mod[of x] and_33_mod[of "x div 4"] by simp
  finally show "nibbles_nat 0x33 x mod 16 \<le> 6" .
qed

lemma swar_byte_eq: "swar_byte b = bytes_nat 0x0F (nibbles_nat 0x33 (pairs_nat 0x55 b))"
  by (simp add: swar_byte_def pairs_nat_def nibbles_nat_def bytes_nat_def Let_def)

text \<open>A list of bytes as a little-endian number.\<close>

fun le_nat :: "nat list \<Rightarrow> nat" where
  "le_nat [] = 0"
| "le_nat (b # bs) = b + 256 * le_nat bs"

lemma le_nat_mod: "bs \<noteq> [] \<Longrightarrow> le_nat bs mod 16 = hd bs mod 16"
  by (cases bs) (simp_all add: mod_add_right_eq[symmetric] mod_mult_left_eq[symmetric])

lemma pairs_le_nat:
  "\<forall>b \<in> set bs. b < 256 \<Longrightarrow>
     pairs_nat (le_nat (replicate (length bs) 0x55)) (le_nat bs) = le_nat (map (pairs_nat 0x55) bs)"
  by (induction bs) (simp_all add: pairs_cat pairs_nat_def[of _ 0])

lemma nibbles_le_nat:
  "\<forall>b \<in> set bs. b < 256 \<Longrightarrow>
     nibbles_nat (le_nat (replicate (length bs) 0x33)) (le_nat bs) = le_nat (map (nibbles_nat 0x33) bs)"
  by (induction bs) (simp_all add: nibbles_cat nibbles_nat_def[of _ 0])

lemma bytes_le_nat:
  "\<forall>b \<in> set bs. b \<le> 0x66 \<and> b mod 16 \<le> 6 \<Longrightarrow>
     bytes_nat (le_nat (replicate (length bs) 0x0F)) (le_nat bs) = le_nat (map (bytes_nat 0x0F) bs)"
proof (induction bs)
  case (Cons b bs)
  have "le_nat bs mod 16 \<le> 6"
    using le_nat_mod[of bs] Cons.prems by (cases bs) auto
  then show ?case using Cons by (simp add: bytes_cat)
qed (simp add: bytes_nat_def)

text \<open>So the three steps on a word of any number of bytes count the bits of each.\<close>

lemma swar_le_nat:
  assumes "\<forall>b \<in> set bs. b < 256" and n: "length bs = n"
  shows "bytes_nat (le_nat (replicate n 0x0F)) (nibbles_nat (le_nat (replicate n 0x33))
           (pairs_nat (le_nat (replicate n 0x55)) (le_nat bs))) = le_nat (map swar_byte bs)"
proof -
  have p: "\<forall>b \<in> set (map (pairs_nat 0x55) bs). b < 256"
    using assms(1) by (auto simp: pairs_nat_def intro: le_less_trans[OF diff_le_self])
  have q: "\<forall>b \<in> set (map (nibbles_nat 0x33 \<circ> pairs_nat 0x55) bs). b \<le> 0x66 \<and> b mod 16 \<le> 6"
    using nibbles_byte_le by auto
  have "nibbles_nat (le_nat (replicate n 0x33)) (pairs_nat (le_nat (replicate n 0x55)) (le_nat bs)) =
          le_nat (map (nibbles_nat 0x33 \<circ> pairs_nat 0x55) bs)"
    using pairs_le_nat[OF assms(1)] nibbles_le_nat[OF p] n by (simp add: comp_def)
  then have "bytes_nat (le_nat (replicate n 0x0F)) (nibbles_nat (le_nat (replicate n 0x33))
               (pairs_nat (le_nat (replicate n 0x55)) (le_nat bs))) =
             le_nat (map (bytes_nat 0x0F) (map (nibbles_nat 0x33 \<circ> pairs_nat 0x55) bs))"
    using bytes_le_nat[OF q] n by simp
  also have "map (bytes_nat 0x0F) (map (nibbles_nat 0x33 \<circ> pairs_nat 0x55) bs) = map swar_byte bs"
    by (simp add: swar_byte_eq)
  finally show ?thesis .
qed

subsection \<open>On words of 32 bits\<close>

lemma replicate_4: "replicate 4 x = [x, x, x, x]"
  by (simp add: eval_nat_numeral)

lemma unat_drop_bit_div: "unat (drop_bit k (w :: u32)) = unat w div 2 ^ k"
  by (subst unat_drop_bit_eq) (rule drop_bit_eq_div)

lemma le_nat_masks:
  "le_nat (replicate 4 0x55) = 0x55555555" "le_nat (replicate 4 0x33) = 0x33333333"
  "le_nat (replicate 4 0x0F) = 0x0F0F0F0F"
  by (simp_all add: replicate_4)

lemma unat_swar_pairs: "unat (swar_pairs w) = pairs_nat 0x55555555 (unat w)"
proof -
  have d: "unat (drop_bit 1 w AND 0x55555555) = (unat w div 2) AND 0x55555555"
    using unat_drop_bit_div[of 1 w] by (simp only: unsigned_and_eq) simp
  have "(unat w div 2) AND 0x55555555 \<le> unat w" by (meson and_nat_le div_le_dividend order_trans)
  then have "drop_bit 1 w AND 0x55555555 \<le> w" unfolding word_le_nat_alt d .
  then show ?thesis unfolding swar_pairs_def pairs_nat_def by (simp only: unat_diff_le d)
qed

lemma unat_swar_nibbles: "unat (swar_nibbles w) = nibbles_nat 0x33333333 (unat w)"
proof -
  have a: "unat (w AND 0x33333333) = unat w AND 0x33333333"
    by (simp add: unsigned_and_eq)
  have b: "unat (drop_bit 2 w AND 0x33333333) = (unat w div 4) AND 0x33333333"
    using unat_drop_bit_div[of 2 w] by (simp only: unsigned_and_eq) simp
  have "unat (w AND 0x33333333) + unat (drop_bit 2 w AND 0x33333333) < 2 ^ 32"
    unfolding a b using and_nat_le2[of "unat w" 858993459] and_nat_le2[of "unat w div 4" 858993459] by simp
  then show ?thesis
    unfolding swar_nibbles_def nibbles_nat_def using a b by (simp add: unat_word_ariths)
qed

lemma unat_swar_bytes:
  assumes "unat w \<le> 0x66666666"
  shows "unat (swar_bytes w) = bytes_nat 0x0F0F0F0F (unat w)"
proof -
  have d: "unat (drop_bit 4 w) = unat w div 16"
    using unat_drop_bit_div[of 4 w] by simp
  have "unat w + unat w div 16 < 2 ^ 32" using assms by simp
  then have "unat (w + drop_bit 4 w) = unat w + unat w div 16" using d by (simp add: unat_word_ariths)
  then show ?thesis by (simp add: swar_bytes_def bytes_nat_def unsigned_and_eq)
qed

lemma unat_swar_word:
  assumes "unat w = le_nat bs" and "length bs = 4" and "\<forall>b \<in> set bs. b < 256"
  shows "unat (swar_word w) = le_nat (map swar_byte bs)"
proof -
  have "nibbles_nat 0x33333333 x \<le> 0x66666666" for x
    using and_nat_le2[of x 858993459] and_nat_le2[of "x div 4" 858993459] by (simp add: nibbles_nat_def)
  then have "unat (swar_word w) = bytes_nat 0x0F0F0F0F (nibbles_nat 0x33333333 (pairs_nat 0x55555555 (le_nat bs)))"
    unfolding swar_word_def using assms(1) by (simp add: unat_swar_bytes unat_swar_nibbles unat_swar_pairs)
  then show ?thesis using swar_le_nat[OF assms(3,2)] by (simp only: le_nat_masks)
qed

lemma unat_ucast_byte [simp]: "unat (ucast (b :: byte) :: u32) = unat b"
  by (rule unat_ucast_wider) simp

lemma unat_push_byte:
  assumes "k + 8 \<le> 32"
  shows "unat (push_bit k (ucast (b :: byte)) :: u32) = 2 ^ k * unat b"
proof -
  have "2 ^ k * unat b < 2 ^ k * 2 ^ 8" using unat_byte_lt[of b] by simp
  also have "\<dots> \<le> 2 ^ 32" using power_increasing[OF assms, of "2 :: nat"] by (simp only: power_add)
  finally have "take_bit 32 (2 ^ k * unat b) = 2 ^ k * unat b" by (rule take_bit_nat_eq_self)
  moreover have "unat (push_bit k (ucast b) :: u32) = take_bit 32 (2 ^ k * unat b)"
    unfolding unsigned_push_bit_eq unat_ucast_byte by (simp add: push_bit_eq_mult mult.commute)
  ultimately show ?thesis by simp
qed

lemma unat_load32:
  assumes "4 \<le> length bs"
  obtains w where "load32 bs = Ok w" and "unat w = le_nat (map unat (take 4 bs))"
proof (cases bs rule: load32.cases)
  case (1 b0 b1 b2 b3 r)
  have "unat (ucast b0 + push_bit 8 (ucast b1) + push_bit 16 (ucast b2) + push_bit 24 (ucast b3) :: u32) =
          le_nat [unat b0, unat b1, unat b2, unat b3]"
    using unat_byte_lt[of b0] unat_byte_lt[of b1] unat_byte_lt[of b2] unat_byte_lt[of b3]
    by (simp add: unat_word_ariths unat_push_byte)
  then show ?thesis using 1 that by simp
qed (use assms in auto)

text \<open>The four sums that the fold keeps in its four bytes.\<close>

lemma fold_swar:
  assumes "4 * n \<le> length bs" and "unat acc = le_nat [a, b, c, d]"
    and "a \<le> k" "b \<le> k" "c \<le> k" "d \<le> k" and "k + 8 * n \<le> 56"
  shows "\<exists>auxs a' b' c' d'. load32s n bs = Ok auxs \<and>
           unat (fold (\<lambda>aux s. s + swar_word aux) auxs acc) = le_nat [a', b', c', d'] \<and>
           a' \<le> 56 \<and> b' \<le> 56 \<and> c' \<le> 56 \<and> d' \<le> 56 \<and>
           a' + b' + c' + d' = a + b + c + d + count_ones (take (4 * n) bs)"
  using assms
proof (induction n arbitrary: bs acc a b c d k)
  case 0
  then show ?case by (intro exI[of _ "[]"] exI[of _ a] exI[of _ b] exI[of _ c] exI[of _ d]) simp
next
  case (Suc n)
  obtain w where w: "load32 bs = Ok w" "unat w = le_nat (map unat (take 4 bs))"
    using Suc.prems(1) by (auto intro: unat_load32[of bs])
  obtain b0 b1 b2 b3 r where bs: "bs = b0 # b1 # b2 # b3 # r"
    using w(1) by (cases bs rule: load32.cases) auto
  have sw: "unat (swar_word w) = le_nat (map (\<lambda>b. swar_byte (unat b)) [b0, b1, b2, b3])"
    using unat_swar_word[OF w(2)] unat_byte_lt by (simp add: bs)
  have "unat (acc + swar_word w) =
          le_nat [a + swar_byte (unat b0), b + swar_byte (unat b1), c + swar_byte (unat b2), d + swar_byte (unat b3)]"
    using Suc.prems sw swar_byte_bits[of b0] swar_byte_bits[of b1] swar_byte_bits[of b2] swar_byte_bits[of b3]
    by (simp add: unat_word_ariths)
  then have "\<exists>auxs a' b' c' d'. load32s n (drop 4 bs) = Ok auxs \<and>
      unat (fold (\<lambda>aux s. s + swar_word aux) auxs (acc + swar_word w)) = le_nat [a', b', c', d'] \<and>
      a' \<le> 56 \<and> b' \<le> 56 \<and> c' \<le> 56 \<and> d' \<le> 56 \<and>
      a' + b' + c' + d' = (a + swar_byte (unat b0)) + (b + swar_byte (unat b1)) + (c + swar_byte (unat b2))
           + (d + swar_byte (unat b3)) + count_ones (take (4 * n) (drop 4 bs))"
    using Suc.prems swar_byte_bits[of b0] swar_byte_bits[of b1] swar_byte_bits[of b2] swar_byte_bits[of b3]
    by (intro Suc.IH[where k = "k + 8"]) auto
  then obtain auxs a' b' c' d' where "load32s n (drop 4 bs) = Ok auxs"
    and "unat (fold (\<lambda>aux s. s + swar_word aux) auxs (acc + swar_word w)) = le_nat [a', b', c', d']"
    and "a' \<le> 56" "b' \<le> 56" "c' \<le> 56" "d' \<le> 56"
    and "a' + b' + c' + d' = (a + swar_byte (unat b0)) + (b + swar_byte (unat b1)) + (c + swar_byte (unat b2))
           + (d + swar_byte (unat b3)) + count_ones (take (4 * n) (drop 4 bs))"
    by blast
  moreover have "take (4 * Suc n) bs = [b0, b1, b2, b3] @ take (4 * n) (drop 4 bs)"
  proof -
    have "4 * Suc n = Suc (Suc (Suc (Suc (4 * n))))" by simp
    then show ?thesis by (simp only: bs) simp
  qed
  ultimately show ?case
    using w(1) swar_byte_bits[of b0] swar_byte_bits[of b1] swar_byte_bits[of b2] swar_byte_bits[of b3]
    by (auto intro!: exI)
qed

text \<open>The multiplication adds the four bytes up in the highest one.\<close>

lemma horizontal_sum:
  assumes s: "unat s = le_nat [a, b, c, d]" and "a \<le> 56" "b \<le> 56" "c \<le> 56" "d \<le> 56"
  shows "unat (drop_bit 24 (s * 0x01010101) :: u32) = a + b + c + d"
proof -
  have e: "unat s * 0x01010101 =
          (a + 256 * (a + b) + 65536 * (a + b + c) + 16777216 * (a + b + c + d))
          + 2 ^ 32 * ((b + c + d) + 256 * (c + d) + 65536 * d)"
    unfolding s by (simp add: algebra_simps)
  have "unat (s * 0x01010101) = (unat s * 0x01010101) mod 2 ^ 32" by (simp add: unat_word_ariths)
  also have "\<dots> = (a + 256 * (a + b) + 65536 * (a + b + c) + 16777216 * (a + b + c + d)) mod 2 ^ 32"
    unfolding e by (rule mod_mult_self2)
  also have "\<dots> = a + 256 * (a + b) + 65536 * (a + b + c) + 16777216 * (a + b + c + d)"
    using assms by simp
  finally have "unat (s * 0x01010101) = a + 256 * (a + b) + 65536 * (a + b + c) + 16777216 * (a + b + c + d)" .
  moreover have "(a + 256 * (a + b) + 65536 * (a + b + c) + 16777216 * (a + b + c + d)) div 2 ^ 24 = a + b + c + d"
    using assms by simp
  ultimately show ?thesis by (simp only: unat_drop_bit_div)
qed

lemma popcount_round_ones:
  assumes "28 \<le> length bs"
  obtains auxs where "load32s 7 bs = Ok auxs" and "popcount_round auxs = of_nat (count_ones (take 28 bs))"
proof -
  from fold_swar[of 7 bs 0 0 0 0 0 0] assms
  obtain auxs a b c d where l: "load32s 7 bs = Ok auxs"
    and f: "unat (fold (\<lambda>aux s. s + swar_word aux) auxs 0) = le_nat [a, b, c, d]"
    and le: "a \<le> 56" "b \<le> 56" "c \<le> 56" "d \<le> 56" and sum: "a + b + c + d = count_ones (take 28 bs)"
    by auto
  have "popcount_round auxs = of_nat (unat (drop_bit 24 (fold (\<lambda>aux s. s + swar_word aux) auxs 0 * 0x01010101)))"
    unfolding popcount_round_def by simp
  then show thesis using that[OF l] horizontal_sum[OF f le] sum by simp
qed

subsection \<open>The three loops\<close>

lemma popcount_align_ones:
  assumes "nat count \<le> length bs" and "0 \<le> count"
  obtains m where "m \<le> nat count" and
    "popcount_align p bs count bits = Ok (bits + of_nat (count_ones (take m bs)), drop m bs, count - int m)"
  using assms
proof (induction p bs count bits arbitrary: thesis rule: popcount_align.induct)
  case (1 p count bits)
  then show ?case by (auto intro: 1(1)[of 0])
next
  case (2 p b bs count bits)
  show ?case
  proof (cases "p AND 3 \<noteq> 0 \<and> count \<noteq> 0")
    case True
    have "nat (count - 1) \<le> length bs" "0 \<le> count - 1" using 2(3,4) True by auto
    from 2(1)[OF True _ this] obtain m where "m \<le> nat (count - 1)" and
      "popcount_align (p + 1) bs (count - 1) (bits + byte_count b) =
         Ok (bits + byte_count b + of_nat (count_ones (take m bs)), drop m bs, count - 1 - int m)"
      by blast
    then show ?thesis
      using True 2(4) byte_count_bits[of b] by (intro 2(2)[of "Suc m"]) (auto simp: algebra_simps simp flip: byte_count_bits)
  next
    case False
    then show ?thesis by (intro 2(2)[of 0]) auto
  qed
qed

lemma popcount_words_ones:
  assumes "nat count \<le> length bs" and "0 \<le> count"
  obtains m where "m \<le> nat count" and
    "popcount_words bs count bits = Ok (bits + of_nat (count_ones (take m bs)), drop m bs, count - int m)"
  using assms
proof (induction bs count bits arbitrary: thesis rule: popcount_words.induct)
  case (1 bs count bits)
  show ?case
  proof (cases "28 \<le> count")
    case True
    have "28 \<le> length bs" using 1(3) True by simp
    then obtain auxs where l: "load32s 7 bs = Ok auxs" and r: "popcount_round auxs = of_nat (count_ones (take 28 bs))"
      by (rule popcount_round_ones)
    have "nat (count - 28) \<le> length (drop 28 bs)" "0 \<le> count - 28" using 1(3) True by auto
    from 1(1)[OF True _ this] obtain m where m: "m \<le> nat (count - 28)" and
      "popcount_words (drop 28 bs) (count - 28) (bits + popcount_round auxs) =
         Ok (bits + popcount_round auxs + of_nat (count_ones (take m (drop 28 bs))), drop m (drop 28 bs), count - 28 - int m)"
      by blast
    moreover have "count_ones (take (28 + m) bs) = count_ones (take 28 bs) + count_ones (take m (drop 28 bs))"
      by (simp add: take_add)
    ultimately show ?thesis
      using True l r by (intro 1(2)[of "28 + m"]) (auto simp: popcount_words.simps[of bs] algebra_simps)
  next
    case False
    then show ?thesis by (intro 1(2)[of 0]) (auto simp: popcount_words.simps[of bs])
  qed
qed

lemma popcount_rest_ones:
  "nat count \<le> length bs \<Longrightarrow> 0 \<le> count \<Longrightarrow>
     popcount_rest bs count bits = Ok (bits + of_nat (count_ones (take (nat count) bs)))"
proof (induction bs count bits rule: popcount_rest.induct)
  case (2 b bs count bits)
  show ?case
  proof (cases "count = 0")
    case False
    then have n: "nat count = Suc (nat (count - 1))" using 2(3) by simp
    show ?thesis
      using 2 False byte_count_bits[of b] unfolding n by (simp add: algebra_simps flip: byte_count_bits)
  qed simp
qed simp

lemma redisPopcount_ones:
  assumes "0 \<le> count" and "nat count \<le> length bs"
  shows "redisPopcount s bs count = Ok (of_nat (count_ones (take (nat count) bs)))"
proof -
  obtain m where m: "m \<le> nat count"
    "popcount_align s bs count 0 = Ok (of_nat (count_ones (take m bs)), drop m bs, count - int m)"
    using popcount_align_ones[of count bs s 0] assms by auto
  have c1: "nat (count - int m) \<le> length (drop m bs)" "0 \<le> count - int m" using m(1) assms by auto
  obtain k where k: "k \<le> nat (count - int m)"
    "popcount_words (drop m bs) (count - int m) (of_nat (count_ones (take m bs))) =
       Ok (of_nat (count_ones (take m bs)) + of_nat (count_ones (take k (drop m bs))), drop k (drop m bs), count - int m - int k)"
    using popcount_words_ones[OF c1] by blast
  have c2: "nat (count - int m - int k) \<le> length (drop k (drop m bs))" "0 \<le> count - int m - int k"
    using k(1) c1 assms by auto
  have n: "nat count = m + (k + nat (count - int m - int k))" using m(1) k(1) c2 assms(1) by simp
  have "count_ones (take (nat count) bs) =
          count_ones (take m bs) + (count_ones (take k (drop m bs)) +
            count_ones (take (nat (count - int m - int k)) (drop k (drop m bs))))"
    unfolding n by (simp only: take_add count_ones_simps drop_drop)
  then show ?thesis
    unfolding redisPopcount_def using m(2) k(2) popcount_rest_ones[OF c2] by (simp add: add.assoc)
qed

section \<open>The first bit of a kind\<close>

text \<open>The number of bits before the first \<open>v\<close>.\<close>

definition leading :: "bool \<Rightarrow> bool list \<Rightarrow> nat" where
  "leading v xs = length (takeWhile (\<lambda>b. b \<noteq> v) xs)"

definition first_bit :: "bool \<Rightarrow> bytes \<Rightarrow> int" where
  "first_bit v bs =
     (let k = leading v (string_bits bs)
      in if v \<and> k = 8 * length bs then - 1 else int k)"

lemma leading_Nil [simp]: "leading v [] = 0"
  by (simp add: leading_def)

lemma leading_Cons: "leading v (x # xs) = (if x = v then 0 else Suc (leading v xs))"
  by (simp add: leading_def)

lemma leading_append_skip: "v \<notin> set xs \<Longrightarrow> leading v (xs @ ys) = length xs + leading v ys"
  by (induction xs) (auto simp: leading_Cons)

lemma leading_append_found: "v \<in> set xs \<Longrightarrow> leading v (xs @ ys) = leading v xs"
  by (induction xs) (auto simp: leading_Cons)

lemma leading_none: "v \<notin> set xs \<Longrightarrow> leading v xs = length xs"
  using leading_append_skip[of v xs "[]"] by simp

lemma leading_less: "v \<in> set xs \<Longrightarrow> leading v xs < length xs"
  by (induction xs) (auto simp: leading_Cons)

lemma byte_bits_length [simp]: "length (byte_bits b) = 8"
  by (simp add: byte_bits_def)

lemma string_bits_simps [simp]:
  "string_bits [] = []"
  "string_bits (b # bs) = byte_bits b @ string_bits bs"
  "string_bits (xs @ ys) = string_bits xs @ string_bits ys"
  by (simp_all add: string_bits_def)

lemma string_bits_length [simp]: "length (string_bits bs) = 8 * length bs"
  by (induction bs) simp_all

lemma byte_bits_eq: "byte_bits b = byte_bits c \<longleftrightarrow> b = c"
proof
  assume "byte_bits b = byte_bits c"
  then have eq: "\<forall>i < 8. bit b (7 - i) = bit c (7 - i)" by (simp add: byte_bits_def list_eq_iff_nth_eq)
  show "b = c"
  proof (rule bit_word_eqI)
    fix n assume "n < LENGTH(8)"
    then show "bit b n \<longleftrightarrow> bit c n" using eq[rule_format, of "7 - n"] by simp
  qed
qed simp

definition skip_byte :: "bool \<Rightarrow> byte" where
  "skip_byte v = (if v then 0 else 255)"

lemma byte_bits_skip: "byte_bits (skip_byte v) = replicate 8 (\<not> v)"
proof -
  have "byte_bits 0 = replicate 8 False" "byte_bits 255 = replicate 8 True" by code_simp+
  then show ?thesis by (simp add: skip_byte_def)
qed

lemma skip_byte_iff: "b = skip_byte v \<longleftrightarrow> v \<notin> set (byte_bits b)"
proof
  assume "v \<notin> set (byte_bits b)"
  then have "byte_bits b = replicate 8 (\<not> v)"
    by (intro replicate_eqI) (auto intro: ccontr)
  then show "b = skip_byte v" using byte_bits_eq[of b "skip_byte v"] by (simp add: byte_bits_skip)
next
  assume "b = skip_byte v"
  then show "v \<notin> set (byte_bits b)" by (simp add: byte_bits_skip)
qed

lemma skip_bytes_iff: "(\<forall>b \<in> set bs. b = skip_byte v) \<longleftrightarrow> v \<notin> set (string_bits bs)"
  by (induction bs) (auto simp: skip_byte_iff)

lemma skipped_bits: "v \<notin> set (string_bits bs) \<Longrightarrow> string_bits bs = replicate (8 * length bs) (\<not> v)"
  by (intro replicate_eqI) (auto intro: ccontr)

lemma unat_le_word:
  "8 * length bs \<le> LENGTH('a) \<Longrightarrow> unat (le_word bs :: 'a::len word) = le_nat (map unat bs) \<and>
     le_nat (map unat bs) < 2 ^ (8 * length bs)"
proof (induction bs)
  case (Cons b bs)
  then have ih: "unat (le_word bs :: 'a word) = le_nat (map unat bs)" "le_nat (map unat bs) < 2 ^ (8 * length bs)"
    by auto
  have lt: "le_nat (map unat (b # bs)) < 2 ^ (8 * length (b # bs))"
    using ih(2) unat_byte_lt[of b] by (simp add: power_add)
  have "(2 :: nat) ^ (8 * length (b # bs)) \<le> 2 ^ LENGTH('a)"
    using Cons.prems by (intro power_increasing) auto
  then have "le_nat (map unat (b # bs)) < 2 ^ LENGTH('a)" by (rule less_le_trans[OF lt])
  then have lt2: "unat b + 256 * le_nat (map unat bs) < 2 ^ LENGTH('a)" by simp
  have p: "unat (push_bit 8 (le_word bs) :: 'a word) = 256 * le_nat (map unat bs)"
    unfolding unsigned_push_bit_eq ih(1) using lt2
    by (simp add: push_bit_eq_mult mult.commute take_bit_nat_eq_self)
  have c: "unat (ucast b :: 'a word) = unat b"
    using Cons.prems by (intro unat_ucast_wider) simp
  have "unat (le_word (b # bs) :: 'a word) = unat b + 256 * le_nat (map unat bs)"
    using lt2 by (simp add: unat_word_ariths p c)
  then show ?case using lt by simp
qed simp

lemma le_nat_skip: "le_nat (map unat (bs :: bytes)) = le_nat (map unat (replicate (length bs) c)) \<longleftrightarrow> (\<forall>b \<in> set bs. b = c)"
proof (induction bs)
  case (Cons b bs)
  have "unat b + 256 * x = unat c + 256 * y \<longleftrightarrow> unat b = unat c \<and> x = y" for x y
  proof
    assume e: "unat b + 256 * x = unat c + 256 * y"
    have "(unat b + 256 * x) mod 256 = unat b" "(unat c + 256 * y) mod 256 = unat c"
      using unat_byte_lt[of b] unat_byte_lt[of c] by simp_all
    then have "unat b = unat c" unfolding e by simp
    then show "unat b = unat c \<and> x = y" using e by simp
  qed simp
  then show ?case using Cons by (simp add: word_unat_eq_iff)
qed simp

definition skip_word :: "bool \<Rightarrow> u64" where
  "skip_word v = (if v then 0 else - 1)"

lemma replicate_8: "replicate 8 x = [x, x, x, x, x, x, x, x]"
  by (simp add: eval_nat_numeral)

lemma skip_word_le: "skip_word v = le_word (replicate 8 (skip_byte v))"
proof -
  have "unat (le_word (replicate 8 255) :: u64) = unat (- 1 :: u64)"
    using unat_le_word[of "replicate 8 255", where 'a = 64]
    by (simp add: replicate_8 unsigned_minus_1_eq_mask mask_eq_exp_minus_1)
  moreover have "le_word (replicate 8 0) = (0 :: u64)" by (simp add: replicate_8)
  ultimately show ?thesis by (simp add: skip_word_def skip_byte_def word_unat_eq_iff)
qed

lemma load64_skip:
  assumes "8 \<le> length bs"
  obtains l where "load64 bs = Ok l" and "l = skip_word v \<longleftrightarrow> v \<notin> set (string_bits (take 8 bs))"
proof
  show "load64 bs = Ok (le_word (take 8 bs))" using assms by (simp add: load64_def)
  have "(le_word (take 8 bs) :: u64) = skip_word v \<longleftrightarrow>
          le_nat (map unat (take 8 bs)) = le_nat (map unat (replicate (length (take 8 bs)) (skip_byte v)))"
    unfolding skip_word_le word_unat_eq_iff
    using unat_le_word[of "take 8 bs", where 'a = 64] unat_le_word[of "replicate 8 (skip_byte v)", where 'a = 64] assms
    by (simp add: min_def)
  then show "(le_word (take 8 bs) :: u64) = skip_word v \<longleftrightarrow> v \<notin> set (string_bits (take 8 bs))"
    by (simp only: le_nat_skip skip_bytes_iff)
qed

subsection \<open>The loops\<close>

text \<open>
  What the two skipping loops leave: a prefix of \<open>m\<close> bytes without the bit is skipped, and when they
  stop early the bit is among the next eight bytes.
\<close>

definition skipped :: "bool \<Rightarrow> bytes \<Rightarrow> nat \<Rightarrow> bool" where
  "skipped v bs m \<longleftrightarrow> m \<le> length bs \<and> v \<notin> set (string_bits (take m bs))"

lemma skipped_add:
  "skipped v bs m \<Longrightarrow> skipped v (drop m bs) k \<Longrightarrow> skipped v bs (m + k)"
  by (auto simp: skipped_def take_add)

lemma bitpos_align_skips:
  "\<exists>m found. bitpos_align (skip_byte v) c bs (length bs) pos = Ok (found, drop m bs, length bs - m, pos + 8 * int m) \<and>
     skipped v bs m \<and> (found \<longrightarrow> v \<in> set (string_bits (take 8 (drop m bs))))"
proof (induction bs arbitrary: c pos)
  case Nil
  then show ?case by (auto simp: skipped_def)
next
  case (Cons b bs)
  consider "c AND 7 = 0" | "c AND 7 \<noteq> 0" "b \<noteq> skip_byte v" | "c AND 7 \<noteq> 0" "b = skip_byte v" by blast
  then show ?case
  proof cases
    case 1
    then show ?thesis by (intro exI[of _ 0] exI[of _ False]) (simp add: skipped_def)
  next
    case 2
    then show ?thesis
      by (intro exI[of _ 0] exI[of _ True]) (simp add: skipped_def skip_byte_iff)
  next
    case 3
    obtain m found where m: "bitpos_align (skip_byte v) (c + 1) bs (length bs) (pos + 8) =
        Ok (found, drop m bs, length bs - m, pos + 8 + 8 * int m)"
      "skipped v bs m" "found \<longrightarrow> v \<in> set (string_bits (take 8 (drop m bs)))"
      using Cons.IH[of "c + 1" "pos + 8"] by blast
    then show ?thesis
      using 3 skip_byte_iff[of b v] by (intro exI[of _ "Suc m"] exI[of _ found]) (auto simp: skipped_def)
  qed
qed

lemma bitpos_words_skips:
  "\<exists>m. bitpos_words (skip_word v) bs (length bs) pos = Ok (drop m bs, length bs - m, pos + 8 * int m) \<and>
     skipped v bs m \<and> (length bs - m < 8 \<or> v \<in> set (string_bits (take 8 (drop m bs))))"
proof (induction "length bs" arbitrary: bs pos rule: less_induct)
  case less
  show ?case
  proof (cases "8 \<le> length bs")
    case False
    then show ?thesis by (intro exI[of _ 0]) (simp add: bitpos_words.simps[of _ bs] skipped_def)
  next
    case True
    obtain l where l: "load64 bs = Ok l" "l = skip_word v \<longleftrightarrow> v \<notin> set (string_bits (take 8 bs))"
      using load64_skip[OF True] by blast
    show ?thesis
    proof (cases "l = skip_word v")
      case False
      then show ?thesis using l True by (intro exI[of _ 0]) (simp add: bitpos_words.simps[of _ bs] skipped_def)
    next
      case skip: True
      have "\<exists>m. bitpos_words (skip_word v) (drop 8 bs) (length (drop 8 bs)) (pos + 64) =
          Ok (drop m (drop 8 bs), length (drop 8 bs) - m, pos + 64 + 8 * int m) \<and> skipped v (drop 8 bs) m \<and>
          (length (drop 8 bs) - m < 8 \<or> v \<in> set (string_bits (take 8 (drop m (drop 8 bs)))))"
        using True by (intro less) simp
      then obtain m where "bitpos_words (skip_word v) (drop 8 bs) (length bs - 8) (pos + 64) =
          Ok (drop m (drop 8 bs), length bs - 8 - m, pos + 64 + 8 * int m)" "skipped v (drop 8 bs) m"
          "length bs - 8 - m < 8 \<or> v \<in> set (string_bits (take 8 (drop m (drop 8 bs))))"
        by auto
      then show ?thesis
        using skip l True skipped_add[of v bs 8 m]
        by (intro exI[of _ "8 + m"]) (auto simp: bitpos_words.simps[of _ bs] skipped_def add.commute)
    qed
  qed
qed

text \<open>Appending bits to a word on the right.\<close>

definition shift_in :: "u64 \<Rightarrow> bool list \<Rightarrow> u64" where
  "shift_in w xs = foldl (\<lambda>w b. push_bit 1 w OR of_bool b) w xs"

lemma bit_shift_one:
  "n < 64 \<Longrightarrow> bit (push_bit 1 (w :: u64) OR of_bool x) n \<longleftrightarrow> (if n = 0 then x else bit w (n - 1))"
  unfolding bit_or_iff bit_push_bit_iff bit_of_bool_iff by auto

lemma bit_shift_in:
  "n < 64 \<Longrightarrow> bit (shift_in w xs) n \<longleftrightarrow>
     (if n < length xs then xs ! (length xs - 1 - n) else bit w (n - length xs))"
proof (induction xs arbitrary: n rule: rev_induct)
  case Nil
  then show ?case by (simp add: shift_in_def)
next
  case (snoc x xs)
  have "bit (shift_in w (xs @ [x])) n \<longleftrightarrow> (if n = 0 then x else bit (shift_in w xs) (n - 1))"
    unfolding shift_in_def foldl_append foldl.simps by (rule bit_shift_one[OF snoc.prems])
  then show ?case using snoc.IH[of "n - 1"] snoc.prems by (auto simp: nth_append)
qed

lemma shift_in_byte: "push_bit 8 w OR ucast b = shift_in w (byte_bits b)"
proof (rule bit_word_eqI)
  fix n assume n: "n < LENGTH(64)"
  show "bit (push_bit 8 w OR ucast b) n \<longleftrightarrow> bit (shift_in w (byte_bits b)) n"
  proof (cases "n < 8")
    case True
    then show ?thesis using n
      by (simp add: bit_shift_in bit_or_iff bit_push_bit_iff bit_ucast_iff byte_bits_def)
  next
    case False
    then have "\<not> bit b n" by (auto dest: bit_imp_le_length)
    then show ?thesis using n False
      by (simp add: bit_shift_in bit_or_iff bit_push_bit_iff bit_ucast_iff)
  qed
qed

lemma shift_in_append: "shift_in (shift_in w xs) ys = shift_in w (xs @ ys)"
  by (simp add: shift_in_def)

lemma bitpos_load_bits:
  "bitpos_load j bs (length bs) w = Ok (shift_in w (string_bits (take j (bs @ replicate j 0))))"
proof (induction j arbitrary: bs w)
  case 0
  then show ?case by (simp add: shift_in_def)
next
  case (Suc j)
  show ?case
  proof (cases bs)
    case Nil
    have "push_bit 8 w = shift_in w (byte_bits 0)" using shift_in_byte[of w 0] by simp
    then show ?thesis using Suc.IH[of "[]" "shift_in w (byte_bits 0)"] Nil by (simp add: shift_in_append)
  next
    case (Cons b c)
    have "take j (c @ replicate (Suc j) 0) = take j (c @ replicate j 0)"
      by (simp flip: replicate_append_same)
    then show ?thesis using Suc.IH[of c "shift_in w (byte_bits b)"] Cons
      by (simp add: shift_in_byte shift_in_append)
  qed
qed

lemma bitpos_scan_finds:
  assumes "n < 64"
  shows "bitpos_scan (2 ^ n) word (if v then 1 else 0) pos =
           (let xs = map (bit word) (rev [0..<Suc n])
            in if v \<in> set xs then pos + int (leading v xs) else 0)"
  using assms
proof (induction n arbitrary: pos)
  case 0
  have "(1 :: u64) AND word \<noteq> 0 \<longleftrightarrow> bit word 0" by (simp add: and_one_eq one_and_eq odd_iff_mod_2_eq_one bit_0)
  then show ?case
    by (cases v) (simp_all add: bitpos_scan.simps[of 1] bitpos_scan.simps[of 0] leading_Cons)
next
  case (Suc n)
  have nz: "(2 :: u64) ^ Suc n \<noteq> 0" using Suc.prems by (simp add: power_eq_0_iff exp_eq_zero_iff del: power_Suc)
  have half: "drop_bit 1 (2 ^ Suc n :: u64) = 2 ^ n"
    using Suc.prems by (intro bit_word_eqI) (auto simp: bit_drop_bit_eq bit_exp_iff simp del: power_Suc)
  have b: "(2 ^ Suc n :: u64) AND word \<noteq> 0 \<longleftrightarrow> bit word (Suc n)"
    using and_exp_eq_0_iff_not_bit[of word "Suc n"] by (simp add: and.commute del: power_Suc)
  have l: "map (bit word) (rev [0..<Suc (Suc n)]) = bit word (Suc n) # map (bit word) (rev [0..<Suc n])"
    by simp
  show ?case
    unfolding bitpos_scan.simps[of "2 ^ Suc n"] half b l using nz Suc.IH[of "pos + 1"] Suc.prems
    by (cases v) (auto simp: Let_def leading_Cons simp del: power_Suc)
qed

subsection \<open>The whole routine\<close>

lemma first_bit_skipped:
  assumes "skipped v bs m"
  shows "first_bit v bs = (let r = first_bit v (drop m bs) in if r = - 1 then - 1 else 8 * int m + r)"
proof -
  have "leading v (string_bits (take m bs @ drop m bs)) =
          8 * m + leading v (string_bits (drop m bs))"
    unfolding string_bits_simps(3)
    using assms leading_append_skip[of v "string_bits (take m bs)"] by (simp add: skipped_def)
  then show ?thesis using assms by (auto simp: first_bit_def Let_def skipped_def)
qed

text \<open>The last word: eight bytes, padded with zeros on the right.\<close>

lemma last_word:
  fixes bs :: bytes
  assumes "length bs < 8 \<or> v \<in> set (string_bits (take 8 bs))"
  defines "xs \<equiv> string_bits (take 8 (bs @ replicate 8 0))"
  shows "(if v \<and> v \<notin> set xs then - 1 else int (leading v xs)) = first_bit v bs"
    and "\<not> v \<Longrightarrow> v \<in> set xs"
proof -
  have zeros: "set (string_bits (replicate n 0)) = (if n = 0 then {} else {False})" for n
    using byte_bits_skip[of True] by (induction n) (auto simp: skip_byte_def)
  have xs: "xs = string_bits (take 8 bs) @ string_bits (replicate (8 - length bs) 0)"
    by (simp add: xs_def min_def)
  show "\<not> v \<Longrightarrow> v \<in> set xs" using assms(1) zeros by (auto simp: xs)
  show "(if v \<and> v \<notin> set xs then - 1 else int (leading v xs)) = first_bit v bs"
  proof (cases "v \<in> set (string_bits (take 8 bs))")
    case True
    have eq: "leading v (string_bits bs) = leading v xs"
    proof -
      have "string_bits bs = string_bits (take 8 bs) @ string_bits (drop 8 bs)"
        by (simp flip: string_bits_simps(3))
      then show ?thesis unfolding xs using leading_append_found[OF True] by simp
    qed
    have "v \<in> set (string_bits bs)" using True by (metis UnI1 append_take_drop_id set_append string_bits_simps(3))
    then have "leading v (string_bits bs) \<noteq> 8 * length bs"
      using leading_less[of v "string_bits bs"] by simp
    moreover have "v \<in> set xs" using True by (simp add: xs)
    ultimately show ?thesis by (simp add: first_bit_def Let_def eq)
  next
    case False
    then have lt: "length bs < 8" and no: "v \<notin> set (string_bits bs)" using assms(1) by auto
    have all: "leading v (string_bits bs) = 8 * length bs"
      using leading_none[OF no] by simp
    show ?thesis
    proof (cases v)
      case True
      then have "v \<notin> set xs" using no zeros lt by (simp add: xs)
      then show ?thesis using True all by (simp add: first_bit_def)
    next
      case False
      have "leading v xs = 8 * length bs + leading v (string_bits (replicate (8 - length bs) 0))"
        unfolding xs using lt no by (simp add: leading_append_skip)
      moreover have "leading v (string_bits (replicate (8 - length bs) 0)) = 0"
      proof (cases "string_bits (replicate (8 - length bs) 0 :: bytes)")
        case (Cons y ys)
        then have "y \<in> set (string_bits (replicate (8 - length bs) 0))" by simp
        then have "y = False" using zeros[of "8 - length bs"] by (simp split: if_splits)
        then show ?thesis using Cons False by (simp add: leading_Cons)
      qed simp
      ultimately show ?thesis using False all by (simp add: first_bit_def)
    qed
  qed
qed

lemma shift_in_bits:
  assumes "length xs = 64"
  shows "map (bit (shift_in 0 xs)) (rev [0..<64]) = xs"
  using assms by (intro nth_equalityI) (auto simp: bit_shift_in rev_nth)

lemma shift_in_zero_iff:
  assumes "length xs = 64"
  shows "shift_in 0 xs = 0 \<longleftrightarrow> True \<notin> set xs"
proof
  assume z: "shift_in 0 xs = 0"
  show "True \<notin> set xs" using shift_in_bits[OF assms, unfolded z] by auto
next
  assume "True \<notin> set xs"
  then have "\<not> xs ! i" if "i < 64" for i using that assms by (metis (full_types) nth_mem)
  then show "shift_in 0 xs = 0"
    using assms by (intro bit_word_eqI) (simp add: bit_shift_in)
qed

lemma redisBitpos_first:
  fixes v :: bool
  shows "redisBitpos s bs (length bs) (if v then 1 else 0) = Ok (first_bit v bs)"
proof -
  have sk: "(if (if v then 1 else 0 :: int) \<noteq> 0 then 0 else 255) = skip_byte v"
    "(if (if v then 1 else 0 :: int) \<noteq> 0 then 0 else - 1) = skip_word v"
    by (simp_all add: skip_byte_def skip_word_def)
  obtain m1 found where a: "bitpos_align (skip_byte v) s bs (length bs) 0 = Ok (found, drop m1 bs, length bs - m1, 8 * int m1)"
    and s1: "skipped v bs m1" and f: "found \<longrightarrow> v \<in> set (string_bits (take 8 (drop m1 bs)))"
    using bitpos_align_skips[of v s bs 0] by auto
  obtain m2 where w: "(if \<not> found then bitpos_words (skip_word v) (drop m1 bs) (length bs - m1) (8 * int m1)
        else Ok (drop m1 bs, length bs - m1, 8 * int m1)) =
      Ok (drop m2 (drop m1 bs), length bs - m1 - m2, 8 * int m1 + 8 * int m2)"
    and s2: "skipped v (drop m1 bs) m2"
    and stop: "length bs - m1 - m2 < 8 \<or> v \<in> set (string_bits (take 8 (drop m2 (drop m1 bs))))"
  proof (cases found)
    case True
    then show thesis using that[of 0] f by (simp add: skipped_def)
  next
    case False
    then show thesis using bitpos_words_skips[of v "drop m1 bs" "8 * int m1"] that by auto
  qed
  define m where "m = m1 + m2"
  define r where "r = drop m bs"
  have s: "skipped v bs m" unfolding m_def by (rule skipped_add[OF s1 s2])
  have r: "drop m2 (drop m1 bs) = r" "length bs - m1 - m2 = length r" by (simp_all add: r_def m_def add.commute)
  define xs where "xs = string_bits (take 8 (r @ replicate 8 0))"
  have len: "length xs = 64" by (simp add: xs_def)
  have last: "(if v \<and> v \<notin> set xs then - 1 else int (leading v xs)) = first_bit v r"
    "\<not> v \<Longrightarrow> v \<in> set xs"
    unfolding xs_def using stop unfolding r by (intro last_word; simp)+
  have scan: "bitpos_scan (NOT (drop_bit 1 (- 1))) (shift_in 0 xs) (if v then 1 else 0) pos =
      (if v \<in> set xs then pos + int (leading v xs) else 0)" for pos
  proof -
    have "NOT (drop_bit 1 (- 1)) = (2 ^ 63 :: u64)" by code_simp
    moreover have "map (bit (shift_in 0 xs)) (rev [0..<Suc 63]) = xs" using shift_in_bits[OF len] by simp
    ultimately show ?thesis using bitpos_scan_finds[of 63 "shift_in 0 xs" v pos] by (simp only: Let_def)
  qed
  show ?thesis
    unfolding redisBitpos_def sk a bind_res_simps prod.case w r bitpos_load_bits
      first_bit_skipped[OF s] r_def[symmetric] xs_def[symmetric] shift_in_zero_iff[OF len] scan
    using last by (auto simp: Let_def m_def)
qed

section \<open>Properties\<close>

text \<open>
  C17. \<open>redisPopcount\<close> is the number of ones: for a string at any address, the table for the unaligned
  bytes, the seven words counted in parallel at 32 bits and the table for the rest together give the
  number of bits set in the first \<open>count\<close> bytes, and no byte after them is read.
\<close>

theorem popcount_is_number_of_ones:
  assumes "0 \<le> count" and "nat count \<le> length bs"
  shows "redisPopcount s bs count = Ok (of_nat (length (filter id (string_bits (take (nat count) bs)))))"
  using redisPopcount_ones[OF assms] by (simp add: count_ones_def)

theorem popcount_is_number_of_ones_witness: "redisPopcount 1 (replicate 40 0x0F) 40 = Ok 160"
proof -
  have "length (filter id (string_bits (take (nat 40) (replicate 40 0x0F)))) = 160" by code_simp
  then show ?thesis using popcount_is_number_of_ones[of 40 "replicate 40 0x0F" 1] by simp
qed

text \<open>
  C18. \<open>redisBitpos\<close> is the position of the first bit: for a string at any address and a bit of 0 or 1 it
  gives the index of the first such bit, with -1 for a one that does not occur and the bit after
  the last one for a zero that does not occur; the skipping by words and the padded last word
  never change the result, and the end that reports an error is not reached.
\<close>

theorem bitpos_is_first_bit:
  "redisBitpos s bs (length bs) (if v then 1 else 0) = Ok (first_bit v bs)"
  by (rule redisBitpos_first)

end
