(* ===== verification/Resp_Parser.thy ===== *)
theory Resp_Parser
  imports C_Strings
begin

text \<open>
  The incremental parser of client commands, \<open>resp_cmd_process_sm\<close> of \<^verbatim>\<open>lib/resp_parser.c\<close>: one step
  function per label of the C function, over a heap of buffers whose bytes may be uninitialised and a
  non-blocking socket.  A label either jumps to a label or returns a status; \<open>sm->state\<close> says where the
  next call continues.
\<close>

section \<open>Sizes and longs\<close>

text \<open>
  A \<open>size_t\<close> or a \<open>long\<close> is an \<open>int\<close>; \<open>size_t x\<close> is the conversion to (and the arithmetic of)
  \<open>size_t\<close>, \<open>to_long\<close> the conversion to \<open>long\<close>, and \<open>long_op\<close> the result of an operation on \<open>long\<close>s,
  which must not overflow.
\<close>

definition size_t :: "int \<Rightarrow> int" where
  "size_t x = x mod 2 ^ 64"

definition to_long :: "int \<Rightarrow> int" where
  "to_long x = (x + 2 ^ 63) mod 2 ^ 64 - 2 ^ 63"

definition long_op :: "int \<Rightarrow> int res" where
  "long_op x = (if - (2 ^ 63) \<le> x \<and> x < 2 ^ 63 then Ok x else Fault SignedOverflow)"

section \<open>Buffers and the socket\<close>

type_synonym cells = "byte option list"

text \<open>
  What the socket has to give, in order.  \<open>Bytes\<close> is data that has arrived together; a socket with
  nothing more is one that would block.
\<close>

datatype segment = Bytes bytes | WouldBlock | Shutdown | SocketError

record rp_world =
  w_heap :: "cells option list"
  w_net :: "segment list"

datatype recv_result = Received bytes | RecvAgain | RecvEnd

fun sock_recv :: "nat \<Rightarrow> segment list \<Rightarrow> recv_result \<times> segment list" where
  "sock_recv n [] = (RecvAgain, [])"
| "sock_recv n (WouldBlock # net) = (RecvAgain, net)"
| "sock_recv n (Shutdown # net) = (RecvEnd, Shutdown # net)"
| "sock_recv n (SocketError # net) = (RecvEnd, SocketError # net)"
| "sock_recv n (Bytes bs # net) =
     (if bs = [] then sock_recv n net
      else if length bs \<le> n then (Received bs, net)
      else (Received (take n bs), Bytes (drop n bs) # net))"

definition heap_block :: "addr \<Rightarrow> rp_world \<Rightarrow> cells res" where
  "heap_block a w =
     (if a = NULL then Fault NullDeref
      else if length (w_heap w) < a then Fault Dangling
      else case w_heap w ! (a - 1) of None \<Rightarrow> Fault UseAfterFree | Some cs \<Rightarrow> Ok cs)"

definition heap_write :: "addr \<Rightarrow> nat \<Rightarrow> cells \<Rightarrow> rp_world \<Rightarrow> rp_world res" where
  "heap_write a off bs w =
     bind_res (heap_block a w) (\<lambda>cs.
       if off + length bs \<le> length cs then
         Ok (w\<lparr>w_heap := (w_heap w)[a - 1 := Some (take off cs @ bs @ drop (off + length bs) cs)]\<rparr>)
       else Fault OutOfBounds)"

definition cell_at :: "cells \<Rightarrow> int \<Rightarrow> byte res" where
  "cell_at cs i =
     (if i < 0 \<or> int (length cs) \<le> i then Fault OutOfBounds
      else case cs ! nat i of None \<Rightarrow> Fault UninitRead | Some b \<Rightarrow> Ok b)"

definition buf_at :: "addr \<Rightarrow> int \<Rightarrow> rp_world \<Rightarrow> byte res" where
  "buf_at a i w = bind_res (heap_block a w) (\<lambda>cs. cell_at cs i)"

text \<open>\<open>memchr\<close> and \<open>strtol\<close> from an offset of a buffer; an uninitialised byte must not be reached.\<close>

fun memchr_cells :: "byte \<Rightarrow> cells \<Rightarrow> nat \<Rightarrow> bool res" where
  "memchr_cells c cs 0 = Ok False"
| "memchr_cells c [] (Suc n) = Fault OutOfBounds"
| "memchr_cells c (None # cs) (Suc n) = Fault UninitRead"
| "memchr_cells c (Some b # cs) (Suc n) = (if b = c then Ok True else memchr_cells c cs n)"

definition strtol_cells :: "cells \<Rightarrow> (int \<times> nat) res" where
  "strtol_cells cs =
     (let known = takeWhile (\<lambda>x. x \<noteq> None) cs in
      case strtol10 (map the known) of
        Ok r \<Rightarrow> Ok r
      | Fault e \<Rightarrow> Fault (if length known < length cs then UninitRead else e))"

definition buf_memchr :: "byte \<Rightarrow> addr \<Rightarrow> int \<Rightarrow> int \<Rightarrow> rp_world \<Rightarrow> bool res" where
  "buf_memchr c a off n w = bind_res (heap_block a w) (\<lambda>cs. memchr_cells c (drop (nat off) cs) (nat n))"

definition buf_strtol :: "addr \<Rightarrow> int \<Rightarrow> rp_world \<Rightarrow> (int \<times> int) res" where
  "buf_strtol a off w =
     bind_res (heap_block a w) (\<lambda>cs. bind_res (strtol_cells (drop (nat off) cs)) (\<lambda>(v, n). Ok (v, off + int n)))"

text \<open>
  \<open>malloc\<close> grants a request of some sizes (an argument of the model).  \<open>rp_create_buffer\<close> does not
  look at its result.
\<close>

type_synonym grants = "int \<Rightarrow> bool"

definition rp_create_buffer :: "grants \<Rightarrow> int \<Rightarrow> rp_world \<Rightarrow> (addr \<times> rp_world) res" where
  "rp_create_buffer mal sz w =
     (let n = size_t (sz + 1) in
      if \<not> mal n then Fault NullDeref
      else if n \<le> sz then Fault OutOfBounds
      else Ok (length (w_heap w) + 1,
             w\<lparr>w_heap := w_heap w @ [Some ((replicate (nat n) None)[nat sz := Some 0])]\<rparr>))"

text \<open>\<open>recv\<close> into the unused part of a buffer.\<close>

definition rp_fill_remaining :: "addr \<Rightarrow> int \<Rightarrow> int \<Rightarrow> rp_world \<Rightarrow> (recv_result \<times> rp_world) res" where
  "rp_fill_remaining buf used_length total_size w =
     (if \<not> used_length < total_size then Fault AssertFail
      else case sock_recv (nat (total_size - used_length)) (w_net w) of
        (Received bs, net) \<Rightarrow>
          bind_res (heap_write buf (nat used_length) (map Some bs) (w\<lparr>w_net := net\<rparr>)) (\<lambda>w'.
          Ok (Received bs, w'))
      | (r, net) \<Rightarrow> Ok (r, w\<lparr>w_net := net\<rparr>))"

section \<open>The parser's state\<close>

text \<open>Arrays of \<open>malloc\<close>: null, or their slots, each unset or set.\<close>

type_synonym 'a slots = "'a option list option"

definition slots_put :: "'a slots \<Rightarrow> int \<Rightarrow> 'a \<Rightarrow> 'a slots res" where
  "slots_put a i x =
     (case a of None \<Rightarrow> Fault NullDeref
      | Some xs \<Rightarrow> if 0 \<le> i \<and> i < int (length xs) then Ok (Some (xs[nat i := Some x])) else Fault OutOfBounds)"

definition slots_alloc :: "grants \<Rightarrow> int \<Rightarrow> 'a slots" where
  "slots_alloc mal n =
     (let k = size_t (8 * size_t n) in if mal k then Some (replicate (nat (k div 8)) None) else None)"

record resp_allocations =
  ra_allocations :: "addr slots"
  ra_argv :: "(addr \<times> int) slots"
  ra_argv_lengths :: "int slots"
  ra_argc :: int
  ra_allocation_count :: int
  ra_tag :: u32

text \<open>
  What \<open>resp_cmd_init\<close> puts into its block of \<open>sizeof(struct resp_allocations)\<close> bytes; where it is called, the block must
  be granted.
\<close>

definition RESP_ALLOCATIONS_SIZE :: int where
  "RESP_ALLOCATIONS_SIZE = 40"

definition resp_cmd_init :: "u32 \<Rightarrow> resp_allocations" where
  "resp_cmd_init tag = \<lparr>ra_allocations = None, ra_argv = None, ra_argv_lengths = None, ra_argc = 0,
     ra_allocation_count = 0, ra_tag = tag\<rparr>"

definition resp_get_tag :: "resp_allocations \<Rightarrow> u32" where
  "resp_get_tag allocs = ra_tag allocs"

datatype resp_sm_state =
    RESP_SM_CLEAN | RESP_SM_BS_START_PRE | RESP_SM_BS_BODY_FIT | RESP_SM_BS_BODY_BIGBUF
  | RESP_SM_ARY_START | RESP_SM_BS_START | RESP_SM_SS_START | RESP_SM_ERR_START

datatype resp_sm_status =
    RESP_SM_STATUS_ERROR | RESP_SM_STATUS_EMPTY | RESP_SM_STATUS_CLOSED | RESP_SM_STATUS_MORE
  | RESP_SM_STATUS_DONE

record resp_sm_buf =
  rb_buf :: addr
  rb_start_ptr :: int
  rb_end_ptr :: int
  rb_length :: int
  rb_bs_length :: int
  rb_argc_countdown :: int

record 'u resp_sm =
  sm_fd :: int
  sm_user_data :: 'u
  sm_state :: resp_sm_state
  sm_data :: resp_sm_buf
  sm_result :: "resp_allocations option"

text \<open>\<open>bs_length\<close> and \<open>argc_countdown\<close> are left as \<open>malloc\<close> gave them.\<close>

definition resp_sm_init :: "int \<Rightarrow> int \<Rightarrow> int \<Rightarrow> 'u \<Rightarrow> 'u resp_sm" where
  "resp_sm_init bs_length argc_countdown fd data =
     \<lparr>sm_fd = fd, sm_user_data = data, sm_state = RESP_SM_CLEAN,
      sm_data = \<lparr>rb_buf = NULL, rb_start_ptr = 0, rb_end_ptr = 0, rb_length = 0,
        rb_bs_length = bs_length, rb_argc_countdown = argc_countdown\<rparr>,
      sm_result = None\<rparr>"

definition resp_sm_data :: "'u resp_sm \<Rightarrow> 'u" where
  "resp_sm_data sm = sm_user_data sm"

definition resp_sm_fd :: "'u resp_sm \<Rightarrow> int" where
  "resp_sm_fd sm = sm_fd sm"

definition resp_cmd_sm_allocs :: "'u resp_sm \<Rightarrow> resp_allocations option" where
  "resp_cmd_sm_allocs sm = sm_result sm"

definition on_data :: "(resp_sm_buf \<Rightarrow> resp_sm_buf) \<Rightarrow> 'u resp_sm \<Rightarrow> 'u resp_sm" where
  "on_data f sm = sm\<lparr>sm_data := f (sm_data sm)\<rparr>"

text \<open>\<open>sm->result->allocations[sm->result->allocation_count] = buf; allocation_count += 1\<close>.\<close>

definition result_add_allocation :: "addr \<Rightarrow> resp_allocations \<Rightarrow> resp_allocations res" where
  "result_add_allocation a r =
     bind_res (slots_put (ra_allocations r) (ra_allocation_count r) a) (\<lambda>al.
     Ok (r\<lparr>ra_allocations := al, ra_allocation_count := ra_allocation_count r + 1\<rparr>))"

definition on_result ::
    "(resp_allocations \<Rightarrow> resp_allocations res) \<Rightarrow> 'u resp_sm \<Rightarrow> 'u resp_sm res" where
  "on_result f sm =
     (case sm_result sm of None \<Rightarrow> Fault NullDeref
      | Some r \<Rightarrow> bind_res (f r) (\<lambda>r'. Ok (sm\<lparr>sm_result := Some r'\<rparr>)))"

section \<open>The labels\<close>

definition BUFSIZE :: int where
  "BUFSIZE = 256"

definition RESP_SM_MAX_CHARS_IN_SIZE :: int where
  "RESP_SM_MAX_CHARS_IN_SIZE = 32"

datatype rp_label =
    L_CLEAN | L_ARY_START | L_BS_INIT | L_BS_START_PRE | L_BS_START | L_BS_BODY | L_BS_BODY_FIT
  | L_BS_BODY_BIGBUF | L_BS_BODY_FINISH

datatype rp_next = Goto rp_label | Return resp_sm_status

type_synonym 'u rp_out = "(rp_next \<times> 'u resp_sm \<times> rp_world) res"

text \<open>
  \<open>recv_length = rp_fill_remaining(...); if (recv_length > 0) end_ptr += recv_length; else
  resp_sm_handle_bad_recv(recv_length)\<close>, then the rest.
\<close>

definition rp_receive :: "'u resp_sm \<Rightarrow> rp_world \<Rightarrow> ('u resp_sm \<Rightarrow> rp_world \<Rightarrow> 'u rp_out) \<Rightarrow> 'u rp_out" where
  "rp_receive sm w k =
     (let d = sm_data sm in
      bind_res (rp_fill_remaining (rb_buf d) (rb_end_ptr d) (rb_length d) w) (\<lambda>(r, w').
        case r of
          Received bs \<Rightarrow> k (on_data (\<lambda>d. d\<lparr>rb_end_ptr := rb_end_ptr d + int (length bs)\<rparr>) sm) w'
        | RecvAgain \<Rightarrow> Ok (Return RESP_SM_STATUS_EMPTY, sm, w')
        | RecvEnd \<Rightarrow> Ok (Return RESP_SM_STATUS_CLOSED, sm, w')))"

definition rp_fresh_buffer :: "grants \<Rightarrow> int \<Rightarrow> 'u resp_sm \<Rightarrow> rp_world \<Rightarrow> ('u resp_sm \<times> rp_world) res" where
  "rp_fresh_buffer mal sz sm w =
     bind_res (rp_create_buffer mal sz w) (\<lambda>(a, w').
     Ok (on_data (\<lambda>d. d\<lparr>rb_buf := a, rb_start_ptr := 0, rb_end_ptr := 0, rb_length := sz\<rparr>) sm, w'))"

definition rp_clean_check :: "'u resp_sm \<Rightarrow> rp_world \<Rightarrow> 'u rp_out" where
  "rp_clean_check sm w =
     bind_res (buf_at (rb_buf (sm_data sm)) (rb_start_ptr (sm_data sm)) w) (\<lambda>c.
       if c = 42 then
         Ok (Goto L_ARY_START,
             on_data (\<lambda>d. d\<lparr>rb_start_ptr := rb_start_ptr d + 1\<rparr>) (sm\<lparr>sm_state := RESP_SM_ARY_START\<rparr>), w)
       else Ok (Return RESP_SM_STATUS_ERROR, sm, w))"

definition rp_clean :: "grants \<Rightarrow> 'u resp_sm \<Rightarrow> rp_world \<Rightarrow> 'u rp_out" where
  "rp_clean mal sm w =
     (if \<not> (rb_buf (sm_data sm) = NULL \<or> rb_start_ptr (sm_data sm) = 0) then Fault AssertFail
      else if \<not> mal RESP_ALLOCATIONS_SIZE then Fault NullDeref
      else
        let sm = sm\<lparr>sm_result := Some (resp_cmd_init 0)\<rparr> in
        bind_res (if rb_buf (sm_data sm) = NULL then rp_fresh_buffer mal BUFSIZE sm w else Ok (sm, w)) (\<lambda>(sm, w).
          if rb_start_ptr (sm_data sm) = rb_end_ptr (sm_data sm) then rp_receive sm w rp_clean_check
          else rp_clean_check sm w))"

text \<open>\<open>*ptr == '\r' && *(ptr + 1) == '\n'\<close>.\<close>

definition crlf_at :: "addr \<Rightarrow> int \<Rightarrow> rp_world \<Rightarrow> bool res" where
  "crlf_at a i w =
     bind_res (buf_at a i w) (\<lambda>c. if c = 13 then bind_res (buf_at a (i + 1) w) (\<lambda>c2. Ok (c2 = 10)) else Ok False)"

definition rp_ary_arrays :: "grants \<Rightarrow> resp_sm_buf \<Rightarrow> resp_allocations \<Rightarrow> resp_allocations res" where
  "rp_ary_arrays mal d r =
     (let argc = to_long (rb_argc_countdown d) in
      bind_res (long_op (argc + 1)) (\<lambda>n.
      result_add_allocation (rb_buf d)
        (r\<lparr>ra_argc := argc, ra_allocations := slots_alloc mal n, ra_argv := slots_alloc mal argc,
           ra_argv_lengths := slots_alloc mal argc\<rparr>)))"

definition rp_ary_start :: "grants \<Rightarrow> 'u resp_sm \<Rightarrow> rp_world \<Rightarrow> 'u rp_out" where
  "rp_ary_start mal sm w =
     (let d = sm_data sm; buf = rb_buf d; avail = size_t (rb_end_ptr d - rb_start_ptr d) in
      if \<not> RESP_SM_MAX_CHARS_IN_SIZE < size_t (rb_length d - rb_start_ptr d) then Fault AssertFail
      else
        bind_res (if 2 < avail then buf_memchr 13 buf (rb_start_ptr d) (size_t (rb_end_ptr d - 2 - rb_start_ptr d)) w
                  else Ok False) (\<lambda>complete.
        if complete then
          bind_res (buf_strtol buf (rb_start_ptr d) w) (\<lambda>(v, ptr).
          let sm = on_data (\<lambda>d. d\<lparr>rb_argc_countdown := size_t v\<rparr>) sm in
          bind_res (crlf_at buf ptr w) (\<lambda>ok.
          if \<not> ok then Ok (Return RESP_SM_STATUS_ERROR, sm, w)
          else
            let sm = on_data (\<lambda>d. d\<lparr>rb_start_ptr := ptr + 2\<rparr>) sm in
            bind_res (buf_at buf (ptr + 2) w) (\<lambda>c.
            if c = 36 then
              bind_res (on_result (rp_ary_arrays mal (sm_data sm)) sm) (\<lambda>sm. Ok (Goto L_BS_INIT, sm, w))
            else Ok (Return RESP_SM_STATUS_ERROR, sm, w))))
        else if RESP_SM_MAX_CHARS_IN_SIZE \<le> avail then Ok (Return RESP_SM_STATUS_ERROR, sm, w)
        else rp_receive sm w (\<lambda>sm w. Ok (Goto L_ARY_START, sm, w))))"

definition rp_bs_init :: "'u resp_sm \<Rightarrow> rp_world \<Rightarrow> 'u rp_out" where
  "rp_bs_init sm w =
     Ok (Goto L_BS_START_PRE, on_data (\<lambda>d. d\<lparr>rb_bs_length := 0\<rparr>) (sm\<lparr>sm_state := RESP_SM_BS_START_PRE\<rparr>), w)"

definition rp_bs_start_pre :: "grants \<Rightarrow> 'u resp_sm \<Rightarrow> rp_world \<Rightarrow> 'u rp_out" where
  "rp_bs_start_pre mal sm w =
     (let d = sm_data sm in
      if rb_start_ptr d < rb_end_ptr d then
        bind_res (buf_at (rb_buf d) (rb_start_ptr d) w) (\<lambda>c.
          if c \<noteq> 36 then Ok (Return RESP_SM_STATUS_ERROR, sm, w)
          else Ok (Goto L_BS_START,
                 on_data (\<lambda>d. d\<lparr>rb_start_ptr := rb_start_ptr d + 1\<rparr>) (sm\<lparr>sm_state := RESP_SM_BS_START\<rparr>), w))
      else if rb_end_ptr d < rb_length d then rp_receive sm w (\<lambda>sm w. Ok (Goto L_BS_START_PRE, sm, w))
      else
        bind_res (rp_fresh_buffer mal BUFSIZE sm w) (\<lambda>(sm, w).
        bind_res (on_result (result_add_allocation (rb_buf (sm_data sm))) sm) (\<lambda>sm.
        rp_receive sm w (\<lambda>sm w. Ok (Goto L_BS_START_PRE, sm, w)))))"

definition rp_bs_start :: "grants \<Rightarrow> 'u resp_sm \<Rightarrow> rp_world \<Rightarrow> 'u rp_out" where
  "rp_bs_start mal sm w =
     (let d = sm_data sm; buf = rb_buf d; start = rb_start_ptr d; avail = size_t (rb_end_ptr d - start) in
      bind_res (if 1 < avail then buf_memchr 13 buf start (size_t (rb_end_ptr d - 1 - start)) w else Ok False)
        (\<lambda>complete.
        if complete then
          bind_res (buf_strtol buf start w) (\<lambda>(bs_length_internal, ptr).
          bind_res (long_op (10 * (ptr - start))) (\<lambda>f.
          bind_res (long_op (rb_bs_length d * f)) (\<lambda>m.
          bind_res (long_op (m + bs_length_internal)) (\<lambda>bs_length.
          let sm = on_data (\<lambda>d. d\<lparr>rb_bs_length := bs_length\<rparr>) sm in
          bind_res (crlf_at buf ptr w) (\<lambda>ok.
          if \<not> ok then Ok (Return RESP_SM_STATUS_ERROR, sm, w)
          else Ok (Goto L_BS_BODY, on_data (\<lambda>d. d\<lparr>rb_start_ptr := ptr + 2\<rparr>) sm, w))))))
        else if RESP_SM_MAX_CHARS_IN_SIZE \<le> avail then Ok (Return RESP_SM_STATUS_ERROR, sm, w)
        else if rb_end_ptr d \<noteq> rb_length d then rp_receive sm w (\<lambda>sm w. Ok (Goto L_BS_START, sm, w))
        else
          bind_res (buf_strtol buf start w) (\<lambda>(v, ptr).
          bind_res (rp_fresh_buffer mal BUFSIZE (on_data (\<lambda>d. d\<lparr>rb_bs_length := v\<rparr>) sm) w) (\<lambda>(sm, w).
          bind_res (on_result (result_add_allocation (rb_buf (sm_data sm))) sm) (\<lambda>sm.
          rp_receive sm w (\<lambda>sm w. Ok (Goto L_BS_START, sm, w)))))))"

definition rp_bs_body :: "grants \<Rightarrow> 'u resp_sm \<Rightarrow> rp_world \<Rightarrow> 'u rp_out" where
  "rp_bs_body mal sm w =
     (let d = sm_data sm in
      bind_res (long_op (rb_bs_length d + 2)) (\<lambda>n.
      if size_t n \<le> size_t (rb_length d - rb_start_ptr d) then
        Ok (Goto L_BS_BODY_FIT, sm\<lparr>sm_state := RESP_SM_BS_BODY_FIT\<rparr>, w)
      else
        bind_res (rp_fresh_buffer mal (size_t n) (sm\<lparr>sm_state := RESP_SM_BS_BODY_BIGBUF\<rparr>) w) (\<lambda>(sm, w).
        bind_res (on_result (result_add_allocation (rb_buf (sm_data sm))) sm) (\<lambda>sm.
        rp_receive sm w (\<lambda>sm w. Ok (Goto L_BS_BODY_BIGBUF, sm, w))))))"

text \<open>
  \<open>argv[argc - argc_countdown] = p\<close> and \<open>argv_lengths[argc - argc_countdown] = bs_length\<close>; the index is
  a \<open>size_t\<close>.
\<close>

definition result_set_arg :: "resp_sm_buf \<Rightarrow> addr \<times> int \<Rightarrow> resp_allocations \<Rightarrow> resp_allocations res" where
  "result_set_arg d p r =
     (let i = size_t (ra_argc r - rb_argc_countdown d) in
      bind_res (slots_put (ra_argv r) i p) (\<lambda>argv.
      bind_res (slots_put (ra_argv_lengths r) i (rb_bs_length d)) (\<lambda>lengths.
      Ok (r\<lparr>ra_argv := argv, ra_argv_lengths := lengths\<rparr>))))"

definition rp_bs_body_fit :: "'u resp_sm \<Rightarrow> rp_world \<Rightarrow> 'u rp_out" where
  "rp_bs_body_fit sm w =
     (let d = sm_data sm; buf = rb_buf d; start = rb_start_ptr d in
      bind_res (long_op (rb_bs_length d + 2)) (\<lambda>n.
      if size_t n \<le> size_t (rb_end_ptr d - start) then
        bind_res (crlf_at buf (to_long (start + rb_bs_length d)) w) (\<lambda>ok.
        if \<not> ok then Ok (Return RESP_SM_STATUS_ERROR, sm, w)
        else
          bind_res (on_result (result_set_arg d (buf, start)) sm) (\<lambda>sm.
          Ok (Goto L_BS_BODY_FINISH, on_data (\<lambda>d. d\<lparr>rb_start_ptr := size_t (start + n)\<rparr>) sm, w)))
      else rp_receive sm w (\<lambda>sm w. Ok (Goto L_BS_BODY_FIT, sm, w))))"

definition rp_bs_body_bigbuf :: "grants \<Rightarrow> 'u resp_sm \<Rightarrow> rp_world \<Rightarrow> 'u rp_out" where
  "rp_bs_body_bigbuf mal sm w =
     (let d = sm_data sm in
      bind_res (long_op (rb_bs_length d + 2)) (\<lambda>n.
      if size_t (rb_end_ptr d - rb_start_ptr d) < size_t n then
        rp_receive sm w (\<lambda>sm w. Ok (Goto L_BS_BODY_BIGBUF, sm, w))
      else
        bind_res (on_result (result_set_arg d (rb_buf d, 0)) sm) (\<lambda>sm.
        bind_res (rp_fresh_buffer mal BUFSIZE sm w) (\<lambda>(sm, w).
        bind_res (on_result (result_add_allocation (rb_buf (sm_data sm))) sm) (\<lambda>sm.
        Ok (Goto L_BS_BODY_FINISH, sm, w))))))"

definition rp_bs_body_finish :: "grants \<Rightarrow> 'u resp_sm \<Rightarrow> rp_world \<Rightarrow> 'u rp_out" where
  "rp_bs_body_finish mal sm w =
     (let sm = on_data (\<lambda>d. d\<lparr>rb_argc_countdown := size_t (rb_argc_countdown d - 1)\<rparr>) sm; d = sm_data sm in
      if 0 < rb_argc_countdown d then Ok (Goto L_BS_INIT, sm, w)
      else if rb_start_ptr d = rb_end_ptr d then
        Ok (Return RESP_SM_STATUS_DONE,
            on_data (\<lambda>d. d\<lparr>rb_buf := NULL, rb_start_ptr := 0, rb_end_ptr := 0\<rparr>) (sm\<lparr>sm_state := RESP_SM_CLEAN\<rparr>), w)
      else
        let n = size_t (rb_end_ptr d - rb_start_ptr d) in
        bind_res (rp_create_buffer mal BUFSIZE w) (\<lambda>(a, w).
        bind_res (heap_block (rb_buf d) w) (\<lambda>cs.
        if int (length cs) < rb_start_ptr d + n then Fault OutOfBounds
        else
          bind_res (heap_write a 0 (take (nat n) (drop (nat (rb_start_ptr d)) cs)) w) (\<lambda>w.
          Ok (Return RESP_SM_STATUS_MORE,
              on_data (\<lambda>d. d\<lparr>rb_buf := a, rb_start_ptr := 0, rb_end_ptr := n, rb_length := BUFSIZE\<rparr>)
                (sm\<lparr>sm_state := RESP_SM_CLEAN\<rparr>), w)))))"

section \<open>The parser\<close>

fun rp_step :: "grants \<Rightarrow> rp_label \<Rightarrow> 'u resp_sm \<Rightarrow> rp_world \<Rightarrow> 'u rp_out" where
  "rp_step mal L_CLEAN = rp_clean mal"
| "rp_step mal L_ARY_START = rp_ary_start mal"
| "rp_step mal L_BS_INIT = rp_bs_init"
| "rp_step mal L_BS_START_PRE = rp_bs_start_pre mal"
| "rp_step mal L_BS_START = rp_bs_start mal"
| "rp_step mal L_BS_BODY = rp_bs_body mal"
| "rp_step mal L_BS_BODY_FIT = rp_bs_body_fit"
| "rp_step mal L_BS_BODY_BIGBUF = rp_bs_body_bigbuf mal"
| "rp_step mal L_BS_BODY_FINISH = rp_bs_body_finish mal"

partial_function (option) rp_run ::
    "grants \<Rightarrow> rp_label \<Rightarrow> 'u resp_sm \<Rightarrow> rp_world \<Rightarrow> (resp_sm_status \<times> 'u resp_sm \<times> rp_world) run" where
  "rp_run mal l sm w =
     (case rp_step mal l sm w of
        Inl e \<Rightarrow> faults e
      | Inr (n, sm', w') \<Rightarrow>
          (case n of Return s \<Rightarrow> returns (s, sm', w') | Goto l' \<Rightarrow> rp_run mal l' sm' w'))"

declare rp_run.simps [code]

text \<open>The \<open>switch\<close> on the state.\<close>

fun rp_entry :: "resp_sm_state \<Rightarrow> rp_label option" where
  "rp_entry RESP_SM_CLEAN = Some L_CLEAN"
| "rp_entry RESP_SM_ARY_START = Some L_ARY_START"
| "rp_entry RESP_SM_BS_START_PRE = Some L_BS_START_PRE"
| "rp_entry RESP_SM_BS_START = Some L_BS_START"
| "rp_entry RESP_SM_BS_BODY_FIT = Some L_BS_BODY_FIT"
| "rp_entry RESP_SM_BS_BODY_BIGBUF = Some L_BS_BODY_BIGBUF"
| "rp_entry _ = None"

definition resp_cmd_process_sm ::
    "grants \<Rightarrow> 'u resp_sm \<Rightarrow> rp_world \<Rightarrow> (resp_sm_status \<times> 'u resp_sm \<times> rp_world) run" where
  "resp_cmd_process_sm mal sm w =
     (case rp_entry (sm_state sm) of
        Some l \<Rightarrow> rp_run mal l sm w
      | None \<Rightarrow> returns (RESP_SM_STATUS_ERROR, sm, w))"

text \<open>What the caller does with a command: read its arguments, free its buffers (all but the last).\<close>

definition resp_cmd_args :: "resp_allocations \<Rightarrow> int \<times> (addr \<times> int) slots \<times> int slots" where
  "resp_cmd_args allocs = (ra_argc allocs, ra_argv allocs, ra_argv_lengths allocs)"

fun resp_cmd_free_loop :: "nat \<Rightarrow> int \<Rightarrow> resp_allocations \<Rightarrow> rp_world \<Rightarrow> rp_world res" where
  "resp_cmd_free_loop 0 i allocs w = Ok w"
| "resp_cmd_free_loop (Suc n) i allocs w =
     (case ra_allocations allocs of
        None \<Rightarrow> Fault NullDeref
      | Some xs \<Rightarrow>
          if int (length xs) \<le> i then Fault OutOfBounds
          else case xs ! nat i of
            None \<Rightarrow> Fault UninitRead
          | Some a \<Rightarrow> bind_res (heap_block a w) (\<lambda>_.
              resp_cmd_free_loop n (i + 1) allocs (w\<lparr>w_heap := (w_heap w)[a - 1 := None]\<rparr>)))"

definition resp_cmd_free :: "resp_allocations \<Rightarrow> rp_world \<Rightarrow> rp_world res" where
  "resp_cmd_free allocs w = resp_cmd_free_loop (nat (ra_allocation_count allocs - 1)) 0 allocs w"

end
