(* ===== verification/Resp_Encode.thy ===== *)
theory Resp_Encode
  imports Resp_Parser
begin

text \<open>
  The encoding of a command as an array of bulk strings, decimal numbers and their reading by
  \<open>strtol\<close>, and the lemmas on the buffers and the socket of the parser: what a buffer holds is a prefix
  of the stream, and the socket has the rest.
\<close>

section \<open>Decimal numbers\<close>

fun dec :: "nat \<Rightarrow> bytes" where
  "dec n = (if n < 10 then [48 + of_nat n] else dec (n div 10) @ [48 + of_nat (n mod 10)])"

declare dec.simps [simp del]

lemma digit_byte:
  assumes "n < 10"
  shows "unat (48 + of_nat n :: byte) = 48 + n" and "is_digit (48 + of_nat n)"
    and "48 + of_nat n \<noteq> (13 :: byte)" and "\<not> is_space (48 + of_nat n)"
    and "48 + of_nat n \<noteq> (45 :: byte)" and "48 + of_nat n \<noteq> (43 :: byte)"
proof -
  show u: "unat (48 + of_nat n :: byte) = 48 + n"
    using assms by (simp add: unat_word_ariths unsigned_of_nat take_bit_nat_eq_self)
  then show "is_digit (48 + of_nat n)" using assms by (simp add: is_digit_def word_le_nat_alt)
  show "48 + of_nat n \<noteq> (13 :: byte)" "48 + of_nat n \<noteq> (45 :: byte)" "48 + of_nat n \<noteq> (43 :: byte)"
    using u assms by (auto simp: word_unat_eq_iff)
  show "\<not> is_space (48 + of_nat n)" using u assms by (auto simp: is_space_def word_unat_eq_iff word_le_nat_alt)
qed

lemma dec_digits: "c \<in> set (dec n) \<Longrightarrow> is_digit c \<and> c \<noteq> 13"
proof (induction n rule: dec.induct)
  case (1 n)
  then show ?case
    using digit_byte[of n] digit_byte[of "n mod 10"] by (auto simp: dec.simps[of n] split: if_splits)
qed

lemma dec_nonempty [simp]: "dec n \<noteq> []"
  by (simp add: dec.simps)

lemma dec_hd: "\<exists>m < 10. hd (dec n) = 48 + of_nat m"
proof (induction n rule: dec.induct)
  case (1 n)
  then show ?case by (cases "n < 10") (auto simp: dec.simps[of n])
qed

lemma digits_value_append: "digits_value acc (xs @ ys) = digits_value (digits_value acc xs) ys"
  by (induction acc xs rule: digits_value.induct) simp_all

lemma digits_value_dec: "digits_value 0 (dec n) = n"
proof (induction n rule: dec.induct)
  case (1 n)
  then show ?case
    using digit_byte(1)[of n] digit_byte(1)[of "n mod 10"]
    by (auto simp: dec.simps[of n] digits_value_append)
qed

lemma length_dec: "n < 10 ^ k \<Longrightarrow> 0 < k \<Longrightarrow> length (dec n) \<le> k"
proof (induction k arbitrary: n)
  case (Suc k)
  show ?case
  proof (cases "n < 10")
    case True
    then show ?thesis by (simp add: dec.simps)
  next
    case False
    then have "n div 10 < 10 ^ k" "0 < k" using Suc.prems by (auto intro: Nat.gr0I)
    then have "length (dec (n div 10)) \<le> k" by (rule Suc.IH)
    then show ?thesis using False by (simp add: dec.simps[of n])
  qed
qed simp

lemma strtol10_dec:
  assumes "n < 2 ^ 63" and "\<not> is_digit c"
  shows "strtol10 (dec n @ c # r) = Ok (int n, length (dec n))"
proof -
  obtain d ds where d: "dec n = d # ds" by (cases "dec n") auto
  obtain m where m: "m < 10" "d = 48 + of_nat m" using dec_hd[of n] d by auto
  have nosp: "takeWhile is_space (dec n @ c # r) = []" "dropWhile is_space (dec n @ c # r) = dec n @ c # r"
    using digit_byte(4)[OF m(1)] m(2) d by auto
  have hd: "hd (dec n @ c # r) \<noteq> 45" "hd (dec n @ c # r) \<noteq> 43"
    using digit_byte(5,6)[OF m(1)] m(2) d by auto
  have tw: "takeWhile is_digit (dec n @ c # r) = dec n" "dropWhile is_digit (dec n @ c # r) = c # r"
    using dec_digits assms(2) by (simp_all add: takeWhile_append dropWhile_append)
  have "clamp_long (int n) = int n" using assms(1) by (simp add: clamp_long_def)
  then show ?thesis
    unfolding strtol10_def Let_def nosp using hd tw by (simp add: digits_value_dec)
qed

section \<open>Commands on the wire\<close>

definition enc_arg :: "bytes \<Rightarrow> bytes" where
  "enc_arg a = 36 # dec (length a) @ [13, 10] @ a @ [13, 10]"

definition enc_head :: "nat \<Rightarrow> bytes" where
  "enc_head n = 42 # dec n @ [13, 10]"

definition enc_command :: "bytes list \<Rightarrow> bytes" where
  "enc_command args = enc_head (length args) @ concat (map enc_arg args)"

text \<open>The position of argument \<open>k\<close>, and of its contents.\<close>

definition arg_pos :: "bytes list \<Rightarrow> nat \<Rightarrow> nat" where
  "arg_pos args k = length (enc_head (length args) @ concat (map enc_arg (take k args)))"

definition text_pos :: "bytes list \<Rightarrow> nat \<Rightarrow> nat" where
  "text_pos args k = arg_pos args k + 1 + length (dec (length (args ! k))) + 2"

lemma arg_pos_Suc:
  assumes "k < length args"
  shows "arg_pos args (Suc k) = text_pos args k + length (args ! k) + 2"
  using assms by (simp add: arg_pos_def text_pos_def take_Suc_conv_app_nth enc_arg_def)

lemma arg_pos_0: "arg_pos args 0 = 1 + length (dec (length args)) + 2"
  by (simp add: arg_pos_def enc_head_def)

lemma arg_pos_length: "arg_pos args (length args) = length (enc_command args)"
  by (simp add: arg_pos_def enc_command_def)

lemma arg_pos_mono:
  assumes "j \<le> k" and "k \<le> length args"
  shows "arg_pos args j \<le> arg_pos args k"
proof -
  have "take k args = take j args @ drop j (take k args)" using assms by (metis append_take_drop_id min.absorb1 take_take)
  then have "concat (map enc_arg (take k args)) = concat (map enc_arg (take j args)) @ concat (map enc_arg (drop j (take k args)))"
    by (metis concat_append map_append)
  then show ?thesis by (simp add: arg_pos_def)
qed

lemma arg_pos_le: "k \<le> length args \<Longrightarrow> arg_pos args k \<le> length (enc_command args)"
  using arg_pos_mono[of k "length args" args] by (simp add: arg_pos_length)

lemma enc_at:
  assumes "k < length args"
  shows "drop (arg_pos args k) (enc_command args @ rest) =
           enc_arg (args ! k) @ drop (arg_pos args (Suc k)) (enc_command args @ rest)"
proof -
  define pre where "pre = enc_head (length args) @ concat (map enc_arg (take k args))"
  define post where "post = concat (map enc_arg (drop (Suc k) args)) @ rest"
  have "concat (map enc_arg args) = concat (map enc_arg (take k args @ args ! k # drop (Suc k) args))"
    using id_take_nth_drop[OF assms] by simp
  then have S: "enc_command args @ rest = pre @ enc_arg (args ! k) @ post"
    by (simp add: enc_command_def pre_def post_def)
  have "arg_pos args k = length pre" by (simp add: arg_pos_def pre_def)
  moreover have "arg_pos args (Suc k) = length pre + length (enc_arg (args ! k))"
    using assms by (simp add: arg_pos_Suc text_pos_def \<open>arg_pos args k = length pre\<close> enc_arg_def)
  ultimately show ?thesis unfolding S by (simp only: drop_append) simp
qed

section \<open>The socket and the buffers\<close>

fun net_bytes :: "segment list \<Rightarrow> bytes" where
  "net_bytes [] = []"
| "net_bytes (Bytes bs # net) = bs @ net_bytes net"
| "net_bytes (_ # net) = net_bytes net"

fun net_open :: "segment list \<Rightarrow> bool" where
  "net_open [] = True"
| "net_open (Bytes bs # net) = net_open net"
| "net_open (WouldBlock # net) = net_open net"
| "net_open (_ # net) = False"

fun net_weight :: "segment list \<Rightarrow> nat" where
  "net_weight [] = 0"
| "net_weight (Bytes bs # net) = Suc (length bs) + net_weight net"
| "net_weight (_ # net) = Suc (net_weight net)"

text \<open>A read of an open socket gives some bytes of the stream, or says that there are none now.\<close>

lemma sock_recv_cases:
  assumes "net_open net" and "0 < n"
  obtains (Again) net' where "sock_recv n net = (RecvAgain, net')" "net_open net'"
      "net_bytes net' = net_bytes net" "net' = [] \<or> net_weight net' < net_weight net"
  | (Data) bs net' where "sock_recv n net = (Received bs, net')" "net_open net'" "bs \<noteq> []" "length bs \<le> n"
      "net_bytes net = bs @ net_bytes net'" "net_weight net' < net_weight net"
  using assms
proof (induction n net arbitrary: thesis rule: sock_recv.induct)
  case (5 n bs net)
  show ?case
  proof (cases "bs = []")
    case True
    show ?thesis
    proof (rule 5(1)[OF True])
      fix net' assume "sock_recv n net = (RecvAgain, net')" "net_open net'"
        "net_bytes net' = net_bytes net" "net' = [] \<or> net_weight net' < net_weight net"
      then show ?thesis using True by (intro 5(2)[of net']) auto
    next
      fix bs' net' assume "sock_recv n net = (Received bs', net')" "net_open net'" "bs' \<noteq> []" "length bs' \<le> n"
        "net_bytes net = bs' @ net_bytes net'" "net_weight net' < net_weight net"
      then show ?thesis using True by (intro 5(3)[of bs' net']) auto
    qed (use 5(4,5) in auto)
  next
    case False
    show ?thesis
    proof (cases "length bs \<le> n")
      case True
      then show ?thesis using False 5(4) by (intro 5(3)) auto
    next
      case long: False
      then show ?thesis using False 5(4,5) by (intro 5(3)[of "take n bs" "Bytes (drop n bs) # net"]) auto
    qed
  qed
qed auto

text \<open>Buffer \<open>a\<close> holds the first \<open>e\<close> bytes of the stream \<open>S\<close>; the rest has not been read.\<close>

definition buf_ok :: "bytes \<Rightarrow> addr \<Rightarrow> nat \<Rightarrow> rp_world \<Rightarrow> bool" where
  "buf_ok S a e w \<longleftrightarrow>
     (\<exists>cs. heap_block a w = Ok cs \<and> length cs = 257 \<and> e \<le> 256 \<and> e \<le> length S \<and>
        take e cs = map Some (take e S)) \<and>
     net_open (w_net w) \<and> net_bytes (w_net w) = drop e S"

lemma size_t_id [simp]: "0 \<le> x \<Longrightarrow> x < 2 ^ 64 \<Longrightarrow> size_t x = x"
  by (simp add: size_t_def)

lemma to_long_id [simp]: "0 \<le> x \<Longrightarrow> x < 2 ^ 63 \<Longrightarrow> to_long x = x"
  by (simp add: to_long_def)

lemma long_op_id [simp]: "0 \<le> x \<Longrightarrow> x < 2 ^ 63 \<Longrightarrow> long_op x = Ok x"
  by (simp add: long_op_def)

lemma buf_okE:
  assumes "buf_ok S a e w"
  obtains cs where "heap_block a w = Ok cs" "length cs = 257" "e \<le> 256" "e \<le> length S"
    "take e cs = map Some (take e S)" "net_open (w_net w)" "net_bytes (w_net w) = drop e S"
  using assms by (auto simp: buf_ok_def)

lemma buf_ok_nth:
  assumes "take e cs = map Some (take e S)" and "i < e" and "e \<le> length S" "e \<le> length cs"
  shows "cs ! i = Some (S ! i)"
  using assms nth_take[of i e cs] nth_take[of i e S] by (simp add: nth_map)

lemma buf_at_ok:
  assumes "buf_ok S a e w" and "i < e"
  shows "buf_at a (int i) w = Ok (S ! i)"
  using assms buf_ok_nth[of e _ S i] by (auto simp: buf_ok_def buf_at_def cell_at_def)

lemma memchr_cells_known:
  "n \<le> length bs \<Longrightarrow> memchr_cells c (map Some bs @ r) n = Ok (c \<in> set (take n bs))"
proof (induction bs arbitrary: n)
  case Nil
  then show ?case by simp
next
  case (Cons b bs)
  then show ?case by (cases n) auto
qed

lemma buf_known:
  assumes "take e cs = map Some (take e S)" and "s \<le> e" "e \<le> length S" "e \<le> length cs"
  shows "drop s cs = map Some (take (e - s) (drop s S)) @ drop e cs"
proof -
  have "drop s cs = drop s (take e cs) @ drop s (drop e cs @ []) \<or> True" by simp
  have "cs = take e cs @ drop e cs" by simp
  then have "drop s cs = drop s (take e cs) @ drop e cs"
    using assms(2,4) by (metis drop_append drop0 diff_is_0_eq length_take min.absorb2)
  then show ?thesis unfolding assms(1) by (simp add: drop_map drop_take)
qed

lemma buf_memchr_ok:
  assumes "buf_ok S a e w" and "s + n \<le> e"
  shows "buf_memchr c a (int s) (int n) w = Ok (c \<in> set (take n (drop s S)))"
proof -
  from assms(1) obtain cs where cs: "heap_block a w = Ok cs" "length cs = 257" "e \<le> 256" "e \<le> length S"
    "take e cs = map Some (take e S)" by (rule buf_okE)
  have "drop s cs = map Some (take (e - s) (drop s S)) @ drop e cs"
    using cs assms(2) by (intro buf_known) auto
  then show ?thesis
    using cs assms(2) memchr_cells_known[of n "take (e - s) (drop s S)" c "drop e cs"]
    by (simp add: buf_memchr_def min_absorb1 take_take)
qed

lemma strtol_cells_dec:
  assumes "n < 2 ^ 63" and "\<not> is_digit c"
  shows "strtol_cells (map Some (dec n @ c # r) @ r') = Ok (int n, length (dec n))"
proof -
  have "takeWhile (\<lambda>x. x \<noteq> None) (map Some (dec n @ c # r) @ r') =
          map Some (dec n @ c # r) @ takeWhile (\<lambda>x. x \<noteq> None) r'"
    by (subst takeWhile_append2) auto
  then have "map the (takeWhile (\<lambda>x. x \<noteq> None) (map Some (dec n @ c # r) @ r')) =
      dec n @ c # (r @ map the (takeWhile (\<lambda>x. x \<noteq> None) r'))" by simp
  then show ?thesis
    unfolding strtol_cells_def Let_def using strtol10_dec[OF assms] by simp
qed

lemma buf_strtol_ok:
  assumes "buf_ok S a e w" and at: "drop s S = dec n @ 13 # r" and "n < 2 ^ 63"
    and "s + length (dec n) + 1 \<le> e"
  shows "buf_strtol a (int s) w = Ok (int n, int (s + length (dec n)))"
proof -
  from assms(1) obtain cs where cs: "heap_block a w = Ok cs" "length cs = 257" "e \<le> 256" "e \<le> length S"
    "take e cs = map Some (take e S)" by (rule buf_okE)
  have "drop s cs = map Some (take (e - s) (drop s S)) @ drop e cs"
    using cs assms(4) by (intro buf_known) auto
  moreover have "take (e - s) (drop s S) = dec n @ 13 # take (e - s - length (dec n) - 1) r"
    unfolding at using assms(4) by (simp add: take_Cons')
  moreover have "\<not> is_digit 13" by (simp add: is_digit_def)
  ultimately show ?thesis
    using strtol_cells_dec[OF assms(3), of 13 "take (e - s - length (dec n) - 1) r" "drop e cs"] cs
    by (simp add: buf_strtol_def)
qed

lemma heap_block_net [simp]: "heap_block a (w\<lparr>w_net := net\<rparr>) = heap_block a w"
  by (simp add: heap_block_def)

text \<open>After a read the buffer holds more of the same stream.\<close>

lemma heap_block_write:
  assumes "heap_block a w = Ok cs" and "off + length bs \<le> length cs"
  shows "\<exists>w'. heap_write a off bs w = Ok w' \<and> w_net w' = w_net w \<and>
           heap_block a w' = Ok (take off cs @ bs @ drop (off + length bs) cs)"
proof -
  have a: "a \<noteq> NULL" "a - 1 < length (w_heap w)" "\<not> length (w_heap w) < a"
    using assms(1) by (auto simp: heap_block_def split: if_splits)
  then show ?thesis using assms by (simp add: heap_write_def heap_block_def)
qed

lemma heap_write_net: "heap_write a i cs w = Ok w' \<Longrightarrow> w_net w' = w_net w"
  by (auto simp: heap_write_def bind_res_Inr_iff split: if_splits)

lemma rp_receive_ok:
  assumes ok: "buf_ok S (rb_buf (sm_data sm)) e w" and e: "rb_end_ptr (sm_data sm) = int e"
    and len: "rb_length (sm_data sm) = 256" and lt: "e < 256"
  obtains (Empty) w' where "rp_receive sm w k = Ok (Return RESP_SM_STATUS_EMPTY, sm, w')"
      "buf_ok S (rb_buf (sm_data sm)) e w'" "w_net w' = [] \<or> net_weight (w_net w') < net_weight (w_net w)"
  | (More) e' w' where "e < e'"
      "rp_receive sm w k = k (on_data (\<lambda>d. d\<lparr>rb_end_ptr := int e'\<rparr>) sm) w'"
      "buf_ok S (rb_buf (sm_data sm)) e' w'" "net_weight (w_net w') < net_weight (w_net w)"
proof -
  let ?a = "rb_buf (sm_data sm)"
  from ok obtain cs where cs: "heap_block ?a w = Ok cs" "length cs = 257" "e \<le> length S"
    "take e cs = map Some (take e S)" and net: "net_open (w_net w)" "net_bytes (w_net w) = drop e S"
    by (rule buf_okE)
  have cap: "nat (256 - int e) = 256 - e" by simp
  have fill: "rp_fill_remaining ?a (rb_end_ptr (sm_data sm)) (rb_length (sm_data sm)) w =
      (case sock_recv (256 - e) (w_net w) of
        (Received bs, net) \<Rightarrow>
          bind_res (heap_write ?a e (map Some bs) (w\<lparr>w_net := net\<rparr>)) (\<lambda>w'. Ok (Received bs, w'))
      | (r, net) \<Rightarrow> Ok (r, w\<lparr>w_net := net\<rparr>))"
    unfolding rp_fill_remaining_def e len cap nat_int using lt by simp
  have "0 < 256 - e" using lt by simp
  with net(1) show thesis
  proof (cases rule: sock_recv_cases)
    case (Again net')
    have "buf_ok S ?a e (w\<lparr>w_net := net'\<rparr>)"
      using ok Again net by (simp add: buf_ok_def)
    moreover have "rp_receive sm w k = Ok (Return RESP_SM_STATUS_EMPTY, sm, w\<lparr>w_net := net'\<rparr>)"
      unfolding rp_receive_def Let_def fill using Again(1) by simp
    ultimately show thesis using that(1) Again(4) by simp
  next
    case (Data bs net')
    let ?w = "w\<lparr>w_net := net'\<rparr>"
    have "heap_block ?a ?w = Ok cs" using cs(1) by simp
    moreover have "e + length (map Some bs) \<le> length cs" using Data(4) cs(2) lt by simp
    ultimately obtain w' where w': "heap_write ?a e (map Some bs) ?w = Ok w'" "w_net w' = net'"
      "heap_block ?a w' = Ok (take e cs @ map Some bs @ drop (e + length bs) cs)"
      using heap_block_write[of ?a ?w cs e "map Some bs"] by auto
    have S: "drop e S = bs @ net_bytes net'" using net(2) Data(5) by simp
    have take: "take (e + length bs) S = take e S @ bs" by (simp add: take_add S)
    have dS: "drop (e + length bs) S = net_bytes net'"
      using arg_cong[OF S, of "drop (length bs)"] by (simp add: add.commute)
    have lS: "e + length bs \<le> length S" using arg_cong[OF S, of length] cs(3) by simp
    have "buf_ok S ?a (e + length bs) w'"
      unfolding buf_ok_def using w' Data(2,4) cs lt lS by (auto simp: take dS)
    moreover have "rp_receive sm w k = k (on_data (\<lambda>d. d\<lparr>rb_end_ptr := int (e + length bs)\<rparr>) sm) w'"
      unfolding rp_receive_def Let_def fill using Data(1) w'(1) by (simp add: e on_data_def)
    ultimately show thesis using that(2)[of "e + length bs" w'] Data(3,6) w'(2) by simp
  qed
qed

end
