(* ===== verification/Resp_Roundtrip.thy ===== *)
theory Resp_Roundtrip
  imports Resp_Encode
begin

text \<open>
  The parser reads back every command of up to 256 bytes, however the network cuts it up: an
  invariant of the labels, kept by every step, with a measure that decreases until the parser
  waits for data or has the whole command.
\<close>

section \<open>The invariant of the labels\<close>

definition small_command :: "bytes list \<Rightarrow> bool" where
  "small_command args \<longleftrightarrow> args \<noteq> [] \<and> length (enc_command args) \<le> 256"

text \<open>A command is at most 51 arguments: its arrays are small requests, which \<open>malloc\<close> grants.\<close>

definition small_grants :: "grants \<Rightarrow> bool" where
  "small_grants mal \<longleftrightarrow> (\<forall>n. 0 \<le> n \<longrightarrow> n \<le> 4096 \<longrightarrow> mal n)"

text \<open>The first \<open>k\<close> arguments are recorded.\<close>

definition args_done :: "bytes list \<Rightarrow> nat \<Rightarrow> addr \<Rightarrow> resp_allocations \<Rightarrow> bool" where
  "args_done args k a r \<longleftrightarrow>
     ra_argc r = int (length args) \<and> ra_allocation_count r = 1 \<and>
     (\<exists>al. ra_allocations r = Some al \<and> length al = Suc (length args) \<and> al ! 0 = Some a) \<and>
     (\<exists>av. ra_argv r = Some av \<and> length av = length args \<and>
        (\<forall>i < k. av ! i = Some (a, int (text_pos args i)))) \<and>
     (\<exists>ls. ra_argv_lengths r = Some ls \<and> length ls = length args \<and>
        (\<forall>i < k. ls ! i = Some (int (length (args ! i)))))"

text \<open>
  At label \<open>l\<close>, with \<open>k\<close> arguments recorded, \<open>e\<close> bytes in the buffer and the stream \<open>S\<close>.
\<close>

definition at_start :: "nat \<Rightarrow> nat \<Rightarrow> resp_sm_buf \<Rightarrow> bool" where
  "at_start s e d \<longleftrightarrow> rb_start_ptr d = int s \<and> rb_end_ptr d = int e \<and> s \<le> e \<and> rb_length d = 256"

definition in_args :: "bytes list \<Rightarrow> nat \<Rightarrow> 'u resp_sm \<Rightarrow> bool" where
  "in_args args k sm \<longleftrightarrow> k < length args \<and>
     rb_argc_countdown (sm_data sm) = int (length args) - int k \<and>
     (\<exists>r. sm_result sm = Some r \<and> args_done args k (rb_buf (sm_data sm)) r)"

fun at_label :: "rp_label \<Rightarrow> bytes list \<Rightarrow> nat \<Rightarrow> nat \<Rightarrow> 'u resp_sm \<Rightarrow> bool" where
  "at_label L_CLEAN args k e sm = False"
| "at_label L_ARY_START args k e sm \<longleftrightarrow>
     sm_state sm = RESP_SM_ARY_START \<and> at_start 1 e (sm_data sm) \<and> k = 0 \<and> sm_result sm = Some (resp_cmd_init 0)"
| "at_label L_BS_INIT args k e sm \<longleftrightarrow> in_args args k sm \<and> at_start (arg_pos args k) e (sm_data sm)"
| "at_label L_BS_START_PRE args k e sm \<longleftrightarrow>
     sm_state sm = RESP_SM_BS_START_PRE \<and> in_args args k sm \<and> at_start (arg_pos args k) e (sm_data sm) \<and>
     rb_bs_length (sm_data sm) = 0"
| "at_label L_BS_START args k e sm \<longleftrightarrow>
     sm_state sm = RESP_SM_BS_START \<and> in_args args k sm \<and> at_start (arg_pos args k + 1) e (sm_data sm) \<and>
     rb_bs_length (sm_data sm) = 0"
| "at_label L_BS_BODY args k e sm \<longleftrightarrow>
     in_args args k sm \<and> at_start (text_pos args k) e (sm_data sm) \<and>
     rb_bs_length (sm_data sm) = int (length (args ! k))"
| "at_label L_BS_BODY_FIT args k e sm \<longleftrightarrow>
     sm_state sm = RESP_SM_BS_BODY_FIT \<and> in_args args k sm \<and> at_start (text_pos args k) e (sm_data sm) \<and>
     rb_bs_length (sm_data sm) = int (length (args ! k))"
| "at_label L_BS_BODY_BIGBUF args k e sm = False"
| "at_label L_BS_BODY_FINISH args k e sm \<longleftrightarrow>
     k < length args \<and> rb_argc_countdown (sm_data sm) = int (length args) - int k \<and>
     (\<exists>r. sm_result sm = Some r \<and> args_done args (Suc k) (rb_buf (sm_data sm)) r) \<and>
     at_start (arg_pos args (Suc k)) e (sm_data sm)"

definition rp_inv :: "rp_label \<Rightarrow> bytes list \<Rightarrow> bytes \<Rightarrow> nat \<Rightarrow> 'u resp_sm \<Rightarrow> rp_world \<Rightarrow> bool" where
  "rp_inv l args rest k sm w \<longleftrightarrow>
     (\<exists>e. at_label l args k e sm \<and> buf_ok (enc_command args @ rest) (rb_buf (sm_data sm)) e w)"

text \<open>Between commands: nothing, or the first bytes of the stream, in the buffer.\<close>

definition rp_clean_inv :: "bytes \<Rightarrow> 'u resp_sm \<Rightarrow> rp_world \<Rightarrow> bool" where
  "rp_clean_inv S sm w \<longleftrightarrow>
     sm_state sm = RESP_SM_CLEAN \<and> net_open (w_net w) \<and> rb_start_ptr (sm_data sm) = 0 \<and>
     (if rb_buf (sm_data sm) = NULL then rb_end_ptr (sm_data sm) = 0 \<and> net_bytes (w_net w) = S
      else \<exists>e. rb_end_ptr (sm_data sm) = int e \<and> rb_length (sm_data sm) = 256 \<and>
             buf_ok S (rb_buf (sm_data sm)) e w)"

text \<open>The arguments of a command, as the caller reads them.\<close>

definition arg_bytes :: "rp_world \<Rightarrow> addr \<times> int \<Rightarrow> int \<Rightarrow> bytes option" where
  "arg_bytes w p n =
     (case heap_block (fst p) w of
        Inl _ \<Rightarrow> None
      | Inr cs \<Rightarrow>
          if snd p < 0 \<or> n < 0 \<or> int (length cs) < snd p + n then None
          else those (take (nat n) (drop (nat (snd p)) cs)))"

fun zip_args :: "rp_world \<Rightarrow> (addr \<times> int) option list \<Rightarrow> int option list \<Rightarrow> bytes list option" where
  "zip_args w (Some p # ps) (Some n # ns) =
     (case arg_bytes w p n of None \<Rightarrow> None | Some b \<Rightarrow> map_option ((#) b) (zip_args w ps ns))"
| "zip_args w [] [] = Some []"
| "zip_args w _ _ = None"

definition command_args :: "rp_world \<Rightarrow> resp_allocations \<Rightarrow> bytes list option" where
  "command_args w allocs =
     (case resp_cmd_args allocs of
        (argc, Some ps, Some ns) \<Rightarrow> if int (length ps) = argc then zip_args w ps ns else None
      | _ \<Rightarrow> None)"

section \<open>Positions in the stream\<close>

lemma small_command_bounds:
  assumes "small_command args" and "k < length args"
  shows "text_pos args k + length (args ! k) + 2 \<le> 256" and "length args \<le> 256"
    and "length (dec (length args)) \<le> 3" and "length (dec (length (args ! k))) \<le> 3"
    and "length (args ! k) \<le> 256"
proof -
  have le: "arg_pos args (Suc k) \<le> 256"
    using arg_pos_le[of "Suc k" args] assms by (simp add: small_command_def)
  then show t: "text_pos args k + length (args ! k) + 2 \<le> 256"
    using arg_pos_Suc[OF assms(2)] by simp
  then show a: "length (args ! k) \<le> 256" by simp
  have "length xs \<le> length (concat (map enc_arg xs))" for xs
    by (induction xs) (simp_all add: enc_arg_def)
  then have "length args \<le> length (enc_command args)" by (simp add: enc_command_def trans_le_add2)
  then show n: "length args \<le> 256" using assms by (simp add: small_command_def)
  show "length (dec (length args)) \<le> 3" "length (dec (length (args ! k))) \<le> 3"
    using n a by (intro length_dec; simp)+
qed

text \<open>The heads of all arguments are in the first buffer, and so are all arguments but the last.\<close>

definition heads_fit :: "bytes list \<Rightarrow> bool" where
  "heads_fit args \<longleftrightarrow> args \<noteq> [] \<and> text_pos args (length args - 1) \<le> 256 \<and> length (last args) < 2 ^ 62"

lemma heads_fit_arg:
  assumes "heads_fit args" and "Suc k < length args"
  shows "arg_pos args (Suc k) \<le> 256"
proof -
  have "arg_pos args (Suc k) \<le> arg_pos args (length args - 1)" using assms(2) by (intro arg_pos_mono) auto
  then show ?thesis using assms(1) by (simp add: heads_fit_def text_pos_def)
qed

lemma heads_fit_bounds:
  assumes h: "heads_fit args" and k: "k < length args"
  shows "text_pos args k \<le> 256" and "length args \<le> 256" and "length (args ! k) < 2 ^ 62"
    and "length (dec (length args)) \<le> 3" and "length (dec (length (args ! k))) \<le> 19"
proof -
  have t: "text_pos args k + (if Suc k < length args then length (args ! k) + 2 else 0) \<le> 256"
  proof (cases "Suc k < length args")
    case True
    then show ?thesis using heads_fit_arg[OF h True] arg_pos_Suc[OF k] by simp
  next
    case False
    then have "k = length args - 1" using k by simp
    then show ?thesis using h by (simp add: heads_fit_def)
  qed
  then show "text_pos args k \<le> 256" by simp
  show n: "length (args ! k) < 2 ^ 62"
  proof (cases "Suc k < length args")
    case True
    then show ?thesis using t by simp
  next
    case False
    then have "args ! k = last args" using k by (metis Suc_lessI diff_Suc_1 last_conv_nth list.size(3) not_less_zero)
    then show ?thesis using h by (simp add: heads_fit_def)
  qed
  have "length xs \<le> length (concat (map enc_arg xs))" for xs
    by (induction xs) (simp_all add: enc_arg_def)
  from this[of "take (length args - 1) args"] have "length args - 1 \<le> arg_pos args (length args - 1)"
    by (simp add: arg_pos_def)
  moreover have "arg_pos args (length args - 1) \<le> 253" using h by (simp add: heads_fit_def text_pos_def)
  ultimately show a: "length args \<le> 256" by linarith
  show "length (dec (length args)) \<le> 3" using a by (intro length_dec) simp_all
  have "length (args ! k) < 10 ^ 19" using n by simp
  then show "length (dec (length (args ! k))) \<le> 19" by (rule length_dec) simp
qed

lemma small_heads_fit:
  assumes "small_command args"
  shows "heads_fit args"
proof -
  have n: "args \<noteq> []" "length args - 1 < length args" using assms by (auto simp: small_command_def)
  show ?thesis
    using small_command_bounds(1,5)[OF assms n(2)] n(1) by (simp add: heads_fit_def last_conv_nth)
qed

lemma stream_head:
  "drop 1 (enc_command args @ rest) = dec (length args) @ 13 # 10 # drop (arg_pos args 0) (enc_command args @ rest)"
  by (simp add: enc_command_def enc_head_def arg_pos_0)

lemma stream_text:
  assumes "k < length args"
  shows "drop (arg_pos args k + 1) (enc_command args @ rest) =
           dec (length (args ! k)) @ 13 # 10 # drop (text_pos args k) (enc_command args @ rest)"
    and "drop (text_pos args k) (enc_command args @ rest) =
           args ! k @ 13 # 10 # drop (arg_pos args (Suc k)) (enc_command args @ rest)"
    and "(enc_command args @ rest) ! arg_pos args k = 36"
proof -
  define S where "S = enc_command args @ rest"
  have S: "drop (arg_pos args k) S = enc_arg (args ! k) @ drop (arg_pos args (Suc k)) S"
    unfolding S_def using assms by (rule enc_at)
  have "drop (arg_pos args k + 1) S = drop 1 (drop (arg_pos args k) S)" by (simp add: add.commute)
  then have a: "drop (arg_pos args k + 1) S =
      dec (length (args ! k)) @ 13 # 10 # args ! k @ 13 # 10 # drop (arg_pos args (Suc k)) S"
    unfolding S by (simp add: enc_arg_def)
  have "drop (text_pos args k) S = drop (length (dec (length (args ! k))) + 2) (drop (arg_pos args k + 1) S)"
    by (simp add: text_pos_def add.commute add.left_commute)
  then have b: "drop (text_pos args k) S = args ! k @ 13 # 10 # drop (arg_pos args (Suc k)) S"
    unfolding a by simp
  have "arg_pos args k < length S"
    using S by (metis append_is_Nil_conv drop_all enc_arg_def list.distinct(1) not_less)
  then have "S ! arg_pos args k = hd (drop (arg_pos args k) S)" by (simp add: hd_drop_conv_nth)
  then have "S ! arg_pos args k = 36" unfolding S by (simp add: enc_arg_def)
  then show "drop (arg_pos args k + 1) (enc_command args @ rest) =
        dec (length (args ! k)) @ 13 # 10 # drop (text_pos args k) (enc_command args @ rest)"
    "drop (text_pos args k) (enc_command args @ rest) =
        args ! k @ 13 # 10 # drop (arg_pos args (Suc k)) (enc_command args @ rest)"
    "(enc_command args @ rest) ! arg_pos args k = 36"
    using a b unfolding S_def[symmetric] by simp_all
qed

lemma stream_bytes:
  "drop s S = xs @ c # r \<Longrightarrow> S ! (s + length xs) = c \<and> s + length xs < length S"
proof -
  assume a: "drop s S = xs @ c # r"
  then have "drop s S ! length xs = c" "length xs < length (drop s S)" by simp_all
  then show ?thesis by simp
qed

lemma cr_in_number:
  assumes "drop s S = dec n @ 13 # r"
  shows "13 \<in> set (take m (drop s S)) \<longleftrightarrow> length (dec n) < m"
proof -
  have "(13 :: byte) \<notin> set (take j (dec n))" for j using dec_digits[of 13 n] by (meson in_set_takeD)
  then show ?thesis unfolding assms by (cases "m - length (dec n)") (auto simp: take_Cons')
qed

lemma crlf_ok:
  assumes ok: "buf_ok S a e w" and at: "drop s S = xs @ 13 # 10 # r" and lt: "s + length xs + 1 < e"
  shows "crlf_at a (int (s + length xs)) w = Ok True"
proof -
  have c: "S ! (s + length xs) = 13" using stream_bytes[OF at] by simp
  have "drop s S = (xs @ [13]) @ 10 # r" using at by simp
  from stream_bytes[OF this] have l: "S ! Suc (s + length xs) = 10" by simp
  have "buf_at a (int (s + length xs)) w = Ok 13"
    using buf_at_ok[OF ok, of "s + length xs"] lt c by simp
  moreover have "buf_at a (int (s + length xs) + 1) w = Ok 10"
    using buf_at_ok[OF ok, of "Suc (s + length xs)"] lt l by (simp add: add.commute)
  ultimately show ?thesis by (simp add: crlf_at_def)
qed

section \<open>Every step keeps the invariant\<close>

fun label_rank :: "rp_label \<Rightarrow> nat" where
  "label_rank L_CLEAN = 8"
| "label_rank L_ARY_START = 7"
| "label_rank L_BS_INIT = 6"
| "label_rank L_BS_START_PRE = 5"
| "label_rank L_BS_START = 4"
| "label_rank L_BS_BODY = 3"
| "label_rank L_BS_BODY_FIT = 2"
| "label_rank L_BS_BODY_BIGBUF = 1"
| "label_rank L_BS_BODY_FINISH = 0"

text \<open>
  The outcome of a step, or of a run: the parser waits, with the invariant where it will continue; or
  it has the whole command, and is clean; or (a step) it goes on, nearer to the end.
\<close>

definition waits ::
    "bytes list \<Rightarrow> bytes \<Rightarrow> rp_world \<Rightarrow> resp_sm_status \<Rightarrow> 'u resp_sm \<Rightarrow> rp_world \<Rightarrow> bool" where
  "waits args rest w s sm' w' \<longleftrightarrow>
     s = RESP_SM_STATUS_EMPTY \<and> (\<exists>l k. rp_entry (sm_state sm') = Some l \<and> rp_inv l args rest k sm' w') \<and>
     w_net w' \<noteq> [] \<and> net_weight (w_net w') < net_weight (w_net w)"

definition finishes ::
    "bytes list \<Rightarrow> bytes \<Rightarrow> rp_world \<Rightarrow> resp_sm_status \<Rightarrow> 'u resp_sm \<Rightarrow> rp_world \<Rightarrow> bool" where
  "finishes args rest w s sm' w' \<longleftrightarrow>
     (s = RESP_SM_STATUS_DONE \<and> rb_buf (sm_data sm') = NULL \<or> s = RESP_SM_STATUS_MORE \<and> rest \<noteq> []) \<and>
     rp_clean_inv rest sm' w' \<and>
     (\<exists>r. resp_cmd_sm_allocs sm' = Some r \<and> command_args w' r = Some args \<and> ra_allocation_count r = 1) \<and>
     net_weight (w_net w') \<le> net_weight (w_net w)"

definition step_ok ::
    "bytes list \<Rightarrow> bytes \<Rightarrow> rp_label \<Rightarrow> nat \<Rightarrow> rp_world \<Rightarrow> 'u rp_out \<Rightarrow> bool" where
  "step_ok args rest l k w out \<longleftrightarrow>
     (\<exists>s sm' w'. out = Ok (Return s, sm', w') \<and> (waits args rest w s sm' w' \<or> finishes args rest w s sm' w')) \<or>
     (\<exists>l' k' sm' w'. out = Ok (Goto l', sm', w') \<and> rp_inv l' args rest k' sm' w' \<and>
        net_weight (w_net w') \<le> net_weight (w_net w) \<and>
        (net_weight (w_net w') < net_weight (w_net w) \<or> length args - k' < length args - k \<or>
         k' = k \<and> label_rank l' < label_rank l))"

lemma step_okI:
  assumes "out = Ok (Goto l', sm', w)" and "rp_inv l' args rest k' sm' w"
    and "length args - k' < length args - k \<or> k' = k \<and> label_rank l' < label_rank l"
  shows "step_ok args rest l k w out"
  using assms by (auto simp: step_ok_def)

lemma await_ok:
  assumes at: "at_label l args k e sm" and ok: "buf_ok (enc_command args @ rest) (rb_buf (sm_data sm)) e w"
    and e: "rb_end_ptr (sm_data sm) = int e" "rb_length (sm_data sm) = 256"
    and lt: "e < length (enc_command args)" and e256: "e < 256"
    and entry: "rp_entry (sm_state sm) = Some l"
    and more: "\<And>e'. e < e' \<Longrightarrow> at_label l args k e' (on_data (\<lambda>d. d\<lparr>rb_end_ptr := int e'\<rparr>) sm)"
  shows "step_ok args rest l k w (rp_receive sm w (\<lambda>sm w. Ok (Goto l, sm, w)))"
proof -
  show ?thesis
  proof (rule rp_receive_ok[OF ok e e256, where k = "\<lambda>sm w. Ok (Goto l, sm, w)"])
    fix w' assume w': "rp_receive sm w (\<lambda>sm w. Ok (Goto l, sm, w)) = Ok (Return RESP_SM_STATUS_EMPTY, sm, w')"
      "buf_ok (enc_command args @ rest) (rb_buf (sm_data sm)) e w'" "w_net w' = [] \<or> net_weight (w_net w') < net_weight (w_net w)"
    have "net_bytes (w_net w') \<noteq> []" using w'(2) lt by (auto simp: buf_ok_def)
    then have "w_net w' \<noteq> []" by auto
    then have "waits args rest w RESP_SM_STATUS_EMPTY sm w'"
      using at entry w' by (auto simp: waits_def rp_inv_def)
    then show ?thesis using w'(1) by (auto simp: step_ok_def)
  next
    fix e' w' assume More: "e < e'" "rp_receive sm w (\<lambda>sm w. Ok (Goto l, sm, w)) =
        Ok (Goto l, on_data (\<lambda>d. d\<lparr>rb_end_ptr := int e'\<rparr>) sm, w')"
      "buf_ok (enc_command args @ rest) (rb_buf (sm_data sm)) e' w'" "net_weight (w_net w') < net_weight (w_net w)"
    have "rp_inv l args rest k (on_data (\<lambda>d. d\<lparr>rb_end_ptr := int e'\<rparr>) sm) w'"
      using more[OF More(1)] More(3) by (auto simp: rp_inv_def on_data_def)
    then show ?thesis using More(2,4) by (auto simp: step_ok_def)
  qed
qed

lemmas label_defs = at_start_def in_args_def on_data_def

lemma step_bs_init:
  assumes "rp_inv L_BS_INIT args rest k sm w"
  shows "step_ok args rest L_BS_INIT k w (rp_bs_init sm w)"
  using assms
  by (intro step_okI[where l' = L_BS_START_PRE and k' = k]) (auto simp: rp_bs_init_def rp_inv_def label_defs)

lemma step_bs_start_pre:
  assumes c: "heads_fit args" and "rp_inv L_BS_START_PRE args rest k sm w"
  shows "step_ok args rest L_BS_START_PRE k w (rp_bs_start_pre mal sm w)"
proof -
  let ?S = "enc_command args @ rest" and ?d = "sm_data sm"
  from assms(2) obtain e where at: "at_label L_BS_START_PRE args k e sm" and ok: "buf_ok ?S (rb_buf ?d) e w"
    by (auto simp: rp_inv_def)
  then have d: "rb_start_ptr ?d = int (arg_pos args k)" "rb_end_ptr ?d = int e" "arg_pos args k \<le> e"
    "rb_length ?d = 256" and k: "k < length args" by (auto simp: label_defs)
  show ?thesis
  proof (cases "arg_pos args k < e")
    case True
    have "buf_at (rb_buf ?d) (rb_start_ptr ?d) w = Ok 36"
      unfolding d(1) using buf_at_ok[OF ok True] stream_text(3)[OF k] by simp
    then have "rp_bs_start_pre mal sm w = Ok (Goto L_BS_START,
        on_data (\<lambda>d. d\<lparr>rb_start_ptr := rb_start_ptr d + 1\<rparr>) (sm\<lparr>sm_state := RESP_SM_BS_START\<rparr>), w)"
      using True by (simp add: rp_bs_start_pre_def Let_def d)
    then show ?thesis
      using at ok True by (intro step_okI[where l' = L_BS_START and k' = k]) (auto simp: rp_inv_def label_defs)
  next
    case False
    have lt: "e < length (enc_command args)"
      using False d(3) arg_pos_le[of "Suc k" args] arg_pos_Suc[OF k] k by (simp add: text_pos_def)
    have "e < 256" using False d(3) heads_fit_bounds(1)[OF c k] by (simp add: text_pos_def)
    moreover have "rp_bs_start_pre mal sm w = rp_receive sm w (\<lambda>sm w. Ok (Goto L_BS_START_PRE, sm, w))"
      using False \<open>e < 256\<close> by (simp add: rp_bs_start_pre_def Let_def d)
    ultimately show ?thesis using at ok d(2,4) lt
      by (auto intro!: await_ok[where e = e] simp: label_defs)
  qed
qed

lemma step_bs_start:
  assumes c: "heads_fit args" and "rp_inv L_BS_START args rest k sm w"
  shows "step_ok args rest L_BS_START k w (rp_bs_start mal sm w)"
proof -
  let ?S = "enc_command args @ rest" and ?d = "sm_data sm"
  define s where "s = arg_pos args k + 1"
  define n where "n = length (args ! k)"
  from assms(2) obtain e where at: "at_label L_BS_START args k e sm" and ok: "buf_ok ?S (rb_buf ?d) e w"
    by (auto simp: rp_inv_def)
  then have d: "rb_start_ptr ?d = int s" "rb_end_ptr ?d = int e" "s \<le> e" "rb_length ?d = 256" "rb_bs_length ?d = 0"
    and k: "k < length args" by (auto simp: label_defs s_def)
  have e: "e \<le> 256" using ok by (auto simp: buf_ok_def)
  have S: "drop s ?S = dec n @ 13 # 10 # drop (text_pos args k) ?S"
    using stream_text(1)[OF k] by (simp add: s_def n_def)
  have t: "text_pos args k = s + length (dec n) + 2" by (simp add: text_pos_def s_def n_def)
  have b: "text_pos args k \<le> 256" "length (dec n) \<le> 19" "n < 2 ^ 62"
    using heads_fit_bounds[OF c k] by (simp_all add: n_def)
  have avail: "size_t (int e - int s) = int (e - s)" using d(3) e by simp
  have n1: "1 < e - s \<Longrightarrow> size_t (int e - 1 - int s) = int (e - 1 - s)" using e by (simp add: of_nat_diff)
  have mem: "(if 1 < size_t (int e - int s) then buf_memchr 13 (rb_buf ?d) (int s) (size_t (int e - 1 - int s)) w
              else Ok False) = Ok (length (dec n) < e - 1 - s)"
    unfolding avail using n1 buf_memchr_ok[OF ok, of s "e - 1 - s" 13] cr_in_number[OF S, of "e - 1 - s"]
    by (auto simp: Suc_le_eq)
  show ?thesis
  proof (cases "length (dec n) < e - 1 - s")
    case True
    have st: "buf_strtol (rb_buf ?d) (int s) w = Ok (int n, int (s + length (dec n)))"
      using True b by (intro buf_strtol_ok[OF ok S]) auto
    have cr: "crlf_at (rb_buf ?d) (int (s + length (dec n))) w = Ok True"
      using True by (intro crlf_ok[OF ok S]) auto
    have "rp_bs_start mal sm w = Ok (Goto L_BS_BODY,
        on_data (\<lambda>d. d\<lparr>rb_start_ptr := int (text_pos args k)\<rparr>) (on_data (\<lambda>d. d\<lparr>rb_bs_length := int n\<rparr>) sm), w)"
      unfolding rp_bs_start_def Let_def d mem bind_res_simps if_True st prod.case
      using True cr b by (simp add: t add.commute long_op_def)
    then show ?thesis
      using at ok True t
      by (intro step_okI[where l' = L_BS_BODY and k' = k]) (auto simp: rp_inv_def label_defs n_def)
  next
    case False
    have lt: "e < 256" "e - s < 32" using False b t d(3) by auto
    have el: "e < length (enc_command args)"
      using False d(3) t arg_pos_le[of "Suc k" args] arg_pos_Suc[OF k] k by simp
    have "rp_bs_start mal sm w = rp_receive sm w (\<lambda>sm w. Ok (Goto L_BS_START, sm, w))"
      unfolding rp_bs_start_def Let_def d mem bind_res_simps
      using False lt by (simp add: avail RESP_SM_MAX_CHARS_IN_SIZE_def)
    then show ?thesis using at ok d el lt
      by (auto intro!: await_ok[where e = e] simp: label_defs s_def)
  qed
qed

lemma step_bs_body:
  assumes c: "arg_pos args (Suc k) \<le> 256" and "rp_inv L_BS_BODY args rest k sm w"
  shows "step_ok args rest L_BS_BODY k w (rp_bs_body mal sm w)"
proof -
  let ?d = "sm_data sm"
  from assms(2) obtain e where at: "at_label L_BS_BODY args k e sm"
    and ok: "buf_ok (enc_command args @ rest) (rb_buf ?d) e w" by (auto simp: rp_inv_def)
  then have d: "rb_start_ptr ?d = int (text_pos args k)" "rb_length ?d = 256"
    "rb_bs_length ?d = int (length (args ! k))" and k: "k < length args" by (auto simp: label_defs)
  have b: "text_pos args k + length (args ! k) + 2 \<le> 256" using c arg_pos_Suc[OF k] by simp
  have "rp_bs_body mal sm w = Ok (Goto L_BS_BODY_FIT, sm\<lparr>sm_state := RESP_SM_BS_BODY_FIT\<rparr>, w)"
    using b by (simp add: rp_bs_body_def Let_def d)
  then show ?thesis
    using at ok by (intro step_okI[where l' = L_BS_BODY_FIT and k' = k]) (auto simp: rp_inv_def label_defs)
qed

text \<open>Recording an argument.\<close>

lemma set_arg_ok:
  assumes r: "args_done args k a r" and k: "k < length args" and b: "length args \<le> 256"
    and d: "rb_argc_countdown d = int (length args) - int k" "rb_bs_length d = int (length (args ! k))"
  obtains r' where "result_set_arg d (a, int (text_pos args k)) r = Ok r'" "args_done args (Suc k) a r'"
proof -
  from r obtain av ls where av: "ra_argv r = Some av" "length av = length args"
      "\<forall>i < k. av ! i = Some (a, int (text_pos args i))"
    and ls: "ra_argv_lengths r = Some ls" "length ls = length args" "\<forall>i < k. ls ! i = Some (int (length (args ! i)))"
    by (auto simp: args_done_def)
  have i: "size_t (ra_argc r - rb_argc_countdown d) = int k"
    using r k b d(1) by (simp add: args_done_def)
  let ?r = "r\<lparr>ra_argv := Some (av[k := Some (a, int (text_pos args k))]),
      ra_argv_lengths := Some (ls[k := Some (int (length (args ! k)))])\<rparr>"
  have "result_set_arg d (a, int (text_pos args k)) r = Ok ?r"
    using av ls k by (simp add: result_set_arg_def Let_def i slots_put_def d(2))
  moreover have "args_done args (Suc k) a ?r"
    using r av ls k by (auto simp: args_done_def nth_list_update less_Suc_eq)
  ultimately show thesis by (rule that)
qed

lemma step_bs_body_fit:
  assumes h: "heads_fit args" and c: "arg_pos args (Suc k) \<le> 256" and "rp_inv L_BS_BODY_FIT args rest k sm w"
  shows "step_ok args rest L_BS_BODY_FIT k w (rp_bs_body_fit sm w)"
proof -
  let ?S = "enc_command args @ rest" and ?d = "sm_data sm"
  define s where "s = text_pos args k"
  define n where "n = length (args ! k)"
  from assms(3) obtain e where at: "at_label L_BS_BODY_FIT args k e sm" and ok: "buf_ok ?S (rb_buf ?d) e w"
    by (auto simp: rp_inv_def)
  then have d: "rb_start_ptr ?d = int s" "rb_end_ptr ?d = int e" "s \<le> e" "rb_length ?d = 256"
    "rb_bs_length ?d = int n" "rb_argc_countdown ?d = int (length args) - int k" and k: "k < length args"
    and r: "\<exists>r. sm_result sm = Some r \<and> args_done args k (rb_buf ?d) r" by (auto simp: label_defs s_def n_def)
  have e: "e \<le> 256" using ok by (auto simp: buf_ok_def)
  have b: "s + n + 2 \<le> 256" "length args \<le> 256"
    using c arg_pos_Suc[OF k] heads_fit_bounds(2)[OF h k] by (simp_all add: s_def n_def)
  have S: "drop s ?S = args ! k @ 13 # 10 # drop (arg_pos args (Suc k)) ?S"
    using stream_text(2)[OF k] by (simp add: s_def)
  have next_pos: "arg_pos args (Suc k) = s + n + 2" using arg_pos_Suc[OF k] by (simp add: s_def n_def)
  have avail: "size_t (int e - int s) = int (e - s)" using d(3) e by simp
  have op: "long_op (int n + 2) = Ok (int n + 2)" "size_t (int n + 2) = int n + 2" using b by simp_all
  show ?thesis
  proof (cases "n + 2 \<le> e - s")
    case True
    have cr: "crlf_at (rb_buf ?d) (int (s + n)) w = Ok True"
      using True b unfolding n_def by (intro crlf_ok[OF ok S]) auto
    have l: "to_long (int s + int n) = int (s + n)" using b by simp
    from r obtain r0 where r0: "sm_result sm = Some r0" "args_done args k (rb_buf ?d) r0" by blast
    obtain r' where r': "result_set_arg ?d (rb_buf ?d, int s) r0 = Ok r'" "args_done args (Suc k) (rb_buf ?d) r'"
      using set_arg_ok[OF r0(2) k b(2) d(6)] d(5) by (auto simp: s_def n_def)
    have le: "int n + 2 \<le> int (e - s)" using True by linarith
    have st: "size_t (int s + (int n + 2)) = int (arg_pos args (Suc k))" using b by (simp add: next_pos)
    have "rp_bs_body_fit sm w = Ok (Goto L_BS_BODY_FINISH,
        on_data (\<lambda>d. d\<lparr>rb_start_ptr := int (arg_pos args (Suc k))\<rparr>) (sm\<lparr>sm_result := Some r'\<rparr>), w)"
      unfolding rp_bs_body_fit_def Let_def d op bind_res_simps avail l cr if_P[OF le]
      using r0(1) r'(1) st by (simp add: on_result_def)
    then show ?thesis
      using at ok True r' next_pos k
      by (intro step_okI[where l' = L_BS_BODY_FINISH and k' = k]) (auto simp: rp_inv_def label_defs)
  next
    case False
    have el: "e < length (enc_command args)"
      using False d(3) next_pos arg_pos_le[of "Suc k" args] k by simp
    have "e < 256" using False d(3) b(1) by simp
    have "\<not> int n + 2 \<le> int (e - s)" using False by linarith
    then have "rp_bs_body_fit sm w = rp_receive sm w (\<lambda>sm w. Ok (Goto L_BS_BODY_FIT, sm, w))"
      unfolding rp_bs_body_fit_def Let_def d op bind_res_simps avail by simp
    then show ?thesis using at ok d el \<open>e < 256\<close>
      by (auto intro!: await_ok[where e = e] simp: label_defs s_def)
  qed
qed

section \<open>The end of a command\<close>

lemma those_map_Some [simp]: "those (map Some xs) = Some xs"
  by (induction xs) simp_all

lemma arg_bytes_ok:
  assumes ok: "heap_block a w = Ok cs" "take e cs = map Some (take e S)" "e \<le> length S" "e \<le> length cs"
    and at: "drop s S = xs @ r" and le: "s + length xs \<le> e"
  shows "arg_bytes w (a, int s) (int (length xs)) = Some xs"
proof -
  have "drop s cs = map Some (take (e - s) (drop s S)) @ drop e cs"
    using ok le by (intro buf_known) auto
  then have "take (length xs) (drop s cs) = map Some xs"
    using le by (simp add: at take_map)
  then show ?thesis using ok(1,4) le by (simp add: arg_bytes_def)
qed

lemma zip_args_ok:
  assumes "length ps = length args" "length ns = length args"
    and "\<And>i. i < length args \<Longrightarrow> \<exists>p n. ps ! i = Some p \<and> ns ! i = Some n \<and> arg_bytes w p n = Some (args ! i)"
  shows "zip_args w ps ns = Some args"
  using assms
proof (induction args arbitrary: ps ns)
  case (Cons x args)
  then obtain p ps' n ns' where l: "ps = p # ps'" "ns = n # ns'" by (cases ps; cases ns) auto
  from Cons.prems(3)[of 0] obtain p0 n0 where h: "p = Some p0" "n = Some n0" "arg_bytes w p0 n0 = Some x"
    by (auto simp: l)
  have "zip_args w ps' ns' = Some args"
    using Cons.prems(1,2) Cons.prems(3)[of "Suc _"] by (intro Cons.IH) (auto simp: l)
  then show ?case by (simp add: l h)
qed simp

lemma command_args_ok:
  assumes c: "small_command args" and r: "args_done args (length args) a r"
    and blk: "heap_block a w = Ok cs" "take e cs = map Some (take e S)" "e \<le> length S" "e \<le> length cs"
    and S: "S = enc_command args @ rest" and e: "length (enc_command args) \<le> e"
  shows "command_args w r = Some args"
proof -
  from r obtain av ls where av: "ra_argv r = Some av" "length av = length args"
      "\<forall>i < length args. av ! i = Some (a, int (text_pos args i))"
    and ls: "ra_argv_lengths r = Some ls" "length ls = length args"
      "\<forall>i < length args. ls ! i = Some (int (length (args ! i)))"
    and argc: "ra_argc r = int (length args)"
    by (auto simp: args_done_def)
  have "arg_bytes w (a, int (text_pos args i)) (int (length (args ! i))) = Some (args ! i)" if "i < length args" for i
  proof (rule arg_bytes_ok[OF blk])
    show "drop (text_pos args i) S = args ! i @ 13 # 10 # drop (arg_pos args (Suc i)) S"
      unfolding S using that by (rule stream_text(2))
    have "arg_pos args (Suc i) \<le> length (enc_command args)" using that by (intro arg_pos_le) simp
    then show "text_pos args i + length (args ! i) \<le> e" using e arg_pos_Suc[OF that] by simp
  qed
  then have "zip_args w av ls = Some args" using av ls by (intro zip_args_ok) auto
  then show ?thesis using av ls argc by (simp add: command_args_def resp_cmd_args_def)
qed

text \<open>
  The blocks that were there stay when a buffer is created, and the new buffer has the next address.
\<close>

lemma rp_create_buffer_ok:
  assumes "small_grants mal"
  obtains w' where "rp_create_buffer mal BUFSIZE w = Ok (length (w_heap w) + 1, w')" "w_net w' = w_net w"
    "heap_block (length (w_heap w) + 1) w' = Ok (replicate 256 None @ [Some 0])"
    "\<And>a cs. heap_block a w = Ok cs \<Longrightarrow> heap_block a w' = Ok cs \<and> a \<noteq> length (w_heap w) + 1"
proof -
  let ?w = "w\<lparr>w_heap := w_heap w @ [Some ((replicate 257 None)[256 := Some 0])]\<rparr>"
  have cells: "(replicate 257 None)[256 := Some 0] = replicate 256 None @ [Some (0 :: byte)]"
    by (simp add: list_eq_iff_nth_eq nth_list_update nth_append)
  have "mal 257" using assms by (simp add: small_grants_def)
  then have "rp_create_buffer mal BUFSIZE w = Ok (length (w_heap w) + 1, ?w)"
    by (simp add: rp_create_buffer_def BUFSIZE_def)
  moreover have "heap_block (length (w_heap w) + 1) ?w = Ok (replicate 256 None @ [Some 0])"
    by (simp add: heap_block_def cells)
  moreover have "heap_block a w = Ok cs \<Longrightarrow> heap_block a ?w = Ok cs \<and> a \<noteq> length (w_heap w) + 1" for a cs
    by (auto simp: heap_block_def nth_append split: if_splits)
  ultimately show thesis using that[of ?w] by simp
qed

lemma heap_block_write_other:
  assumes "heap_write a off bs w = Ok w'" and "b \<noteq> a"
  shows "heap_block b w' = heap_block b w"
proof -
  obtain cs where cs: "heap_block a w = Ok cs"
    using assms(1) by (cases "heap_block a w") (auto simp: heap_write_def)
  then have a: "a \<noteq> NULL" by (cases "a = NULL") (simp_all add: heap_block_def)
  obtain blk where "w' = w\<lparr>w_heap := (w_heap w)[a - 1 := blk]\<rparr>"
    using assms(1) by (auto simp: heap_write_def cs split: if_splits)
  then show ?thesis
  proof (cases "b = NULL")
    case False
    then have "b - 1 \<noteq> a - 1" using a assms(2) by arith
    then show ?thesis using \<open>w' = _\<close> by (simp add: heap_block_def)
  qed (simp add: heap_block_def)
qed

lemma step_bs_body_finish:
  assumes h: "heads_fit args" and small: "Suc k < length args \<or> small_command args"
    and m: "small_grants mal" and "rp_inv L_BS_BODY_FINISH args rest k sm w"
  shows "step_ok args rest L_BS_BODY_FINISH k w (rp_bs_body_finish mal sm w)"
proof -
  let ?S = "enc_command args @ rest" and ?d = "sm_data sm"
  from assms(4) obtain e where at: "at_label L_BS_BODY_FINISH args k e sm" and ok: "buf_ok ?S (rb_buf ?d) e w"
    by (auto simp: rp_inv_def)
  then have d: "rb_start_ptr ?d = int (arg_pos args (Suc k))" "rb_end_ptr ?d = int e" "arg_pos args (Suc k) \<le> e"
    "rb_length ?d = 256" "rb_argc_countdown ?d = int (length args) - int k" and k: "k < length args"
    by (auto simp: at_start_def)
  from at obtain r where r: "sm_result sm = Some r" "args_done args (Suc k) (rb_buf ?d) r" by auto
  have n: "length args \<le> 256" using heads_fit_bounds(2)[OF h k] .
  let ?sm = "on_data (\<lambda>d. d\<lparr>rb_argc_countdown := int (length args) - int (Suc k)\<rparr>) sm"
  have cd: "size_t (rb_argc_countdown ?d - 1) = int (length args) - int (Suc k)" using n k d(5) by simp
  have sm': "on_data (\<lambda>d. d\<lparr>rb_argc_countdown := size_t (rb_argc_countdown d - 1)\<rparr>) sm = ?sm"
    using cd by (simp add: on_data_def)
  from ok obtain cs where blk: "heap_block (rb_buf ?d) w = Ok cs" "length cs = 257" "e \<le> 256" "e \<le> length ?S"
    "take e cs = map Some (take e ?S)" and net: "net_open (w_net w)" "net_bytes (w_net w) = drop e ?S"
    by (rule buf_okE)
  show ?thesis
  proof (cases "Suc k < length args")
    case True
    then have "rp_bs_body_finish mal sm w = Ok (Goto L_BS_INIT, ?sm, w)"
      unfolding rp_bs_body_finish_def Let_def sm' by (simp add: on_data_def)
    then show ?thesis
      using at ok r True
      by (intro step_okI[where l' = L_BS_INIT and k' = "Suc k"]) (auto simp: rp_inv_def label_defs)
  next
    case False
    then have last: "Suc k = length args" using k by simp
    have c: "small_command args" using small last by simp
    have p: "arg_pos args (Suc k) = length (enc_command args)" by (simp add: last arg_pos_length)
    show ?thesis
    proof (cases "arg_pos args (Suc k) = e")
      case True
      let ?sm2 = "on_data (\<lambda>d. d\<lparr>rb_buf := NULL, rb_start_ptr := 0, rb_end_ptr := 0\<rparr>) (?sm\<lparr>sm_state := RESP_SM_CLEAN\<rparr>)"
      have "rp_bs_body_finish mal sm w = Ok (Return RESP_SM_STATUS_DONE, ?sm2, w)"
        unfolding rp_bs_body_finish_def Let_def sm' using last d True by (simp add: on_data_def)
      moreover have "command_args w r = Some args"
        using r(2) blk True p
        by (intro command_args_ok[OF c, where a = "rb_buf ?d" and e = e and S = ?S and rest = rest and cs = cs])
           (auto simp: last)
      then have "finishes args rest w RESP_SM_STATUS_DONE ?sm2 w"
        using net r True p by (auto simp: finishes_def rp_clean_inv_def on_data_def resp_cmd_sm_allocs_def args_done_def)
      ultimately show ?thesis by (auto simp: step_ok_def)
    next
      case more: False
      define s where "s = arg_pos args (Suc k)"
      have se: "s < e" using more d(3) by (simp add: s_def)
      obtain w1 where w1: "rp_create_buffer mal BUFSIZE w = Ok (length (w_heap w) + 1, w1)" "w_net w1 = w_net w"
        "heap_block (length (w_heap w) + 1) w1 = Ok (replicate 256 None @ [Some 0])"
        "\<And>a cs. heap_block a w = Ok cs \<Longrightarrow> heap_block a w1 = Ok cs \<and> a \<noteq> length (w_heap w) + 1"
        using rp_create_buffer_ok[OF m] by blast
      let ?a = "length (w_heap w) + 1"
      have blk1: "heap_block (rb_buf ?d) w1 = Ok cs" "rb_buf ?d \<noteq> ?a" using w1(4)[OF blk(1)] by simp_all
      have ds: "take (e - s) (drop s cs) = map Some (take (e - s) (drop s ?S))"
      proof -
        have "drop s cs = map Some (take (e - s) (drop s ?S)) @ drop e cs"
          using blk se by (intro buf_known) auto
        then show ?thesis using blk(4) se by simp
      qed
      let ?new = "map Some (take (e - s) (drop s ?S)) @ drop (e - s) (replicate 256 None @ [Some 0])"
      have len: "length (map Some (take (e - s) (drop s ?S))) = e - s" using blk(4) se by simp
      have fits: "0 + length (map Some (take (e - s) (drop s ?S))) \<le> length (replicate 256 None @ [Some (0 :: byte)])"
        unfolding len using blk(3) by simp
      obtain w2 where w2: "heap_write ?a 0 (map Some (take (e - s) (drop s ?S))) w1 = Ok w2" "w_net w2 = w_net w1"
        "heap_block ?a w2 = Ok ?new"
        using heap_block_write[OF w1(3) fits] len by auto
      have blk2: "heap_block (rb_buf ?d) w2 = Ok cs"
        using heap_block_write_other[OF w2(1) blk1(2)] blk1(1) by simp
      let ?sm2 = "on_data (\<lambda>d. d\<lparr>rb_buf := ?a, rb_start_ptr := 0, rb_end_ptr := int (e - s), rb_length := BUFSIZE\<rparr>)
          (?sm\<lparr>sm_state := RESP_SM_CLEAN\<rparr>)"
      have "rp_bs_body_finish mal sm w = Ok (Return RESP_SM_STATUS_MORE, ?sm2, w2)"
      proof -
        have sz: "size_t (int e - int s) = int (e - s)" using se blk(3) by simp
        have ne: "int s \<noteq> int e" "\<not> int (length cs) < int s + int (e - s)" using se blk by simp_all
        have d1: "rb_start_ptr ?d = int s" using d(1) by (simp add: s_def)
        have z: "int (length args) - int (Suc k) = 0" using last by simp
        have wr: "heap_write ?a 0 (take (e - s) (drop s cs)) w1 = Ok w2" unfolding ds by (rule w2(1))
        show ?thesis
          unfolding rp_bs_body_finish_def Let_def sm' z
          using d1 d(2) w1(1) blk1(1) sz ne wr by (simp add: on_data_def)
      qed
      moreover have "finishes args rest w RESP_SM_STATUS_MORE ?sm2 w2"
      proof -
        have "command_args w2 r = Some args"
          using r(2) blk blk2 se p
          by (intro command_args_ok[OF c, where a = "rb_buf ?d" and e = e and S = ?S and rest = rest and cs = cs])
             (auto simp: last s_def)
        moreover have "buf_ok rest ?a (e - s) w2"
          unfolding buf_ok_def using w2 w1(2) net blk se p by (auto simp: s_def)
        ultimately show ?thesis
          using r w1(2) w2(2) net more p d(3) blk(4)
          by (auto simp: finishes_def rp_clean_inv_def on_data_def resp_cmd_sm_allocs_def BUFSIZE_def args_done_def)
      qed
      ultimately show ?thesis by (auto simp: step_ok_def)
    qed
  qed
qed

section \<open>The start of a command\<close>

lemma slots_alloc_small:
  "small_grants mal \<Longrightarrow> 0 \<le> n \<Longrightarrow> n \<le> 512 \<Longrightarrow> slots_alloc mal n = Some (replicate (nat n) None)"
  by (simp add: slots_alloc_def small_grants_def)

lemma ary_arrays_ok:
  assumes m: "small_grants mal" and n: "0 < length args" "length args \<le> 256"
    and d: "rb_argc_countdown d = int (length args)"
  obtains r where "rp_ary_arrays mal d (resp_cmd_init 0) = Ok r" "args_done args 0 (rb_buf d) r"
proof -
  have l: "to_long (int (length args)) = int (length args)" "long_op (int (length args) + 1) = Ok (int (length args) + 1)"
    using n by simp_all
  have k: "nat (int (length args) + 1) = Suc (length args)" by simp
  let ?r = "\<lparr>ra_allocations = Some ((replicate (Suc (length args)) None)[0 := Some (rb_buf d)]),
      ra_argv = Some (replicate (length args) None), ra_argv_lengths = Some (replicate (length args) None),
      ra_argc = int (length args), ra_allocation_count = 1, ra_tag = 0\<rparr>"
  have "rp_ary_arrays mal d (resp_cmd_init 0) = Ok ?r"
    using n unfolding rp_ary_arrays_def Let_def d l bind_res_simps
    by (simp add: resp_cmd_init_def result_add_allocation_def slots_put_def slots_alloc_small[OF m] k)
  moreover have "args_done args 0 (rb_buf d) ?r" by (simp add: args_done_def)
  ultimately show thesis by (rule that)
qed

lemma step_ary_start:
  assumes c: "heads_fit args" and m: "small_grants mal" and "rp_inv L_ARY_START args rest k sm w"
  shows "step_ok args rest L_ARY_START k w (rp_ary_start mal sm w)"
proof -
  let ?S = "enc_command args @ rest" and ?d = "sm_data sm"
  define n where "n = length args"
  from assms(3) obtain e where at: "at_label L_ARY_START args k e sm" and ok: "buf_ok ?S (rb_buf ?d) e w"
    by (auto simp: rp_inv_def)
  then have d: "rb_start_ptr ?d = 1" "rb_end_ptr ?d = int e" "1 \<le> e" "rb_length ?d = 256" "k = 0"
    and r: "sm_result sm = Some (resp_cmd_init 0)" by (auto simp: label_defs)
  have n0: "0 < length args" using c by (simp add: heads_fit_def)
  have e: "e \<le> 256" using ok by (auto simp: buf_ok_def)
  have S: "drop 1 ?S = dec n @ 13 # 10 # drop (arg_pos args 0) ?S" using stream_head by (simp add: n_def)
  have p0: "arg_pos args 0 = 1 + length (dec n) + 2" by (simp add: arg_pos_0 n_def)
  have b: "length (dec n) \<le> 3" "n \<le> 256" using heads_fit_bounds(2,4)[OF c n0] by (simp_all add: n_def)
  have dollar: "?S ! arg_pos args 0 = 36" by (rule stream_text(3)[OF n0])
  have avail: "size_t (int e - 1) = int (e - 1)" using d(3) e by simp
  have n1: "2 < e - 1 \<Longrightarrow> size_t (int e - 2 - 1) = int (e - 3)" using e by (simp add: of_nat_diff)
  have mem: "(if 2 < size_t (int e - 1) then buf_memchr 13 (rb_buf ?d) 1 (size_t (int e - 2 - 1)) w
              else Ok False) = Ok (length (dec n) < e - 3)"
    unfolding avail using n1 buf_memchr_ok[OF ok, of 1 "e - 3" 13] cr_in_number[OF S, of "e - 3"]
    by (auto simp: Suc_le_eq)
  have assert: "\<not> \<not> RESP_SM_MAX_CHARS_IN_SIZE < size_t (256 - 1)" by (simp add: RESP_SM_MAX_CHARS_IN_SIZE_def)
  show ?thesis
  proof (cases "length (dec n) < e - 3")
    case True
    have st: "buf_strtol (rb_buf ?d) 1 w = Ok (int n, int (1 + length (dec n)))"
      using buf_strtol_ok[OF ok S] True b by simp
    have cr: "crlf_at (rb_buf ?d) (int (1 + length (dec n))) w = Ok True"
      using True by (intro crlf_ok[OF ok S]) auto
    have sz: "size_t (int n) = int n" using b by simp
    have ptr: "int (1 + length (dec n)) + 2 = int (arg_pos args 0)" by (simp add: p0)
    have dl: "buf_at (rb_buf ?d) (int (arg_pos args 0)) w = Ok 36"
      using buf_at_ok[OF ok, of "arg_pos args 0"] True dollar by (simp add: p0)
    let ?sm = "on_data (\<lambda>d. d\<lparr>rb_start_ptr := int (arg_pos args 0)\<rparr>) (on_data (\<lambda>d. d\<lparr>rb_argc_countdown := int n\<rparr>) sm)"
    obtain r' where r': "rp_ary_arrays mal (sm_data ?sm) (resp_cmd_init 0) = Ok r'" "args_done args 0 (rb_buf (sm_data ?sm)) r'"
      using ary_arrays_ok[OF m n0, of "sm_data ?sm"] b by (auto simp: on_data_def n_def)
    have "rp_ary_start mal sm w = Ok (Goto L_BS_INIT, ?sm\<lparr>sm_result := Some r'\<rparr>, w)"
      unfolding rp_ary_start_def Let_def d(1,2,4) mem bind_res_simps if_not_P[OF assert] st prod.case sz cr ptr dl
      using True r r'(1) by (simp add: on_result_def on_data_def)
    then show ?thesis
      using ok True r'(2) d n0
      by (intro step_okI[where l' = L_BS_INIT and k' = 0]) (auto simp: rp_inv_def label_defs n_def p0)
  next
    case False
    have lt: "e < 256" "e - 1 < 32" using False b d(3) by auto
    have el: "e < length (enc_command args)"
      using False d(3) p0 arg_pos_le[of "Suc 0" args] arg_pos_Suc[OF n0] n0 by (simp add: text_pos_def)
    have "rp_ary_start mal sm w = rp_receive sm w (\<lambda>sm w. Ok (Goto L_ARY_START, sm, w))"
      unfolding rp_ary_start_def Let_def d(1,2,4) mem bind_res_simps if_not_P[OF assert]
      using False lt by (simp add: avail RESP_SM_MAX_CHARS_IN_SIZE_def)
    then show ?thesis using at ok d el lt
      by (auto intro!: await_ok[where e = e] simp: label_defs)
  qed
qed

lemma clean_check_ok:
  assumes ok: "buf_ok S (rb_buf (sm_data sm)) e w" and e: "0 < e" "rb_end_ptr (sm_data sm) = int e"
    and d: "rb_start_ptr (sm_data sm) = 0" "rb_length (sm_data sm) = 256" and S: "S ! 0 = 42"
    and r: "sm_result sm = Some (resp_cmd_init 0)"
  shows "\<exists>sm'. rp_clean_check sm w = Ok (Goto L_ARY_START, sm', w) \<and> sm_state sm' = RESP_SM_ARY_START \<and>
           at_start 1 e (sm_data sm') \<and> sm_result sm' = Some (resp_cmd_init 0) \<and> buf_ok S (rb_buf (sm_data sm')) e w"
proof -
  have "buf_at (rb_buf (sm_data sm)) 0 w = Ok 42" using buf_at_ok[OF ok e(1)] S by simp
  then show ?thesis using assms by (simp add: rp_clean_check_def label_defs)
qed

definition clean_step_ok :: "bytes \<Rightarrow> rp_world \<Rightarrow> 'u rp_out \<Rightarrow> bool" where
  "clean_step_ok S w out \<longleftrightarrow>
     (\<exists>sm' w'. out = Ok (Return RESP_SM_STATUS_EMPTY, sm', w') \<and> rp_clean_inv S sm' w' \<and>
        (S = [] \<and> w_net w' = [] \<or> w_net w' \<noteq> [] \<and> net_weight (w_net w') < net_weight (w_net w))) \<or>
     (\<exists>e sm' w'. out = Ok (Goto L_ARY_START, sm', w') \<and> S \<noteq> [] \<and> sm_state sm' = RESP_SM_ARY_START \<and>
        at_start 1 e (sm_data sm') \<and> sm_result sm' = Some (resp_cmd_init 0) \<and>
        buf_ok S (rb_buf (sm_data sm')) e w' \<and> net_weight (w_net w') \<le> net_weight (w_net w))"

lemma buf_ok_not_null: "buf_ok S a e w \<Longrightarrow> a \<noteq> NULL"
  by (cases "a = NULL") (simp_all add: buf_ok_def heap_block_def)

lemma clean_receive_ok:
  assumes ok: "buf_ok S (rb_buf (sm_data sm)) 0 w" and st: "sm_state sm = RESP_SM_CLEAN"
    and d: "rb_start_ptr (sm_data sm) = 0" "rb_end_ptr (sm_data sm) = 0" "rb_length (sm_data sm) = 256"
    and S: "S \<noteq> [] \<Longrightarrow> S ! 0 = 42" and r: "sm_result sm = Some (resp_cmd_init 0)"
  shows "clean_step_ok S w (rp_receive sm w rp_clean_check)"
proof -
  have nn: "rb_buf (sm_data sm) \<noteq> NULL" using ok by (rule buf_ok_not_null)
  have e: "rb_end_ptr (sm_data sm) = int 0" "(0 :: nat) < 256" using d by simp_all
  show ?thesis
  proof (rule rp_receive_ok[OF ok e(1) d(3) e(2), where k = rp_clean_check])
    fix w' assume w': "rp_receive sm w rp_clean_check = Ok (Return RESP_SM_STATUS_EMPTY, sm, w')"
      "buf_ok S (rb_buf (sm_data sm)) 0 w'" "w_net w' = [] \<or> net_weight (w_net w') < net_weight (w_net w)"
    have "rp_clean_inv S sm w'"
      unfolding rp_clean_inv_def using st d nn w'(2) by (auto simp: buf_ok_def intro!: exI[of _ 0])
    moreover have "S = [] \<or> w_net w' \<noteq> []" using w'(2) by (auto simp: buf_ok_def)
    ultimately show ?thesis using w' by (auto simp: clean_step_ok_def)
  next
    fix e' w'
    let ?sm = "on_data (\<lambda>d. d\<lparr>rb_end_ptr := int e'\<rparr>) sm"
    assume w': "0 < e'" "rp_receive sm w rp_clean_check = rp_clean_check ?sm w'"
      "buf_ok S (rb_buf (sm_data sm)) e' w'" "net_weight (w_net w') < net_weight (w_net w)"
    have ne: "S \<noteq> []" using w'(1,3) by (auto simp: buf_ok_def)
    have "\<exists>sm'. rp_clean_check ?sm w' = Ok (Goto L_ARY_START, sm', w') \<and> sm_state sm' = RESP_SM_ARY_START \<and>
        at_start 1 e' (sm_data sm') \<and> sm_result sm' = Some (resp_cmd_init 0) \<and> buf_ok S (rb_buf (sm_data sm')) e' w'"
      using w' d r S[OF ne] by (intro clean_check_ok) (simp_all add: on_data_def)
    then show ?thesis using w'(2,4) ne unfolding clean_step_ok_def
      by (metis less_imp_le)
  qed
qed

lemma step_clean:
  assumes inv: "rp_clean_inv S sm w" and m: "small_grants mal" and S: "S \<noteq> [] \<Longrightarrow> S ! 0 = 42"
  shows "clean_step_ok S w (rp_clean mal sm w)"
proof -
  have d: "sm_state sm = RESP_SM_CLEAN" "rb_start_ptr (sm_data sm) = 0" "net_open (w_net w)"
    using inv by (auto simp: rp_clean_inv_def)
  let ?sm = "sm\<lparr>sm_result := Some (resp_cmd_init 0)\<rparr>"
  have g: "mal RESP_ALLOCATIONS_SIZE" using m by (simp add: small_grants_def RESP_ALLOCATIONS_SIZE_def)
  show ?thesis
  proof (cases "rb_buf (sm_data sm) = NULL")
    case True
    then have n: "rb_end_ptr (sm_data sm) = 0" "net_bytes (w_net w) = S" using inv by (simp_all add: rp_clean_inv_def)
    obtain w1 where w1: "rp_create_buffer mal BUFSIZE w = Ok (length (w_heap w) + 1, w1)" "w_net w1 = w_net w"
      "heap_block (length (w_heap w) + 1) w1 = Ok (replicate 256 None @ [Some 0])"
      using rp_create_buffer_ok[OF m] by blast
    let ?sm1 = "on_data (\<lambda>d. d\<lparr>rb_buf := length (w_heap w) + 1, rb_start_ptr := 0, rb_end_ptr := 0, rb_length := BUFSIZE\<rparr>) ?sm"
    have "rp_clean mal sm w = rp_receive ?sm1 w1 rp_clean_check"
      using True w1(1) g by (simp add: rp_clean_def Let_def rp_fresh_buffer_def on_data_def)
    moreover have "buf_ok S (rb_buf (sm_data ?sm1)) 0 w1"
      using w1 d(3) n(2) by (simp add: buf_ok_def on_data_def)
    then have "clean_step_ok S w1 (rp_receive ?sm1 w1 rp_clean_check)"
      using S d(1) by (intro clean_receive_ok) (simp_all add: on_data_def BUFSIZE_def)
    ultimately show ?thesis using w1(2) by (simp add: clean_step_ok_def)
  next
    case False
    then obtain e where e: "rb_end_ptr (sm_data sm) = int e" "rb_length (sm_data sm) = 256" "buf_ok S (rb_buf (sm_data sm)) e w"
      using inv by (auto simp: rp_clean_inv_def)
    show ?thesis
    proof (cases "e = 0")
      case True
      then have "rp_clean mal sm w = rp_receive ?sm w rp_clean_check"
        using False d e g by (simp add: rp_clean_def Let_def)
      moreover have "clean_step_ok S w (rp_receive ?sm w rp_clean_check)"
        using S d e True by (intro clean_receive_ok) simp_all
      ultimately show ?thesis by simp
    next
      case pos: False
      have ne: "S \<noteq> []" using pos e(3) by (auto simp: buf_ok_def)
      have "rp_clean mal sm w = rp_clean_check ?sm w"
        using False d e pos g by (simp add: rp_clean_def Let_def)
      moreover have "\<exists>sm'. rp_clean_check ?sm w = Ok (Goto L_ARY_START, sm', w) \<and> sm_state sm' = RESP_SM_ARY_START \<and>
          at_start 1 e (sm_data sm') \<and> sm_result sm' = Some (resp_cmd_init 0) \<and> buf_ok S (rb_buf (sm_data sm')) e w"
        using pos e d S[OF ne] by (intro clean_check_ok) simp_all
      ultimately show ?thesis using ne by (auto simp: clean_step_ok_def)
    qed
  qed
qed

section \<open>Whole calls and sessions\<close>

text \<open>As long as the argument that is read fits.\<close>

lemma step_fits:
  assumes h: "heads_fit args" and m: "small_grants mal" and inv: "rp_inv l args rest k sm w"
    and fits: "l = L_BS_BODY \<or> l = L_BS_BODY_FIT \<Longrightarrow> arg_pos args (Suc k) \<le> 256"
    and small: "l = L_BS_BODY_FINISH \<Longrightarrow> Suc k < length args \<or> small_command args"
  shows "step_ok args rest l k w (rp_step mal l sm w)"
proof (cases l)
  case L_ARY_START
  then show ?thesis using step_ary_start[OF h m] inv by simp
next
  case L_BS_INIT
  then show ?thesis using step_bs_init inv by simp
next
  case L_BS_START_PRE
  then show ?thesis using step_bs_start_pre[OF h] inv by simp
next
  case L_BS_START
  then show ?thesis using step_bs_start[OF h] inv by simp
next
  case L_BS_BODY
  then show ?thesis using step_bs_body[OF fits] inv by simp
next
  case L_BS_BODY_FIT
  then show ?thesis using step_bs_body_fit[OF h fits] inv by simp
next
  case L_BS_BODY_FINISH
  then show ?thesis using step_bs_body_finish[OF h small m] inv by simp
qed (use inv in \<open>simp_all add: rp_inv_def\<close>)

lemma step_all:
  assumes c: "small_command args" and "small_grants mal" and inv: "rp_inv l args rest k sm w"
  shows "step_ok args rest l k w (rp_step mal l sm w)"
proof (rule step_fits[OF small_heads_fit[OF c] assms(2) inv])
  assume "l = L_BS_BODY \<or> l = L_BS_BODY_FIT"
  then have k: "k < length args" using inv by (auto simp: rp_inv_def in_args_def)
  then show "arg_pos args (Suc k) \<le> 256"
    using small_command_bounds(1)[OF c k] arg_pos_Suc[OF k] by simp
qed (use c in simp)

lemma rp_run_ok:
  assumes c: "small_command args" and m: "small_grants mal" and "rp_inv l args rest k sm w"
  shows "\<exists>s sm' w'. rp_run mal l sm w = returns (s, sm', w') \<and> (waits args rest w s sm' w' \<or> finishes args rest w s sm' w')"
  using assms(3)
proof (induction "(net_weight (w_net w), length args - k, label_rank l)" arbitrary: l k sm w
    rule: wf_induct_rule[OF wf_lex_prod[OF wf_less_than wf_lex_prod[OF wf_less_than wf_less_than]], consumes 0])
  case (1 l k w sm)
  have "step_ok args rest l k w (rp_step mal l sm w)" using step_all[OF c m 1(2)] .
  then consider (ret) s sm' w' where "rp_step mal l sm w = Ok (Return s, sm', w')"
      "waits args rest w s sm' w' \<or> finishes args rest w s sm' w'"
    | (goto) l' k' sm' w' where "rp_step mal l sm w = Ok (Goto l', sm', w')" "rp_inv l' args rest k' sm' w'"
      "net_weight (w_net w') \<le> net_weight (w_net w)"
      "net_weight (w_net w') < net_weight (w_net w) \<or> length args - k' < length args - k \<or> k' = k \<and> label_rank l' < label_rank l"
    by (auto simp: step_ok_def)
  then show ?case
  proof cases
    case ret
    then show ?thesis by (auto simp: rp_run.simps[of mal l])
  next
    case goto
    have "((net_weight (w_net w'), length args - k', label_rank l'), net_weight (w_net w), length args - k, label_rank l)
        \<in> less_than <*lex*> less_than <*lex*> less_than"
      using goto(3,4) by auto
    from 1(1)[OF this goto(2)] obtain s sm2 w2 where r: "rp_run mal l' sm' w' = returns (s, sm2, w2)"
      "waits args rest w' s sm2 w2 \<or> finishes args rest w' s sm2 w2" by blast
    then have "waits args rest w s sm2 w2 \<or> finishes args rest w s sm2 w2"
      using goto(3) by (auto simp: waits_def finishes_def)
    then show ?thesis using r(1) goto(1) by (auto simp: rp_run.simps[of mal l])
  qed
qed

text \<open>Ready to go on with a command: in the middle of it, or before it.\<close>

definition rp_ready :: "bytes list \<Rightarrow> bytes \<Rightarrow> 'u resp_sm \<Rightarrow> rp_world \<Rightarrow> bool" where
  "rp_ready args rest sm w \<longleftrightarrow>
     (\<exists>l k. rp_entry (sm_state sm) = Some l \<and> rp_inv l args rest k sm w) \<or>
     rp_clean_inv (enc_command args @ rest) sm w"

lemma process_ready:
  assumes c: "small_command args" and m: "small_grants mal" and ready: "rp_ready args rest sm w"
  obtains (Empty) sm' w' where "resp_cmd_process_sm mal sm w = returns (RESP_SM_STATUS_EMPTY, sm', w')"
      "rp_ready args rest sm' w'" "w_net w' \<noteq> []" "net_weight (w_net w') < net_weight (w_net w)"
  | (Done) s sm' w' r where "resp_cmd_process_sm mal sm w = returns (s, sm', w')"
      "s = RESP_SM_STATUS_DONE \<and> rb_buf (sm_data sm') = NULL \<or> s = RESP_SM_STATUS_MORE \<and> rest \<noteq> []"
      "resp_cmd_sm_allocs sm' = Some r" "command_args w' r = Some args" "ra_allocation_count r = 1"
      "rp_clean_inv rest sm' w'"
proof -
  have run: thesis if inv: "rp_inv l args rest k sm1 w1" and eq: "resp_cmd_process_sm mal sm w = rp_run mal l sm1 w1"
    and le: "net_weight (w_net w1) \<le> net_weight (w_net w)" for l k sm1 w1
  proof -
    obtain s sm' w' where "rp_run mal l sm1 w1 = returns (s, sm', w')"
      "waits args rest w1 s sm' w' \<or> finishes args rest w1 s sm' w'"
      using rp_run_ok[OF c m inv] by blast
    then show thesis using eq le Empty Done
      by (fastforce simp: waits_def finishes_def rp_ready_def)
  qed
  from ready consider (mid) l k where "rp_entry (sm_state sm) = Some l" "rp_inv l args rest k sm w"
    | (clean) "rp_clean_inv (enc_command args @ rest) sm w"
    by (auto simp: rp_ready_def)
  then show thesis
  proof cases
    case mid
    then show thesis by (intro run[OF mid(2)]) (simp_all add: resp_cmd_process_sm_def)
  next
    case clean
    have entry: "rp_entry (sm_state sm) = Some L_CLEAN" using clean by (simp add: rp_clean_inv_def)
    then have p: "resp_cmd_process_sm mal sm w = rp_run mal L_CLEAN sm w" by (simp add: resp_cmd_process_sm_def)
    have ne: "enc_command args \<noteq> []" by (simp add: enc_command_def enc_head_def)
    have "clean_step_ok (enc_command args @ rest) w (rp_clean mal sm w)"
      using clean m by (rule step_clean) (simp add: enc_command_def enc_head_def)
    then consider (wait) sm' w' where "rp_clean mal sm w = Ok (Return RESP_SM_STATUS_EMPTY, sm', w')"
        "rp_clean_inv (enc_command args @ rest) sm' w'" "w_net w' \<noteq> []" "net_weight (w_net w') < net_weight (w_net w)"
      | (go) sm' w' where "rp_clean mal sm w = Ok (Goto L_ARY_START, sm', w')"
        "rp_inv L_ARY_START args rest 0 sm' w'" "net_weight (w_net w') \<le> net_weight (w_net w)"
      using ne by (auto simp: clean_step_ok_def rp_inv_def; blast)
    then show thesis
    proof cases
      case wait
      then show thesis using p Empty by (auto simp: rp_run.simps[of mal L_CLEAN] rp_ready_def)
    next
      case go
      then show thesis using p by (intro run[OF go(2)]) (simp_all add: rp_run.simps[of mal L_CLEAN])
    qed
  qed
qed

lemma process_idle:
  assumes m: "small_grants mal" and "rp_clean_inv [] sm w"
  obtains sm' w' where "resp_cmd_process_sm mal sm w = returns (RESP_SM_STATUS_EMPTY, sm', w')"
    "rp_clean_inv [] sm' w'" "w_net w' = [] \<or> net_weight (w_net w') < net_weight (w_net w)"
proof -
  have "rp_entry (sm_state sm) = Some L_CLEAN" using assms(2) by (simp add: rp_clean_inv_def)
  moreover have "clean_step_ok [] w (rp_clean mal sm w)" using assms(2) m by (rule step_clean) simp
  ultimately show thesis
    using that by (auto simp: clean_step_ok_def resp_cmd_process_sm_def rp_run.simps[of mal L_CLEAN])
qed

text \<open>
  A connection: the parser is called until it has no more data to wait for; what it has parsed is
  read off when it returns.
\<close>

partial_function (option) rp_session ::
    "grants \<Rightarrow> 'u resp_sm \<Rightarrow> rp_world \<Rightarrow> (bytes list list \<times> resp_sm_status) run" where
  "rp_session mal sm w =
     (case resp_cmd_process_sm mal sm w of
        None \<Rightarrow> None
      | Some (Inl e) \<Rightarrow> faults e
      | Some (Inr (s, sm', w')) \<Rightarrow>
          if s = RESP_SM_STATUS_EMPTY then
            (if w_net w' = [] then returns ([], s) else rp_session mal sm' w')
          else if s = RESP_SM_STATUS_DONE \<or> s = RESP_SM_STATUS_MORE then
            (case resp_cmd_sm_allocs sm' of
               None \<Rightarrow> faults NullDeref
             | Some r \<Rightarrow>
                 (case command_args w' r of
                    None \<Rightarrow> faults UninitRead
                  | Some args \<Rightarrow>
                      Option.bind (rp_session mal sm' w') (\<lambda>r.
                        case r of Inl e \<Rightarrow> faults e | Inr (cmds, s') \<Rightarrow> returns (args # cmds, s'))))
          else returns ([], s))"

declare rp_session.simps [code]

definition session_ready :: "bytes list list \<Rightarrow> 'u resp_sm \<Rightarrow> rp_world \<Rightarrow> bool" where
  "session_ready cmds sm w \<longleftrightarrow>
     (case cmds of [] \<Rightarrow> rp_clean_inv [] sm w
      | args # cs \<Rightarrow> rp_ready args (concat (map enc_command cs)) sm w)"

lemma session_ok:
  assumes m: "small_grants mal" and "\<forall>c \<in> set cmds. small_command c" and "session_ready cmds sm w"
  shows "rp_session mal sm w = returns (cmds, RESP_SM_STATUS_EMPTY)"
  using assms(2,3)
proof (induction "(length cmds, net_weight (w_net w))" arbitrary: cmds sm w
    rule: wf_induct_rule[OF wf_lex_prod[OF wf_less_than wf_less_than], consumes 0])
  case (1 cmds w sm)
  show ?case
  proof (cases cmds)
    case Nil
    then have "rp_clean_inv [] sm w" using 1(3) by (simp add: session_ready_def)
    with m obtain sm' w' where w': "resp_cmd_process_sm mal sm w = returns (RESP_SM_STATUS_EMPTY, sm', w')"
      "rp_clean_inv [] sm' w'" "w_net w' = [] \<or> net_weight (w_net w') < net_weight (w_net w)"
      by (rule process_idle)
    then show ?thesis
      using 1(1)[of cmds w' sm'] Nil by (auto simp: rp_session.simps[of mal sm w] session_ready_def)
  next
    case (Cons args cs)
    then have c: "small_command args" and ready: "rp_ready args (concat (map enc_command cs)) sm w"
      using 1(2,3) by (simp_all add: session_ready_def)
    from c m ready show ?thesis
    proof (cases rule: process_ready)
      case (Empty sm' w')
      have "session_ready cmds sm' w'" using Empty(2) Cons by (simp add: session_ready_def)
      then have "rp_session mal sm' w' = returns (cmds, RESP_SM_STATUS_EMPTY)"
        using Empty(4) 1(2) by (intro 1(1)) auto
      then show ?thesis using Empty(1,3) by (simp add: rp_session.simps[of mal sm w])
    next
      case (Done s sm' w' r)
      have "session_ready cs sm' w'"
        using Done(6) by (cases cs) (auto simp: session_ready_def rp_ready_def)
      then have "rp_session mal sm' w' = returns (cs, RESP_SM_STATUS_EMPTY)"
        using 1(2) Cons by (intro 1(1)) auto
      then show ?thesis using Done(1-4) Cons by (auto simp: rp_session.simps[of mal sm w])
    qed
  qed
qed

section \<open>Properties\<close>

text \<open>
  C10. The parser reads back what clients send: on a new connection, for commands of up to 256 bytes
  on the wire each, pipelined or not, and whatever pieces and pauses the network delivers them in,
  the calls of \<open>resp_cmd_process_sm\<close> give exactly these commands in order, with their arguments
  byte for byte, and end up waiting for more; every call returns and none faults.
\<close>

theorem pipelined_commands_are_parsed:
  assumes "small_grants mal" and "\<forall>c \<in> set cmds. small_command c"
    and "net_open net" and "net_bytes net = concat (map enc_command cmds)"
  shows "rp_session mal (resp_sm_init b n fd data) \<lparr>w_heap = heap, w_net = net\<rparr> = returns (cmds, RESP_SM_STATUS_EMPTY)"
proof (rule session_ok[OF assms(1,2)])
  have "rp_clean_inv (concat (map enc_command cmds)) (resp_sm_init b n fd data) \<lparr>w_heap = heap, w_net = net\<rparr>"
    using assms(3,4) by (simp add: rp_clean_inv_def resp_sm_init_def)
  then show "session_ready cmds (resp_sm_init b n fd data) \<lparr>w_heap = heap, w_net = net\<rparr>"
    by (cases cmds) (auto simp: session_ready_def rp_ready_def)
qed

text \<open>\<open>GET k\<close> and \<open>SET k v\<close>, the first cut in two with a pause in between.\<close>

theorem pipelined_commands_are_parsed_witness:
  "rp_session (\<lambda>n. n \<le> 4096) (resp_sm_init 0 0 5 ())
     \<lparr>w_heap = [], w_net = [Bytes (take 7 (enc_command [[71, 69, 84], [107]])), WouldBlock,
        Bytes (drop 7 (enc_command [[71, 69, 84], [107]]) @ enc_command [[83, 69, 84], [107], [118]])]\<rparr>
     = returns ([[[71, 69, 84], [107]], [[83, 69, 84], [107], [118]]], RESP_SM_STATUS_EMPTY)"
proof (rule pipelined_commands_are_parsed)
  show "small_grants (\<lambda>n. n \<le> 4096)" by (simp add: small_grants_def)
  show "\<forall>c \<in> set [[[71, 69, 84], [107]], [[83, 69, 84], [107], [118]]]. small_command c"
    by (simp add: small_command_def enc_command_def enc_head_def enc_arg_def dec.simps)
qed (simp_all flip: append_assoc)

end
