(* ===== verification/Resp_Faults.thy ===== *)
theory Resp_Faults
  imports Resp_Roundtrip
begin

text \<open>
  Inputs on which the parser of commands leaves its buffers, loses data or accepts a command that
  was not sent; each is a closed run of the model.
\<close>

text \<open>All requests of up to a page are granted.\<close>

definition page_grants :: "grants" where
  "page_grants n \<longleftrightarrow> 0 \<le> n \<and> n \<le> 4096"

definition first_call :: "segment list \<Rightarrow> (resp_sm_status \<times> unit resp_sm \<times> rp_world) run" where
  "first_call net = resp_cmd_process_sm page_grants (resp_sm_init 0 0 5 ()) \<lparr>w_heap = [], w_net = net\<rparr>"

text \<open>The status, the recorded lengths and what is left on the socket.\<close>

definition call_summary ::
    "(resp_sm_status \<times> unit resp_sm \<times> rp_world) run \<Rightarrow> (resp_sm_status \<times> int option list \<times> segment list) res" where
  "call_summary r =
     (case r of None \<Rightarrow> Fault LibraryDomain
      | Some (Inl e) \<Rightarrow> Fault e
      | Some (Inr (s, sm, w)) \<Rightarrow>
          Ok (s, (case sm_result sm of None \<Rightarrow> [] | Some a \<Rightarrow> (case ra_argv_lengths a of None \<Rightarrow> [] | Some ls \<Rightarrow> ls)), w_net w))"

text \<open>The bytes of \<open>*2 $3 GET $-2\<close>.\<close>

definition negative_length :: bytes where
  "negative_length = [42,50,13,10, 36,51,13,10, 71,69,84,13,10, 36,45,50,13,10]"

definition big_body :: "nat \<Rightarrow> bytes" where
  "big_body n = replicate n 120"

text \<open>
  Malformed counts are not rejected, and arguments of more than 256 bytes break the parser.  A bulk string of
  length -2 is taken for an argument: \<open>$-2\<close> passes as a complete command whose second length is -2, since the two
  bytes before the argument are the end of its own header.  \<open>*0\<close> followed by a bulk string makes the parser
  store its argument past the end of an array of no elements.  One argument of 300 bytes overflows the array
  of allocations: it has \<open>argc + 1\<close> slots, and the parser records the first buffer, the buffer of the argument
  and the one after it.  And the part of a big argument that arrives together with its header is lost: the
  whole of \<open>GET\<close> with a key of 300 bytes has arrived, and the parser still waits.
\<close>

lemma bad_requests_break_the_parser:
  "call_summary (first_call [Bytes negative_length]) = Ok (RESP_SM_STATUS_DONE, [Some 3, Some (- 2)], []) \<and>
   call_summary (first_call [Bytes [42,48,13,10, 36,49,13,10, 97,13,10]]) = Fault OutOfBounds \<and>
   call_summary (first_call [Bytes [42,49,13,10, 36,51,48,48,13,10], Bytes (big_body 300 @ [13,10])]) = Fault OutOfBounds \<and>
   call_summary (first_call [Bytes ([42,50,13,10, 36,51,13,10, 71,69,84,13,10, 36,51,48,48,13,10] @ big_body 100), Bytes (big_body 200 @ [13,10])])
     = Ok (RESP_SM_STATUS_EMPTY, [Some 3, None], [])"
  by (intro conjI; code_simp)

end
