(* ===== verification/Resp_Lost.thy ===== *)
theory Resp_Lost
  imports Resp_Faults
begin

text \<open>
  A last argument that does not fit into the first buffer: the parser makes a buffer for it and leaves what
  has already arrived of it behind, so it waits for bytes that have been taken.
\<close>

section \<open>Pieces of the network\<close>

text \<open>
  Of a stream, \<open>e\<close> bytes have been taken and \<open>net\<close> is to come: no piece of it ends at \<open>t\<close>, nor does what has
  been taken.
\<close>

definition uncut :: "nat \<Rightarrow> nat \<Rightarrow> segment list \<Rightarrow> bool" where
  "uncut t e net \<longleftrightarrow> (\<forall>pre post. net = pre @ post \<longrightarrow> e + length (net_bytes pre) \<noteq> t)"

lemma uncut_here: "uncut t e net \<Longrightarrow> e \<noteq> t"
  unfolding uncut_def by (metis append_Nil add_0_right list.size(3) net_bytes.simps(1))

lemma uncut_suffix:
  assumes "uncut t e (pre @ net)" and "e' = e + length (net_bytes pre)"
  shows "uncut t e' net"
  unfolding uncut_def
proof (intro allI impI)
  fix p q assume "net = p @ q"
  then have "pre @ net = (pre @ p) @ q" by simp
  then have "e + length (net_bytes (pre @ p)) \<noteq> t" using assms(1) unfolding uncut_def by blast
  moreover have "net_bytes (pre @ p) = net_bytes pre @ net_bytes p" by (induction pre rule: net_bytes.induct) simp_all
  ultimately show "e' + length (net_bytes p) \<noteq> t" using assms(2) by simp
qed

lemma uncut_split:
  assumes "uncut t e (Bytes bs # net)" and "n < length bs" and "t < e + n"
  shows "uncut t (e + n) (Bytes (drop n bs) # net)"
  using assms(3) by (auto simp: uncut_def)

lemma sock_recv_uncut:
  assumes "uncut t e net" and "t < e + n"
  shows "uncut t (case fst (sock_recv n net) of Received bs \<Rightarrow> e + length bs | _ \<Rightarrow> e) (snd (sock_recv n net))"
  using assms
proof (induction n net rule: sock_recv.induct)
  case (5 n bs net)
  show ?case
  proof (cases "bs = []")
    case True
    then show ?thesis using 5 uncut_suffix[of t e "[Bytes bs]" net e] by simp
  next
    case False
    then show ?thesis
      using 5(2,3) uncut_suffix[of t e "[Bytes bs]" net "e + length bs"] uncut_split[of t e bs net n] by auto
  qed
qed (auto dest: uncut_suffix[of _ _ "[WouldBlock]", simplified])

section \<open>The steps keep to the pieces\<close>

text \<open>
  What a step leaves, as far as the first buffer is still the only one: then the result has at most one allocation.
\<close>

definition one_buffer :: "'u resp_sm \<Rightarrow> bool" where
  "one_buffer sm \<longleftrightarrow> (\<exists>r. sm_result sm = Some r \<and> ra_allocation_count r \<le> 1)"

definition first_buffer :: "'u resp_sm \<Rightarrow> bool" where
  "first_buffer sm \<longleftrightarrow> (\<exists>r. sm_result sm = Some r \<and> ra_allocation_count r = 1)"

definition uncut_sm :: "nat \<Rightarrow> 'u resp_sm \<Rightarrow> rp_world \<Rightarrow> bool" where
  "uncut_sm t sm w \<longleftrightarrow> uncut t (nat (rb_end_ptr (sm_data sm))) (w_net w)"

text \<open>The body of an argument is only read from it when more arguments follow.\<close>

definition early :: "rp_next \<Rightarrow> 'u resp_sm \<Rightarrow> bool" where
  "early n sm \<longleftrightarrow>
     (n = Goto L_BS_BODY_FIT \<or> n = Goto L_BS_BODY_FINISH \<or> sm_state sm = RESP_SM_BS_BODY_FIT \<and> (\<exists>s. n = Return s) \<longrightarrow>
        1 < rb_argc_countdown (sm_data sm))"

definition kept_out :: "nat \<Rightarrow> 'u rp_out \<Rightarrow> bool" where
  "kept_out t out \<longleftrightarrow>
     (\<forall>n sm' w'. out = Ok (n, sm', w') \<longrightarrow> n \<noteq> Return RESP_SM_STATUS_DONE \<and> n \<noteq> Return RESP_SM_STATUS_MORE \<and>
        (one_buffer sm' \<longrightarrow> uncut_sm t sm' w' \<and> early n sm'))"

lemma kept_out_Fault [simp]: "kept_out t (Fault e)"
  by (simp add: kept_out_def)

lemma kept_out_Ok [simp]:
  "kept_out t (Ok (n, sm', w')) \<longleftrightarrow> n \<noteq> Return RESP_SM_STATUS_DONE \<and> n \<noteq> Return RESP_SM_STATUS_MORE \<and>
     (one_buffer sm' \<longrightarrow> uncut_sm t sm' w' \<and> early n sm')"
  by (auto simp: kept_out_def)

lemma kept_out_bind: "(\<And>x. m = Ok x \<Longrightarrow> kept_out t (f x)) \<Longrightarrow> kept_out t (bind_res m f)"
  by (cases m) simp_all

lemma receive_kept_out:
  assumes u: "one_buffer sm \<Longrightarrow> uncut_sm t sm w" and d: "rb_length (sm_data sm) = 256" "0 \<le> rb_end_ptr (sm_data sm)" and t: "t < 256"
    and early: "\<And>s. early (Return s) sm"
    and k: "\<And>(bs :: bytes) w'. (one_buffer sm \<Longrightarrow> uncut_sm t (on_data (\<lambda>d. d\<lparr>rb_end_ptr := rb_end_ptr d + int (length bs)\<rparr>) sm) w') \<Longrightarrow>
        kept_out t (k (on_data (\<lambda>d. d\<lparr>rb_end_ptr := rb_end_ptr d + int (length bs)\<rparr>) sm) w')"
  shows "kept_out t (rp_receive sm w k)"
proof -
  let ?e = "rb_end_ptr (sm_data sm)"
  have un: "one_buffer sm \<longrightarrow> uncut t (case r of Received bs \<Rightarrow> nat ?e + length bs | _ \<Rightarrow> nat ?e) (w_net w')"
    if fill: "rp_fill_remaining (rb_buf (sm_data sm)) ?e (rb_length (sm_data sm)) w = Ok (r, w')" for r w'
  proof
    assume one: "one_buffer sm"
    have lt: "?e < 256" using fill d by (auto simp: rp_fill_remaining_def split: if_splits)
    obtain got net where got: "sock_recv (nat (256 - ?e)) (w_net w) = (got, net)" by force
    have "t < nat ?e + nat (256 - ?e)" using d(2) lt t by linarith
    then have "uncut t (case got of Received bs \<Rightarrow> nat ?e + length bs | _ \<Rightarrow> nat ?e) net"
      using sock_recv_uncut[of t "nat ?e" "w_net w" "nat (256 - ?e)"] u[OF one] got by (simp add: uncut_sm_def)
    moreover have "r = got \<and> w_net w' = net"
      using fill got d(1) by (auto simp: rp_fill_remaining_def bind_res_Inr_iff dest: heap_write_net split: if_splits recv_result.splits)
    ultimately show "uncut t (case r of Received bs \<Rightarrow> nat ?e + length bs | _ \<Rightarrow> nat ?e) (w_net w')" by simp
  qed
  show ?thesis
    unfolding rp_receive_def Let_def
  proof (rule kept_out_bind)
    fix x assume fill: "rp_fill_remaining (rb_buf (sm_data sm)) ?e (rb_length (sm_data sm)) w = Ok x"
    obtain r w' where x: "x = (r, w')" by (cases x)
    note un' = un[OF fill[unfolded x]]
    show "kept_out t (case x of (r, w') \<Rightarrow> case r of
        Received bs \<Rightarrow> k (on_data (\<lambda>d. d\<lparr>rb_end_ptr := rb_end_ptr d + int (length bs)\<rparr>) sm) w'
      | RecvAgain \<Rightarrow> Ok (Return RESP_SM_STATUS_EMPTY, sm, w')
      | RecvEnd \<Rightarrow> Ok (Return RESP_SM_STATUS_CLOSED, sm, w'))"
    proof (cases r)
      case (Received bs)
      have "kept_out t (k (on_data (\<lambda>d. d\<lparr>rb_end_ptr := rb_end_ptr d + int (length bs)\<rparr>) sm) w')"
        by (rule k) (use un' Received d(2) in \<open>simp add: uncut_sm_def on_data_def nat_add_distrib\<close>)
      then show ?thesis using Received x by simp
    qed (use un' early x in \<open>simp_all add: uncut_sm_def\<close>)
  qed
qed

lemma receive_kept:
  assumes "one_buffer sm \<Longrightarrow> uncut_sm t sm w" and "rb_length (sm_data sm) = 256" "0 \<le> rb_end_ptr (sm_data sm)" and "t < 256"
    and "early (Goto l) sm" "\<And>s. early (Return s) sm"
  shows "kept_out t (rp_receive sm w (\<lambda>sm w. Ok (Goto l, sm, w)))"
  by (rule receive_kept_out) (use assms in \<open>auto simp: on_data_def early_def one_buffer_def\<close>)

lemma fresh_kept:
  assumes r: "first_buffer sm" and same: "sm_result (g sm) = sm_result sm"
  shows "kept_out t (bind_res (rp_fresh_buffer mal sz (g sm) w) (\<lambda>(sm, w).
     bind_res (on_result (result_add_allocation (rb_buf (sm_data sm))) sm) (\<lambda>sm. rp_receive sm w (\<lambda>sm w. Ok (Goto l, sm, w)))))"
proof (intro kept_out_bind)
  fix x assume x: "rp_fresh_buffer mal sz (g sm) w = Ok x"
  obtain sm1 w1 where x': "x = (sm1, w1)" by (cases x)
  have r1: "sm_result sm1 = sm_result sm"
    using x x' same by (auto simp: rp_fresh_buffer_def bind_res_Inr_iff on_data_def)
  have "kept_out t (rp_receive sm2 w1 (\<lambda>sm w. Ok (Goto l, sm, w)))"
    if "on_result (result_add_allocation (rb_buf (sm_data sm1))) sm1 = Ok sm2" for sm2
  proof -
    have two: "\<not> one_buffer sm2"
      using that r r1 by (auto simp: on_result_def one_buffer_def first_buffer_def result_add_allocation_def bind_res_Inr_iff)
    have data: "sm_result (on_data f sm2) = sm_result sm2" for f by (simp add: on_data_def)
    show ?thesis
      unfolding rp_receive_def Let_def
      by (intro kept_out_bind) (use two in \<open>auto simp: one_buffer_def data split: recv_result.splits\<close>)
  qed
  then show "kept_out t (case x of (sm, w) \<Rightarrow> bind_res (on_result (result_add_allocation (rb_buf (sm_data sm))) sm)
      (\<lambda>sm. rp_receive sm w (\<lambda>sm w. Ok (Goto l, sm, w))))"
    unfolding x' by (auto intro!: kept_out_bind)
qed

lemma on_data_other [simp]:
  "sm_result (on_data f sm) = sm_result sm" "sm_state (on_data f sm) = sm_state sm" "sm_data (on_data f sm) = f (sm_data sm)"
  by (simp_all add: on_data_def)

lemma early_other [simp]:
  "early (Goto L_BS_INIT) sm" "early (Goto L_BS_START_PRE) sm" "early (Goto L_BS_START) sm" "early (Goto L_BS_BODY) sm"
  "early (Goto L_ARY_START) sm" "sm_state sm \<noteq> RESP_SM_BS_BODY_FIT \<Longrightarrow> early (Return s) sm"
  by (simp_all add: early_def)

lemma uncut_sm_fields [simp]:
  "uncut_sm t (on_data (\<lambda>d. d\<lparr>rb_start_ptr := f d\<rparr>) sm) w = uncut_sm t sm w"
  "uncut_sm t (on_data (\<lambda>d. d\<lparr>rb_bs_length := f d\<rparr>) sm) w = uncut_sm t sm w"
  "uncut_sm t (on_data (\<lambda>d. d\<lparr>rb_argc_countdown := f d\<rparr>) sm) w = uncut_sm t sm w"
  "uncut_sm t (sm\<lparr>sm_state := st\<rparr>) w = uncut_sm t sm w"
  "uncut_sm t (sm\<lparr>sm_result := r\<rparr>) w = uncut_sm t sm w"
  by (simp_all add: uncut_sm_def on_data_def)

lemma on_result_uncut: "on_result f sm = Ok sm' \<Longrightarrow> uncut_sm t sm' w = uncut_sm t sm w"
  by (auto simp: on_result_def bind_res_Inr_iff split: option.splits)

lemma step_kept:
  assumes u: "uncut_sm t sm w" and d: "rb_length (sm_data sm) = 256" "0 \<le> rb_end_ptr (sm_data sm)" "t < 256"
    and one: "l \<noteq> L_ARY_START \<Longrightarrow> first_buffer sm"
    and l: "l \<noteq> L_CLEAN" "l \<noteq> L_BS_BODY_BIGBUF"
    and more: "l = L_BS_BODY \<or> l = L_BS_BODY_FIT \<or> l = L_BS_BODY_FINISH \<Longrightarrow>
        1 < rb_argc_countdown (sm_data sm) \<and> rb_argc_countdown (sm_data sm) \<le> 256"
    and st: "l = L_ARY_START \<or> l = L_BS_START_PRE \<or> l = L_BS_START \<Longrightarrow> sm_state sm \<noteq> RESP_SM_BS_BODY_FIT"
  shows "kept_out t (rp_step mal l sm w)"
proof (cases l)
  case L_ARY_START
  then show ?thesis
    using u receive_kept[OF u d] st
    by (auto simp: rp_ary_start_def Let_def on_result_uncut intro!: kept_out_bind split: prod.splits)
next
  case L_BS_INIT
  then show ?thesis using u by (simp add: rp_bs_init_def)
next
  case L_BS_START_PRE
  have o: "first_buffer sm" using one L_BS_START_PRE by simp
  show ?thesis
    unfolding L_BS_START_PRE rp_step.simps rp_bs_start_pre_def Let_def
    using u st L_BS_START_PRE receive_kept[OF u d] fresh_kept[OF o, of "\<lambda>x. x"] by (auto intro!: kept_out_bind[where m = "buf_at _ _ _"])
next
  case L_BS_START
  have o: "first_buffer sm" using one L_BS_START by simp
  show ?thesis
    unfolding L_BS_START rp_step.simps rp_bs_start_def Let_def
    using u st L_BS_START receive_kept[OF u d]
    by (auto intro!: kept_out_bind[where m = "buf_memchr _ _ _ _ _"] kept_out_bind[where m = "buf_strtol _ _ _"]
      kept_out_bind[where m = "long_op _"] kept_out_bind[where m = "crlf_at _ _ _"]
      kept_out_bind[where m = "if _ then _ else _"] fresh_kept[OF o, where g = "on_data _"] split: prod.splits)
next
  case L_BS_BODY
  have o: "first_buffer sm" using one L_BS_BODY by simp
  show ?thesis
    unfolding L_BS_BODY rp_step.simps rp_bs_body_def Let_def
    using u more L_BS_BODY fresh_kept[OF o, of "\<lambda>sm. sm\<lparr>sm_state := RESP_SM_BS_BODY_BIGBUF\<rparr>"]
    by (auto intro!: kept_out_bind[where m = "long_op _"] simp: early_def)
next
  case L_BS_BODY_FIT
  then have e: "early n sm" for n using more by (simp add: early_def)
  have "rb_argc_countdown (sm_data sm') = rb_argc_countdown (sm_data sm)" if "on_result f sm = Ok sm'" for f sm'
    using that by (auto simp: on_result_def bind_res_Inr_iff split: option.splits)
  then show ?thesis
    using u receive_kept[OF u d e e] more L_BS_BODY_FIT e
    by (auto simp: rp_bs_body_fit_def Let_def on_result_uncut early_def
        intro!: kept_out_bind)
next
  case L_BS_BODY_FINISH
  then show ?thesis
    using u more by (simp add: rp_bs_body_finish_def Let_def)
qed (use l in simp_all)

section \<open>The buffer of the argument\<close>

text \<open>It is \<open>L + 2\<close> bytes long, and less than that is still to come.\<close>

definition big_waits :: "nat \<Rightarrow> 'u resp_sm \<Rightarrow> rp_world \<Rightarrow> bool" where
  "big_waits L sm w \<longleftrightarrow>
     sm_state sm = RESP_SM_BS_BODY_BIGBUF \<and> rb_start_ptr (sm_data sm) = 0 \<and> rb_bs_length (sm_data sm) = int L \<and>
     rb_length (sm_data sm) = int L + 2 \<and> L < 2 ^ 62 \<and> net_open (w_net w) \<and>
     (\<exists>e cs. rb_end_ptr (sm_data sm) = int e \<and> heap_block (rb_buf (sm_data sm)) w = Ok cs \<and> L + 2 \<le> length cs \<and>
        e + length (net_bytes (w_net w)) < L + 2)"

lemma big_receive:
  assumes "big_waits L sm w"
  obtains (Empty) w' where "rp_receive sm w (\<lambda>sm w. Ok (Goto l, sm, w)) = Ok (Return RESP_SM_STATUS_EMPTY, sm, w')"
      "big_waits L sm w'" "w_net w' = [] \<or> net_weight (w_net w') < net_weight (w_net w)"
  | (More) sm' w' where "rp_receive sm w (\<lambda>sm w. Ok (Goto l, sm, w)) = Ok (Goto l, sm', w')"
      "big_waits L sm' w'" "net_weight (w_net w') < net_weight (w_net w)"
proof -
  let ?d = "sm_data sm"
  obtain e cs where e: "rb_end_ptr ?d = int e" "heap_block (rb_buf ?d) w = Ok cs" "L + 2 \<le> length cs"
    "e + length (net_bytes (w_net w)) < L + 2" and len: "rb_length ?d = int L + 2" and open_net: "net_open (w_net w)"
    using assms by (auto simp: big_waits_def)
  have cap: "nat (int L + 2 - int e) = L + 2 - e" by simp
  have fill: "rp_fill_remaining (rb_buf ?d) (rb_end_ptr ?d) (rb_length ?d) w =
      (case sock_recv (L + 2 - e) (w_net w) of
        (Received bs, net) \<Rightarrow>
          bind_res (heap_write (rb_buf ?d) e (map Some bs) (w\<lparr>w_net := net\<rparr>)) (\<lambda>w'. Ok (Received bs, w'))
      | (r, net) \<Rightarrow> Ok (r, w\<lparr>w_net := net\<rparr>))"
    unfolding rp_fill_remaining_def e(1) len cap nat_int using e(4) by simp
  have "0 < L + 2 - e" using e(4) by simp
  with open_net show thesis
  proof (cases rule: sock_recv_cases)
    case (Again net')
    have "big_waits L sm (w\<lparr>w_net := net'\<rparr>)" using assms Again(2,3) by (auto simp: big_waits_def)
    moreover have "rp_receive sm w (\<lambda>sm w. Ok (Goto l, sm, w)) = Ok (Return RESP_SM_STATUS_EMPTY, sm, w\<lparr>w_net := net'\<rparr>)"
      unfolding rp_receive_def Let_def fill using Again(1) by simp
    ultimately show thesis using Empty Again(4) by simp
  next
    case (Data bs net')
    let ?w = "w\<lparr>w_net := net'\<rparr>" and ?sm = "on_data (\<lambda>d. d\<lparr>rb_end_ptr := rb_end_ptr d + int (length bs)\<rparr>) sm"
    have lb: "length bs + length (net_bytes net') = length (net_bytes (w_net w))" using Data(5) by simp
    have blk: "heap_block (rb_buf ?d) ?w = Ok cs" using e(2) by simp
    have "e + length (map Some bs) \<le> length cs" using lb e(3,4) by simp
    then obtain w' where w': "heap_write (rb_buf ?d) e (map Some bs) ?w = Ok w'" "w_net w' = net'"
      "heap_block (rb_buf ?d) w' = Ok (take e cs @ map Some bs @ drop (e + length bs) cs)"
      using heap_block_write[OF blk, of e "map Some bs"] by auto
    have l: "length (take e cs @ map Some bs @ drop (e + length bs) cs) = length cs" using lb e(3,4) by simp
    have "big_waits L ?sm w'"
      using assms Data(2) w'(2,3) e(1,3,4) lb l unfolding big_waits_def by (auto intro!: exI[of _ "e + length bs"])
    moreover have "rp_receive sm w (\<lambda>sm w. Ok (Goto l, sm, w)) = Ok (Goto l, ?sm, w')"
      unfolding rp_receive_def Let_def fill using Data(1) w'(1) by simp
    ultimately show thesis using More Data(6) w'(2) by simp
  qed
qed

lemma big_step:
  assumes "big_waits L sm w"
  shows "rp_bs_body_bigbuf mal sm w = rp_receive sm w (\<lambda>sm w. Ok (Goto L_BS_BODY_BIGBUF, sm, w))"
proof -
  obtain e where e: "rb_end_ptr (sm_data sm) = int e" "e < L + 2" using assms by (auto simp: big_waits_def)
  have d: "rb_start_ptr (sm_data sm) = 0" "rb_bs_length (sm_data sm) = int L" "L < 2 ^ 62"
    using assms by (simp_all add: big_waits_def)
  have "long_op (int L + 2) = Ok (int L + 2)" "size_t (int L + 2) = int L + 2" "size_t (int e) = int e"
    using d(3) e(2) by simp_all
  then show ?thesis using d e by (simp add: rp_bs_body_bigbuf_def Let_def)
qed

lemma big_run:
  assumes "big_waits L sm w"
  shows "\<exists>sm' w'. rp_run mal L_BS_BODY_BIGBUF sm w = returns (RESP_SM_STATUS_EMPTY, sm', w') \<and> big_waits L sm' w' \<and>
           (w_net w' = [] \<or> net_weight (w_net w') < net_weight (w_net w))"
  using assms
proof (induction "net_weight (w_net w)" arbitrary: sm w rule: less_induct)
  case less
  note step = big_step[OF less.prems, of mal]
  from less.prems show ?case
  proof (cases rule: big_receive[where l = L_BS_BODY_BIGBUF])
    case (Empty w')
    then show ?thesis by (subst rp_run.simps) (simp add: step)
  next
    case (More sm' w')
    obtain sm2 w2 where "rp_run mal L_BS_BODY_BIGBUF sm' w' = returns (RESP_SM_STATUS_EMPTY, sm2, w2)" "big_waits L sm2 w2"
      "w_net w2 = [] \<or> net_weight (w_net w2) < net_weight (w_net w')"
      using less.hyps[OF More(3,2)] by blast
    then show ?thesis using More(1,3) by (subst rp_run.simps) (auto simp: step)
  qed
qed

text \<open>Entering it: the bytes of the argument that are in the first buffer are not copied.\<close>

lemma enters_big:
  assumes h: "heads_fit args" and m: "small_grants mal" "mal (int (length (last args)) + 3)"
    and big: "256 < length (enc_command args)" and inv: "rp_inv L_BS_BODY args [] (length args - 1) sm w"
    and u: "uncut_sm (text_pos args (length args - 1)) sm w"
  obtains sm' w' where "rp_bs_body mal sm w = rp_receive sm' w' (\<lambda>sm w. Ok (Goto L_BS_BODY_BIGBUF, sm, w))"
    "big_waits (length (last args)) sm' w'" "w_net w' = w_net w"
proof -
  let ?d = "sm_data sm" and ?k = "length args - 1"
  define L where "L = length (last args)"
  from inv obtain e where at: "at_label L_BS_BODY args ?k e sm" and ok: "buf_ok (enc_command args) (rb_buf ?d) e w"
    by (auto simp: rp_inv_def)
  have ne: "args \<noteq> []" using h by (simp add: heads_fit_def)
  then have k: "?k < length args" and lst: "args ! ?k = last args" by (simp_all add: last_conv_nth)
  define s where "s = text_pos args ?k"
  have d: "rb_start_ptr ?d = int s" "rb_end_ptr ?d = int e" "s \<le> e" "rb_length ?d = 256" "rb_bs_length ?d = int L"
    using at lst by (auto simp: label_defs s_def L_def)
  obtain r where r: "sm_result sm = Some r" "args_done args ?k (rb_buf ?d) r" using at by (auto simp: in_args_def)
  then obtain al where al: "ra_allocations r = Some al" "length al = Suc (length args)" "ra_allocation_count r = 1"
    by (auto simp: args_done_def)
  have total: "length (enc_command args) = s + L + 2"
    using arg_pos_length[of args] arg_pos_Suc[OF k] lst ne by (simp add: s_def L_def)
  have s: "s \<le> 256" and L: "L < 2 ^ 62" using h by (simp_all add: heads_fit_def s_def L_def)
  have "e \<noteq> s" using uncut_here[OF u[unfolded uncut_sm_def]] d(2) by (simp add: s_def)
  then have se: "s < e" using d(3) by simp
  let ?n = "int L + 2" and ?a = "length (w_heap w) + 1"
  let ?w = "w\<lparr>w_heap := w_heap w @ [Some ((replicate (L + 3) None)[L + 2 := Some 0])]\<rparr>"
  have op: "long_op ?n = Ok ?n" "size_t ?n = ?n" "size_t (?n + 1) = ?n + 1" "size_t (256 - int s) = 256 - int s"
    using L s by simp_all
  have nat_n: "nat (?n + 1) = L + 3" "nat ?n = L + 2" by simp_all
  have new: "rp_create_buffer mal ?n w = Ok (?a, ?w)"
    using m(2) unfolding rp_create_buffer_def Let_def op nat_n by (simp add: L_def add.commute)
  let ?sm1 = "on_data (\<lambda>d. d\<lparr>rb_buf := ?a, rb_start_ptr := 0, rb_end_ptr := 0, rb_length := ?n\<rparr>)
      (sm\<lparr>sm_state := RESP_SM_BS_BODY_BIGBUF\<rparr>)"
  let ?r = "r\<lparr>ra_allocations := Some (al[1 := Some ?a]), ra_allocation_count := 2\<rparr>"
  have add: "result_add_allocation ?a r = Ok ?r"
    using al ne by (simp add: result_add_allocation_def slots_put_def)
  have nofit: "\<not> ?n \<le> 256 - int s" using big total by simp
  have "rp_bs_body mal sm w = rp_receive (?sm1\<lparr>sm_result := Some ?r\<rparr>) ?w (\<lambda>sm w. Ok (Goto L_BS_BODY_BIGBUF, sm, w))"
    unfolding rp_bs_body_def Let_def d op bind_res_simps if_not_P[OF nofit] rp_fresh_buffer_def new prod.case
    using r(1) add by (simp add: on_result_def)
  moreover have "big_waits L (?sm1\<lparr>sm_result := Some ?r\<rparr>) ?w"
    using ok d(5) L total se by (auto simp: big_waits_def heap_block_def nth_append buf_ok_def)
  ultimately show thesis using that by (simp add: L_def)
qed

section \<open>The parser that waits in vain\<close>

text \<open>On its way to the last argument, or in its buffer.\<close>

definition losing :: "bytes list \<Rightarrow> 'u resp_sm \<Rightarrow> rp_world \<Rightarrow> bool" where
  "losing args sm w \<longleftrightarrow>
     big_waits (length (last args)) sm w \<or>
     (\<exists>l k. rp_entry (sm_state sm) = Some l \<and> rp_inv l args [] k sm w) \<and> early (Return RESP_SM_STATUS_EMPTY) sm \<and>
        uncut_sm (text_pos args (length args - 1)) sm w"

definition lost_call ::
    "bytes list \<Rightarrow> rp_world \<Rightarrow> (resp_sm_status \<times> 'u resp_sm \<times> rp_world) run \<Rightarrow> bool" where
  "lost_call args w r \<longleftrightarrow>
     (\<exists>sm' w'. r = returns (RESP_SM_STATUS_EMPTY, sm', w') \<and> losing args sm' w' \<and>
        (w_net w' = [] \<or> net_weight (w_net w') < net_weight (w_net w)))"

lemma lost_call_mono: "lost_call args w' r \<Longrightarrow> net_weight (w_net w') \<le> net_weight (w_net w) \<Longrightarrow> lost_call args w r"
  unfolding lost_call_def using less_le_trans by blast

lemma body_run:
  assumes "heads_fit args" and "small_grants mal" "mal (int (length (last args)) + 3)"
    and "256 < length (enc_command args)" and "rp_inv L_BS_BODY args [] (length args - 1) sm w"
    and "uncut_sm (text_pos args (length args - 1)) sm w"
  shows "lost_call args w (rp_run mal L_BS_BODY sm w)"
proof -
  obtain sm1 w1 where b: "rp_bs_body mal sm w = rp_receive sm1 w1 (\<lambda>sm w. Ok (Goto L_BS_BODY_BIGBUF, sm, w))"
    "big_waits (length (last args)) sm1 w1" "w_net w1 = w_net w"
    using enters_big[OF assms] .
  from b(2) show ?thesis
  proof (cases rule: big_receive[where l = L_BS_BODY_BIGBUF])
    case (Empty w')
    then show ?thesis using b(1,3) by (subst rp_run.simps) (auto simp: lost_call_def losing_def)
  next
    case (More sm' w')
    obtain sm2 w2 where "rp_run mal L_BS_BODY_BIGBUF sm' w' = returns (RESP_SM_STATUS_EMPTY, sm2, w2)"
      "big_waits (length (last args)) sm2 w2" "w_net w2 = [] \<or> net_weight (w_net w2) < net_weight (w_net w')"
      using big_run[OF More(2)] by blast
    then show ?thesis using More(1,3) b(1,3) by (subst rp_run.simps) (auto simp: lost_call_def losing_def)
  qed
qed

text \<open>What the invariant of a label gives to \<open>step_kept\<close>.\<close>

lemma inv_data:
  assumes "rp_inv l args rest k sm w"
  shows "rb_length (sm_data sm) = 256" and "0 \<le> rb_end_ptr (sm_data sm)" and "l \<noteq> L_CLEAN" and "l \<noteq> L_BS_BODY_BIGBUF"
    and "l \<noteq> L_ARY_START \<Longrightarrow>
      first_buffer sm \<and> rb_argc_countdown (sm_data sm) = int (length args) - int k \<and> k < length args"
    and "l = L_ARY_START \<or> l = L_BS_START_PRE \<or> l = L_BS_START \<Longrightarrow> sm_state sm \<noteq> RESP_SM_BS_BODY_FIT"
    and "one_buffer sm"
  using assms
  by (cases l; auto simp: rp_inv_def label_defs one_buffer_def first_buffer_def args_done_def resp_cmd_init_def)+

lemma head_run:
  assumes h: "heads_fit args" and m: "small_grants mal" "mal (int (length (last args)) + 3)"
    and big: "256 < length (enc_command args)" and t: "text_pos args (length args - 1) < 256"
    and "rp_inv l args [] k sm w" and "uncut_sm (text_pos args (length args - 1)) sm w" and "early (Goto l) sm"
  shows "lost_call args w (rp_run mal l sm w)"
  using assms(6-8)
proof (induction "(net_weight (w_net w), length args - k, label_rank l)" arbitrary: l k sm w
    rule: wf_induct_rule[OF wf_lex_prod[OF wf_less_than wf_lex_prod[OF wf_less_than wf_less_than]], consumes 0])
  case (1 l k w sm)
  note inv = 1(2) and u = 1(3) and early = 1(4)
  show ?case
  proof (cases "l = L_BS_BODY \<and> k = length args - 1")
    case True
    then show ?thesis using body_run[OF h m big] inv u by blast
  next
    case False
    have more: "Suc k < length args" if "l = L_BS_BODY \<or> l = L_BS_BODY_FIT \<or> l = L_BS_BODY_FINISH"
      using that False early inv_data(5)[OF inv] by (auto simp: early_def)
    have n: "length args \<le> 256" using h heads_fit_bounds(2)[OF h, of "length args - 1"] by (simp add: heads_fit_def)
    have step: "step_ok args [] l k w (rp_step mal l sm w)"
      by (rule step_fits[OF h m(1) inv]) (use more heads_fit_arg[OF h] in auto)
    have kept: "kept_out (text_pos args (length args - 1)) (rp_step mal l sm w)"
      by (rule step_kept[OF u inv_data(1,2)[OF inv] t]) (use inv_data(3-6)[OF inv] more n in force)+
    from step consider (ret) s sm' w' where "rp_step mal l sm w = Ok (Return s, sm', w')"
        "waits args [] w s sm' w' \<or> finishes args [] w s sm' w'"
      | (goto) l' k' sm' w' where "rp_step mal l sm w = Ok (Goto l', sm', w')" "rp_inv l' args [] k' sm' w'"
        "net_weight (w_net w') \<le> net_weight (w_net w)"
        "net_weight (w_net w') < net_weight (w_net w) \<or> length args - k' < length args - k \<or> k' = k \<and> label_rank l' < label_rank l"
      by (auto simp: step_ok_def)
    then show ?thesis
    proof cases
      case ret
      have no: "s \<noteq> RESP_SM_STATUS_DONE" "s \<noteq> RESP_SM_STATUS_MORE" using kept ret(1) by simp_all
      then have w: "waits args [] w s sm' w'" using ret(2) by (auto simp: finishes_def)
      then obtain l' k' where inv': "rp_inv l' args [] k' sm' w'" by (auto simp: waits_def)
      have "uncut_sm (text_pos args (length args - 1)) sm' w' \<and> early (Return s) sm'"
        using kept ret(1) inv_data(7)[OF inv'] by simp
      then show ?thesis
        using ret(1) w by (subst rp_run.simps) (auto simp: lost_call_def losing_def waits_def)
    next
      case goto
      have "((net_weight (w_net w'), length args - k', label_rank l'), net_weight (w_net w), length args - k, label_rank l)
          \<in> less_than <*lex*> less_than <*lex*> less_than"
        using goto(3,4) by auto
      moreover have "uncut_sm (text_pos args (length args - 1)) sm' w'" "early (Goto l') sm'"
        using kept goto(1) inv_data(7)[OF goto(2)] by simp_all
      ultimately have "lost_call args w' (rp_run mal l' sm' w')" using 1(1) goto(2) by blast
      then show ?thesis using goto(1) lost_call_mono[OF _ goto(3)] by (subst rp_run.simps) simp
    qed
  qed
qed

lemma clean_kept:
  assumes u: "uncut_sm t sm w" and t: "t < 256" and inv: "rp_clean_inv S sm w"
  shows "kept_out t (rp_clean mal sm w)"
proof -
  let ?sm = "sm\<lparr>sm_result := Some (resp_cmd_init 0)\<rparr>"
  have st: "sm_state sm = RESP_SM_CLEAN" using inv by (simp add: rp_clean_inv_def)
  have check: "kept_out t (rp_clean_check s v)"
    if "one_buffer s \<Longrightarrow> uncut_sm t s v" "sm_state s = RESP_SM_CLEAN" for s :: "'a resp_sm" and v
    using that unfolding rp_clean_check_def
    by (auto intro!: kept_out_bind simp: one_buffer_def)
  have body: "kept_out t (if rb_start_ptr (sm_data s) = rb_end_ptr (sm_data s) then rp_receive s v rp_clean_check else rp_clean_check s v)"
    if s: "uncut_sm t s v" "sm_state s = RESP_SM_CLEAN" "rb_length (sm_data s) = 256" "0 \<le> rb_end_ptr (sm_data s)"
    for s :: "'a resp_sm" and v
    using check[of s v] s t receive_kept_out[of s t v rp_clean_check]
    by (auto intro!: receive_kept_out check simp: one_buffer_def)
  show ?thesis
  proof (cases "rb_buf (sm_data sm) = NULL")
    case True
    then have e: "rb_end_ptr (sm_data sm) = 0" using inv by (simp add: rp_clean_inv_def)
    have "kept_out t (if rb_start_ptr (sm_data s) = rb_end_ptr (sm_data s) then rp_receive s v rp_clean_check else rp_clean_check s v)"
      if new: "rp_fresh_buffer mal BUFSIZE ?sm w = Ok (s, v)" for s v
    proof (rule body)
      obtain a where a: "rp_create_buffer mal BUFSIZE w = Ok (a, v)"
        "s = on_data (\<lambda>d. d\<lparr>rb_buf := a, rb_start_ptr := 0, rb_end_ptr := 0, rb_length := BUFSIZE\<rparr>) ?sm"
        using new by (auto simp: rp_fresh_buffer_def bind_res_Inr_iff)
      have "w_net v = w_net w" using a(1) by (auto simp: rp_create_buffer_def Let_def split: if_splits)
      then show "uncut_sm t s v" using u e by (simp add: uncut_sm_def a(2))
    qed (use new st in \<open>auto simp: rp_fresh_buffer_def bind_res_Inr_iff BUFSIZE_def\<close>)
    then show ?thesis
      using True by (auto simp: rp_clean_def Let_def intro!: kept_out_bind)
  next
    case False
    then have d: "rb_length (sm_data ?sm) = 256" "0 \<le> rb_end_ptr (sm_data ?sm)" using inv by (auto simp: rp_clean_inv_def)
    show ?thesis using body[OF _ _ d, of w] False u st by (auto simp: rp_clean_def Let_def)
  qed
qed

lemma clean_result:
  assumes "rp_clean mal sm w = Ok (n, sm', w')"
  shows "one_buffer sm'"
proof -
  have check: "sm_result sm' = sm_result s" if "rp_clean_check s v = Ok (n, sm', w')" for s :: "'a resp_sm" and v
    using that by (auto simp: rp_clean_check_def bind_res_Inr_iff split: if_splits)
  have receive: "sm_result sm' = sm_result s" if received: "rp_receive s v rp_clean_check = Ok (n, sm', w')" for s :: "'a resp_sm" and v
  proof -
    obtain x where x: "(case x of (r, v1) \<Rightarrow> case r of
          Received bs \<Rightarrow> rp_clean_check (on_data (\<lambda>d. d\<lparr>rb_end_ptr := rb_end_ptr d + int (length bs)\<rparr>) s) v1
        | RecvAgain \<Rightarrow> Ok (Return RESP_SM_STATUS_EMPTY, s, v1)
        | RecvEnd \<Rightarrow> Ok (Return RESP_SM_STATUS_CLOSED, s, v1)) = Ok (n, sm', w')"
      using received unfolding rp_receive_def Let_def bind_res_Inr_iff by blast
    obtain r v1 where r: "x = (r, v1)" by (cases x)
    show ?thesis
    proof (cases r)
      case (Received bs)
      then show ?thesis using check x r by fastforce
    qed (use x r in simp_all)
  qed
  have "sm_result sm' = Some (resp_cmd_init 0)"
    using assms check receive
    by (fastforce simp: rp_clean_def Let_def rp_fresh_buffer_def bind_res_Inr_iff split: if_splits)
  then show ?thesis by (simp add: one_buffer_def resp_cmd_init_def)
qed

section \<open>Calls\<close>

definition lost_ready :: "bytes list \<Rightarrow> 'u resp_sm \<Rightarrow> rp_world \<Rightarrow> bool" where
  "lost_ready args sm w \<longleftrightarrow>
     losing args sm w \<or>
     rp_clean_inv (enc_command args) sm w \<and> uncut_sm (text_pos args (length args - 1)) sm w"

text \<open>A command whose last argument starts in the first buffer and does not end in it.\<close>

definition big_last :: "bytes list \<Rightarrow> bool" where
  "big_last args \<longleftrightarrow>
     args \<noteq> [] \<and> text_pos args (length args - 1) < 256 \<and> 256 < length (enc_command args) \<and> length (last args) < 2 ^ 62"

lemma lost_process:
  assumes m: "small_grants mal" "mal (int (length (last args)) + 3)" and big: "big_last args" and ready: "lost_ready args sm w"
  obtains sm' w' where "resp_cmd_process_sm mal sm w = returns (RESP_SM_STATUS_EMPTY, sm', w')" "lost_ready args sm' w'"
    "w_net w' = [] \<or> net_weight (w_net w') < net_weight (w_net w)"
proof -
  let ?t = "text_pos args (length args - 1)"
  have h: "heads_fit args" and t: "?t < 256" and long: "256 < length (enc_command args)"
    using big by (simp_all add: big_last_def heads_fit_def)
  note run = head_run[OF h m long t]
  note found = that
  have lost: thesis if "lost_call args w (resp_cmd_process_sm mal sm w)"
    using that found unfolding lost_call_def lost_ready_def by blast
  consider (big) "big_waits (length (last args)) sm w"
    | (mid) l k where "rp_entry (sm_state sm) = Some l" "rp_inv l args [] k sm w" "early (Return RESP_SM_STATUS_EMPTY) sm" "uncut_sm ?t sm w"
    | (clean) "rp_clean_inv (enc_command args) sm w" "uncut_sm ?t sm w"
    using ready by (auto simp: lost_ready_def losing_def)
  then show thesis
  proof cases
    case big
    then show thesis
      using big_run[OF big, of mal] by (intro lost) (auto simp: resp_cmd_process_sm_def big_waits_def lost_call_def losing_def)
  next
    case mid
    have "early (Goto l) sm"
      using mid(1,3) by (cases "sm_state sm") (auto simp: early_def)
    then show thesis using run[OF mid(2,4)] mid(1) by (intro lost) (simp add: resp_cmd_process_sm_def)
  next
    case clean
    have p: "resp_cmd_process_sm mal sm w = rp_run mal L_CLEAN sm w"
      using clean(1) by (simp add: resp_cmd_process_sm_def rp_clean_inv_def)
    have ne: "enc_command args \<noteq> []" by (simp add: enc_command_def enc_head_def)
    have kept: "kept_out ?t (rp_clean mal sm w)" by (rule clean_kept[OF clean(2) t clean(1)])
    have "clean_step_ok (enc_command args) w (rp_clean mal sm w)"
      using clean(1) m(1) by (rule step_clean) (simp add: enc_command_def enc_head_def)
    with ne consider (wait) sm' w' where "rp_clean mal sm w = Ok (Return RESP_SM_STATUS_EMPTY, sm', w')"
        "rp_clean_inv (enc_command args) sm' w'" "net_weight (w_net w') < net_weight (w_net w)"
      | (go) sm' w' where "rp_clean mal sm w = Ok (Goto L_ARY_START, sm', w')"
        "rp_inv L_ARY_START args [] 0 sm' w'" "net_weight (w_net w') \<le> net_weight (w_net w)"
      by (auto simp: clean_step_ok_def rp_inv_def; blast)
    then show thesis
    proof cases
      case wait
      have "uncut_sm ?t sm' w'" using kept wait(1) clean_result[OF wait(1)] by simp
      then show thesis
        using that[of sm' w'] wait p by (simp add: lost_ready_def rp_run.simps[of mal L_CLEAN])
    next
      case go
      have "uncut_sm ?t sm' w'" using kept go(1) clean_result[OF go(1)] by simp
      then have "lost_call args w (rp_run mal L_ARY_START sm' w')"
        using lost_call_mono[OF _ go(3)] run[OF go(2)] by simp
      then show thesis using p go(1) by (intro lost) (simp add: rp_run.simps[of mal L_CLEAN])
    qed
  qed
qed

lemma lost_session:
  assumes "small_grants mal" "mal (int (length (last args)) + 3)" and "big_last args" and "lost_ready args sm w"
  shows "rp_session mal sm w = returns ([], RESP_SM_STATUS_EMPTY)"
  using assms(4)
proof (induction "net_weight (w_net w)" arbitrary: sm w rule: less_induct)
  case less
  obtain sm' w' where "resp_cmd_process_sm mal sm w = returns (RESP_SM_STATUS_EMPTY, sm', w')" "lost_ready args sm' w'"
    "w_net w' = [] \<or> net_weight (w_net w') < net_weight (w_net w)"
    using lost_process[OF assms(1-3) less.prems] .
  then show ?case using less.hyps by (subst rp_session.simps) auto
qed

section \<open>Properties\<close>

text \<open>
  C32. A last argument that does not end in the first buffer of 256 bytes is lost: take any command whose last argument starts
  within the buffer and ends behind it, and let it arrive complete, in any pieces and with any pauses, but for one thing, that no
  piece ends exactly where the bytes of that argument start.  Then, when what they ask of \<open>malloc\<close> is
  granted, the calls of the parser take all of it, give no
  command, and end up waiting for more.  The bytes of the argument that came into the first buffer are not copied into the one
  that is made for it.  This includes a command that arrives in one piece.
\<close>

theorem big_last_argument_is_lost:
  assumes "small_grants mal" and "mal (int (length (last args)) + 3)" and "big_last args"
    and "net_open net" and "net_bytes net = enc_command args"
    and "uncut (text_pos args (length args - 1)) 0 net"
  shows "rp_session mal (resp_sm_init b n fd data) \<lparr>w_heap = heap, w_net = net\<rparr> = returns ([], RESP_SM_STATUS_EMPTY)"
proof (rule lost_session[OF assms(1-3)])
  show "lost_ready args (resp_sm_init b n fd data) \<lparr>w_heap = heap, w_net = net\<rparr>"
    using assms(4-6) by (simp add: lost_ready_def rp_clean_inv_def uncut_sm_def resp_sm_init_def)
qed

text \<open>\<open>SET k v\<close> with 300 bytes for \<open>v\<close>, in one piece.\<close>

theorem big_last_argument_is_lost_witness:
  "rp_session page_grants (resp_sm_init 0 0 5 ()) \<lparr>w_heap = [], w_net = [Bytes (enc_command [[83, 69, 84], [107], big_body 300])]\<rparr>
     = returns ([], RESP_SM_STATUS_EMPTY)"
proof (rule big_last_argument_is_lost)
  let ?args = "[[83, 69, 84], [107], big_body 300] :: bytes list"
  have len: "length (big_body 300) = 300" by (simp add: big_body_def)
  have pos: "text_pos ?args (length ?args - 1) = 26"
    by (simp add: text_pos_def arg_pos_def enc_head_def enc_arg_def dec.simps len)
  have total: "length (enc_command ?args) = 328"
    by (simp add: enc_command_def enc_head_def enc_arg_def dec.simps len)
  show "small_grants page_grants" by (simp add: small_grants_def page_grants_def)
  show "page_grants (int (length (last ?args)) + 3)" by (simp add: page_grants_def len)
  show "big_last ?args" using pos total unfolding big_last_def by (simp add: len)
  show "uncut (text_pos ?args (length ?args - 1)) 0 [Bytes (enc_command ?args)]"
    using total unfolding pos by (auto simp: uncut_def Cons_eq_append_conv)
qed simp_all

end
