(* ===== verification/Replies.thy ===== *)
theory Replies
  imports Resp_Encode
begin

text \<open>
  Replies: the functions of \<^verbatim>\<open>lib/commands.c\<close> that commit one to the slot of the running command, and
  \<open>send_pre_data\<close> of \<^verbatim>\<open>network_parser.c\<close>, which writes one to the connection.
\<close>

section \<open>Strings of C\<close>

text \<open>A \<open>char *\<close> is a literal, or an offset in a block of the heap.\<close>

datatype cstr = Lit bytes | Ptr "addr \<times> int"

abbreviation null_str :: cstr where
  "null_str \<equiv> Ptr (NULL, 0)"

definition cstr_is_null :: "cstr \<Rightarrow> bool" where
  "cstr_is_null p = (case p of Lit _ \<Rightarrow> False | Ptr (a, _) \<Rightarrow> a = NULL)"

text \<open>The cells from the pointer to the end of its block.\<close>

definition ptr_cells :: "rp_world \<Rightarrow> addr \<times> int \<Rightarrow> cells res" where
  "ptr_cells w p =
     bind_res (heap_block (fst p) w) (\<lambda>cs.
       if snd p < 0 \<or> int (length cs) < snd p then Fault OutOfBounds else Ok (drop (nat (snd p)) cs))"

definition cstr_cells :: "rp_world \<Rightarrow> cstr \<Rightarrow> cells res" where
  "cstr_cells w p = (case p of Lit bs \<Rightarrow> Ok (map Some (bs @ [0])) | Ptr q \<Rightarrow> ptr_cells w q)"

text \<open>The text up to the first NUL, or the first \<open>n\<close> bytes of it; no byte after these is read.\<close>

fun c_text :: "nat option \<Rightarrow> cells \<Rightarrow> bytes res" where
  "c_text (Some 0) cs = Ok []"
| "c_text n [] = Fault OutOfBounds"
| "c_text n (None # cs) = Fault UninitRead"
| "c_text n (Some b # cs) =
     (if b = 0 then Ok []
      else bind_res (c_text (map_option (\<lambda>k. k - 1) n) cs) (\<lambda>t. Ok (b # t)))"

definition cstr_text :: "rp_world \<Rightarrow> nat option \<Rightarrow> cstr \<Rightarrow> bytes res" where
  "cstr_text w n p = bind_res (cstr_cells w p) (c_text n)"

text \<open>The conversion to \<open>int\<close>, and \<open>%ld\<close>.\<close>

definition to_int :: "int \<Rightarrow> int" where
  "to_int x = (x + 2 ^ 31) mod 2 ^ 32 - 2 ^ 31"

definition dec_int :: "int \<Rightarrow> bytes" where
  "dec_int i = (if i < 0 then 45 # dec (nat (- i)) else dec (nat i))"

section \<open>Committing a reply\<close>

datatype pre_send =
    PRE_SEND_SS cstr
  | PRE_SEND_ERR cstr
  | PRE_SEND_NUM int
  | PRE_SEND_BS int cstr
  | PRE_SEND_ARY int "pre_send list"

text \<open>
  The context of a command: the ticket of its slot in the reply queue, whether it still owes a
  reply, and the calls of \<open>send_queue_commit\<close> it has made.
\<close>

record predis_ctx =
  cx_send_queue_ptr :: u32
  cx_needs_reply :: bool
  cx_commits :: "(u32 \<times> pre_send) list"

definition replySimpleString :: "predis_ctx \<Rightarrow> cstr \<Rightarrow> predis_ctx \<times> int" where
  "replySimpleString ctx ss =
     (if \<not> cx_needs_reply ctx then (ctx, 1)
      else (ctx\<lparr>cx_commits := cx_commits ctx @ [(cx_send_queue_ptr ctx, PRE_SEND_SS ss)],
                cx_needs_reply := False\<rparr>, 0))"

definition replyError :: "predis_ctx \<Rightarrow> cstr \<Rightarrow> predis_ctx \<times> int" where
  "replyError ctx err =
     (if \<not> cx_needs_reply ctx then (ctx, 1)
      else (ctx\<lparr>cx_commits := cx_commits ctx @ [(cx_send_queue_ptr ctx, PRE_SEND_ERR err)],
                cx_needs_reply := False\<rparr>, 0))"

definition replyInt :: "predis_ctx \<Rightarrow> int \<Rightarrow> predis_ctx \<times> int" where
  "replyInt ctx i =
     (if \<not> cx_needs_reply ctx then (ctx, 1)
      else (ctx\<lparr>cx_commits := cx_commits ctx @ [(cx_send_queue_ptr ctx, PRE_SEND_NUM i)],
                cx_needs_reply := False\<rparr>, 0))"

definition replyBulkString :: "predis_ctx \<Rightarrow> cstr \<Rightarrow> int \<Rightarrow> predis_ctx \<times> int" where
  "replyBulkString ctx ss ss_len =
     (if \<not> cx_needs_reply ctx then (ctx, 1)
      else (ctx\<lparr>cx_commits := cx_commits ctx @ [(cx_send_queue_ptr ctx, PRE_SEND_BS ss_len ss)],
                cx_needs_reply := False\<rparr>, 0))"

section \<open>Sending a reply\<close>

text \<open>
  \<open>snprintf\<close> of \<open>text\<close> to measure it, \<open>malloc\<close> of that many bytes and \<open>snprintf\<close> into them: the last
  byte is the NUL.  A text longer than \<open>INT_MAX\<close> measures -1, and the request of \<open>2 ^ 64 - 1\<close> bytes
  is refused.
\<close>

definition print_exact :: "grants \<Rightarrow> bytes \<Rightarrow> bytes res" where
  "print_exact mal text =
     (if 2 ^ 31 \<le> length text then Fault NullDeref
      else if \<not> mal (int (length text)) then Fault NullDeref
      else Ok (butlast text @ [0]))"

text \<open>
  A line that starts with \<open>c\<close>: \<open>PRE_SEND_SS\<close> and \<open>PRE_SEND_ERR\<close>.  The length is an \<open>int\<close>; a negative
  one makes \<open>send\<close> read past the buffer.
\<close>

definition send_line :: "grants \<Rightarrow> rp_world \<Rightarrow> byte \<Rightarrow> cstr \<Rightarrow> (bytes \<times> int) run" where
  "send_line mal w c s =
     bind_run (Some (cstr_text w None s)) (\<lambda>t.
       if \<not> mal (size_t (1 + int (length t) + 2)) then faults NullDeref
       else if 2 ^ 31 \<le> to_int (int (length t)) + 3 then faults SignedOverflow
       else let len = to_int (int (length t)) + 3
            in if len < 0 then faults OutOfBounds
            else returns (take (nat len) (c # t @ [13, 10]), 0))"

text \<open>
  The bytes handed to \<open>send\<close>, in order, and the result.  The index of the array loop is an
  \<open>unsigned int\<close>, so a length above \<open>2 ^ 32\<close> is never reached.
\<close>

fun send_pre_data :: "grants \<Rightarrow> rp_world \<Rightarrow> pre_send \<Rightarrow> (bytes \<times> int) run"
  and send_elements :: "grants \<Rightarrow> rp_world \<Rightarrow> nat \<Rightarrow> pre_send list \<Rightarrow> bytes run" where
  "send_pre_data mal w (PRE_SEND_SS s) = send_line mal w 43 s"
| "send_pre_data mal w (PRE_SEND_ERR s) = send_line mal w 45 s"
| "send_pre_data mal w (PRE_SEND_NUM n) =
     bind_run (Some (print_exact mal (58 # dec_int n @ [13, 10]))) (\<lambda>b. returns (b, 0))"
| "send_pre_data mal w (PRE_SEND_BS len s) =
     (if len = - 1 \<and> cstr_is_null s then returns ([36, 45, 49, 13, 10], 0)
      else bind_run (Some (cstr_text w (if to_int len < 0 then None else Some (nat (to_int len))) s)) (\<lambda>t.
           bind_run (Some (print_exact mal (36 # dec_int len @ [13, 10] @ t @ [13, 10]))) (\<lambda>b.
           returns (b, 0))))"
| "send_pre_data mal w (PRE_SEND_ARY len elems) =
     bind_run (Some (print_exact mal (42 # dec_int len @ [13, 10]))) (\<lambda>b.
       if 2 ^ 32 < len \<and> 2 ^ 32 \<le> length elems then None
       else bind_run (send_elements mal w (nat len) elems) (\<lambda>bs. returns (b @ bs, 0)))"
| "send_elements mal w 0 ps = returns []"
| "send_elements mal w (Suc n) [] = faults OutOfBounds"
| "send_elements mal w (Suc n) (p # ps) =
     bind_run (send_pre_data mal w p) (\<lambda>(b, rc).
     bind_run (send_elements mal w n ps) (\<lambda>bs. returns (b @ bs)))"

section \<open>Lemmas\<close>

lemma c_text_nul: "0 \<notin> set t \<Longrightarrow> c_text None (map Some t @ Some 0 # r) = Ok t"
  by (induction t) auto

lemma c_text_upto: "0 \<notin> set t \<Longrightarrow> c_text (Some (length t)) (map Some t @ r) = Ok t"
  by (induction t) auto

lemma c_text_cut: "0 \<notin> set t \<Longrightarrow> length t < n \<Longrightarrow> c_text (Some n) (map Some t @ Some 0 # r) = Ok t"
proof (induction t arbitrary: n)
  case Nil
  then show ?case by (cases n) auto
next
  case (Cons b t)
  then show ?case by (cases n) auto
qed

lemma to_int_small: "- (2 ^ 31) \<le> x \<Longrightarrow> x < 2 ^ 31 \<Longrightarrow> to_int x = x"
  by (simp add: to_int_def)

text \<open>Every reply function commits at most once, and only while a reply is owed.\<close>

definition ctx_step :: "predis_ctx \<Rightarrow> predis_ctx \<Rightarrow> bool" where
  "ctx_step c c' \<longleftrightarrow> cx_send_queue_ptr c' = cx_send_queue_ptr c \<and>
     (c' = c \<or> cx_needs_reply c \<and> \<not> cx_needs_reply c' \<and>
        (\<exists>p. cx_commits c' = cx_commits c @ [(cx_send_queue_ptr c, p)]))"

lemma ctx_step_refl [simp, intro]: "ctx_step c c"
  by (simp add: ctx_step_def)

lemma ctx_step_trans: "ctx_step c c' \<Longrightarrow> ctx_step c' c'' \<Longrightarrow> ctx_step c c''"
  by (auto simp: ctx_step_def)

lemma reply_steps [intro]:
  "ctx_step c (fst (replySimpleString c s))"
  "ctx_step c (fst (replyError c s))"
  "ctx_step c (fst (replyInt c i))"
  "ctx_step c (fst (replyBulkString c s n))"
  by (auto simp: ctx_step_def replySimpleString_def replyError_def replyInt_def replyBulkString_def)

lemma reply_done [simp]:
  "\<not> cx_needs_reply (fst (replySimpleString c s))"
  "\<not> cx_needs_reply (fst (replyError c s))"
  "\<not> cx_needs_reply (fst (replyInt c i))"
  "\<not> cx_needs_reply (fst (replyBulkString c s n))"
  by (auto simp: replySimpleString_def replyError_def replyInt_def replyBulkString_def)

section \<open>Properties\<close>

text \<open>
  C33. A simple string or an error goes out as RESP has it: the mark, the text up to its NUL and CRLF, for a
  text in any readable block or literal.
\<close>

theorem line_replies_on_the_wire:
  assumes "cstr_cells w s = Ok (map Some t @ Some 0 # r)" and "0 \<notin> set t"
    and "length t < 2 ^ 31 - 3" and "mal (int (length t) + 3)"
  shows "send_pre_data mal w (PRE_SEND_SS s) = returns (43 # t @ [13, 10], 0) \<and>
         send_pre_data mal w (PRE_SEND_ERR s) = returns (45 # t @ [13, 10], 0)"
proof -
  have "to_int (int (length t)) = int (length t)" using assms(3) by (intro to_int_small) auto
  moreover have "size_t (1 + int (length t) + 2) = int (length t) + 3"
    using assms(3) by (simp add: size_t_def)
  moreover have "nat (int (length t) + 3) = Suc (Suc (Suc (length t)))" by simp
  ultimately have "send_line mal w c s = returns (c # t @ [13, 10], 0)" for c
    using assms by (simp add: send_line_def cstr_text_def c_text_nul add.commute)
  then show ?thesis by simp
qed

theorem line_replies_on_the_wire_witness:
  "send_pre_data (\<lambda>_. True) \<lparr>w_heap = [], w_net = []\<rparr> (PRE_SEND_SS (Lit [79, 75])) = returns ([43, 79, 75, 13, 10], 0)"
  using line_replies_on_the_wire[of "\<lparr>w_heap = [], w_net = []\<rparr>" "Lit [79, 75]" "[79, 75]" "[]" "\<lambda>_. True"]
  by (simp add: cstr_cells_def)

text \<open>
  C34. Numbers, bulk strings and the headers of arrays lose their last byte: the buffer has no room for the NUL of
  \<open>snprintf\<close>, which takes the place of the line feed.  The text of a bulk string stops at a NUL in it,
  while the length announced is the whole one.  The elements of an array follow its header as they would be sent alone.
  This is for what \<open>malloc\<close> grants and texts that fit into an \<open>int\<close>.
\<close>

theorem counted_replies_lose_the_newline:
  assumes "cstr_cells w s = Ok (map Some t @ r)" and "0 \<notin> set t"
    and "length t = n \<or> length t < n \<and> (\<exists>r'. r = Some 0 # r')"
    and "n < 2 ^ 31" and "length (dec n) + length t + 5 < 2 ^ 31"
    and "\<forall>k < 2 ^ 31. mal k" and "- (2 ^ 63) \<le> i" and "i < 2 ^ 63"
    and "length ps < 2 ^ 32" and "send_elements mal w (length ps) ps = returns bs"
  shows "send_pre_data mal w (PRE_SEND_BS (int n) s) = returns (36 # dec n @ [13, 10] @ t @ [13, 0], 0) \<and>
         send_pre_data mal w (PRE_SEND_NUM i) = returns (58 # dec_int i @ [13, 0], 0) \<and>
         send_pre_data mal w (PRE_SEND_ARY (int (length ps)) ps) = returns (42 # dec (length ps) @ [13, 0] @ bs, 0)"
proof -
  have "to_int (int n) = int n" using assms(4) by (intro to_int_small) auto
  moreover have "c_text (Some n) (map Some t @ r) = Ok t"
    using assms(2,3) c_text_upto[OF assms(2)] c_text_cut[OF assms(2)] by blast
  ultimately have "cstr_text w (if to_int (int n) < 0 then None else Some (nat (to_int (int n)))) s = Ok t"
    using assms(1) by (simp add: cstr_text_def)
  then have bs: "send_pre_data mal w (PRE_SEND_BS (int n) s) = returns (36 # dec n @ [13, 10] @ t @ [13, 0], 0)"
    using assms(5,6) by (simp add: print_exact_def dec_int_def butlast_append)
  have "nat \<bar>i\<bar> < 10 ^ 19" using assms(7,8) by auto
  then have "length (dec (nat \<bar>i\<bar>)) \<le> 19" by (rule length_dec) simp
  then have "length (dec_int i) \<le> 20" by (auto simp: dec_int_def abs_if split: if_splits)
  then have "send_pre_data mal w (PRE_SEND_NUM i) = returns (58 # dec_int i @ [13, 0], 0)"
    using assms(6) by (simp add: print_exact_def butlast_append)
  moreover have "length (dec (length ps)) \<le> 10" using assms(9) by (intro length_dec) auto
  then have "send_pre_data mal w (PRE_SEND_ARY (int (length ps)) ps) = returns (42 # dec (length ps) @ [13, 0] @ bs, 0)"
    using assms(6,9,10) by (simp add: print_exact_def dec_int_def butlast_append)
  ultimately show ?thesis using bs by blast
qed

text \<open>A bulk string \<open>a\0b\<close> of length 3, and an array of it.\<close>

theorem counted_replies_lose_the_newline_witness:
  "send_pre_data (\<lambda>_. True) \<lparr>w_heap = [Some (map Some [97, 0, 98])], w_net = []\<rparr> (PRE_SEND_BS 3 (Ptr (1, 0)))
     = returns ([36, 51, 13, 10, 97, 13, 0], 0) \<and>
   send_pre_data (\<lambda>_. True) \<lparr>w_heap = [Some (map Some [97, 0, 98])], w_net = []\<rparr> (PRE_SEND_NUM (- 7))
     = returns ([58, 45, 55, 13, 0], 0) \<and>
   send_pre_data (\<lambda>_. True) \<lparr>w_heap = [Some (map Some [97, 0, 98])], w_net = []\<rparr> (PRE_SEND_ARY 1 [PRE_SEND_SS (Lit [79, 75])])
     = returns ([42, 49, 13, 0, 43, 79, 75, 13, 10], 0)"
proof -
  let ?w = "\<lparr>w_heap = [Some (map Some [97, 0, 98])], w_net = []\<rparr>" and ?ps = "[PRE_SEND_SS (Lit [79, 75])]"
  have "send_elements (\<lambda>_. True) ?w (length ?ps) ?ps = returns [43, 79, 75, 13, 10]"
    by (simp add: send_line_def cstr_text_def cstr_cells_def to_int_def)
  from counted_replies_lose_the_newline[of ?w "Ptr (1, 0)" "[97]" "[Some 0, Some 98]" 3 "\<lambda>_. True" "- 7" ?ps, OF _ _ _ _ _ _ _ _ _ this]
  show ?thesis
    by (simp add: cstr_cells_def ptr_cells_def heap_block_def dec.simps dec_int_def)
qed

end
