(* ===== verification/Values.thy ===== *)
theory Values
  imports Replies Ht_Iter Command_Ht
begin

text \<open>
  The values of the store and their access: the data types of \<^verbatim>\<open>types/string.c\<close> and
  \<^verbatim>\<open>types/hash.c\<close>, and the functions of \<^verbatim>\<open>lib/commands.c\<close> by which a command initialises, commits and
  reads the argument that names a key.
\<close>

section \<open>Objects\<close>

text \<open>
  The functions the two types register, the structures they allocate and \<open>struct predis_typed_data\<close>.
  An object has the address of its place in \<open>rs_objs\<close>; its type is the index of an element of the type
  table, or null.
\<close>

datatype type_fun = Initialize_string | Free_string | Initialize_hash | Free_hash

datatype obj =
    O_typed (o_type: "u32 option") (o_data: addr)
  | O_string (o_length: int) (o_text: cstr)
  | O_hash (o_table: "cstr ht_table")
  | O_freed

text \<open>The functions the command table points to.\<close>

datatype command_fn =
    Command_set | Command_get | Command_getset | Command_bitcount | Command_bitpos | Command_strlen
  | Command_mget | Command_getrange | Config_print1cmd | Hash_hget | Hash_hset | Load_structures
  | Command_del | Saysomething_print1cmd

text \<open>What \<open>gc_free\<close> is called with: a node of a table, with its function, or the data of a deleted key.\<close>

datatype gc_item = Gc_node "addr option" addr ht_gc_func | Gc_typed_data addr

text \<open>
  A working set holds the data and the node of every key of the command, in pairs.
\<close>

record gc_user =
  gu_pending :: bool
  gu_working_set :: "addr list option"

text \<open>
  The command table has the type table, which it points to, as a field.
\<close>

record rn_state =
  rs_mem :: rp_world
  rs_objs :: "obj list"
  rs_table :: "addr ht_table"
  rs_commands :: "(command_fn, type_fun) command_ht"
  rs_ctx :: predis_ctx
  rs_gc :: gc_user
  rs_gc_frees :: "gc_item list"

text \<open>
  What a run depends on from outside: which requests \<open>malloc\<close> grants (in the hash tables and in the parser of
  formats, call by call), the numeric value of a pointer, and the shared objects \<open>dlopen\<close> finds, each
  given by its function \<open>predis_init\<close>.
\<close>

record rn_env =
  en_malloc :: grants
  en_ht :: ht_env
  en_fs :: fs_env
  en_address :: "addr \<times> int \<Rightarrow> u64"
  en_dlopen :: "bytes \<Rightarrow> (rn_state \<Rightarrow> rn_state run) option"

definition obj_at :: "addr \<Rightarrow> rn_state \<Rightarrow> obj res" where
  "obj_at a s =
     (if a = NULL then Fault NullDeref
      else if length (rs_objs s) < a then Fault Dangling
      else case rs_objs s ! (a - 1) of O_freed \<Rightarrow> Fault UseAfterFree | x \<Rightarrow> Ok x)"

definition obj_set :: "addr \<Rightarrow> obj \<Rightarrow> rn_state \<Rightarrow> rn_state" where
  "obj_set a x s = s\<lparr>rs_objs := (rs_objs s)[a - 1 := x]\<rparr>"

definition obj_new :: "obj \<Rightarrow> rn_state \<Rightarrow> addr \<times> rn_state" where
  "obj_new x s = (length (rs_objs s) + 1, s\<lparr>rs_objs := rs_objs s @ [x]\<rparr>)"

definition typed_at :: "addr \<Rightarrow> rn_state \<Rightarrow> (u32 option \<times> addr) res" where
  "typed_at a s = bind_res (obj_at a s) (\<lambda>x. case x of O_typed t d \<Rightarrow> Ok (t, d) | _ \<Rightarrow> Fault TypeConfusion)"

definition string_at :: "addr \<Rightarrow> rn_state \<Rightarrow> (int \<times> cstr) res" where
  "string_at a s = bind_res (obj_at a s) (\<lambda>x. case x of O_string n p \<Rightarrow> Ok (n, p) | _ \<Rightarrow> Fault TypeConfusion)"

definition hash_at :: "addr \<Rightarrow> rn_state \<Rightarrow> cstr ht_table res" where
  "hash_at a s = bind_res (obj_at a s) (\<lambda>x. case x of O_hash t \<Rightarrow> Ok t | _ \<Rightarrow> Fault TypeConfusion)"

text \<open>An assignment through \<open>&typed_data->data\<close>; the pointer is given by the typed data it is in.\<close>

definition typed_set_data :: "addr \<Rightarrow> addr \<Rightarrow> rn_state \<Rightarrow> rn_state res" where
  "typed_set_data a d s = bind_res (typed_at a s) (\<lambda>(t, _). Ok (obj_set a (O_typed t d) s))"

text \<open>
  A key or a name at a \<open>char *\<close>: null, or the initialised bytes from it to the end of its block (what is
  behind them counts as out of bounds).
\<close>

definition ptr_known :: "rp_world \<Rightarrow> addr \<times> int \<Rightarrow> bytes option res" where
  "ptr_known w p =
     (if fst p = NULL then Ok None
      else bind_res (ptr_cells w p) (\<lambda>cs. Ok (Some (map the (takeWhile (\<lambda>x. x \<noteq> None) cs)))))"

text \<open>A fresh block of bytes.\<close>

definition block_new :: "cells \<Rightarrow> rn_state \<Rightarrow> addr \<times> rn_state" where
  "block_new cs s =
     (length (w_heap (rs_mem s)) + 1, s\<lparr>rs_mem := (rs_mem s)\<lparr>w_heap := w_heap (rs_mem s) @ [Some cs]\<rparr>\<rparr>)"

section \<open>Strings\<close>

text \<open>\<open>struct string_args\<close>: the text and its length; a null pointer is \<open>None\<close>.\<close>

type_synonym string_args = "cstr \<times> int"

definition initialize_string :: "rn_env \<Rightarrow> addr \<Rightarrow> string_args option \<Rightarrow> rn_state \<Rightarrow> rn_state res" where
  "initialize_string env str_ptr str_args s =
     (if \<not> en_malloc env 16 then Fault NullDeref
      else
        let (str, s') = obj_new
          (case str_args of None \<Rightarrow> O_string (- 1) null_str | Some (p, len) \<Rightarrow> O_string len p) s
        in typed_set_data str_ptr str s')"

text \<open>\<open>free\<close> of a block of bytes: nothing for null, and only the start of a block is allowed.\<close>

definition block_free :: "cstr \<Rightarrow> rn_state \<Rightarrow> rn_state res" where
  "block_free p s =
     (case p of
        Lit _ \<Rightarrow> Fault BadFree
      | Ptr (a, i) \<Rightarrow>
          if a = NULL then Ok s
          else if i \<noteq> 0 then Fault BadFree
          else bind_res (heap_block a (rs_mem s)) (\<lambda>_.
            Ok (s\<lparr>rs_mem := (rs_mem s)\<lparr>w_heap := (w_heap (rs_mem s))[a - 1 := None]\<rparr>\<rparr>)))"

definition free_string :: "addr \<Rightarrow> rn_state \<Rightarrow> rn_state res" where
  "free_string str s =
     bind_res (string_at str s) (\<lambda>(_, data).
     bind_res (block_free data s) (\<lambda>s'. Ok (obj_set str O_freed s')))"

definition string_set :: "rn_env \<Rightarrow> addr \<Rightarrow> cstr \<Rightarrow> int \<Rightarrow> rn_state \<Rightarrow> (int \<times> rn_state) res" where
  "string_set env data_loc str_raw len s =
     (if \<not> en_malloc env 16 then Ok (- 1, s)
      else
        let (str, s') = obj_new (O_string len str_raw) s
        in bind_res (typed_set_data data_loc str s') (\<lambda>s''. Ok (0, s'')))"

definition string_get :: "addr \<Rightarrow> rn_state \<Rightarrow> (int \<times> cstr) res" where
  "string_get data_loc s = string_at data_loc s"

text \<open>The result, the old text and its length.\<close>

definition string_exchange ::
    "rn_env \<Rightarrow> addr \<Rightarrow> cstr \<Rightarrow> int \<Rightarrow> rn_state \<Rightarrow> (int \<times> (cstr \<times> int) option \<times> rn_state) res" where
  "string_exchange env data_loc new_cts new_length s =
     (if \<not> en_malloc env 16 then Ok (- 1, None, s)
      else
        let (str, s') = obj_new (O_string new_length new_cts) s
        in bind_res (typed_at data_loc s') (\<lambda>(_, old_str).
           bind_res (typed_set_data data_loc str s') (\<lambda>s''.
           bind_res (string_at old_str s'') (\<lambda>(old_length, old_cts).
           Ok (0, Some (old_cts, old_length), s'')))))"

section \<open>Hashes\<close>

text \<open>A table that could not be allocated is a null pointer.\<close>

definition initialize_hash :: "rn_env \<Rightarrow> addr \<Rightarrow> string_args option \<Rightarrow> rn_state \<Rightarrow> rn_state res" where
  "initialize_hash env ht_ptr hargs s =
     bind_res (ht_init (en_ht env) False) (\<lambda>ht.
       case ht of
         None \<Rightarrow> typed_set_data ht_ptr NULL s
       | Some t \<Rightarrow> let (a, s') = obj_new (O_hash t) s in typed_set_data ht_ptr a s')"

definition free_hash :: "addr \<Rightarrow> rn_state \<Rightarrow> rn_state run" where
  "free_hash ht s =
     bind_run (Some (hash_at ht s)) (\<lambda>t.
     bind_run (ht_free t False) (\<lambda>_. returns (obj_set ht O_freed s)))"

definition hash_store :: "rn_env \<Rightarrow> addr \<Rightarrow> addr \<times> int \<Rightarrow> u32 \<Rightarrow> cstr \<Rightarrow> rn_state \<Rightarrow> (ht_status \<times> rn_state) run" where
  "hash_store env table key key_length val s =
     bind_run (Some (ptr_known (rs_mem s) key)) (\<lambda>k.
     if k = None \<or> key_length = 0 then returns (HT_BADARGS, s)
     else bind_run (Some (hash_at table s)) (\<lambda>t.
     bind_run (ht_store (en_ht env) t k key_length val) (\<lambda>(t', st, a).
     returns (st, obj_set table (O_hash t') s))))"

definition hash_find :: "addr \<Rightarrow> addr \<times> int \<Rightarrow> u32 \<Rightarrow> rn_state \<Rightarrow> (int \<times> cstr option) run" where
  "hash_find table key key_length s =
     bind_run (Some (ptr_known (rs_mem s) key)) (\<lambda>k.
     bind_run (Some (hash_at table s)) (\<lambda>t.
     bind_run (ht_find t k key_length) (\<lambda>(st, a).
     case st of
       HT_NOT_FOUND \<Rightarrow> returns (- 1, None)
     | HT_OOM \<Rightarrow> returns (- 2, None)
     | HT_BADARGS \<Rightarrow> returns (- 2, None)
     | _ \<Rightarrow> bind_run (Some (ht_read_slot t a)) (\<lambda>v. returns (0, Some v)))))"

text \<open>The status, and the value removed.\<close>

definition hash_del :: "addr \<Rightarrow> addr \<times> int \<Rightarrow> u32 \<Rightarrow> rn_state \<Rightarrow> (ht_status \<times> cstr ht_contents option \<times> rn_state) run" where
  "hash_del table key key_length s =
     bind_run (Some (ptr_known (rs_mem s) key)) (\<lambda>k.
     bind_run (Some (hash_at table s)) (\<lambda>t.
     bind_run (ht_del t k key_length) (\<lambda>(t', st, r).
     let s' = obj_set table (O_hash t') s in
     case r of
       None \<Rightarrow> returns (st, None, s')
     | Some (v, a, f) \<Rightarrow>
         returns (st, Some v, s'\<lparr>rs_gc_frees := rs_gc_frees s' @ [Gc_node (Some table) a f]\<rparr>))))"

section \<open>The arguments that name keys\<close>

text \<open>
  \<open>struct predis_arg\<close>, with \<open>None\<close> for a field that is not initialised.  \<open>ht_value\<close> is given by the node
  whose contents it points to.
\<close>

record predis_arg =
  pa_needs_initialization :: "bool option"
  pa_needs_commit :: "bool option"
  pa_data :: "addr option"
  pa_ht_value :: "addr option"

definition known :: "'a option \<Rightarrow> 'a res" where
  "known x = (case x of None \<Rightarrow> Fault UninitRead | Some v \<Rightarrow> Ok v)"

definition elem_at :: "'a list \<Rightarrow> nat \<Rightarrow> 'a res" where
  "elem_at xs i = (if i < length xs then Ok (xs ! i) else Fault OutOfBounds)"

text \<open>The typed data whose field \<open>data\<close> the returned pointer is the address of; null with a complaint.\<close>

definition predis_arg_get :: "predis_arg list \<Rightarrow> nat \<Rightarrow> addr res" where
  "predis_arg_get args idx =
     bind_res (elem_at args idx) (\<lambda>arg.
     bind_res (known (pa_needs_initialization arg)) (\<lambda>ni.
     if ni then Ok NULL
     else bind_res (known (pa_data arg)) (\<lambda>d. if d = NULL then Fault NullDeref else Ok d)))"

text \<open>\<open>*(void **)arg[idx].ht_value\<close>\<close>

definition arg_slot :: "predis_arg list \<Rightarrow> nat \<Rightarrow> rn_state \<Rightarrow> addr res" where
  "arg_slot args idx s =
     bind_res (elem_at args idx) (\<lambda>arg.
     bind_res (known (pa_ht_value arg)) (\<lambda>a. ht_read_slot (rs_table s) a))"

definition predis_arg_requires_initialization :: "predis_arg list \<Rightarrow> nat \<Rightarrow> rn_state \<Rightarrow> bool res" where
  "predis_arg_requires_initialization args idx s = bind_res (arg_slot args idx s) (\<lambda>v. Ok (v = NULL))"

text \<open>\<open>type->init\<close> and \<open>type->free\<close> of an element of the type table.\<close>

definition type_raw_at :: "u32 option \<Rightarrow> rn_state \<Rightarrow> type_fun type_raw res" where
  "type_raw_at ty s =
     (case ty of None \<Rightarrow> Fault NullDeref
      | Some k \<Rightarrow> bind_res (elem_at (tt_elements (ct_type_ht (rs_commands s))) (unat k)) (\<lambda>e. Ok (te_raw e)))"

definition type_init :: "rn_env \<Rightarrow> u32 option \<Rightarrow> addr \<Rightarrow> string_args option \<Rightarrow> rn_state \<Rightarrow> rn_state res" where
  "type_init env ty ptr args s =
     bind_res (type_raw_at ty s) (\<lambda>raw.
       case tr_init raw of
         Some Initialize_string \<Rightarrow> initialize_string env ptr args s
       | Some Initialize_hash \<Rightarrow> initialize_hash env ptr args s
       | Some _ \<Rightarrow> Fault TypeConfusion
       | None \<Rightarrow> Fault NullDeref)"

definition type_free :: "u32 option \<Rightarrow> addr \<Rightarrow> rn_state \<Rightarrow> rn_state run" where
  "type_free ty d s =
     bind_run (Some (type_raw_at ty s)) (\<lambda>raw.
       case tr_free raw of
         Some Free_string \<Rightarrow> Some (free_string d s)
       | Some Free_hash \<Rightarrow> free_hash d s
       | Some _ \<Rightarrow> faults TypeConfusion
       | None \<Rightarrow> faults NullDeref)"

text \<open>The result, the typed data \<open>*value\<close> points into, the arguments and the state.\<close>

definition predis_arg_try_initialize ::
    "rn_env \<Rightarrow> predis_arg list \<Rightarrow> nat \<Rightarrow> string_args option \<Rightarrow> rn_state
       \<Rightarrow> (bool \<times> addr \<times> predis_arg list \<times> rn_state) res" where
  "predis_arg_try_initialize env args idx initializer_args s =
     bind_res (elem_at args idx) (\<lambda>arg.
     bind_res (known (pa_needs_initialization arg)) (\<lambda>ni.
     bind_res (known (pa_data arg)) (\<lambda>d.
     if \<not> ni then (if d = NULL then Fault NullDeref else Ok (False, d, args, s))
     else
       let args' = args[idx := arg\<lparr>pa_needs_initialization := Some False\<rparr>] in
       bind_res (typed_at d s) (\<lambda>(ty, _).
       bind_res (type_init env ty d initializer_args s) (\<lambda>s'. Ok (True, d, args', s'))))))"

text \<open>
  The result, the typed data \<open>*value\<close> points into if it is set, the arguments and the state.  The type of a
  value that is already there is compared with that of the first argument.
\<close>

definition predis_arg_try_commit ::
    "predis_arg list \<Rightarrow> nat \<Rightarrow> rn_state \<Rightarrow> (int \<times> addr option \<times> predis_arg list \<times> rn_state) res" where
  "predis_arg_try_commit args idx s =
     bind_res (elem_at args idx) (\<lambda>arg.
     bind_res (known (pa_needs_initialization arg)) (\<lambda>ni.
     bind_res (if ni then Ok True else bind_res (known (pa_needs_commit arg)) (\<lambda>nc. Ok (\<not> nc))) (\<lambda>no.
     if no then Ok (- 2, None, args, s)
     else
       bind_res (known (pa_data arg)) (\<lambda>d.
       bind_res (known (pa_ht_value arg)) (\<lambda>a.
       bind_res (ht_read_slot (rs_table s) a) (\<lambda>v.
       if v = NULL then Ok (0, Some d, args, s\<lparr>rs_table := ht_slot_set a d (rs_table s)\<rparr>)
       else
         bind_res (typed_at v s) (\<lambda>(ty, _).
         bind_res (elem_at args 0) (\<lambda>arg0.
         bind_res (known (pa_data arg0)) (\<lambda>d0.
         bind_res (typed_at d0 s) (\<lambda>(ty0, _).
         if ty = ty0 then Ok (1, Some v, args[idx := arg\<lparr>pa_data := Some v\<rparr>], s)
         else Ok (- 1, None, args, s)))))))))))"

end
