(* ===== verification/Commands.thy ===== *)
theory Commands
  imports Values Redis_Bits
begin

text \<open>
  The commands: \<^verbatim>\<open>commands/string.c\<close>, \<^verbatim>\<open>commands/hash.c\<close>, \<^verbatim>\<open>commands/config.c\<close>,
  \<^verbatim>\<open>commands/saysomething.c\<close>, and \<open>load_structures\<close>.
\<close>

section \<open>Arguments and results\<close>

text \<open>
  A command gets its key arguments, the texts and lengths of all its arguments (the slots after the name)
  and their number.  It returns its result, the key arguments and the state.
\<close>

type_synonym arg_texts = "(addr \<times> int) option list"

type_synonym command_result = "(int \<times> predis_arg list \<times> rn_state) run"

definition slot :: "'a option list \<Rightarrow> nat \<Rightarrow> 'a res" where
  "slot xs i = bind_res (elem_at xs i) known"

abbreviation (input) WRONG_ARG_COUNT :: int where "WRONG_ARG_COUNT \<equiv> 1"
abbreviation (input) PREDIS_SUCCESS :: int where "PREDIS_SUCCESS \<equiv> 0"
abbreviation (input) DLOPEN_FAILED :: int where "DLOPEN_FAILED \<equiv> 3"
abbreviation (input) PREDIS_FAILURE :: int where "PREDIS_FAILURE \<equiv> 4"

definition ascii :: "string \<Rightarrow> bytes" where
  "ascii s = map of_char s"

definition with_ctx :: "(predis_ctx \<Rightarrow> predis_ctx \<times> int) \<Rightarrow> rn_state \<Rightarrow> rn_state" where
  "with_ctx f s = s\<lparr>rs_ctx := fst (f (rs_ctx s))\<rparr>"

text \<open>\<open>*predis_arg_get(data, 0)\<close>, and the string read through it.\<close>

definition arg_value :: "predis_arg list \<Rightarrow> rn_state \<Rightarrow> addr res" where
  "arg_value data s =
     bind_res (predis_arg_get data 0) (\<lambda>d. bind_res (typed_at d s) (\<lambda>(_, v). Ok v))"

definition arg_string :: "predis_arg list \<Rightarrow> rn_state \<Rightarrow> (int \<times> cstr) res" where
  "arg_string data s = bind_res (arg_value data s) (\<lambda>v. string_get v s)"

definition arg_strtol :: "arg_texts \<Rightarrow> nat \<Rightarrow> rn_state \<Rightarrow> int res" where
  "arg_strtol argv i s =
     bind_res (slot argv i) (\<lambda>p. bind_res (buf_strtol (fst p) (snd p) (rs_mem s)) (\<lambda>(v, _). Ok v))"

text \<open>Pointer arithmetic on a string.\<close>

definition cstr_add :: "cstr \<Rightarrow> int \<Rightarrow> cstr" where
  "cstr_add p k = (case p of Lit bs \<Rightarrow> Lit (drop (nat k) bs) | Ptr (a, i) \<Rightarrow> Ptr (a, i + k))"

definition cstr_address :: "rn_env \<Rightarrow> cstr \<Rightarrow> u64" where
  "cstr_address env p = (case p of Lit _ \<Rightarrow> 0 | Ptr q \<Rightarrow> en_address env q)"

text \<open>The bytes a routine may read from a string: the initialised ones up to the end of its block.\<close>

definition cstr_known :: "rp_world \<Rightarrow> cstr \<Rightarrow> bytes res" where
  "cstr_known w p = bind_res (cstr_cells w p) (\<lambda>cs. Ok (map the (takeWhile (\<lambda>x. x \<noteq> None) cs)))"

section \<open>String commands\<close>

text \<open>
  One round of the loop of \<open>SET\<close>, and the loop: \<open>goto retry\<close> as long as the commit does not succeed.
\<close>

definition set_attempt ::
    "rn_env \<Rightarrow> string_args \<Rightarrow> addr \<times> int \<Rightarrow> predis_arg list \<Rightarrow> rn_state \<Rightarrow> (bool \<times> predis_arg list \<times> rn_state) res" where
  "set_attempt env str_args raw data s =
     bind_res (predis_arg_requires_initialization data 0 s) (\<lambda>init.
     if init then
       bind_res (predis_arg_try_initialize env data 0 (Some str_args) s) (\<lambda>(_, _, data1, s1).
       bind_res (predis_arg_try_commit data1 0 s1) (\<lambda>(rc, _, data2, s2).
       Ok (rc \<noteq> 0, data2, s2)))
     else
       bind_res (predis_arg_get data 0) (\<lambda>d.
       bind_res (string_set env d (Ptr raw) (snd str_args) s) (\<lambda>(_, s1).
       Ok (False, data, s1))))"

partial_function (option) set_loop ::
    "rn_env \<Rightarrow> string_args \<Rightarrow> addr \<times> int \<Rightarrow> predis_arg list \<Rightarrow> rn_state \<Rightarrow> (predis_arg list \<times> rn_state) run" where
  "set_loop env str_args raw data s =
     (case set_attempt env str_args raw data s of
        Inl e \<Rightarrow> faults e
      | Inr (again, data', s') \<Rightarrow>
          (if again then set_loop env str_args raw data' s' else returns (data', s')))"

declare set_loop.simps [code]

definition command_set ::
    "rn_env \<Rightarrow> predis_arg list \<Rightarrow> arg_texts \<Rightarrow> int option list \<Rightarrow> int \<Rightarrow> rn_state \<Rightarrow> command_result" where
  "command_set env data argv lens argc s =
     (if argc \<noteq> 2 then returns (WRONG_ARG_COUNT, data, s)
      else bind_run (Some (slot lens 1)) (\<lambda>n.
        if n < 0 then returns (- 100, data, s)
        else if \<not> en_malloc env n then faults NullDeref
        else bind_run (Some (slot argv 1)) (\<lambda>p.
        bind_run (Some (ptr_cells (rs_mem s) p)) (\<lambda>cs.
        if length cs < nat n then faults OutOfBounds
        else
          let (b, s1) = block_new (take (nat n) cs) s
          in bind_run (set_loop env (Ptr (b, 0), n) p data s1) (\<lambda>(data', s').
             returns (PREDIS_SUCCESS, data', s'))))))"

definition command_get :: "predis_arg list \<Rightarrow> int \<Rightarrow> rn_state \<Rightarrow> command_result" where
  "command_get data argc s =
     (if argc \<noteq> 1 then returns (WRONG_ARG_COUNT, data, s)
      else bind_run (Some (arg_string data s)) (\<lambda>(len, str).
        returns (PREDIS_SUCCESS, data, with_ctx (\<lambda>c. replyBulkString c str len) s)))"

definition command_bitcount :: "rn_env \<Rightarrow> predis_arg list \<Rightarrow> int \<Rightarrow> rn_state \<Rightarrow> command_result" where
  "command_bitcount env data argc s =
     (if argc \<noteq> 1 \<and> argc \<noteq> 3 then returns (WRONG_ARG_COUNT, data, s)
      else bind_run (Some (arg_string data s)) (\<lambda>(len, str).
        bind_run (Some (cstr_known (rs_mem s) str)) (\<lambda>bs.
        bind_run (Some (redisPopcount (cstr_address env str) bs len)) (\<lambda>set_bits.
        let text = dec (unat set_bits) in
        if \<not> en_malloc env (int (length text) + 1) then faults NullDeref
        else
          let (b, s') = block_new (map Some (text @ [0])) s
          in returns (PREDIS_SUCCESS, data, with_ctx (\<lambda>c. replySimpleString c (Ptr (b, 0))) s')))))"

definition command_bitpos ::
    "rn_env \<Rightarrow> predis_arg list \<Rightarrow> arg_texts \<Rightarrow> rn_state \<Rightarrow> command_result" where
  "command_bitpos env data argv s =
     bind_run (Some (arg_string data s)) (\<lambda>(len, str).
     bind_run (Some (arg_strtol argv 1 s)) (\<lambda>want.
     bind_run (Some (cstr_known (rs_mem s) str)) (\<lambda>bs.
     bind_run (Some (redisBitpos (cstr_address env str) bs (nat (size_t len)) (to_int want))) (\<lambda>bp.
     returns (PREDIS_SUCCESS, data, with_ctx (\<lambda>c. replyInt c (to_int bp)) s)))))"

text \<open>
  \<open>GETSET\<close>.  When \<open>string_exchange\<close> fails its results stay uninitialised.
\<close>

definition command_getset ::
    "rn_env \<Rightarrow> predis_arg list \<Rightarrow> arg_texts \<Rightarrow> int option list \<Rightarrow> int \<Rightarrow> rn_state \<Rightarrow> command_result" where
  "command_getset env data argv lens argc s =
     (if argc \<noteq> 2 then returns (WRONG_ARG_COUNT, data, s)
      else bind_run (Some (slot lens 1)) (\<lambda>n.
        if n < 0 then returns (- 100, data, s)
        else bind_run (Some (predis_arg_get data 0)) (\<lambda>d.
        bind_run (Some (slot argv 1)) (\<lambda>p.
        bind_run (Some (string_exchange env d (Ptr p) n s)) (\<lambda>(_, old, s').
        case old of
          None \<Rightarrow> faults UninitRead
        | Some (str_raw, len) \<Rightarrow>
            returns (PREDIS_SUCCESS, data, with_ctx (\<lambda>c. replyBulkString c str_raw len) s'))))))"

definition command_strlen :: "predis_arg list \<Rightarrow> rn_state \<Rightarrow> command_result" where
  "command_strlen data s =
     bind_run (Some (arg_string data s)) (\<lambda>(len, str).
     returns (PREDIS_SUCCESS, data, with_ctx (\<lambda>c. replyInt c len) s))"

text \<open>A negative end of a range counts from behind the last byte.\<close>

definition range_end :: "int \<Rightarrow> int \<Rightarrow> int res" where
  "range_end len i =
     (if i < 0 then bind_res (long_op (len + i)) (\<lambda>x. long_op (x + 1)) else Ok i)"

definition command_getrange ::
    "predis_arg list \<Rightarrow> arg_texts \<Rightarrow> rn_state \<Rightarrow> command_result" where
  "command_getrange data argv s =
     bind_run (Some (arg_string data s)) (\<lambda>(len, str).
     bind_run (Some (arg_strtol argv 1 s)) (\<lambda>start0.
     bind_run (Some (arg_strtol argv 2 s)) (\<lambda>last0.
     bind_run (Some (range_end len start0)) (\<lambda>start.
     bind_run (Some (range_end len last0)) (\<lambda>last.
     if start < 0 \<or> last < 0 \<or> last < start \<or> len < last then
       returns (PREDIS_FAILURE, data, with_ctx (\<lambda>c. replyError c (Lit (ascii ''ERR invalid range''))) s)
     else
       returns (PREDIS_SUCCESS, data,
         with_ctx (\<lambda>c. replyBulkString c (cstr_add str start) (last - start)) s))))))"

text \<open>What \<open>printf\<close> reads for \<open>%.*s\<close>.\<close>

definition print_arg :: "arg_texts \<Rightarrow> int option list \<Rightarrow> nat \<Rightarrow> rn_state \<Rightarrow> bytes res" where
  "print_arg argv lens i s =
     bind_res (slot lens i) (\<lambda>n. bind_res (slot argv i) (\<lambda>p.
       cstr_text (rs_mem s) (if to_int n < 0 then None else Some (nat (to_int n))) (Ptr p)))"

fun print_args :: "arg_texts \<Rightarrow> int option list \<Rightarrow> nat list \<Rightarrow> rn_state \<Rightarrow> unit res" where
  "print_args argv lens [] s = Ok ()"
| "print_args argv lens (i # js) s =
     bind_res (print_arg argv lens i s) (\<lambda>_. print_args argv lens js s)"

definition command_mget ::
    "predis_arg list \<Rightarrow> arg_texts \<Rightarrow> int option list \<Rightarrow> int \<Rightarrow> rn_state \<Rightarrow> command_result" where
  "command_mget data argv lens argc s =
     (if argc < 1 then faults OutOfBounds
      else bind_run (Some (print_args argv lens ([1..<nat (argc - 1)] @ [0, nat (argc - 1)]) s)) (\<lambda>_.
        returns (PREDIS_SUCCESS, data, s)))"

section \<open>Hash commands\<close>

text \<open>\<open>strdup\<close>: null when it gets no memory.\<close>

definition strdup :: "rn_env \<Rightarrow> cstr \<Rightarrow> rn_state \<Rightarrow> (cstr \<times> rn_state) res" where
  "strdup env p s =
     bind_res (cstr_text (rs_mem s) None p) (\<lambda>t.
       if \<not> en_malloc env (int (length t) + 1) then Ok (null_str, s)
       else let (b, s') = block_new (map Some (t @ [0])) s in Ok (Ptr (b, 0), s'))"

definition hash_hset ::
    "rn_env \<Rightarrow> predis_arg list \<Rightarrow> arg_texts \<Rightarrow> int option list \<Rightarrow> rn_state \<Rightarrow> command_result" where
  "hash_hset env data argv lens s =
     bind_run (Some (slot lens 1)) (\<lambda>n.
     if n < 0 then returns (PREDIS_FAILURE, data, s)
     else
       bind_run (Some (predis_arg_try_initialize env data 0 None s)) (\<lambda>(_, hsh0, data1, s1).
       bind_run (Some (predis_arg_try_commit data1 0 s1)) (\<lambda>(_, hsh1, data2, s2).
       bind_run (Some (typed_at (case hsh1 of None \<Rightarrow> hsh0 | Some a \<Rightarrow> a) s2)) (\<lambda>(_, table).
       bind_run (Some (slot argv 1)) (\<lambda>k.
       bind_run (Some (slot argv 2)) (\<lambda>p.
       bind_run (Some (strdup env (Ptr p) s2)) (\<lambda>(v, s3).
       bind_run (hash_store env table k (word_of_int n) v s3) (\<lambda>(_, s4).
       returns (0, data2, s4)))))))))"

definition hash_hget ::
    "predis_arg list \<Rightarrow> arg_texts \<Rightarrow> int option list \<Rightarrow> rn_state \<Rightarrow> command_result" where
  "hash_hget data argv lens s =
     bind_run (Some (slot lens 1)) (\<lambda>n.
     if n < 0 then returns (PREDIS_FAILURE, data, s)
     else
       bind_run (Some (arg_value data s)) (\<lambda>table.
       bind_run (Some (slot argv 1)) (\<lambda>k.
       bind_run (hash_find table k (word_of_int n) s) (\<lambda>(rval, v).
       if rval = 0 then
         (case v of
            None \<Rightarrow> faults UninitRead
          | Some str \<Rightarrow>
              bind_run (Some (cstr_text (rs_mem s) None str)) (\<lambda>t.
              returns (0, data, with_ctx (\<lambda>c. replyBulkString c str (int (length t))) s)))
       else if rval = - 1 then returns (0, data, with_ctx (\<lambda>c. replyBulkString c null_str (- 1)) s)
       else returns (0, data, with_ctx (\<lambda>c. replyError c (Lit (ascii ''Something went wrong''))) s)))))"

section \<open>CONFIG\<close>

text \<open>\<open>strcmp(p, text) == 0\<close> for a literal; no byte after the first difference is read.\<close>

fun strcmp_cells :: "cells \<Rightarrow> bytes \<Rightarrow> bool res" where
  "strcmp_cells [] t = Fault OutOfBounds"
| "strcmp_cells (None # cs) t = Fault UninitRead"
| "strcmp_cells (Some b # cs) [] = Ok (b = 0)"
| "strcmp_cells (Some b # cs) (c # t) = (if b = c then strcmp_cells cs t else Ok False)"

fun print_strings :: "arg_texts \<Rightarrow> nat list \<Rightarrow> rn_state \<Rightarrow> unit res" where
  "print_strings argv [] s = Ok ()"
| "print_strings argv (i # js) s =
     bind_res (slot argv i) (\<lambda>p. bind_res (cstr_text (rs_mem s) None (Ptr p)) (\<lambda>_. print_strings argv js s))"

definition config_print1cmd :: "predis_arg list \<Rightarrow> arg_texts \<Rightarrow> int \<Rightarrow> rn_state \<Rightarrow> command_result" where
  "config_print1cmd data argv argc s =
     bind_run (Some (slot argv 0)) (\<lambda>p.
     bind_run (Some (bind_res (ptr_cells (rs_mem s) p) (\<lambda>cs. strcmp_cells cs (ascii ''SET'')))) (\<lambda>eq.
     bind_run (Some (if eq then print_strings argv [0..<nat argc] s else Ok ())) (\<lambda>_.
     returns (0, data, s))))"

section \<open>Loading\<close>

text \<open>
  \<open>load_structures\<close> with the name of the file: the shared object's \<open>predis_init\<close> runs with a context of
  its own, of which it uses the two tables.
\<close>

definition load_structures :: "rn_env \<Rightarrow> cstr option \<Rightarrow> int \<Rightarrow> rn_state \<Rightarrow> (int \<times> rn_state) run" where
  "load_structures env file_name argc s =
     (if argc \<noteq> 1 then returns (WRONG_ARG_COUNT, s)
      else bind_run (Some (known file_name)) (\<lambda>p.
        bind_run (Some (cstr_text (rs_mem s) None p)) (\<lambda>name.
        case en_dlopen env name of
          None \<Rightarrow> returns (DLOPEN_FAILED, s)
        | Some ifunc \<Rightarrow>
            if \<not> en_malloc env 56 then faults NullDeref
            else bind_run (ifunc s) (\<lambda>s'. returns (PREDIS_SUCCESS, s')))))"

section \<open>SAYSOMETHING\<close>

text \<open>\<open>print1cmd\<close> of \<^verbatim>\<open>commands/saysomething.c\<close>, which the build does not make and nothing loads at the start.\<close>

definition saysomething_print1cmd ::
    "predis_arg list \<Rightarrow> arg_texts \<Rightarrow> int option list \<Rightarrow> int \<Rightarrow> rn_state \<Rightarrow> command_result" where
  "saysomething_print1cmd data argv lens argc s =
     bind_run (Some (print_args argv lens [0..<nat argc] s)) (\<lambda>_.
     returns (0, data, with_ctx (\<lambda>c. replySimpleString c (Lit (ascii ''test reply''))) s))"

text \<open>A call through the pointer to a command.\<close>

definition call_normal ::
    "rn_env \<Rightarrow> command_fn \<Rightarrow> predis_arg list \<Rightarrow> arg_texts \<Rightarrow> int option list \<Rightarrow> int \<Rightarrow> rn_state \<Rightarrow> command_result" where
  "call_normal env f data argv lens argc s =
     (case f of
        Command_set \<Rightarrow> command_set env data argv lens argc s
      | Command_get \<Rightarrow> command_get data argc s
      | Command_getset \<Rightarrow> command_getset env data argv lens argc s
      | Command_bitcount \<Rightarrow> command_bitcount env data argc s
      | Command_bitpos \<Rightarrow> command_bitpos env data argv s
      | Command_strlen \<Rightarrow> command_strlen data s
      | Command_mget \<Rightarrow> command_mget data argv lens argc s
      | Command_getrange \<Rightarrow> command_getrange data argv s
      | Config_print1cmd \<Rightarrow> config_print1cmd data argv argc s
      | Hash_hget \<Rightarrow> hash_hget data argv lens s
      | Hash_hset \<Rightarrow> hash_hset env data argv lens s
      | Load_structures \<Rightarrow>
          bind_run (load_structures env (if argv = [] then None else map_option Ptr (hd argv)) argc s)
            (\<lambda>(rc, s'). returns (rc, data, s'))
      | Command_del \<Rightarrow> faults TypeConfusion
      | Saysomething_print1cmd \<Rightarrow> saysomething_print1cmd data argv lens argc s)"

end
