(* ===== verification/Runner.thy ===== *)
theory Runner
  imports Commands
begin

text \<open>
  \<open>runner\<close> of \<^verbatim>\<open>network_parser.c\<close>: one command, from its parsed arguments to its reply.  It looks the command
  up, fetches the keys its format names, runs it, and sees to it that a reply is committed.
\<close>

section \<open>The working set\<close>

text \<open>
  The calls a worker makes while no \<open>gc_run\<close> intervenes.  \<open>gc_clear\<close> frees what the field holds after its
  compare-and-swap, which is null.
\<close>

definition gc_lock :: "gc_user \<Rightarrow> gc_user" where
  "gc_lock usr = usr\<lparr>gu_pending := True\<rparr>"

definition gc_commit :: "gc_user \<Rightarrow> addr list option \<Rightarrow> gc_user" where
  "gc_commit usr ws = usr\<lparr>gu_working_set := ws, gu_pending := False\<rparr>"

definition gc_clear :: "gc_user \<Rightarrow> gc_user" where
  "gc_clear usr = usr\<lparr>gu_working_set := None\<rparr>"

section \<open>Deletion\<close>

text \<open>A key that is not there leaves \<open>cts\<close> unset.\<close>

fun command_del_loop :: "nat list \<Rightarrow> arg_texts \<Rightarrow> int option list \<Rightarrow> rn_state \<Rightarrow> rn_state run" where
  "command_del_loop [] argv lens s = returns s"
| "command_del_loop (i # js) argv lens s =
     bind_run (Some (slot lens i)) (\<lambda>n.
     if n \<le> 0 then command_del_loop js argv lens s
     else
       bind_run (Some (slot argv i)) (\<lambda>p.
       bind_run (Some (ptr_known (rs_mem s) p)) (\<lambda>k.
       bind_run (ht_del (rs_table s) k (word_of_int n)) (\<lambda>(t', st, r).
       case r of
         Some (HT_Value d, a, f) \<Rightarrow>
           command_del_loop js argv lens
             (s\<lparr>rs_table := t', rs_gc_frees := rs_gc_frees s @ [Gc_node None a f, Gc_typed_data d]\<rparr>)
       | _ \<Rightarrow> faults UninitRead))))"

definition command_del :: "arg_texts \<Rightarrow> int option list \<Rightarrow> int \<Rightarrow> rn_state \<Rightarrow> (int \<times> rn_state) run" where
  "command_del argv lens argc s =
     bind_run (command_del_loop [0..<nat argc] argv lens (s\<lparr>rs_gc := gc_lock (rs_gc s)\<rparr>)) (\<lambda>s'.
     returns (0, s'\<lparr>rs_gc := gc_commit (rs_gc s') None\<rparr>))"

text \<open>\<open>free_typed_data\<close>, the function registered for the data of a deleted key.\<close>

definition free_typed_data :: "addr \<Rightarrow> rn_state \<Rightarrow> rn_state run" where
  "free_typed_data a s =
     bind_run (Some (typed_at a s)) (\<lambda>(ty, d). type_free ty d s)"

text \<open>A call through the pointer to a meta command.\<close>

definition call_meta ::
    "command_fn option \<Rightarrow> arg_texts \<Rightarrow> int option list \<Rightarrow> int \<Rightarrow> rn_state \<Rightarrow> (int \<times> rn_state) run" where
  "call_meta f argv lens argc s =
     (case f of
        Some Command_del \<Rightarrow> command_del argv lens argc s
      | Some _ \<Rightarrow> faults TypeConfusion
      | None \<Rightarrow> faults NullDeref)"

section \<open>Fetching the keys\<close>

text \<open>
  The variables of the loop: the argument, the position in the format, the array \<open>data\<close>, the
  members of the working set and the two error flags.
\<close>

record run_vars =
  rv_i :: u64
  rv_index :: int
  rv_data :: "predis_arg list"
  rv_members :: "addr list"
  rv_error_happened :: bool
  rv_error_resolved :: bool

definition uninit_arg :: predis_arg where
  "uninit_arg = \<lparr>pa_needs_initialization = None, pa_needs_commit = None, pa_data = None, pa_ht_value = None\<rparr>"

definition fs_node_at :: "format_string \<Rightarrow> int \<Rightarrow> fs_node res" where
  "fs_node_at fs i = (if i < 0 then Fault OutOfBounds else elem_at (fs_contents fs) (nat i))"

definition details_type :: "fs_details \<Rightarrow> u32 option res" where
  "details_type d = (case d of FsType k \<Rightarrow> Ok (Some k) | FsNull \<Rightarrow> Ok None | FsJump _ \<Rightarrow> Fault TypeConfusion)"

definition wanted_type :: "format_string \<Rightarrow> run_vars \<Rightarrow> u32 option res" where
  "wanted_type fs v = bind_res (fs_node_at fs (rv_index v)) (\<lambda>nd. details_type (fn_details nd))"

definition set_arg :: "(predis_arg \<Rightarrow> predis_arg) \<Rightarrow> run_vars \<Rightarrow> run_vars" where
  "set_arg f v = v\<lparr>rv_data := (rv_data v)[unat (rv_i v) := f (rv_data v ! unat (rv_i v))]\<rparr>"

definition set_members :: "addr \<Rightarrow> addr \<Rightarrow> run_vars \<Rightarrow> run_vars" where
  "set_members d a v =
     v\<lparr>rv_members := (rv_members v)[2 * unat (rv_i v) := d, 2 * unat (rv_i v) + 1 := a]\<rparr>"

text \<open>The key of argument \<open>i\<close> and its length.\<close>

definition key_at :: "arg_texts \<Rightarrow> int option list \<Rightarrow> run_vars \<Rightarrow> rn_state \<Rightarrow> (bytes option \<times> u32) res" where
  "key_at argv lens v s =
     bind_res (slot argv (unat (rv_i v))) (\<lambda>p.
     bind_res (slot lens (unat (rv_i v))) (\<lambda>n.
     bind_res (ptr_known (rs_mem s) p) (\<lambda>k. Ok (k, word_of_int n))))"

text \<open>
  \<open>FSTRING_MODIFY_CREATE\<close>.  A key that is there without data yet makes the code wait for the data,
  forever if nobody else is about to commit it.
\<close>

definition fetch_create ::
    "rn_env \<Rightarrow> format_string \<Rightarrow> arg_texts \<Rightarrow> int option list \<Rightarrow> run_vars \<Rightarrow> rn_state \<Rightarrow> (run_vars \<times> rn_state) run" where
  "fetch_create env fs argv lens v s =
     bind_run (Some (key_at argv lens v s)) (\<lambda>(k, n).
     bind_run (ht_store (en_ht env) (rs_table s) k n NULL) (\<lambda>(t', st, a).
     let s1 = s\<lparr>rs_table := t'\<rparr> in
     case st of
       HT_GOOD \<Rightarrow>
         if \<not> en_malloc env 16 then faults NullDeref
         else bind_run (Some (wanted_type fs v)) (\<lambda>ty.
           let (d, s2) = obj_new (O_typed ty NULL) s1
           in returns (set_members d a (set_arg (\<lambda>_. \<lparr>pa_needs_initialization = Some True,
                pa_needs_commit = Some True, pa_data = Some d, pa_ht_value = Some a\<rparr>) v), s2))
     | HT_DUPLICATE_KEY \<Rightarrow>
         bind_run (Some (ht_read_slot t' a)) (\<lambda>d.
         if d = NULL then None
         else
           bind_run (Some (typed_at d s1)) (\<lambda>(ty0, _).
           bind_run (Some (wanted_type fs v)) (\<lambda>ty.
           if ty0 \<noteq> ty then
             returns (set_arg (\<lambda>x. x\<lparr>pa_data := Some d, pa_ht_value := Some a\<rparr>)
                 (v\<lparr>rv_error_happened := True, rv_error_resolved := True\<rparr>),
               with_ctx (\<lambda>c. replyError c (Lit (ascii ''ERR WRONGTYPE''))) s1)
           else
             returns (set_members d a (set_arg (\<lambda>_. \<lparr>pa_needs_initialization = Some False,
               pa_needs_commit = Some False, pa_data = Some d, pa_ht_value = Some a\<rparr>) v), s1))))
     | _ \<Rightarrow> returns (v\<lparr>rv_error_happened := True\<rparr>, s1)))"

text \<open>The answer of the two reading accesses to an error.\<close>

definition nil_on_error :: "run_vars \<Rightarrow> rn_state \<Rightarrow> run_vars \<times> rn_state" where
  "nil_on_error v s =
     (if rv_error_happened v then
        (v\<lparr>rv_error_resolved := True\<rparr>, with_ctx (\<lambda>c. replyBulkString c null_str (- 1)) s)
      else (v, s))"

definition fetch_readonly ::
    "format_string \<Rightarrow> arg_texts \<Rightarrow> int option list \<Rightarrow> run_vars \<Rightarrow> rn_state \<Rightarrow> (run_vars \<times> rn_state) run" where
  "fetch_readonly fs argv lens v s =
     (let v0 = set_arg (\<lambda>x. x\<lparr>pa_needs_initialization := Some False\<rparr>) v in
      bind_run (Some (key_at argv lens v s)) (\<lambda>(k, n).
      bind_run (ht_find (rs_table s) k n) (\<lambda>(st, a).
      case st of
        HT_GOOD \<Rightarrow>
          bind_run (Some (ht_read_slot (rs_table s) a)) (\<lambda>d.
          let v1 = set_arg (\<lambda>x. x\<lparr>pa_data := Some d, pa_ht_value := Some a\<rparr>) v0 in
          bind_run (Some (typed_at d s)) (\<lambda>(ty0, _).
          bind_run (Some (wanted_type fs v)) (\<lambda>ty.
          if ty0 \<noteq> ty then
            returns (nil_on_error (v1\<lparr>rv_error_happened := True, rv_error_resolved := True\<rparr>)
              (with_ctx (\<lambda>c. replyError c (Lit (ascii ''ERR WRONGTYPE''))) s))
          else returns (nil_on_error (set_members d a v1) s))))
      | _ \<Rightarrow> returns (nil_on_error (v0\<lparr>rv_error_happened := True\<rparr>) s))))"

text \<open>
  \<open>FSTRING_READONLY_OPTIONAL\<close> never loads the data: when the key is there, the code reads the type of
  the null pointer the loop has just stored in \<open>data\<close>.
\<close>

definition fetch_optional ::
    "format_string \<Rightarrow> arg_texts \<Rightarrow> int option list \<Rightarrow> run_vars \<Rightarrow> rn_state \<Rightarrow> (run_vars \<times> rn_state) run" where
  "fetch_optional fs argv lens v s =
     (let v0 = set_arg (\<lambda>x. x\<lparr>pa_needs_initialization := Some False\<rparr>) v in
      bind_run (Some (key_at argv lens v s)) (\<lambda>(k, n).
      bind_run (ht_find (rs_table s) k n) (\<lambda>(st, a).
      case st of
        HT_NOT_FOUND \<Rightarrow>
          returns (nil_on_error (set_arg (\<lambda>x. x\<lparr>pa_data := Some NULL, pa_ht_value := Some NULL\<rparr>) v0) s)
      | HT_GOOD \<Rightarrow>
          let v1 = set_arg (\<lambda>x. x\<lparr>pa_ht_value := Some a\<rparr>) v0 in
          bind_run (Some (known (pa_data (rv_data v1 ! unat (rv_i v1))))) (\<lambda>d.
          bind_run (Some (typed_at d s)) (\<lambda>(ty0, _).
          bind_run (Some (wanted_type fs v)) (\<lambda>ty.
          if ty0 \<noteq> ty then returns (nil_on_error (v1\<lparr>rv_error_happened := True\<rparr>) s)
          else returns (nil_on_error (set_members d a v1) s))))
      | _ \<Rightarrow> returns (nil_on_error (v0\<lparr>rv_error_happened := True\<rparr>) s))))"

text \<open>
  \<open>FSTRING_JUMP\<close> consumes no argument: the index goes one back, to be incremented again.
\<close>

definition follow_jump :: "format_string \<Rightarrow> u64 \<Rightarrow> run_vars \<Rightarrow> run_vars res" where
  "follow_jump fs argc v =
     bind_res (if sint (argc - rv_i v) > uint (fs_length fs - 1) - rv_index v then
         bind_res (fs_node_at fs (rv_index v)) (\<lambda>nd.
           case fn_details nd of FsJump t \<Rightarrow> Ok (uint t - 1) | _ \<Rightarrow> Fault TypeConfusion)
       else Ok (rv_index v)) (\<lambda>idx.
     Ok (v\<lparr>rv_index := idx, rv_i := rv_i v - 1\<rparr>))"

text \<open>One round of the loop without its increments.  Arguments behind the format are plain text.\<close>

definition fetch_arg ::
    "rn_env \<Rightarrow> format_string \<Rightarrow> u64 \<Rightarrow> arg_texts \<Rightarrow> int option list \<Rightarrow> run_vars \<Rightarrow> rn_state
       \<Rightarrow> (run_vars \<times> rn_state) run" where
  "fetch_arg env fs argc argv lens v0 s =
     (if length (rv_data v0) \<le> unat (rv_i v0) then faults OutOfBounds
      else
        let v = set_arg (\<lambda>x. x\<lparr>pa_ht_value := Some NULL, pa_data := Some NULL\<rparr>) v0 in
        bind_run (Some (if unat (fs_length fs) < unat (rv_i v) then Ok FSTRING_STRING
                        else bind_res (fs_node_at fs (rv_index v)) (\<lambda>nd. Ok (fn_access_type nd)))) (\<lambda>acc.
        case acc of
          FSTRING_MODIFY_CREATE \<Rightarrow> fetch_create env fs argv lens v s
        | FSTRING_READONLY \<Rightarrow> fetch_readonly fs argv lens v s
        | FSTRING_READONLY_OPTIONAL \<Rightarrow> fetch_optional fs argv lens v s
        | FSTRING_STRING \<Rightarrow> returns (v, s)
        | FSTRING_JUMP \<Rightarrow> bind_run (Some (follow_jump fs argc v)) (\<lambda>v'. returns (v', s))
        | _ \<Rightarrow> returns (v\<lparr>rv_error_happened := True\<rparr>, s)))"

partial_function (option) fetch_loop ::
    "rn_env \<Rightarrow> format_string \<Rightarrow> u64 \<Rightarrow> arg_texts \<Rightarrow> int option list \<Rightarrow> run_vars \<Rightarrow> rn_state
       \<Rightarrow> (run_vars \<times> rn_state) run" where
  "fetch_loop env fs argc argv lens v s =
     (if rv_i v < argc then
        (case fetch_arg env fs argc argv lens v s of
           None \<Rightarrow> None
         | Some (Inl e) \<Rightarrow> faults e
         | Some (Inr (v1, s1)) \<Rightarrow>
             (if rv_error_happened v1 then returns (v1, s1)
              else fetch_loop env fs argc argv lens
                     (v1\<lparr>rv_index := rv_index v1 + 1, rv_i := rv_i v1 + 1\<rparr>) s1))
      else returns (v, s))"

declare fetch_loop.simps [code]

section \<open>One command\<close>

text \<open>
  The elements of \<open>data\<close>: \<open>sizeof(data_stack)\<close> is 240, the size in bytes of an array of ten.
\<close>

definition data_array :: "rn_env \<Rightarrow> u64 \<Rightarrow> predis_arg list option" where
  "data_array env argc =
     (if argc < 240 then Some (replicate 10 uninit_arg)
      else let n = size_t (24 * uint argc) in
           if en_malloc env n then Some (replicate (nat (n div 24)) uninit_arg) else None)"

definition run_normal ::
    "rn_env \<Rightarrow> format_string \<Rightarrow> command_fn option \<Rightarrow> u64 \<Rightarrow> arg_texts \<Rightarrow> int option list \<Rightarrow> rn_state
       \<Rightarrow> rn_state run" where
  "run_normal env fs cmd argc argv lens s =
     (case data_array env argc of
        None \<Rightarrow> faults NullDeref
      | Some data \<Rightarrow>
          let s0 = s\<lparr>rs_gc := gc_lock (rs_gc s)\<rparr> in
          if \<not> en_malloc env (size_t (8 + 16 * uint argc)) then faults NullDeref
          else
            bind_run (fetch_loop env fs argc argv lens
                \<lparr>rv_i = 0, rv_index = 0, rv_data = data, rv_members = replicate (2 * unat argc) NULL,
                 rv_error_happened = False, rv_error_resolved = False\<rparr> s0) (\<lambda>(v, s1).
            let s2 = s1\<lparr>rs_gc := gc_commit (rs_gc s1) (Some (rv_members v))\<rparr> in
            bind_run
              (if rv_error_happened v then returns s2
               else case cmd of
                 None \<Rightarrow> faults NullDeref
               | Some f \<Rightarrow>
                   bind_run (call_normal env f (rv_data v) argv lens (to_int (uint argc)) s2) (\<lambda>(rc, _, s3).
                   returns (if rc = WRONG_ARG_COUNT
                            then with_ctx (\<lambda>c. replySimpleString c (Lit (ascii ''ERR wrong arg count''))) s3
                            else s3))) (\<lambda>s4.
            let s5 = s4\<lparr>rs_gc := gc_clear (rs_gc s4)\<rparr> in
            returns (if rv_error_happened v \<and> \<not> rv_error_resolved v
                     then with_ctx (\<lambda>c. replySimpleString c (Lit (ascii ''ERR other thingie''))) s5
                     else s5))))"

text \<open>The command found, with the number of its arguments, its name included.\<close>

definition run_found ::
    "rn_env \<Rightarrow> command_fn command_entry \<Rightarrow> u64 \<Rightarrow> arg_texts \<Rightarrow> int option list \<Rightarrow> rn_state \<Rightarrow> rn_state run" where
  "run_found env entry argc argv lens s =
     (case entry of (fstring, cmd, is_meta) \<Rightarrow>
        if is_meta then
          bind_run (call_meta cmd argv lens (to_int (uint argc) - 1) s) (\<lambda>(_, s'). returns s')
        else case fstring of
          None \<Rightarrow> faults NullDeref
        | Some FsDead \<Rightarrow> faults UseAfterFree
        | Some (FsAt fs) \<Rightarrow>
            if unat (fs_length fs + fs_optional_argument_count fs + 1) > unat argc then
              returns (with_ctx (\<lambda>c. replySimpleString c (Lit (ascii ''ERR other thingie''))) s)
            else run_normal env fs cmd (argc - 1) argv lens s)"

text \<open>The lookup prints the name it did not find.\<close>

definition run_command :: "rn_env \<Rightarrow> resp_allocations \<Rightarrow> rn_state \<Rightarrow> rn_state run" where
  "run_command env allocs s =
     (case resp_cmd_args allocs of
        (argc, Some argv, Some lens) \<Rightarrow>
          bind_run (Some (slot argv 0)) (\<lambda>p.
          if fst p = NULL then returns s
          else
            bind_run (Some (slot lens 0)) (\<lambda>n.
            bind_run (Some (ptr_known (rs_mem s) p)) (\<lambda>name.
            bind_run (command_ht_fetch (rs_commands s) (the name) (word_of_int n)) (\<lambda>(rc, entry).
            if rc = 0 then
              (case entry of
                 None \<Rightarrow> faults UninitRead
               | Some x \<Rightarrow> run_found env x (word_of_int argc) (drop 1 argv) (drop 1 lens) s)
            else
              bind_run (Some (print_arg argv lens 0 s)) (\<lambda>_.
              returns (with_ctx (\<lambda>c. replyError c (Lit (ascii ''ERR unknown command''))) s))))))
      | _ \<Rightarrow> faults NullDeref)"

definition runner :: "rn_env \<Rightarrow> resp_allocations \<Rightarrow> rn_state \<Rightarrow> rn_state run" where
  "runner env allocs s =
     bind_run (run_command env allocs (s\<lparr>rs_ctx := (rs_ctx s)\<lparr>cx_needs_reply := True\<rparr>\<rparr>)) (\<lambda>s1.
     let s2 = (if cx_needs_reply (rs_ctx s1)
               then with_ctx (\<lambda>c. replySimpleString c (Lit (ascii ''OK''))) s1 else s1)
     in bind_run (Some (resp_cmd_free allocs (rs_mem s2))) (\<lambda>w. returns (s2\<lparr>rs_mem := w\<rparr>)))"

end
