(* ===== verification/Server.thy ===== *)
theory Server
  imports Runner
begin

text \<open>
  What \<open>main\<close> sets up before it accepts connections: the type table, the command table with \<open>load\<close> and
  \<open>del\<close>, and the five shared objects, which register the types and the commands.
\<close>

section \<open>Registration\<close>

text \<open>\<open>lib/commands.c\<close>; the results of the tables are only printed.\<close>

definition register_command :: "rn_env \<Rightarrow> bytes \<Rightarrow> u32 \<Rightarrow> command_fn \<Rightarrow> bytes \<Rightarrow> u32 \<Rightarrow> rn_state \<Rightarrow> (int \<times> rn_state) run" where
  "register_command env command_name command_name_length command format format_length s =
     bind_run (command_ht_store (en_fs env) (rs_commands s) command_name command_name_length (Some command)
         format format_length) (\<lambda>(ht, r).
     returns (0, s\<lparr>rs_commands := ht\<rparr>))"

definition register_type :: "bytes \<Rightarrow> u32 \<Rightarrow> type_fun \<Rightarrow> type_fun \<Rightarrow> rn_state \<Rightarrow> (int \<times> rn_state) run" where
  "register_type type_name type_name_length tinit tfree s =
     bind_run (type_ht_store (ct_type_ht (rs_commands s)) type_name type_name_length
         (Some \<lparr>tr_init = Some tinit, tr_free = Some tfree\<rparr>)) (\<lambda>(th, r).
     returns (0, s\<lparr>rs_commands := (rs_commands s)\<lparr>ct_type_ht := th\<rparr>\<rparr>))"

text \<open>A \<open>char\<close> array with its NUL, and \<open>sizeof\<close> it less one.\<close>

definition literal :: "string \<Rightarrow> bytes" where
  "literal t = ascii t @ [0]"

definition register_literal :: "rn_env \<Rightarrow> string \<Rightarrow> command_fn \<Rightarrow> string \<Rightarrow> rn_state \<Rightarrow> rn_state run" where
  "register_literal env name f format s =
     bind_run (register_command env (literal name) (of_nat (length name)) f (literal format)
         (of_nat (length format)) s) (\<lambda>(_, s'). returns s')"

text \<open>The functions \<open>predis_init\<close>.\<close>

definition string_type_init :: "rn_state \<Rightarrow> rn_state run" where
  "string_type_init s =
     bind_run (register_type (literal ''string'') 6 Initialize_string Free_string s) (\<lambda>(_, s'). returns s')"

definition hash_type_init :: "rn_state \<Rightarrow> rn_state run" where
  "hash_type_init s =
     bind_run (register_type (literal ''hash'') 4 Initialize_hash Free_hash s) (\<lambda>(_, s'). returns s')"

fun register_all :: "rn_env \<Rightarrow> (string \<times> command_fn \<times> string) list \<Rightarrow> rn_state \<Rightarrow> rn_state run" where
  "register_all env [] s = returns s"
| "register_all env ((name, f, format) # rs) s =
     bind_run (register_literal env name f format s) (register_all env rs)"

definition string_commands_init :: "rn_env \<Rightarrow> rn_state \<Rightarrow> rn_state run" where
  "string_commands_init env = register_all env
     [(''SET'', Command_set, ''W{string}S''),
      (''GET'', Command_get, ''R{string}''),
      (''GETSET'', Command_getset, ''M{string}S''),
      (''BITCOUNT'', Command_bitcount, ''R{string}''),
      (''BITPOS'', Command_bitpos, ''R{string}S''),
      (''STRLEN'', Command_strlen, ''R{string}''),
      (''MGET'', Command_mget, ''S|r{string}|S''),
      (''GETRANGE'', Command_getrange, ''R{string}SS'')]"

definition config_commands_init :: "rn_env \<Rightarrow> rn_state \<Rightarrow> rn_state run" where
  "config_commands_init env = register_all env [(''CONFIG'', Config_print1cmd, ''SS'')]"

definition hash_commands_init :: "rn_env \<Rightarrow> rn_state \<Rightarrow> rn_state run" where
  "hash_commands_init env = register_all env
     [(''hget'', Hash_hget, ''R{hash}S''), (''hset'', Hash_hset, ''W{hash}SS'')]"

text \<open>The length of this name counts its NUL.\<close>

definition saysomething_init :: "rn_env \<Rightarrow> rn_state \<Rightarrow> rn_state run" where
  "saysomething_init env s =
     bind_run (register_command env (literal ''saysomething'') 13 Saysomething_print1cmd (literal []) 0 s)
       (\<lambda>(_, s'). returns s')"

section \<open>Start\<close>

text \<open>The shared objects the build makes of \<open>types/\<close> and \<open>commands/\<close>, under the names \<open>main\<close> loads.\<close>

definition shipped :: "rn_env \<Rightarrow> bytes \<Rightarrow> (rn_state \<Rightarrow> rn_state run) option" where
  "shipped env = map_of
     [(ascii ''types/string.so'', string_type_init),
      (ascii ''types/hash.so'', hash_type_init),
      (ascii ''commands/string.so'', string_commands_init env),
      (ascii ''commands/config.so'', config_commands_init env),
      (ascii ''commands/hash.so'', hash_commands_init env)]"

fun load_all :: "rn_env \<Rightarrow> string list \<Rightarrow> rn_state \<Rightarrow> rn_state run" where
  "load_all env [] s = returns s"
| "load_all env (f # fs) s =
     bind_run (load_structures env (Some (Lit (ascii f))) 1 s) (\<lambda>(_, s'). load_all env fs s')"

text \<open>
  The initialisation of \<open>main\<close>, with the tables of 256 elements; a table that cannot be allocated is a
  null pointer the code does not look at.
\<close>

definition server_start :: "rn_env \<Rightarrow> rn_state run" where
  "server_start env =
     bind_run (Some (ht_init (en_ht env) True)) (\<lambda>global_ht.
     case (global_ht, type_ht_init (en_malloc env 16) (en_malloc env (256 * 32)) 256) of
       (Some t, Some th) \<Rightarrow>
         (case command_ht_init (en_malloc env 24) (en_malloc env (256 * 40)) 256 th of
            None \<Rightarrow> faults NullDeref
          | Some ct \<Rightarrow>
              bind_run (command_ht_store (en_fs env) ct (literal ''load'') 5 (Some Load_structures) (literal ''S'') 1)
                (\<lambda>(ct1, _).
              bind_run (command_ht_store_meta ct1 (literal ''del'') 3 (Some Command_del)) (\<lambda>(ct2, _).
              load_all env
                [''types/string.so'', ''types/hash.so'', ''commands/string.so'', ''commands/config.so'',
                 ''commands/hash.so'']
                \<lparr>rs_mem = \<lparr>w_heap = [], w_net = []\<rparr>, rs_objs = [], rs_table = t, rs_commands = ct2,
                 rs_ctx = \<lparr>cx_send_queue_ptr = 0, cx_needs_reply = False, cx_commits = []\<rparr>,
                 rs_gc = \<lparr>gu_pending = False, gu_working_set = None\<rparr>, rs_gc_frees = []\<rparr>)))
     | _ \<Rightarrow> faults NullDeref)"

end
