(* ===== verification/Worker.thy ===== *)
theory Worker
  imports Server Reply_Order
begin

text \<open>
  A worker thread of \<^verbatim>\<open>network_parser.c\<close> and one connection: \<open>packet_reciever\<close>, which calls the parser and
  puts all but the last command of a batch into the pipe, and the two kinds of events of
  \<open>onestep_thread\<close>.  The reply queue of the connection is given by what its interface promises
  (\<open>Reply_Order\<close>): the replies of the open tickets, and the longest prefix that is ready is sent.
\<close>

datatype packet_reciever_status = PR_CLOSED | PR_ERROR | PR_DONE | PR_REARM_AGAIN | PR_TOO_SHORT

text \<open>
  The parser of the connection, the state of the server, the reply queue with the ticket of its first
  slot, the pipe, and what has been sent.
\<close>

record worker =
  wk_sm :: "unit resp_sm"
  wk_state :: rn_state
  wk_head :: nat
  wk_window :: "pre_send option list"
  wk_pipe :: "(resp_allocations option \<times> nat) list"
  wk_sent :: bytes

text \<open>
  A connection comes with a queue of 64 slots.  When it is full the thread waits for a slot, forever
  if nobody else sends replies.
\<close>

definition take_ticket :: "worker \<Rightarrow> (nat \<times> worker) option" where
  "take_ticket w =
     (if length (wk_window w) < 64
      then Some (wk_head w + length (wk_window w), w\<lparr>wk_window := wk_window w @ [None]\<rparr>) else None)"

definition wk_mem :: "worker \<Rightarrow> rp_world" where
  "wk_mem w = rs_mem (wk_state w)"

definition with_mem :: "rp_world \<Rightarrow> worker \<Rightarrow> worker" where
  "with_mem m w = w\<lparr>wk_state := (wk_state w)\<lparr>rs_mem := m\<rparr>\<rparr>"

partial_function (option) packet_reciever :: "rn_env \<Rightarrow> worker \<Rightarrow> (packet_reciever_status \<times> worker) run" where
  "packet_reciever env w =
     (case resp_cmd_process_sm (en_malloc env) (wk_sm w) (wk_mem w) of
        None \<Rightarrow> None
      | Some (Inl e) \<Rightarrow> faults e
      | Some (Inr (status, sm, m)) \<Rightarrow>
          let w1 = with_mem m (w\<lparr>wk_sm := sm\<rparr>) in
          if status = RESP_SM_STATUS_ERROR then returns (PR_ERROR, w1)
          else if status = RESP_SM_STATUS_EMPTY then returns (PR_REARM_AGAIN, w1)
          else if status = RESP_SM_STATUS_CLOSED then returns (PR_CLOSED, w1)
          else if status = RESP_SM_STATUS_DONE then
            (case resp_cmd_sm_allocs sm of
               None \<Rightarrow> faults NullDeref
             | Some r \<Rightarrow> returns (if ra_argc r < 1 then PR_TOO_SHORT else PR_DONE, w1))
          else
            (case take_ticket w1 of
               None \<Rightarrow> None
             | Some (t, w2) \<Rightarrow> packet_reciever env (w2\<lparr>wk_pipe := wk_pipe w2 @ [(resp_cmd_sm_allocs sm, t)]\<rparr>)))"

declare packet_reciever.simps [code]

text \<open>What is sent for the replies that leave the queue.\<close>

fun send_replies :: "rn_env \<Rightarrow> rn_state \<Rightarrow> pre_send list \<Rightarrow> bytes run" where
  "send_replies env s [] = returns []"
| "send_replies env s (p # ps) =
     bind_run (send_pre_data (en_malloc env) (rs_mem s) p) (\<lambda>(b, _).
     bind_run (send_replies env s ps) (\<lambda>bs. returns (b @ bs)))"

text \<open>
  One command with its ticket: \<open>runner\<close> commits to the slot of the ticket, then the ready replies are sent.
\<close>

definition run_ticket :: "rn_env \<Rightarrow> resp_allocations option \<Rightarrow> nat \<Rightarrow> worker \<Rightarrow> worker run" where
  "run_ticket env allocs t w =
     (case allocs of
        None \<Rightarrow> faults NullDeref
      | Some r \<Rightarrow>
          let s = wk_state w; s1 = s\<lparr>rs_ctx := (rs_ctx s)\<lparr>cx_send_queue_ptr := of_nat t\<rparr>\<rparr> in
          bind_run (runner env r s1) (\<lambda>s2.
          let new = drop (length (cx_commits (rs_ctx s))) (cx_commits (rs_ctx s2));
              window = foldl (\<lambda>ws (i, p). ws[unat i - wk_head w := Some p]) (wk_window w) new;
              out = ready_prefix window
          in bind_run (send_replies env s2 out) (\<lambda>bs.
             returns (w\<lparr>wk_state := s2, wk_window := unready_rest window,
               wk_head := wk_head w + length out, wk_sent := wk_sent w @ bs\<rparr>))))"

text \<open>The connection is readable.\<close>

definition onestep_read :: "rn_env \<Rightarrow> worker \<Rightarrow> (packet_reciever_status \<times> worker) run" where
  "onestep_read env w =
     bind_run (packet_reciever env w) (\<lambda>(status, w1).
     if status \<noteq> PR_DONE then returns (status, w1)
     else case take_ticket w1 of
       None \<Rightarrow> None
     | Some (t, w2) \<Rightarrow>
         bind_run (run_ticket env (resp_cmd_sm_allocs (wk_sm w2)) t w2) (\<lambda>w3. returns (status, w3)))"

text \<open>The pipe is readable: one command is taken from it.\<close>

definition onestep_pipe :: "rn_env \<Rightarrow> worker \<Rightarrow> worker run" where
  "onestep_pipe env w =
     (case wk_pipe w of
        [] \<Rightarrow> returns w
      | (allocs, t) # rest \<Rightarrow> run_ticket env allocs t (w\<lparr>wk_pipe := rest\<rparr>))"

text \<open>The events of one thread, as \<open>epoll_wait\<close> delivers them.\<close>

datatype worker_event = Connection_readable | Pipe_readable

fun worker_events :: "rn_env \<Rightarrow> worker_event list \<Rightarrow> worker \<Rightarrow> worker run" where
  "worker_events env [] w = returns w"
| "worker_events env (Connection_readable # es) w =
     bind_run (onestep_read env w) (\<lambda>(_, w1). worker_events env es w1)"
| "worker_events env (Pipe_readable # es) w =
     bind_run (onestep_pipe env w) (\<lambda>w1. worker_events env es w1)"

text \<open>A new connection of the server.\<close>

definition worker_start :: "rn_state \<Rightarrow> int \<Rightarrow> segment list \<Rightarrow> worker" where
  "worker_start s fd net =
     \<lparr>wk_sm = resp_sm_init 0 0 fd (), wk_state = s\<lparr>rs_mem := (rs_mem s)\<lparr>w_net := net\<rparr>\<rparr>, wk_head = 0,
      wk_window = [], wk_pipe = [], wk_sent = []\<rparr>"

end
