(* ===== verification/Db_Spec.thy ===== *)
theory Db_Spec
  imports Prelude
begin

text \<open>
  What a store of strings promises its clients: every command is answered as a finite map says.  A
  server is given by one step per command; the interface lifts the law of a step to sessions.
\<close>

datatype db_op = Db_set bytes bytes | Db_get bytes | Db_del bytes

datatype db_result = Db_ok | Db_text bytes | Db_nil

fun db_key :: "db_op \<Rightarrow> bytes" where
  "db_key (Db_set k v) = k"
| "db_key (Db_get k) = k"
| "db_key (Db_del k) = k"

fun db_next :: "(bytes \<rightharpoonup> bytes) \<Rightarrow> db_op \<Rightarrow> (bytes \<rightharpoonup> bytes)" where
  "db_next m (Db_set k v) = m(k \<mapsto> v)"
| "db_next m (Db_get k) = m"
| "db_next m (Db_del k) = m(k := None)"

fun db_answer :: "(bytes \<rightharpoonup> bytes) \<Rightarrow> db_op \<Rightarrow> db_result" where
  "db_answer m (Db_get k) = (case m k of None \<Rightarrow> Db_nil | Some v \<Rightarrow> Db_text v)"
| "db_answer m _ = Db_ok"

text \<open>The answers of a map to a session, and the sessions all of whose commands are good when they come.\<close>

fun db_answers :: "(bytes \<rightharpoonup> bytes) \<Rightarrow> db_op list \<Rightarrow> db_result list" where
  "db_answers m [] = []"
| "db_answers m (x # xs) = db_answer m x # db_answers (db_next m x) xs"

fun db_good :: "((bytes \<rightharpoonup> bytes) \<Rightarrow> 'x \<Rightarrow> bool) \<Rightarrow> ('x \<Rightarrow> db_op) \<Rightarrow> (bytes \<rightharpoonup> bytes) \<Rightarrow> 'x list \<Rightarrow> bool" where
  "db_good good ask m [] \<longleftrightarrow> True"
| "db_good good ask m (x # xs) \<longleftrightarrow> good m x \<and> db_good good ask (db_next m (ask x)) xs"

fun db_run :: "('s \<Rightarrow> 'x \<Rightarrow> ('s \<times> 'r) run) \<Rightarrow> 's \<Rightarrow> 'x list \<Rightarrow> ('s \<times> 'r list) run" where
  "db_run step s [] = returns (s, [])"
| "db_run step s (x # xs) =
     bind_run (step s x) (\<lambda>(s', r). bind_run (db_run step s' xs) (\<lambda>(s'', rs). returns (s'', r # rs)))"

text \<open>\<open>ask\<close> is the command a request of the client stands for.\<close>

locale db_server =
  fixes rep :: "'s \<Rightarrow> (bytes \<rightharpoonup> bytes) \<Rightarrow> bool"
    and load :: "'s \<Rightarrow> nat"
    and limit :: nat
    and ask :: "'x \<Rightarrow> db_op"
    and good :: "(bytes \<rightharpoonup> bytes) \<Rightarrow> 'x \<Rightarrow> bool"
    and step :: "'s \<Rightarrow> 'x \<Rightarrow> ('s \<times> 'r) run"
    and wire :: "db_result \<Rightarrow> 'r"
  assumes step_law: "rep s m \<Longrightarrow> load s < limit \<Longrightarrow> good m x \<Longrightarrow>
      \<exists>s'. step s x = returns (s', wire (db_answer m (ask x))) \<and> rep s' (db_next m (ask x)) \<and> load s' \<le> load s + 1"
begin

lemma session:
  assumes "rep s m" and "load s + length xs \<le> limit" and "db_good good ask m xs"
  shows "\<exists>s'. db_run step s xs = returns (s', map wire (db_answers m (map ask xs))) \<and>
           rep s' (foldl db_next m (map ask xs))"
  using assms
proof (induction xs arbitrary: s m)
  case (Cons x xs)
  obtain s1 where s1: "step s x = returns (s1, wire (db_answer m (ask x)))" "rep s1 (db_next m (ask x))"
    "load s1 \<le> load s + 1"
    using step_law[OF Cons.prems(1), of x] Cons.prems(2,3) by auto
  obtain s2 where "db_run step s1 xs = returns (s2, map wire (db_answers (db_next m (ask x)) (map ask xs)))"
    "rep s2 (foldl db_next (db_next m (ask x)) (map ask xs))"
    using Cons.IH[OF s1(2)] s1(3) Cons.prems(2,3) by auto
  then show ?case using s1(1) by simp
qed simp

end

end
