(* ===== verification/Runner_Map.thy ===== *)
theory Runner_Map
  imports Runner Db_Spec
begin

text \<open>
  The store of strings behind \<open>SET\<close>, \<open>GET\<close> and \<open>del\<close>: the relation of the server's state to a map from
  keys to values, and what \<open>runner\<close> does to it.
\<close>

section \<open>Objects under updates\<close>

lemma obj_at_simps [simp]:
  "obj_at a (s\<lparr>rs_ctx := c\<rparr>) = obj_at a s"
  "obj_at a (s\<lparr>rs_gc := g\<rparr>) = obj_at a s"
  "obj_at a (s\<lparr>rs_gc_frees := fr\<rparr>) = obj_at a s"
  "obj_at a (s\<lparr>rs_table := t\<rparr>) = obj_at a s"
  "obj_at a (s\<lparr>rs_mem := w\<rparr>) = obj_at a s"
  by (simp_all add: obj_at_def)

lemmas obj_reads = typed_at_def string_at_def hash_at_def

lemma obj_at_new: "obj_at a s = Ok x \<Longrightarrow> obj_at a (snd (obj_new y s)) = Ok x"
  by (auto simp: obj_at_def obj_new_def nth_append split: if_splits obj.splits)

lemma obj_at_fresh: "y \<noteq> O_freed \<Longrightarrow> obj_at (fst (obj_new y s)) (snd (obj_new y s)) = Ok y"
  by (simp add: obj_at_def obj_new_def split: obj.splits)

lemma obj_at_bound: "obj_at a s = Ok x \<Longrightarrow> a \<noteq> NULL \<and> a \<le> length (rs_objs s)"
  by (auto simp: obj_at_def split: if_splits)

lemma obj_at_set:
  assumes "obj_at b s = Ok y" and "x \<noteq> O_freed"
  shows "obj_at a (obj_set b x s) = (if a = b then Ok x else obj_at a s)"
proof -
  have b: "b \<noteq> NULL" "b \<le> length (rs_objs s)" using obj_at_bound[OF assms(1)] by auto
  show ?thesis
  proof (cases "a = b")
    case True
    then show ?thesis using b assms(2) by (simp add: obj_at_def obj_set_def split: obj.splits)
  next
    case False
    then have "a = NULL \<or> a - 1 \<noteq> b - 1" using b by linarith
    then show ?thesis using False by (auto simp: obj_at_def obj_set_def)
  qed
qed

lemma typed_at_obj: "typed_at a s = Ok (t, d) \<longleftrightarrow> obj_at a s = Ok (O_typed t d)"
proof (cases "obj_at a s")
  case (Inr x)
  then show ?thesis by (cases x) (auto simp: typed_at_def)
qed (simp add: typed_at_def)

lemma string_at_obj: "string_at a s = Ok (n, p) \<longleftrightarrow> obj_at a s = Ok (O_string n p)"
proof (cases "obj_at a s")
  case (Inr x)
  then show ?thesis by (cases x) (auto simp: string_at_def)
qed (simp add: string_at_def)

lemma typed_set_data_ok:
  "obj_at a s = Ok (O_typed t e) \<Longrightarrow> typed_set_data a d s = Ok (obj_set a (O_typed t d) s)"
  by (simp add: typed_set_data_def typed_at_def)

lemma obj_set_fields [simp]:
  "rs_mem (obj_set a x s) = rs_mem s" "rs_table (obj_set a x s) = rs_table s"
  "rs_commands (obj_set a x s) = rs_commands s" "rs_ctx (obj_set a x s) = rs_ctx s"
  "rs_gc (obj_set a x s) = rs_gc s" "rs_gc_frees (obj_set a x s) = rs_gc_frees s"
  by (simp_all add: obj_set_def)

lemma obj_new_fields [simp]:
  "rs_mem (snd (obj_new x s)) = rs_mem s" "rs_table (snd (obj_new x s)) = rs_table s"
  "rs_commands (snd (obj_new x s)) = rs_commands s" "rs_ctx (snd (obj_new x s)) = rs_ctx s"
  "rs_gc (snd (obj_new x s)) = rs_gc s" "rs_gc_frees (snd (obj_new x s)) = rs_gc_frees s"
  by (simp_all add: obj_new_def)

lemma case_obj_new [simp]:
  "(case obj_new x s of (a, s') \<Rightarrow> f a s') = f (Suc (length (rs_objs s))) (snd (obj_new x s))"
  by (simp add: obj_new_def)

lemma case_block_new [simp]:
  "(case block_new cs s of (a, s') \<Rightarrow> f a s') =
     f (Suc (length (w_heap (rs_mem s)))) (snd (block_new cs s))"
  by (simp add: block_new_def)

lemma block_new_fields [simp]:
  "rs_objs (snd (block_new cs s)) = rs_objs s" "rs_table (snd (block_new cs s)) = rs_table s"
  "rs_commands (snd (block_new cs s)) = rs_commands s" "rs_ctx (snd (block_new cs s)) = rs_ctx s"
  "rs_gc (snd (block_new cs s)) = rs_gc s" "rs_gc_frees (snd (block_new cs s)) = rs_gc_frees s"
  by (simp_all add: block_new_def)

lemma block_new_net [simp]: "w_net (rs_mem (snd (block_new cs s))) = w_net (rs_mem s)"
  by (simp add: block_new_def)

lemma obj_at_block [simp]: "obj_at a (snd (block_new cs s)) = obj_at a s"
  by (simp add: obj_at_def)

lemma heap_block_new:
  "heap_block a (rs_mem s) = Ok cs \<Longrightarrow> heap_block a (rs_mem (snd (block_new x s))) = Ok cs"
  by (auto simp: heap_block_def block_new_def nth_append split: if_splits)

lemma heap_block_fresh: "heap_block (fst (block_new x s)) (rs_mem (snd (block_new x s))) = Ok x"
  by (simp add: heap_block_def block_new_def)

section \<open>The relation to a map\<close>

text \<open>\<open>p\<close> points to the text \<open>v\<close>, in a block that goes on with anything.\<close>

definition text_at :: "rp_world \<Rightarrow> addr \<times> int \<Rightarrow> bytes \<Rightarrow> bool" where
  "text_at w p v \<longleftrightarrow> fst p \<noteq> NULL \<and> (\<exists>r. ptr_cells w p = Ok (map Some v @ r))"

definition string_obj :: "rn_state \<Rightarrow> addr \<Rightarrow> bytes \<Rightarrow> bool" where
  "string_obj s a v \<longleftrightarrow> (\<exists>p. obj_at a s = Ok (O_string (int (length v)) (Ptr p)) \<and> text_at (rs_mem s) p v)"

definition string_value :: "u32 \<Rightarrow> rn_state \<Rightarrow> addr \<Rightarrow> bytes \<Rightarrow> bool" where
  "string_value ty s d v \<longleftrightarrow> (\<exists>a. obj_at d s = Ok (O_typed (Some ty) a) \<and> string_obj s a v)"

text \<open>
  Every key of the table has its own typed data, which holds the value of the map.
\<close>

definition db_values :: "u32 \<Rightarrow> rn_state \<Rightarrow> (bytes \<rightharpoonup> addr) \<Rightarrow> (bytes \<rightharpoonup> bytes) \<Rightarrow> bool" where
  "db_values ty s tm m \<longleftrightarrow> dom tm = dom m \<and> inj_on tm (dom tm) \<and>
     (\<forall>k d v. tm k = Some d \<longrightarrow> m k = Some v \<longrightarrow> string_value ty s d v)"

definition db_rel :: "u32 set \<Rightarrow> u32 \<Rightarrow> rn_state \<Rightarrow> (bytes \<rightharpoonup> bytes) \<Rightarrow> bool" where
  "db_rel J ty s m \<longleftrightarrow> (\<exists>tm. ht_map J (rs_table s) tm \<and> db_values ty s tm m)"

text \<open>What a step keeps of the heap: the texts and the string objects.\<close>

definition keeps :: "rn_state \<Rightarrow> rn_state \<Rightarrow> bool" where
  "keeps s s' \<longleftrightarrow>
     (\<forall>a cs. heap_block a (rs_mem s) = Ok cs \<longrightarrow> heap_block a (rs_mem s') = Ok cs) \<and>
     (\<forall>a n p. obj_at a s = Ok (O_string n p) \<longrightarrow> obj_at a s' = Ok (O_string n p))"

lemma keeps_refl [simp, intro]: "keeps s s"
  by (simp add: keeps_def)

lemma keeps_trans: "keeps s s' \<Longrightarrow> keeps s' s'' \<Longrightarrow> keeps s s''"
  by (simp add: keeps_def)

lemma keeps_same:
  "rs_mem s' = rs_mem s \<Longrightarrow> rs_objs s' = rs_objs s \<Longrightarrow> keeps s s'"
  by (simp add: keeps_def obj_at_def)

lemma keeps_new [simp]: "keeps s (snd (obj_new x s))"
  by (auto simp: keeps_def obj_at_new)

lemma keeps_block [simp]: "keeps s (snd (block_new x s))"
  unfolding keeps_def using heap_block_new by auto

lemma keeps_set_typed: "obj_at d s = Ok (O_typed t e) \<Longrightarrow> keeps s (obj_set d (O_typed t' e') s)"
  by (auto simp: keeps_def obj_at_set)

lemma text_at_keeps: "keeps s s' \<Longrightarrow> text_at (rs_mem s) p v \<Longrightarrow> text_at (rs_mem s') p v"
proof -
  assume k: "keeps s s'" and t: "text_at (rs_mem s) p v"
  then obtain cs where "heap_block (fst p) (rs_mem s) = Ok cs"
    by (auto simp: text_at_def ptr_cells_def bind_res_Inr_iff)
  moreover from this have "heap_block (fst p) (rs_mem s') = Ok cs" using k by (simp add: keeps_def)
  ultimately show ?thesis using t by (simp add: text_at_def ptr_cells_def)
qed

lemma string_obj_keeps: "keeps s s' \<Longrightarrow> string_obj s a v \<Longrightarrow> string_obj s' a v"
  using text_at_keeps by (fastforce simp: string_obj_def keeps_def)

lemma string_value_keeps:
  "keeps s s' \<Longrightarrow> obj_at d s' = obj_at d s \<Longrightarrow> string_value ty s d v \<Longrightarrow> string_value ty s' d v"
  using string_obj_keeps by (fastforce simp: string_value_def)

text \<open>A step that touches no typed data in the table.\<close>

lemma db_values_keeps:
  assumes "db_values ty s tm m" and "keeps s s'"
    and "\<And>d x. d \<in> ran tm \<Longrightarrow> obj_at d s = Ok x \<Longrightarrow> obj_at d s' = Ok x"
  shows "db_values ty s' tm m"
  unfolding db_values_def
proof (intro conjI allI impI)
  fix k d v
  assume kd: "tm k = Some d" "m k = Some v"
  then have sv: "string_value ty s d v" using assms(1) by (simp add: db_values_def)
  then obtain a where "obj_at d s = Ok (O_typed (Some ty) a)" by (auto simp: string_value_def)
  moreover from this have "obj_at d s' = Ok (O_typed (Some ty) a)" using assms(3) kd(1) by (auto intro: ranI)
  ultimately show "string_value ty s' d v" using string_value_keeps[OF assms(2) _ sv] by simp
qed (use assms(1) in \<open>unfold db_values_def, blast+\<close>)

text \<open>A step that gives key \<open>k\<close> the value \<open>v\<close>.\<close>

lemma db_values_put:
  assumes "db_values ty s tm m" and "keeps s s'"
    and "\<And>k' d' x. k' \<noteq> k \<Longrightarrow> tm k' = Some d' \<Longrightarrow> obj_at d' s = Ok x \<Longrightarrow> d' \<noteq> d \<and> obj_at d' s' = Ok x"
    and "string_value ty s' d v"
  shows "db_values ty s' (tm(k \<mapsto> d)) (m(k \<mapsto> v))"
proof -
  have dom: "dom tm = dom m" and inj: "inj_on tm (dom tm)"
    and old: "\<And>k d v. tm k = Some d \<Longrightarrow> m k = Some v \<Longrightarrow> string_value ty s d v"
    using assms(1) unfolding db_values_def by blast+
  have there: "\<exists>x. obj_at d' s = Ok x" if "tm k' = Some d'" for k' d'
  proof -
    have "k' \<in> dom m" using that unfolding dom[symmetric] by (rule domI)
    then obtain v' where "m k' = Some v'" by blast
    then have "string_value ty s d' v'" by (rule old[OF that])
    then show ?thesis by (auto simp: string_value_def)
  qed
  have keep: "string_value ty s' d' v'" if "k' \<noteq> k" "tm k' = Some d'" "m k' = Some v'" for k' d' v'
  proof -
    note kd = that
    obtain x where x: "obj_at d' s = Ok x" using there[OF kd(2)] by blast
    then have "obj_at d' s' = obj_at d' s" using assms(3)[OF kd(1,2) x] by simp
    then show ?thesis by (rule string_value_keeps[OF assms(2) _ old[OF kd(2,3)]])
  qed
  have "inj_on (tm(k \<mapsto> d)) (dom (tm(k \<mapsto> d)))"
  proof (rule inj_onI)
    fix a b
    assume ab: "a \<in> dom (tm(k \<mapsto> d))" "b \<in> dom (tm(k \<mapsto> d))" "(tm(k \<mapsto> d)) a = (tm(k \<mapsto> d)) b"
    have ne: "tm k' \<noteq> Some d" if "k' \<noteq> k" for k'
    proof
      assume td: "tm k' = Some d"
      from there[OF this] obtain x where "obj_at d s = Ok x" by blast
      then show False using assms(3)[OF that td] by blast
    qed
    show "a = b"
    proof (cases "a = k \<or> b = k")
      case True
      then show ?thesis using ab(3) ne[of a] ne[of b] by (cases "a = k"; cases "b = k") auto
    next
      case False
      then show ?thesis using ab inj by (auto simp: inj_on_def dom_def)
    qed
  qed
  moreover have "dom (tm(k \<mapsto> d)) = dom (m(k \<mapsto> v))" using dom by simp
  moreover have "string_value ty s' d' v'"
    if "(tm(k \<mapsto> d)) k' = Some d'" "(m(k \<mapsto> v)) k' = Some v'" for k' d' v'
    using that keep assms(4) by (cases "k' = k") auto
  ultimately show ?thesis unfolding db_values_def by blast
qed

lemma db_values_none: "db_values ty s tm m \<Longrightarrow> m k = None \<longleftrightarrow> tm k = None"
  unfolding db_values_def by (metis domIff)

lemma db_values_value:
  assumes "db_values ty s tm m" and "tm k = Some d"
  obtains v where "m k = Some v" and "string_value ty s d v"
proof -
  obtain v where v: "m k = Some v" using db_values_none[OF assms(1), of k] assms(2) by auto
  moreover have "string_value ty s d v" using assms v unfolding db_values_def by blast
  ultimately show ?thesis by (rule that)
qed

lemma db_values_del:
  "db_values ty s tm m \<Longrightarrow> db_values ty s (tm(k := None)) (m(k := None))"
  by (auto simp: db_values_def inj_on_def dom_def)

section \<open>A request\<close>

text \<open>
  The arguments of a command as the parser leaves them: pointers to their bytes and their lengths.  A
  command of one buffer has nothing that \<open>resp_cmd_free\<close> frees.
\<close>

definition request :: "bytes list \<Rightarrow> resp_allocations \<Rightarrow> rp_world \<Rightarrow> bool" where
  "request args allocs w \<longleftrightarrow>
     ra_allocation_count allocs \<le> 1 \<and> length args < 2 ^ 31 \<and>
     (\<exists>ps. length ps = length args \<and>
        resp_cmd_args allocs =
          (int (length args), Some (map Some ps), Some (map (\<lambda>a. Some (int (length a))) args)) \<and>
        (\<forall>i < length args. text_at w (ps ! i) (args ! i)))"

lemma slot_map_Some [simp]: "slot (map (\<lambda>x. Some (f x)) xs) i = (if i < length xs then Ok (f (xs ! i)) else Fault OutOfBounds)"
  by (simp add: slot_def elem_at_def known_def)

lemma slot_map_Some' [simp]: "slot (map Some xs) i = (if i < length xs then Ok (xs ! i) else Fault OutOfBounds)"
  by (simp add: slot_def elem_at_def known_def)

lemma takeWhile_known: "takeWhile (\<lambda>x. x \<noteq> None) (map Some v @ r) = map Some v @ takeWhile (\<lambda>x. x \<noteq> None) r"
  by (simp add: takeWhile_append)

lemma ptr_known_text:
  assumes "text_at w p v"
  shows "\<exists>r. ptr_known w p = Ok (Some (v @ r))"
proof -
  obtain r where "fst p \<noteq> NULL" "ptr_cells w p = Ok (map Some v @ r)" using assms by (auto simp: text_at_def)
  moreover have "map the (takeWhile (\<lambda>x. x \<noteq> None) (map Some v @ r)) =
      v @ map the (takeWhile (\<lambda>x. x \<noteq> None) r)"
    unfolding takeWhile_known by (simp add: comp_def)
  ultimately show ?thesis by (auto simp: ptr_known_def simp del: not_None_eq)
qed

lemma key_arg_prefix: "key_ok J k \<Longrightarrow> key_arg J (k @ r) (of_nat (length k)) k"
  by (auto simp: key_arg_def key_ok_def unat_of_nat)

text \<open>The lookup of a command does not depend on what follows the name.\<close>

lemma command_ht_fetch_prefix:
  assumes "unat len \<le> length a"
  shows "command_ht_fetch ht (a @ r) len = command_ht_fetch ht a len"
proof -
  have hash: "command_hash_loop h (a @ r) n = command_hash_loop h a n" if "n \<le> length a" for h a n
    using that by (induction h a n rule: command_hash_loop.induct) auto
  have other: "command_elem_other (a @ r) len = command_elem_other a len"
    using assms by (intro ext) (simp add: command_elem_other_def strncasecmp_prefix split: option.split)
  show ?thesis
    unfolding command_ht_fetch_def command_hash_def hash[OF assms] other ..
qed

section \<open>The commands the store needs\<close>

definition set_format :: "u32 \<Rightarrow> format_string" where
  "set_format ty =
     \<lparr>fs_contents = [\<lparr>fn_details = FsType ty, fn_access_type = FSTRING_MODIFY_CREATE\<rparr>,
                    \<lparr>fn_details = FsNull, fn_access_type = FSTRING_STRING\<rparr>],
      fs_length = 2, fs_optional_argument_count = 0\<rparr>"

definition get_format :: "u32 \<Rightarrow> format_string" where
  "get_format ty =
     \<lparr>fs_contents = [\<lparr>fn_details = FsType ty, fn_access_type = FSTRING_READONLY\<rparr>],
      fs_length = 1, fs_optional_argument_count = 0\<rparr>"

text \<open>The tables know the type of strings and the three commands.\<close>

definition serves :: "u32 \<Rightarrow> (command_fn, type_fun) command_ht \<Rightarrow> bool" where
  "serves ty ct \<longleftrightarrow>
     command_ht_fetch ct (ascii ''SET'') 3 = returns (0, Some (Some (FsAt (set_format ty)), Some Command_set, False)) \<and>
     command_ht_fetch ct (ascii ''GET'') 3 = returns (0, Some (Some (FsAt (get_format ty)), Some Command_get, False)) \<and>
     command_ht_fetch ct (ascii ''del'') 3 = returns (0, Some (None, Some Command_del, True)) \<and>
     unat ty < length (tt_elements (ct_type_ht ct)) \<and>
     tr_init (te_raw (tt_elements (ct_type_ht ct) ! unat ty)) = Some Initialize_string"

text \<open>Memory never runs out.\<close>

definition plenty :: "u32 set \<Rightarrow> rn_env \<Rightarrow> bool" where
  "plenty J env \<longleftrightarrow> (\<forall>n. en_malloc env n) \<and> (\<forall>x. env_ok (en_ht env) x) \<and> env_junk (en_ht env) \<in> J"

section \<open>Fetching a key\<close>

lemma key_at_ok:
  assumes "slot argv (unat (rv_i v)) = Ok p" and "slot lens (unat (rv_i v)) = Ok (int (length k))"
    and "text_at (rs_mem s) p k"
  obtains r where "key_at argv lens v s = Ok (Some (k @ r), of_nat (length k))"
proof -
  obtain r where "ptr_known (rs_mem s) p = Ok (Some (k @ r))" using ptr_known_text[OF assms(3)] by blast
  then show ?thesis using that assms(1,2) by (simp add: key_at_def)
qed

lemma fetch_create_new:
  assumes env: "plenty J env" and map: "ht_map J (rs_table s) tm" and cnt: "unat (ht_element_count (rs_table s)) < 2 ^ 30"
    and key: "key_at argv lens v s = Ok (Some (k @ r), of_nat (length k))" "key_ok J k" and new: "tm k = None"
    and ty: "wanted_type fs v = Ok (Some ty)"
  shows "\<exists>t' a d. fetch_create env fs argv lens v s =
      returns (set_members d a (set_arg (\<lambda>_. \<lparr>pa_needs_initialization = Some True,
                pa_needs_commit = Some True, pa_data = Some d, pa_ht_value = Some a\<rparr>) v),
               snd (obj_new (O_typed (Some ty) NULL) (s\<lparr>rs_table := t'\<rparr>))) \<and>
      d = length (rs_objs s) + 1 \<and> ht_map J t' (tm(k \<mapsto> NULL)) \<and> ht_at J t' (tm(k \<mapsto> NULL)) k a \<and>
      ht_slot t' a = Some NULL \<and> ht_element_count t' = ht_element_count (rs_table s) + 1"
proof -
  have e: "env_junk (en_ht env) \<in> J" "env_ok (en_ht env) KeyCopy" using env by (simp_all add: plenty_def)
  obtain t' st a where run: "ht_store (en_ht env) (rs_table s) (Some (k @ r)) (of_nat (length k)) NULL = returns (t', st, a)"
    and out: "store_outcome J (en_ht env) (rs_table s) tm k NULL t' st a"
    using ht_store_map[OF map key_arg_prefix[OF key(2)] e cnt] by blast
  have "st = HT_GOOD" using out new env by (cases st) (auto simp: store_outcome_def plenty_def)
  then show ?thesis
    using run out key(1) ty env
    by (intro exI[of _ t'] exI[of _ a] exI[of _ "length (rs_objs s) + 1"])
      (simp add: fetch_create_def store_outcome_def plenty_def obj_new_def)
qed

lemma fetch_create_old:
  assumes env: "plenty J env" and map: "ht_map J (rs_table s) tm" and cnt: "unat (ht_element_count (rs_table s)) < 2 ^ 30"
    and key: "key_at argv lens v s = Ok (Some (k @ r), of_nat (length k))" "key_ok J k" and old: "tm k = Some d"
    and d: "obj_at d s = Ok (O_typed (Some ty) e)" and ty: "wanted_type fs v = Ok (Some ty)"
  shows "\<exists>t' a. fetch_create env fs argv lens v s =
      returns (set_members d a (set_arg (\<lambda>_. \<lparr>pa_needs_initialization = Some False,
                pa_needs_commit = Some False, pa_data = Some d, pa_ht_value = Some a\<rparr>) v),
               s\<lparr>rs_table := t'\<rparr>) \<and>
      ht_map J t' tm \<and> ht_slot t' a = Some d \<and> ht_element_count t' = ht_element_count (rs_table s)"
proof -
  have e: "env_junk (en_ht env) \<in> J" "env_ok (en_ht env) KeyCopy" using env by (simp_all add: plenty_def)
  obtain t' st a where run: "ht_store (en_ht env) (rs_table s) (Some (k @ r)) (of_nat (length k)) NULL = returns (t', st, a)"
    and out: "store_outcome J (en_ht env) (rs_table s) tm k NULL t' st a"
    using ht_store_map[OF map key_arg_prefix[OF key(2)] e cnt] by blast
  have st: "st = HT_DUPLICATE_KEY" using out old env by (cases st) (auto simp: store_outcome_def plenty_def)
  have "d \<noteq> NULL" using obj_at_bound[OF d] by simp
  moreover have "ht_read_slot t' a = Ok d" using out st old by (intro ht_read_slot_value) (simp add: store_outcome_def)
  moreover have "typed_at d (s\<lparr>rs_table := t'\<rparr>) = Ok (Some ty, e)" using d by (simp add: typed_at_def)
  ultimately show ?thesis
    using run out st key(1) ty old
    by (intro exI[of _ t'] exI[of _ a]) (simp add: fetch_create_def store_outcome_def)
qed

lemma fetch_readonly_ok:
  assumes map: "ht_map J (rs_table s) tm"
    and key: "key_at argv lens v s = Ok (Some (k @ r), of_nat (length k))" "key_ok J k" and v: "\<not> rv_error_happened v"
  shows "tm k = None \<Longrightarrow> fetch_readonly fs argv lens v s =
      returns ((set_arg (\<lambda>x. x\<lparr>pa_needs_initialization := Some False\<rparr>) v)\<lparr>rv_error_happened := True, rv_error_resolved := True\<rparr>,
        with_ctx (\<lambda>c. replyBulkString c null_str (- 1)) s)"
    and "tm k = Some d \<Longrightarrow> obj_at d s = Ok (O_typed (Some ty) e) \<Longrightarrow> wanted_type fs v = Ok (Some ty) \<Longrightarrow>
      \<exists>a. fetch_readonly fs argv lens v s =
      returns (set_members d a (set_arg (\<lambda>x. x\<lparr>pa_data := Some d, pa_ht_value := Some a\<rparr>)
        (set_arg (\<lambda>x. x\<lparr>pa_needs_initialization := Some False\<rparr>) v)), s)"
proof -
  obtain st a where run: "ht_find (rs_table s) (Some (k @ r)) (of_nat (length k)) = returns (st, a)"
    and out: "case tm k of None \<Rightarrow> st = HT_NOT_FOUND \<and> a = NULL
      | Some x \<Rightarrow> st = HT_GOOD \<and> ht_slot (rs_table s) a = Some x"
    using ht_find_map[OF map key_arg_prefix[OF key(2)]] by blast
  show "tm k = None \<Longrightarrow> fetch_readonly fs argv lens v s =
      returns ((set_arg (\<lambda>x. x\<lparr>pa_needs_initialization := Some False\<rparr>) v)\<lparr>rv_error_happened := True, rv_error_resolved := True\<rparr>,
        with_ctx (\<lambda>c. replyBulkString c null_str (- 1)) s)"
    using run out key(1) by (simp add: fetch_readonly_def nil_on_error_def Let_def)
  assume d: "tm k = Some d" "obj_at d s = Ok (O_typed (Some ty) e)" and ty: "wanted_type fs v = Ok (Some ty)"
  have "ht_read_slot (rs_table s) a = Ok d" using out d(1) by (intro ht_read_slot_value) simp
  moreover have "typed_at d s = Ok (Some ty, e)" using d(2) by (simp add: typed_at_def)
  moreover have "\<not> rv_error_happened (set_members d a (set_arg f (set_arg g v)))" for f g
    using v by (simp add: set_members_def set_arg_def)
  ultimately show "\<exists>a. fetch_readonly fs argv lens v s =
      returns (set_members d a (set_arg (\<lambda>x. x\<lparr>pa_data := Some d, pa_ht_value := Some a\<rparr>)
        (set_arg (\<lambda>x. x\<lparr>pa_needs_initialization := Some False\<rparr>) v)), s)"
    using run out key(1) ty d(1)
    by (intro exI[of _ a]) (simp add: fetch_readonly_def nil_on_error_def Let_def)
qed

section \<open>The loop of SET\<close>

lemma set_loop_new:
  assumes env: "plenty J env" and data: "data \<noteq> []"
      "data ! 0 = \<lparr>pa_needs_initialization = Some True, pa_needs_commit = Some True, pa_data = Some d, pa_ht_value = Some a\<rparr>"
    and d: "obj_at d s = Ok (O_typed (Some ty) e)" and sl: "ht_slot (rs_table s) a = Some NULL"
    and ty: "serves ty (rs_commands s)"
  shows "\<exists>data'. set_loop env (p, n) raw data s = returns (data',
      (obj_set d (O_typed (Some ty) (length (rs_objs s) + 1)) (snd (obj_new (O_string n p) s)))
        \<lparr>rs_table := ht_slot_set a d (rs_table s)\<rparr>)"
proof -
  let ?s1 = "snd (obj_new (O_string n p) s)"
  let ?s2 = "obj_set d (O_typed (Some ty) (length (rs_objs s) + 1)) ?s1"
  let ?data = "data[0 := (data ! 0)\<lparr>pa_needs_initialization := Some False\<rparr>]"
  have slot: "ht_read_slot (rs_table s) a = Ok NULL" using sl by (rule ht_read_slot_value)
  have d1: "obj_at d ?s1 = Ok (O_typed (Some ty) e)" using d by (rule obj_at_new)
  have typed: "typed_at d s = Ok (Some ty, e)" using d by (simp add: typed_at_def)
  have init: "type_init env (Some ty) d (Some (p, n)) s = Ok ?s2"
    using ty env typed_set_data_ok[OF d1]
    by (simp add: type_init_def type_raw_at_def elem_at_def serves_def initialize_string_def plenty_def)
  have "predis_arg_requires_initialization data 0 s = Ok True"
    using data slot by (simp add: predis_arg_requires_initialization_def arg_slot_def elem_at_def known_def)
  moreover have "predis_arg_try_initialize env data 0 (Some (p, n)) s = Ok (True, d, ?data, ?s2)"
    using data typed init by (simp add: predis_arg_try_initialize_def elem_at_def known_def Let_def)
  moreover have "predis_arg_try_commit ?data 0 ?s2 = Ok (0, Some d, ?data, ?s2\<lparr>rs_table := ht_slot_set a d (rs_table s)\<rparr>)"
    using data slot by (simp add: predis_arg_try_commit_def elem_at_def known_def)
  ultimately show ?thesis by (subst set_loop.simps) (simp add: set_attempt_def)
qed

lemma set_loop_old:
  assumes env: "plenty J env" and data: "data \<noteq> []"
      "data ! 0 = \<lparr>pa_needs_initialization = Some False, pa_needs_commit = Some False, pa_data = Some d, pa_ht_value = Some a\<rparr>"
    and d: "obj_at d s = Ok (O_typed (Some ty) e)" and sl: "ht_slot (rs_table s) a = Some d"
  shows "set_loop env (p, n) raw data s = returns (data,
      obj_set d (O_typed (Some ty) (length (rs_objs s) + 1)) (snd (obj_new (O_string n (Ptr raw)) s)))"
proof -
  let ?s1 = "snd (obj_new (O_string n (Ptr raw)) s)"
  have slot: "ht_read_slot (rs_table s) a = Ok d" using sl by (rule ht_read_slot_value)
  have dn: "d \<noteq> NULL" using obj_at_bound[OF d] by simp
  have d1: "obj_at d ?s1 = Ok (O_typed (Some ty) e)" using d by (rule obj_at_new)
  have "string_set env d (Ptr raw) n s =
      Ok (0, obj_set d (O_typed (Some ty) (length (rs_objs s) + 1)) ?s1)"
    using env typed_set_data_ok[OF d1] by (simp add: string_set_def plenty_def)
  moreover have "predis_arg_requires_initialization data 0 s = Ok False"
    using data slot dn by (simp add: predis_arg_requires_initialization_def arg_slot_def elem_at_def known_def)
  moreover have "predis_arg_get data 0 = Ok d"
    using data dn by (simp add: predis_arg_get_def elem_at_def known_def)
  ultimately show ?thesis by (subst set_loop.simps) (simp add: set_attempt_def)
qed

section \<open>The loop over the arguments\<close>

definition start_vars :: "u64 \<Rightarrow> run_vars" where
  "start_vars argc = \<lparr>rv_i = 0, rv_index = 0, rv_data = replicate 10 uninit_arg,
     rv_members = replicate (2 * unat argc) NULL, rv_error_happened = False, rv_error_resolved = False\<rparr>"

text \<open>The variables when the access of the first argument starts.\<close>

definition first_vars :: "u64 \<Rightarrow> run_vars" where
  "first_vars argc = set_arg (\<lambda>x. x\<lparr>pa_ht_value := Some NULL, pa_data := Some NULL\<rparr>) (start_vars argc)"

lemmas var_defs = start_vars_def first_vars_def set_arg_def set_members_def

lemma first_vars_simps [simp]:
  "rv_i (first_vars argc) = 0" "rv_index (first_vars argc) = 0" "\<not> rv_error_happened (first_vars argc)"
  by (simp_all add: var_defs)

lemma fetch_loop_done: "\<not> rv_i v < argc \<Longrightarrow> fetch_loop env fs argc argv lens v s = returns (v, s)"
  by (subst fetch_loop.simps) simp

lemma fetch_loop_set:
  assumes "fetch_create env (set_format ty) argv lens (first_vars 2) s =
      returns (set_members d a (set_arg (\<lambda>_. x) (first_vars 2)), s1)"
  shows "\<exists>v. fetch_loop env (set_format ty) 2 argv lens (start_vars 2) s = returns (v, s1) \<and>
      \<not> rv_error_happened v \<and> rv_data v \<noteq> [] \<and> rv_data v ! 0 = x"
proof -
  let ?v1 = "set_members d a (set_arg (\<lambda>_. x) (first_vars 2))"
  let ?v2 = "?v1\<lparr>rv_index := 1, rv_i := 1\<rparr>"
  let ?v3 = "set_arg (\<lambda>x. x\<lparr>pa_ht_value := Some NULL, pa_data := Some NULL\<rparr>) ?v2"
  have 1: "fetch_arg env (set_format ty) 2 argv lens (start_vars 2) s = returns (?v1, s1)"
    using assms
    by (simp add: fetch_arg_def first_vars_def[symmetric] set_format_def fs_node_at_def elem_at_def)
      (simp add: start_vars_def)
  have 2: "fetch_arg env (set_format ty) 2 argv lens ?v2 s1 = returns (?v3, s1)"
    by (simp add: fetch_arg_def set_format_def fs_node_at_def elem_at_def var_defs)
  have "\<not> rv_error_happened ?v1" "rv_i ?v1 = 0" "rv_index ?v1 = 0" by (simp_all add: var_defs)
  then have "fetch_loop env (set_format ty) 2 argv lens (start_vars 2) s
      = fetch_loop env (set_format ty) 2 argv lens ?v2 s1"
    using 1 by (subst fetch_loop.simps) (simp add: start_vars_def)
  also have "\<dots> = returns (?v3\<lparr>rv_index := 2, rv_i := 2\<rparr>, s1)"
    using 2 by (subst fetch_loop.simps) (simp add: var_defs fetch_loop_done)
  finally show ?thesis by (intro exI[of _ "?v3\<lparr>rv_index := 2, rv_i := 2\<rparr>"]) (simp add: var_defs)
qed

lemma fetch_loop_get:
  assumes "fetch_readonly (get_format ty) argv lens (first_vars 1) s = returns (v1, s1)"
    and "rv_i v1 = 0"
  shows "fetch_loop env (get_format ty) 1 argv lens (start_vars 1) s =
      returns (if rv_error_happened v1 then v1 else v1\<lparr>rv_index := rv_index v1 + 1, rv_i := 1\<rparr>, s1)"
proof -
  have 1: "fetch_arg env (get_format ty) 1 argv lens (start_vars 1) s = returns (v1, s1)"
    using assms(1)
    by (simp add: fetch_arg_def first_vars_def[symmetric] get_format_def fs_node_at_def elem_at_def)
      (simp add: start_vars_def)
  then show ?thesis
    using assms(2) by (subst fetch_loop.simps)
      (simp add: start_vars_def fetch_loop_done)
qed

section \<open>One command\<close>

text \<open>The commands' names found: the arguments are those behind the name.\<close>

lemma run_command_found:
  assumes req: "request (name # args) allocs (rs_mem s)"
    and fetch: "command_ht_fetch (rs_commands s) name (of_nat (length name)) = returns (0, Some entry)"
    and "length name < 2 ^ 31"
  obtains ps where "length ps = length args" "\<And>i. i < length args \<Longrightarrow> text_at (rs_mem s) (ps ! i) (args ! i)"
    "run_command env allocs s = run_found env entry (of_nat (Suc (length args))) (map Some ps)
       (map (\<lambda>a. Some (int (length a))) args) s"
proof -
  obtain qs where qs: "length qs = Suc (length args)"
      "resp_cmd_args allocs = (int (Suc (length args)), Some (map Some qs), Some (map (\<lambda>a. Some (int (length a))) (name # args)))"
    and texts: "\<And>i. i < Suc (length args) \<Longrightarrow> text_at (rs_mem s) (qs ! i) ((name # args) ! i)"
    using req by (auto simp: request_def)
  then obtain q ps where q: "qs = q # ps" by (cases qs) auto
  have q0: "text_at (rs_mem s) q name" using texts[of 0] q by simp
  then obtain r where r: "ptr_known (rs_mem s) q = Ok (Some (name @ r))" using ptr_known_text by blast
  have "unat (of_nat (length name) :: u32) \<le> length name" using assms(3) by (simp add: unat_of_nat)
  note pre = command_ht_fetch_prefix[OF this, of "rs_commands s" r]
  have "fst q \<noteq> NULL" using q0 by (simp add: text_at_def)
  moreover have "word_of_int (int (length name)) = (of_nat (length name) :: u32)" by simp
  ultimately have "run_command env allocs s = run_found env entry (word_of_int (int (Suc (length args)))) (map Some ps)
       (map (\<lambda>a. Some (int (length a))) args) s"
    using qs(2) q r pre fetch unfolding run_command_def
    by (simp del: of_nat_Suc add: slot_def elem_at_def known_def)
  then show ?thesis using that[of ps] qs(1) q texts[of "Suc _"] by simp
qed

lemma ascii_length [simp]: "length (ascii t) = length t"
  by (simp add: ascii_def)

lemma data_array_small: "argc < 240 \<Longrightarrow> data_array env argc = Some (replicate 10 uninit_arg)"
  by (simp add: data_array_def)

lemma run_normal_ok:
  assumes env: "plenty J env" and "argc < 240"
    and loop: "fetch_loop env fs argc argv lens (start_vars argc) (s\<lparr>rs_gc := gc_lock (rs_gc s)\<rparr>) = returns (v, s1)"
    and v: "\<not> rv_error_happened v"
    and call: "call_normal env f (rv_data v) argv lens (to_int (uint argc))
        (s1\<lparr>rs_gc := gc_commit (rs_gc s1) (Some (rv_members v))\<rparr>) = returns (0, data', s3)"
  shows "run_normal env fs (Some f) argc argv lens s = returns (s3\<lparr>rs_gc := gc_clear (rs_gc s3)\<rparr>)"
  using loop v call env data_array_small[OF assms(2)]
  by (simp add: run_normal_def start_vars_def plenty_def Let_def)

lemma run_normal_resolved:
  assumes env: "plenty J env" and "argc < 240"
    and loop: "fetch_loop env fs argc argv lens (start_vars argc) (s\<lparr>rs_gc := gc_lock (rs_gc s)\<rparr>) = returns (v, s1)"
    and v: "rv_error_happened v" "rv_error_resolved v"
  shows "run_normal env fs (Some f) argc argv lens s =
      returns (s1\<lparr>rs_gc := gc_clear (gc_commit (rs_gc s1) (Some (rv_members v)))\<rparr>)"
  using loop v env data_array_small[OF assms(2)]
  by (simp add: run_normal_def start_vars_def plenty_def Let_def)

lemma string_obj_simps [simp]:
  "string_obj (s\<lparr>rs_gc := g\<rparr>) a v = string_obj s a v" "string_obj (s\<lparr>rs_ctx := c\<rparr>) a v = string_obj s a v"
  "string_obj (s\<lparr>rs_table := t\<rparr>) a v = string_obj s a v" "string_obj (s\<lparr>rs_gc_frees := fr\<rparr>) a v = string_obj s a v"
  by (simp_all add: string_obj_def)

lemma db_values_simps [simp]:
  "db_values ty (s\<lparr>rs_gc := g\<rparr>) tm m = db_values ty s tm m"
  "db_values ty (s\<lparr>rs_ctx := c\<rparr>) tm m = db_values ty s tm m"
  "db_values ty (s\<lparr>rs_table := t\<rparr>) tm m = db_values ty s tm m"
  "db_values ty (s\<lparr>rs_gc_frees := fr\<rparr>) tm m = db_values ty s tm m"
  by (simp_all add: db_values_def string_value_def)

lemma db_rel_simps [simp]:
  "db_rel J ty (s\<lparr>rs_gc := g\<rparr>) m = db_rel J ty s m"
  "db_rel J ty (s\<lparr>rs_ctx := c\<rparr>) m = db_rel J ty s m"
  "db_rel J ty (s\<lparr>rs_gc_frees := fr\<rparr>) m = db_rel J ty s m"
  by (simp_all add: db_rel_def)

lemma with_ctx_simps [simp]:
  "rs_mem (with_ctx f s) = rs_mem s" "rs_table (with_ctx f s) = rs_table s"
  "rs_commands (with_ctx f s) = rs_commands s" "rs_ctx (with_ctx f s) = fst (f (rs_ctx s))"
  "rs_objs (with_ctx f s) = rs_objs s" "db_rel J ty (with_ctx f s) m = db_rel J ty s m"
  by (simp_all add: with_ctx_def)

text \<open>The parts of the state that commands on keys leave alone, the growth of the table, and that no block of
  memory is changed.\<close>

definition steps_to :: "rn_state \<Rightarrow> rn_state \<Rightarrow> bool" where
  "steps_to s s' \<longleftrightarrow> rs_commands s' = rs_commands s \<and> w_net (rs_mem s') = w_net (rs_mem s) \<and>
     unat (ht_element_count (rs_table s')) \<le> unat (ht_element_count (rs_table s)) + 1 \<and>
     (\<forall>a cs. heap_block a (rs_mem s) = Ok cs \<longrightarrow> heap_block a (rs_mem s') = Ok cs)"

text \<open>The body of \<open>SET\<close>, for its two arguments: the value is copied, then stored.\<close>

lemma command_set_ok:
  assumes env: "plenty J env" and lens: "slot lens 1 = Ok (int (length v))" and argv: "slot argv 1 = Ok p"
    and v: "ptr_cells (rs_mem s) p = Ok (map Some v @ r)"
    and loop: "set_loop env (Ptr (Suc (length (w_heap (rs_mem s))), 0), int (length v)) p data
        (snd (block_new (map Some v) s)) = returns (data', s')"
  shows "command_set env data argv lens 2 s = returns (0, data', s')"
  using assms by (simp add: command_set_def plenty_def)

lemma put_string:
  assumes d: "obj_at d s = Ok (O_typed (Some ty) e)" and p: "text_at (rs_mem s) p v"
    and s': "s' = obj_set d (O_typed (Some ty) (length (rs_objs s) + 1))
               (snd (obj_new (O_string (int (length v)) (Ptr p)) s))"
  shows "keeps s s'" and "string_value ty s' d v"
    and "d' \<noteq> d \<Longrightarrow> obj_at d' s = Ok x \<Longrightarrow> obj_at d' s' = Ok x"
proof -
  let ?s1 = "snd (obj_new (O_string (int (length v)) (Ptr p)) s)"
  have d1: "obj_at d ?s1 = Ok (O_typed (Some ty) e)" using d by (rule obj_at_new)
  note set = obj_at_set[OF d1, of "O_typed (Some ty) (length (rs_objs s) + 1)", simplified]
  show keeps: "keeps s s'" unfolding s' using keeps_trans[OF keeps_new keeps_set_typed[OF d1]] .
  have "length (rs_objs s) + 1 \<noteq> d" using obj_at_bound[OF d] by simp
  moreover have "obj_at (length (rs_objs s) + 1) ?s1 = Ok (O_string (int (length v)) (Ptr p))"
    using obj_at_fresh[of "O_string (int (length v)) (Ptr p)" s] by (simp add: obj_new_def)
  ultimately have "obj_at (length (rs_objs s) + 1) s' = Ok (O_string (int (length v)) (Ptr p))"
    unfolding s' using set by simp
  moreover have "obj_at d s' = Ok (O_typed (Some ty) (length (rs_objs s) + 1))" unfolding s' using set by simp
  ultimately show "string_value ty s' d v"
    using text_at_keeps[OF keeps p] by (cases p) (auto simp: string_value_def string_obj_def)
  show "obj_at d' s' = Ok x" if "d' \<noteq> d" "obj_at d' s = Ok x"
    unfolding s' using that obj_at_new[OF that(2)] set by simp
qed

text \<open>\<open>SET\<close> of a new key.\<close>

lemma run_set_new:
  assumes ty: "serves ty (rs_commands s)" and env: "plenty J env"
    and map: "ht_map J (rs_table s) tm" and vals: "db_values ty s tm m"
    and cnt: "unat (ht_element_count (rs_table s)) < 2 ^ 30" and k: "key_ok J k" "tm k = None"
    and ps: "length ps = 2" "text_at (rs_mem s) (ps ! 0) k" "text_at (rs_mem s) (ps ! 1) v"
  shows "\<exists>s'. run_normal env (set_format ty) (Some Command_set) 2 (map Some ps)
      [Some (int (length k)), Some (int (length v))] s = returns s' \<and>
      db_rel J ty s' (m(k \<mapsto> v)) \<and> rs_ctx s' = rs_ctx s \<and> steps_to s s'"
proof -
  let ?argv = "map Some ps" and ?lens = "[Some (int (length k)), Some (int (length v))]"
  define s0 where "s0 = s\<lparr>rs_gc := gc_lock (rs_gc s)\<rparr>"
  have same0: "rs_table s0 = rs_table s" "rs_mem s0 = rs_mem s" "rs_objs s0 = rs_objs s"
    "rs_commands s0 = rs_commands s" "rs_ctx s0 = rs_ctx s" by (simp_all add: s0_def)
  have keep0: "keeps s s0" by (rule keeps_same) (simp_all add: same0)
  obtain r where key: "key_at ?argv ?lens (first_vars 2) s0 = Ok (Some (k @ r), of_nat (length k))"
    by (rule key_at_ok[of ?argv "first_vars 2" "ps ! 0" ?lens k s0])
      (use ps same0 in \<open>simp_all add: slot_def elem_at_def known_def\<close>)
  have wt: "wanted_type (set_format ty) (first_vars 2) = Ok (Some ty)"
    by (simp add: wanted_type_def fs_node_at_def elem_at_def set_format_def details_type_def)
  let ?arg = "\<lambda>a d. \<lparr>pa_needs_initialization = Some True, pa_needs_commit = Some True, pa_data = Some d, pa_ht_value = Some a\<rparr>"
  obtain t' a d where fc: "fetch_create env (set_format ty) ?argv ?lens (first_vars 2) s0 =
      returns (set_members d a (set_arg (\<lambda>_. ?arg a d) (first_vars 2)),
               snd (obj_new (O_typed (Some ty) NULL) (s0\<lparr>rs_table := t'\<rparr>)))"
    and d: "d = length (rs_objs s0) + 1" and t': "ht_map J t' (tm(k \<mapsto> NULL))" "ht_at J t' (tm(k \<mapsto> NULL)) k a"
      "ht_slot t' a = Some NULL" "ht_element_count t' = ht_element_count (rs_table s0) + 1"
    using fetch_create_new[OF env map[folded same0(1)] cnt[folded same0(1)] key k wt] by auto
  define s1 where "s1 = snd (obj_new (O_typed (Some ty) NULL) (s0\<lparr>rs_table := t'\<rparr>))"
  obtain w where loop: "fetch_loop env (set_format ty) 2 ?argv ?lens (start_vars 2) s0 = returns (w, s1)"
    and w: "\<not> rv_error_happened w" "rv_data w \<noteq> []" "rv_data w ! 0 = ?arg a d"
    using fetch_loop_set[OF fc] by (auto simp: s1_def)
  define s2 where "s2 = s1\<lparr>rs_gc := gc_commit (rs_gc s1) (Some (rv_members w))\<rparr>"
  have same2: "rs_mem s2 = rs_mem s" "rs_commands s2 = rs_commands s" "rs_table s2 = t'" "rs_ctx s2 = rs_ctx s"
    by (simp_all add: s2_def s1_def same0)
  have keep1: "keeps s0 s1" unfolding s1_def using keeps_trans[OF keeps_same keeps_new] by simp
  have keep2: "keeps s1 s2" by (rule keeps_same) (simp_all add: s2_def)
  have old2: "obj_at b s2 = Ok x" if "obj_at b s = Ok x" for b x
    using obj_at_new[of b "s0\<lparr>rs_table := t'\<rparr>"] that by (simp add: s2_def s1_def s0_def)
  have d2: "obj_at d s2 = Ok (O_typed (Some ty) NULL)"
    using obj_at_fresh[of "O_typed (Some ty) NULL" "s0\<lparr>rs_table := t'\<rparr>"] d
    by (simp add: s2_def s1_def) (simp add: obj_new_def)
  define s3 where "s3 = snd (block_new (map Some v) s2)"
  let ?p = "(Suc (length (w_heap (rs_mem s2))), 0 :: int)"
  have txt3: "text_at (rs_mem s3) ?p v"
    using heap_block_fresh[of "map Some v" s2] by (simp add: s3_def text_at_def ptr_cells_def block_new_def)
  have d3: "obj_at d s3 = Ok (O_typed (Some ty) NULL)" using d2 by (simp add: s3_def)
  have same3: "rs_table s3 = t'" "rs_commands s3 = rs_commands s" "rs_ctx s3 = rs_ctx s"
    "w_net (rs_mem s3) = w_net (rs_mem s)"
    by (simp_all add: s3_def same2)
  define s4 where "s4 = obj_set d (O_typed (Some ty) (length (rs_objs s3) + 1))
      (snd (obj_new (O_string (int (length v)) (Ptr ?p)) s3))"
  note put = put_string[OF d3 txt3 s4_def]
  let ?s5 = "s4\<lparr>rs_table := ht_slot_set a d t'\<rparr>"
  obtain data' where sl: "set_loop env (Ptr ?p, int (length v)) (ps ! 1) (rv_data w) s3 = returns (data', ?s5)"
    using set_loop_new[OF env w(2,3) d3, of "Ptr ?p" "int (length v)" "ps ! 1"] t'(3) ty same3
    by (auto simp: s4_def)
  obtain r' where "ptr_cells (rs_mem s2) (ps ! 1) = Ok (map Some v @ r')"
    using ps(3) same2(1) by (auto simp: text_at_def)
  then have "command_set env (rv_data w) ?argv ?lens 2 s2 = returns (0, data', ?s5)"
    using sl ps(1) by (intro command_set_ok[OF env]) (simp_all add: slot_def elem_at_def known_def s3_def)
  then have run: "run_normal env (set_format ty) (Some Command_set) 2 ?argv ?lens s =
      returns (?s5\<lparr>rs_gc := gc_clear (rs_gc ?s5)\<rparr>)"
    using loop w(1) unfolding s0_def s2_def
    by (intro run_normal_ok[OF env, where v = w and s = s and data' = data'])
      (simp_all add: call_normal_def to_int_small)
  have "ht_map J (ht_slot_set a d t') (tm(k \<mapsto> d))" "ht_element_count (ht_slot_set a d t') = ht_element_count t'"
    using slot_put_map[OF t'(1,2), of d] by simp_all
  moreover have "db_values ty s4 (tm(k \<mapsto> d)) (m(k \<mapsto> v))"
  proof (rule db_values_put[OF vals _ _ put(2)])
    show "keeps s s4"
      using keeps_trans[OF keeps_trans[OF keeps_trans[OF keeps_trans[OF keep0 keep1] keep2] keeps_block] put(1)[unfolded s3_def]]
      by (simp add: s3_def)
    fix k' d' x
    assume "obj_at d' s = Ok x"
    then have "d' \<noteq> d" "obj_at d' s3 = Ok x"
      using obj_at_bound[of d' s x] old2 d same0 by (auto simp: s3_def)
    then show "d' \<noteq> d \<and> obj_at d' s4 = Ok x" using put(3) by blast
  qed
  moreover have "unat (ht_element_count t') \<le> unat (ht_element_count (rs_table s)) + 1"
    using t'(4) same0 cnt by (simp add: unat_Suc_no_overflow)
  moreover have "heap_block b (rs_mem s3) = Ok cs" if "heap_block b (rs_mem s) = Ok cs" for b cs
    using heap_block_new[of b s2 cs "map Some v"] that same2(1) by (simp add: s3_def)
  ultimately show ?thesis
    using run same3 by (auto simp: db_rel_def steps_to_def s4_def)
qed

text \<open>\<open>SET\<close> of a key that is there: the value now is the text in the request.\<close>

lemma run_set_old:
  assumes env: "plenty J env"
    and map: "ht_map J (rs_table s) tm" and vals: "db_values ty s tm m"
    and cnt: "unat (ht_element_count (rs_table s)) < 2 ^ 30" and k: "key_ok J k" "tm k = Some d"
    and ps: "length ps = 2" "text_at (rs_mem s) (ps ! 0) k" "text_at (rs_mem s) (ps ! 1) v"
  shows "\<exists>s'. run_normal env (set_format ty) (Some Command_set) 2 (map Some ps)
      [Some (int (length k)), Some (int (length v))] s = returns s' \<and>
      db_rel J ty s' (m(k \<mapsto> v)) \<and> rs_ctx s' = rs_ctx s \<and> steps_to s s'"
proof -
  let ?argv = "map Some ps" and ?lens = "[Some (int (length k)), Some (int (length v))]"
  have inj: "inj_on tm (dom tm)" using vals unfolding db_values_def by blast
  obtain v0 where "string_value ty s d v0" by (rule db_values_value[OF vals k(2)])
  then obtain e where d: "obj_at d s = Ok (O_typed (Some ty) e)" by (auto simp: string_value_def)
  define s0 where "s0 = s\<lparr>rs_gc := gc_lock (rs_gc s)\<rparr>"
  have same0: "rs_table s0 = rs_table s" "rs_mem s0 = rs_mem s" "rs_commands s0 = rs_commands s" "rs_ctx s0 = rs_ctx s"
    by (simp_all add: s0_def)
  have d0: "obj_at d s0 = Ok (O_typed (Some ty) e)" using d by (simp add: s0_def)
  obtain r where key: "key_at ?argv ?lens (first_vars 2) s0 = Ok (Some (k @ r), of_nat (length k))"
    by (rule key_at_ok[of ?argv "first_vars 2" "ps ! 0" ?lens k s0])
      (use ps same0 in \<open>simp_all add: slot_def elem_at_def known_def\<close>)
  have wt: "wanted_type (set_format ty) (first_vars 2) = Ok (Some ty)"
    by (simp add: wanted_type_def fs_node_at_def elem_at_def set_format_def details_type_def)
  let ?arg = "\<lambda>a. \<lparr>pa_needs_initialization = Some False, pa_needs_commit = Some False, pa_data = Some d, pa_ht_value = Some a\<rparr>"
  obtain t' a where fc: "fetch_create env (set_format ty) ?argv ?lens (first_vars 2) s0 =
      returns (set_members d a (set_arg (\<lambda>_. ?arg a) (first_vars 2)), s0\<lparr>rs_table := t'\<rparr>)"
    and t': "ht_map J t' tm" "ht_slot t' a = Some d" "ht_element_count t' = ht_element_count (rs_table s0)"
    using fetch_create_old[OF env map[folded same0(1)] cnt[folded same0(1)] key k d0 wt] by auto
  obtain w where loop: "fetch_loop env (set_format ty) 2 ?argv ?lens (start_vars 2) s0 = returns (w, s0\<lparr>rs_table := t'\<rparr>)"
    and w: "\<not> rv_error_happened w" "rv_data w \<noteq> []" "rv_data w ! 0 = ?arg a"
    using fetch_loop_set[OF fc] by auto
  define s2 where "s2 = (s0\<lparr>rs_table := t'\<rparr>)\<lparr>rs_gc := gc_commit (rs_gc (s0\<lparr>rs_table := t'\<rparr>)) (Some (rv_members w))\<rparr>"
  define s3 where "s3 = snd (block_new (map Some v) s2)"
  have obj3: "obj_at b s3 = obj_at b s" for b by (simp add: s3_def s2_def s0_def)
  have same3: "rs_table s3 = t'" "rs_commands s3 = rs_commands s" "rs_ctx s3 = rs_ctx s"
    "w_net (rs_mem s3) = w_net (rs_mem s)"
    by (simp_all add: s3_def s2_def same0)
  have keep3: "keeps s s3"
  proof -
    have "keeps s s2" by (rule keeps_same) (simp_all add: s2_def s0_def)
    then show ?thesis unfolding s3_def using keeps_trans[OF _ keeps_block] by blast
  qed
  have d3: "obj_at d s3 = Ok (O_typed (Some ty) e)" using d obj3 by simp
  have txt3: "text_at (rs_mem s3) (ps ! 1) v" using text_at_keeps[OF keep3 ps(3)] .
  define s4 where "s4 = obj_set d (O_typed (Some ty) (length (rs_objs s3) + 1))
      (snd (obj_new (O_string (int (length v)) (Ptr (ps ! 1))) s3))"
  note put = put_string[OF d3 txt3 s4_def]
  have sl: "set_loop env (Ptr (Suc (length (w_heap (rs_mem s2))), 0), int (length v)) (ps ! 1) (rv_data w) s3
      = returns (rv_data w, s4)"
    using set_loop_old[OF env w(2,3) d3] t'(2) same3(1) by (simp add: s4_def)
  obtain r' where "ptr_cells (rs_mem s2) (ps ! 1) = Ok (map Some v @ r')"
    using ps(3) by (auto simp: text_at_def s2_def s0_def)
  then have "command_set env (rv_data w) ?argv ?lens 2 s2 = returns (0, rv_data w, s4)"
    using sl ps(1) by (intro command_set_ok[OF env]) (simp_all add: slot_def elem_at_def known_def s3_def)
  then have call: "call_normal env Command_set (rv_data w) ?argv ?lens (to_int (uint (2 :: u64))) s2 =
      returns (0, rv_data w, s4)"
    by (simp add: call_normal_def to_int_small)
  have run: "run_normal env (set_format ty) (Some Command_set) 2 ?argv ?lens s =
      returns (s4\<lparr>rs_gc := gc_clear (rs_gc s4)\<rparr>)"
    using run_normal_ok[OF env _ loop[unfolded s0_def] w(1) call[unfolded s2_def s0_def]] by simp
  have "db_values ty s4 (tm(k \<mapsto> d)) (m(k \<mapsto> v))"
  proof (rule db_values_put[OF vals keeps_trans[OF keep3 put(1)] _ put(2)])
    fix k' d' x
    assume k': "k' \<noteq> k" "tm k' = Some d'" and x: "obj_at d' s = Ok x"
    have "d' \<noteq> d"
    proof
      assume "d' = d"
      then have "tm k' = tm k" using k' k(2) by simp
      then show False using k' k(2) inj_onD[OF inj, of k' k] by auto
    qed
    then show "d' \<noteq> d \<and> obj_at d' s4 = Ok x" using put(3) x obj3 by simp
  qed
  moreover have "tm(k \<mapsto> d) = tm" using k(2) by auto
  ultimately have "db_rel J ty s4 (m(k \<mapsto> v))" using t'(1) same3(1) by (auto simp: db_rel_def s4_def)
  then show ?thesis using run same3 t'(3) same0 keep3 by (auto simp: steps_to_def s4_def keeps_def)
qed

text \<open>\<open>GET\<close> commits the value, or nil.\<close>

definition get_reply :: "rn_state \<Rightarrow> bytes option \<Rightarrow> pre_send \<Rightarrow> bool" where
  "get_reply s v p \<longleftrightarrow>
     (case v of None \<Rightarrow> p = PRE_SEND_BS (- 1) null_str
      | Some x \<Rightarrow> \<exists>q. p = PRE_SEND_BS (int (length x)) (Ptr q) \<and> text_at (rs_mem s) q x)"

lemma run_get:
  assumes env: "plenty J env" and rel: "db_rel J ty s m" and k: "key_ok J k" and owes: "cx_needs_reply (rs_ctx s)"
    and ps: "length ps = 1" "text_at (rs_mem s) (ps ! 0) k"
  shows "\<exists>s' p. run_normal env (get_format ty) (Some Command_get) 1 (map Some ps) [Some (int (length k))] s = returns s' \<and>
      db_rel J ty s' m \<and> get_reply s' (m k) p \<and> steps_to s s' \<and>
      rs_ctx s' = (rs_ctx s)\<lparr>cx_commits := cx_commits (rs_ctx s) @ [(cx_send_queue_ptr (rs_ctx s), p)], cx_needs_reply := False\<rparr>"
proof -
  let ?argv = "map Some ps" and ?lens = "[Some (int (length k))]"
  obtain tm where map: "ht_map J (rs_table s) tm" and vals: "db_values ty s tm m"
    using rel by (auto simp: db_rel_def)
  define s0 where "s0 = s\<lparr>rs_gc := gc_lock (rs_gc s)\<rparr>"
  have same0: "rs_table s0 = rs_table s" "rs_mem s0 = rs_mem s" by (simp_all add: s0_def)
  obtain r where key: "key_at ?argv ?lens (first_vars 1) s0 = Ok (Some (k @ r), of_nat (length k))"
    by (rule key_at_ok[of ?argv "first_vars 1" "ps ! 0" ?lens k s0])
      (use ps same0 in \<open>simp_all add: slot_def elem_at_def known_def\<close>)
  have wt: "wanted_type (get_format ty) (first_vars 1) = Ok (Some ty)"
    by (simp add: wanted_type_def fs_node_at_def elem_at_def get_format_def details_type_def)
  note fr = fetch_readonly_ok[OF map[folded same0(1)] key k first_vars_simps(3)]
  show ?thesis
  proof (cases "tm k")
    case None
    then have none: "m k = None" using db_values_none[OF vals] by simp
    let ?v1 = "(set_arg (\<lambda>x. x\<lparr>pa_needs_initialization := Some False\<rparr>) (first_vars 1))
        \<lparr>rv_error_happened := True, rv_error_resolved := True\<rparr>"
    let ?s1 = "with_ctx (\<lambda>c. replyBulkString c null_str (- 1)) s0"
    have "fetch_loop env (get_format ty) 1 ?argv ?lens (start_vars 1) s0 = returns (?v1, ?s1)"
      using fetch_loop_get[OF fr(1)[OF None]] by (simp add: var_defs)
    then have "run_normal env (get_format ty) (Some Command_get) 1 ?argv ?lens s =
        returns (?s1\<lparr>rs_gc := gc_clear (gc_commit (rs_gc ?s1) (Some (rv_members ?v1)))\<rparr>)"
      unfolding s0_def by (intro run_normal_resolved[OF env]) simp_all
    then show ?thesis
      using rel owes none
      by (intro exI) (auto simp: s0_def get_reply_def steps_to_def replyBulkString_def)
  next
    case (Some d)
    obtain x where x: "m k = Some x" and sv: "string_value ty s d x" by (rule db_values_value[OF vals Some])
    then obtain a q where d: "obj_at d s = Ok (O_typed (Some ty) a)"
        "obj_at a s = Ok (O_string (int (length x)) (Ptr q))" "text_at (rs_mem s) q x"
      by (auto simp: string_value_def string_obj_def)
    have d0: "obj_at d s0 = Ok (O_typed (Some ty) a)" using d by (simp add: s0_def)
    obtain b where fr1: "fetch_readonly (get_format ty) ?argv ?lens (first_vars 1) s0 =
      returns (set_members d b (set_arg (\<lambda>x. x\<lparr>pa_data := Some d, pa_ht_value := Some b\<rparr>)
        (set_arg (\<lambda>x. x\<lparr>pa_needs_initialization := Some False\<rparr>) (first_vars 1))), s0)"
      using fr(2)[OF Some d0 wt] by blast
    let ?v1 = "set_members d b (set_arg (\<lambda>x. x\<lparr>pa_data := Some d, pa_ht_value := Some b\<rparr>)
        (set_arg (\<lambda>x. x\<lparr>pa_needs_initialization := Some False\<rparr>) (first_vars 1)))"
    let ?v2 = "?v1\<lparr>rv_index := rv_index ?v1 + 1, rv_i := 1\<rparr>"
    have loop: "fetch_loop env (get_format ty) 1 ?argv ?lens (start_vars 1) s0 = returns (?v2, s0)"
      using fetch_loop_get[OF fr1] by (simp add: var_defs)
    let ?s2 = "s0\<lparr>rs_gc := gc_commit (rs_gc s0) (Some (rv_members ?v2))\<rparr>"
    let ?s3 = "with_ctx (\<lambda>c. replyBulkString c (Ptr q) (int (length x))) ?s2"
    have dn: "d \<noteq> NULL" using obj_at_bound[OF d(1)] by simp
    have "predis_arg_get (rv_data ?v2) 0 = Ok d"
      using dn by (simp add: predis_arg_get_def elem_at_def known_def var_defs)
    then have "arg_string (rv_data ?v2) ?s2 = Ok (int (length x), Ptr q)"
      using d(1,2) by (simp add: arg_string_def arg_value_def string_get_def string_at_def typed_at_def s0_def)
    then have call: "call_normal env Command_get (rv_data ?v2) ?argv ?lens (to_int (uint (1 :: u64))) ?s2 =
        returns (0, rv_data ?v2, ?s3)"
      by (simp add: call_normal_def command_get_def to_int_small)
    have "\<not> rv_error_happened ?v2" by (simp add: var_defs)
    from run_normal_ok[OF env _ loop[unfolded s0_def] this call[unfolded s0_def]]
    have "run_normal env (get_format ty) (Some Command_get) 1 ?argv ?lens s = returns (?s3\<lparr>rs_gc := gc_clear (rs_gc ?s3)\<rparr>)"
      unfolding s0_def by simp
    then show ?thesis
      using rel owes x d(3)
      by (intro exI[of _ "?s3\<lparr>rs_gc := gc_clear (rs_gc ?s3)\<rparr>"] exI[of _ "PRE_SEND_BS (int (length x)) (Ptr q)"])
        (auto simp: s0_def get_reply_def steps_to_def replyBulkString_def)
  qed
qed

text \<open>\<open>del\<close> of a key that is there.\<close>

lemma run_del:
  assumes rel: "db_rel J ty s m" and k: "key_ok J k" "length k < 2 ^ 31" and there: "m k = Some v"
    and ps: "length ps = 1" "text_at (rs_mem s) (ps ! 0) k"
  shows "\<exists>s'. command_del (map Some ps) [Some (int (length k))] 1 s = returns (0, s') \<and>
      db_rel J ty s' (m(k := None)) \<and> rs_ctx s' = rs_ctx s \<and> steps_to s s'"
proof -
  obtain tm where map: "ht_map J (rs_table s) tm" and vals: "db_values ty s tm m"
    using rel by (auto simp: db_rel_def)
  obtain d where d: "tm k = Some d" using db_values_none[OF vals, of k] there by auto
  obtain r where r: "ptr_known (rs_mem s) (ps ! 0) = Ok (Some (k @ r))" using ptr_known_text[OF ps(2)] by blast
  obtain t' st a f where del: "ht_del (rs_table s) (Some (k @ r)) (of_nat (length k)) = returns (t', st, Some (HT_Value d, a, f))"
    and map': "ht_map J t' (tm(k := None))" and cnt: "ht_element_count t' = ht_element_count (rs_table s)"
    using ht_del_map[OF map key_arg_prefix[OF k(1)]] d by fastforce
  define s0 where "s0 = s\<lparr>rs_gc := gc_lock (rs_gc s)\<rparr>"
  let ?s1 = "s0\<lparr>rs_table := t', rs_gc_frees := rs_gc_frees s0 @ [Gc_node None a f, Gc_typed_data d]\<rparr>"
  let ?s' = "?s1\<lparr>rs_gc := gc_commit (rs_gc ?s1) None\<rparr>"
  have "0 < length k" using k(1) by (simp add: key_ok_def)
  then have "command_del_loop [0] (map Some ps) [Some (int (length k))] s0 = returns ?s1"
    using r del ps(1) by (simp add: slot_def elem_at_def known_def s0_def)
  then have "command_del (map Some ps) [Some (int (length k))] 1 s = returns (0, ?s')"
    by (simp add: command_del_def s0_def)
  moreover have "db_rel J ty ?s' (m(k := None))"
    using map' db_values_del[OF vals, of k] by (auto simp: db_rel_def s0_def)
  ultimately show ?thesis using cnt by (auto simp: steps_to_def s0_def)
qed

section \<open>The runner\<close>

lemma free_single: "ra_allocation_count allocs \<le> 1 \<Longrightarrow> resp_cmd_free allocs w = Ok w"
  by (simp add: resp_cmd_free_def)

definition committed :: "rn_state \<Rightarrow> pre_send \<Rightarrow> rn_state \<Rightarrow> bool" where
  "committed s p s' \<longleftrightarrow> cx_send_queue_ptr (rs_ctx s') = cx_send_queue_ptr (rs_ctx s) \<and>
     cx_commits (rs_ctx s') = cx_commits (rs_ctx s) @ [(cx_send_queue_ptr (rs_ctx s), p)]"

text \<open>A command that commits nothing is answered \<open>OK\<close>.\<close>

lemma runner_ok:
  assumes "run_command env allocs (s\<lparr>rs_ctx := (rs_ctx s)\<lparr>cx_needs_reply := True\<rparr>\<rparr>) = returns s1"
    and "rs_ctx s1 = (rs_ctx s)\<lparr>cx_needs_reply := True\<rparr>" and "ra_allocation_count allocs \<le> 1"
  shows "runner env allocs s = returns (with_ctx (\<lambda>c. replySimpleString c (Lit (ascii ''OK''))) s1)"
    and "committed s (PRE_SEND_SS (Lit (ascii ''OK''))) (with_ctx (\<lambda>c. replySimpleString c (Lit (ascii ''OK''))) s1)"
  using assms by (simp_all add: runner_def free_single committed_def replySimpleString_def)

lemma runner_replied:
  assumes "run_command env allocs (s\<lparr>rs_ctx := (rs_ctx s)\<lparr>cx_needs_reply := True\<rparr>\<rparr>) = returns s1"
    and "\<not> cx_needs_reply (rs_ctx s1)" and "ra_allocation_count allocs \<le> 1"
  shows "runner env allocs s = returns s1"
  using assms by (simp add: runner_def free_single)

text \<open>The three commands, through the whole of \<open>runner\<close>.\<close>

lemma owing_simps [simp]:
  "rs_mem (s\<lparr>rs_ctx := c\<rparr>) = rs_mem s" "steps_to (s\<lparr>rs_ctx := c\<rparr>) s' = steps_to s s'"
  by (simp_all add: steps_to_def)

lemma steps_to_with_ctx [simp]: "steps_to s (with_ctx f s') = steps_to s s'"
  by (simp add: steps_to_def)

lemma runner_set:
  assumes ty: "serves ty (rs_commands s)" and env: "plenty J env" and rel: "db_rel J ty s m"
    and cnt: "unat (ht_element_count (rs_table s)) < 2 ^ 30" and k: "key_ok J k"
    and req: "request [ascii ''SET'', k, v] allocs (rs_mem s)"
  shows "\<exists>s'. runner env allocs s = returns s' \<and> db_rel J ty s' (m(k \<mapsto> v)) \<and>
      committed s (PRE_SEND_SS (Lit (ascii ''OK''))) s' \<and> steps_to s s'"
proof -
  define s0 where "s0 = s\<lparr>rs_ctx := (rs_ctx s)\<lparr>cx_needs_reply := True\<rparr>\<rparr>"
  have req0: "request [ascii ''SET'', k, v] allocs (rs_mem s0)" using req by (simp add: s0_def)
  have fetch: "command_ht_fetch (rs_commands s0) (ascii ''SET'') (of_nat (length (ascii ''SET''))) =
      returns (0, Some (Some (FsAt (set_format ty)), Some Command_set, False))"
    using ty by (simp add: serves_def s0_def)
  obtain ps where ps: "length ps = length [k, v]" "\<And>i. i < length [k, v] \<Longrightarrow> text_at (rs_mem s0) (ps ! i) ([k, v] ! i)"
    and run: "run_command env allocs s0 = run_found env (Some (FsAt (set_format ty)), Some Command_set, False)
       (of_nat (Suc (length [k, v]))) (map Some ps) (map (\<lambda>a. Some (int (length a))) [k, v]) s0"
    by (rule run_command_found[OF req0 fetch]) auto
  have texts: "length ps = 2" "text_at (rs_mem s0) (ps ! 0) k" "text_at (rs_mem s0) (ps ! 1) v"
    using ps(1) ps(2)[of 0] ps(2)[of 1] by simp_all
  have run': "run_command env allocs s0 = run_normal env (set_format ty) (Some Command_set) 2 (map Some ps)
      [Some (int (length k)), Some (int (length v))] s0"
    using run by (simp add: run_found_def set_format_def)
  obtain tm where map: "ht_map J (rs_table s0) tm" and vals: "db_values ty s0 tm m"
    using rel by (auto simp: db_rel_def s0_def)
  have "\<exists>s1. run_command env allocs s0 = returns s1 \<and> db_rel J ty s1 (m(k \<mapsto> v)) \<and>
      rs_ctx s1 = rs_ctx s0 \<and> steps_to s0 s1"
  proof (cases "tm k")
    case None
    then show ?thesis
      using run_set_new[OF _ env map vals _ k None texts] ty cnt unfolding run' by (simp add: s0_def)
  next
    case (Some d)
    then show ?thesis
      using run_set_old[OF env map vals _ k Some texts] cnt unfolding run' by (simp add: s0_def)
  qed
  then obtain s1 where s1: "run_command env allocs s0 = returns s1" "db_rel J ty s1 (m(k \<mapsto> v))"
    "rs_ctx s1 = rs_ctx s0" "steps_to s0 s1" by blast
  then show ?thesis
    using runner_ok[OF s1(1)[unfolded s0_def]] req by (simp add: s0_def request_def)
qed

lemma runner_get:
  assumes ty: "serves ty (rs_commands s)" and env: "plenty J env" and rel: "db_rel J ty s m"
    and k: "key_ok J k" and req: "request [ascii ''GET'', k] allocs (rs_mem s)"
  shows "\<exists>s' p. runner env allocs s = returns s' \<and> db_rel J ty s' m \<and>
      committed s p s' \<and> get_reply s' (m k) p \<and> steps_to s s'"
proof -
  define s0 where "s0 = s\<lparr>rs_ctx := (rs_ctx s)\<lparr>cx_needs_reply := True\<rparr>\<rparr>"
  have req0: "request [ascii ''GET'', k] allocs (rs_mem s0)" using req by (simp add: s0_def)
  have fetch: "command_ht_fetch (rs_commands s0) (ascii ''GET'') (of_nat (length (ascii ''GET''))) =
      returns (0, Some (Some (FsAt (get_format ty)), Some Command_get, False))"
    using ty by (simp add: serves_def s0_def)
  obtain ps where ps: "length ps = length [k]" "\<And>i. i < length [k] \<Longrightarrow> text_at (rs_mem s0) (ps ! i) ([k] ! i)"
    and run: "run_command env allocs s0 = run_found env (Some (FsAt (get_format ty)), Some Command_get, False)
       (of_nat (Suc (length [k]))) (map Some ps) (map (\<lambda>a. Some (int (length a))) [k]) s0"
    by (rule run_command_found[OF req0 fetch]) auto
  have run': "run_command env allocs s0 = run_normal env (get_format ty) (Some Command_get) 1 (map Some ps)
      [Some (int (length k))] s0"
    using run by (simp add: run_found_def get_format_def)
  have rel0: "db_rel J ty s0 m" "cx_needs_reply (rs_ctx s0)" using rel by (simp_all add: s0_def)
  obtain s1 p where s1: "run_command env allocs s0 = returns s1" "db_rel J ty s1 m" "get_reply s1 (m k) p"
    "steps_to s0 s1" and c: "rs_ctx s1 = (rs_ctx s0)\<lparr>cx_commits := cx_commits (rs_ctx s0) @ [(cx_send_queue_ptr (rs_ctx s0), p)],
       cx_needs_reply := False\<rparr>"
    using run_get[OF env rel0(1) k rel0(2), of ps] ps(1) ps(2)[of 0] unfolding run' by auto
  have "runner env allocs s = returns s1"
    using runner_replied[OF s1(1)[unfolded s0_def]] c req by (simp add: request_def)
  then show ?thesis using s1 c by (auto simp: committed_def s0_def)
qed

lemma runner_del:
  assumes ty: "serves ty (rs_commands s)" and rel: "db_rel J ty s m"
    and k: "key_ok J k" "length k < 2 ^ 31" "m k = Some v" and req: "request [ascii ''del'', k] allocs (rs_mem s)"
  shows "\<exists>s'. runner env allocs s = returns s' \<and> db_rel J ty s' (m(k := None)) \<and>
      committed s (PRE_SEND_SS (Lit (ascii ''OK''))) s' \<and> steps_to s s'"
proof -
  define s0 where "s0 = s\<lparr>rs_ctx := (rs_ctx s)\<lparr>cx_needs_reply := True\<rparr>\<rparr>"
  have req0: "request [ascii ''del'', k] allocs (rs_mem s0)" using req by (simp add: s0_def)
  have fetch: "command_ht_fetch (rs_commands s0) (ascii ''del'') (of_nat (length (ascii ''del''))) =
      returns (0, Some (None, Some Command_del, True))"
    using ty by (simp add: serves_def s0_def)
  obtain ps where ps: "length ps = length [k]" "\<And>i. i < length [k] \<Longrightarrow> text_at (rs_mem s0) (ps ! i) ([k] ! i)"
    and run: "run_command env allocs s0 = run_found env (None, Some Command_del, True)
       (of_nat (Suc (length [k]))) (map Some ps) (map (\<lambda>a. Some (int (length a))) [k]) s0"
    by (rule run_command_found[OF req0 fetch]) auto
  have run': "run_command env allocs s0 =
      bind_run (command_del (map Some ps) [Some (int (length k))] 1 s0) (\<lambda>(_, s'). returns s')"
    using run by (simp add: run_found_def call_meta_def to_int_small)
  have rel0: "db_rel J ty s0 m" using rel by (simp add: s0_def)
  obtain s1 where s1: "run_command env allocs s0 = returns s1" "db_rel J ty s1 (m(k := None))"
    "rs_ctx s1 = rs_ctx s0" "steps_to s0 s1"
    using run_del[OF rel0 k, of ps] ps(1) ps(2)[of 0] unfolding run' by auto
  then show ?thesis
    using runner_ok[OF s1(1)[unfolded s0_def]] req by (simp add: s0_def request_def)
qed

end
