(* ===== verification/Server_Map.thy ===== *)
theory Server_Map
  imports Runner_Map Server Resp_Roundtrip
begin

text \<open>
  The server as a store of strings: commands as the parser leaves them, through \<open>runner\<close> and
  \<open>send_pre_data\<close>, are answered as a finite map says.
\<close>

section \<open>From the parser to the runner\<close>

text \<open>What the arguments of a parsed command are, \<open>command_args\<close>, is what \<open>runner\<close> needs.\<close>

lemma those_Some: "those xs = Some ys \<Longrightarrow> xs = map Some ys"
  by (induction xs arbitrary: ys) (auto split: option.splits)

lemma arg_bytes_text:
  assumes "arg_bytes w p n = Some b"
  shows "text_at w p b \<and> n = int (length b)"
proof -
  obtain cs where cs: "heap_block (fst p) w = Ok cs" and bd: "0 \<le> snd p" "0 \<le> n" "snd p + n \<le> int (length cs)"
    and th: "those (take (nat n) (drop (nat (snd p)) cs)) = Some b"
    using assms by (auto simp: arg_bytes_def split: sum.splits if_splits)
  have tk: "take (nat n) (drop (nat (snd p)) cs) = map Some b" using those_Some[OF th] .
  have "length (take (nat n) (drop (nat (snd p)) cs)) = nat n" using bd by auto
  then have n: "n = int (length b)" using tk bd(2) by simp
  have "drop (nat (snd p)) cs = map Some b @ drop (nat n) (drop (nat (snd p)) cs)"
    using tk append_take_drop_id[of "nat n" "drop (nat (snd p)) cs"] by simp
  moreover have "fst p \<noteq> NULL" using cs by (auto simp: heap_block_def split: if_splits)
  ultimately have "text_at w p b" using cs bd by (auto simp: text_at_def ptr_cells_def)
  then show ?thesis using n by simp
qed

lemma zip_args_texts:
  assumes "zip_args w ps ns = Some args"
  shows "\<exists>qs. ps = map Some qs \<and> ns = map (\<lambda>a. Some (int (length a))) args \<and> length qs = length args \<and>
           (\<forall>i < length args. text_at w (qs ! i) (args ! i))"
  using assms
proof (induction w ps ns arbitrary: args rule: zip_args.induct)
  case (1 w p ps n ns)
  then obtain b as where b: "arg_bytes w p n = Some b" "zip_args w ps ns = Some as" "args = b # as"
    by (auto split: option.splits)
  then obtain qs where qs: "ps = map Some qs" "ns = map (\<lambda>a. Some (int (length a))) as" "length qs = length as"
    "\<forall>i < length as. text_at w (qs ! i) (as ! i)"
    using 1(1) by blast
  have "\<forall>i < length args. text_at w ((p # qs) ! i) (args ! i)"
    using arg_bytes_text[OF b(1)] b(3) qs(3,4) by (auto simp: nth_Cons')
  then show ?case using qs b(3) arg_bytes_text[OF b(1)] by (intro exI[of _ "p # qs"]) simp
qed auto

lemma parsed_request:
  assumes "command_args w allocs = Some args" and "ra_allocation_count allocs \<le> 1" and "length args < 2 ^ 31"
  shows "request args allocs w"
proof -
  obtain argc ps ns where r: "resp_cmd_args allocs = (argc, Some ps, Some ns)" "int (length ps) = argc"
    "zip_args w ps ns = Some args"
    using assms(1) by (auto simp: command_args_def split: prod.splits option.splits if_splits)
  then show ?thesis using zip_args_texts[OF r(3)] assms(2,3) by (auto simp: request_def)
qed

section \<open>The answer on the wire\<close>

text \<open>Bulk strings go out with a NUL instead of the last line feed.\<close>

fun wire :: "db_result \<Rightarrow> bytes" where
  "wire Db_ok = ascii ''+OK'' @ [13, 10]"
| "wire (Db_text v) = 36 # dec (length v) @ [13, 10] @ v @ [13, 0]"
| "wire Db_nil = ascii ''$-1'' @ [13, 10]"

fun db_args :: "db_op \<Rightarrow> bytes list" where
  "db_args (Db_set k v) = [ascii ''SET'', k, v]"
| "db_args (Db_get k) = [ascii ''GET'', k]"
| "db_args (Db_del k) = [ascii ''del'', k]"

text \<open>A text the reply can carry; a command that does not delete what is not there.\<close>

definition plain_text :: "bytes \<Rightarrow> bool" where
  "plain_text v \<longleftrightarrow> 0 \<notin> set v \<and> length v < 2 ^ 30"

fun good_op :: "u32 set \<Rightarrow> (bytes \<rightharpoonup> bytes) \<Rightarrow> db_op \<Rightarrow> bool" where
  "good_op J m (Db_set k v) \<longleftrightarrow> key_ok J k \<and> plain_text v"
| "good_op J m (Db_get k) \<longleftrightarrow> key_ok J k"
| "good_op J m (Db_del k) \<longleftrightarrow> key_ok J k \<and> length k < 2 ^ 31 \<and> m k \<noteq> None"

text \<open>The server's state for a map.\<close>

definition server_rep :: "u32 set \<Rightarrow> u32 \<Rightarrow> rn_env \<Rightarrow> rn_state \<Rightarrow> (bytes \<rightharpoonup> bytes) \<Rightarrow> bool" where
  "server_rep J ty env s m \<longleftrightarrow>
     plenty J env \<and> serves ty (rs_commands s) \<and> db_rel J ty s m \<and> (\<forall>v \<in> ran m. plain_text v)"

abbreviation server_load :: "rn_state \<Rightarrow> nat" where
  "server_load s \<equiv> unat (ht_element_count (rs_table s))"

lemma send_ok:
  assumes "\<forall>n. mal n"
  shows "send_pre_data mal w (PRE_SEND_SS (Lit (ascii ''OK''))) = returns (wire Db_ok, 0)"
  using assms
  by (simp add: send_line_def cstr_text_def cstr_cells_def ascii_def to_int_small del: One_nat_def)

lemma length_dec_small: "n < 2 ^ 30 \<Longrightarrow> length (dec n) \<le> 10"
  by (rule length_dec) simp_all

lemma send_get_reply:
  assumes "\<forall>n. mal n" and "get_reply s v p" and "\<And>x. v = Some x \<Longrightarrow> plain_text x"
  shows "send_pre_data mal (rs_mem s) p =
           returns (wire (case v of None \<Rightarrow> Db_nil | Some x \<Rightarrow> Db_text x), 0)"
proof (cases v)
  case None
  then have "p = PRE_SEND_BS (- 1) null_str" using assms(2) by (simp add: get_reply_def)
  then show ?thesis using None by (simp add: cstr_is_null_def ascii_def)
next
  case (Some x)
  then obtain q where p: "p = PRE_SEND_BS (int (length x)) (Ptr q)" "text_at (rs_mem s) q x"
    using assms(2) by (auto simp: get_reply_def)
  have x: "0 \<notin> set x" "length x < 2 ^ 30" using assms(3)[OF Some] by (simp_all add: plain_text_def)
  obtain r where "ptr_cells (rs_mem s) q = Ok (map Some x @ r)" using p(2) by (auto simp: text_at_def)
  then have "cstr_text (rs_mem s) (Some (length x)) (Ptr q) = Ok x"
    using c_text_upto[OF x(1)] by (simp add: cstr_text_def cstr_cells_def)
  moreover have "to_int (int (length x)) = int (length x)" using x(2) by (intro to_int_small) auto
  moreover have "length (dec (length x)) + length x + 5 < 2 ^ 31"
    using x(2) length_dec_small[OF x(2)] by simp
  ultimately show ?thesis
    using Some p(1) assms(1) by (simp add: print_exact_def dec_int_def butlast_append)
qed

lemma serves_steps: "serves ty (rs_commands s) \<Longrightarrow> steps_to s s' \<Longrightarrow> serves ty (rs_commands s')"
  by (simp add: steps_to_def)

text \<open>One command.\<close>

lemma runner_answers:
  assumes rep: "server_rep J ty env s m" and load: "server_load s < 2 ^ 30" and good: "good_op J m x"
    and req: "request (db_args x) allocs (rs_mem s)"
  shows "\<exists>s' p. runner env allocs s = returns s' \<and> committed s p s' \<and>
           send_pre_data (en_malloc env) (rs_mem s') p = returns (wire (db_answer m x), 0) \<and>
           w_net (rs_mem s') = w_net (rs_mem s) \<and> server_rep J ty env s' (db_next m x) \<and> server_load s' \<le> server_load s + 1 \<and>
           (\<forall>a cs. heap_block a (rs_mem s) = Ok cs \<longrightarrow> heap_block a (rs_mem s') = Ok cs)"
proof -
  have env: "plenty J env" and ty: "serves ty (rs_commands s)" and rel: "db_rel J ty s m"
    and plain: "\<forall>v \<in> ran m. plain_text v"
    using rep by (simp_all add: server_rep_def)
  have mal: "\<forall>n. en_malloc env n" using env by (simp add: plenty_def)
  show ?thesis
  proof (cases x)
    case (Db_set k v)
    obtain s' where s': "runner env allocs s = returns s'" "db_rel J ty s' (m(k \<mapsto> v))"
      "committed s (PRE_SEND_SS (Lit (ascii ''OK''))) s'" "steps_to s s'"
      using runner_set[OF ty env rel load, of k v allocs] good req Db_set by auto
    have "\<forall>w \<in> ran (m(k \<mapsto> v)). plain_text w" using plain good Db_set by (auto simp: ran_def)
    then show ?thesis
      using s'(1,3) send_ok[OF mal] s'(2,4) env serves_steps[OF ty s'(4)] Db_set
      by (auto simp: server_rep_def steps_to_def simp del: send_pre_data.simps wire.simps)
  next
    case (Db_get k)
    obtain s' p where s': "runner env allocs s = returns s'" "db_rel J ty s' m"
      "committed s p s'" "get_reply s' (m k) p" "steps_to s s'"
      using runner_get[OF ty env rel, of k allocs] good req Db_get by auto
    have "plain_text y" if "m k = Some y" for y using plain that by (auto simp: ran_def)
    then show ?thesis
      using s'(1,3) send_get_reply[OF mal s'(4)] s'(2,5) env serves_steps[OF ty s'(5)] Db_get plain
      by (auto simp: server_rep_def steps_to_def simp del: send_pre_data.simps wire.simps)
  next
    case (Db_del k)
    then obtain v where v: "m k = Some v" using good by auto
    obtain s' where s': "runner env allocs s = returns s'" "db_rel J ty s' (m(k := None))"
      "committed s (PRE_SEND_SS (Lit (ascii ''OK''))) s'" "steps_to s s'"
      using runner_del[OF ty rel _ _ v, of allocs] good req Db_del by auto
    have "\<forall>w \<in> ran (m(k := None)). plain_text w" using plain by (auto simp: ran_def)
    then show ?thesis
      using s'(1,3) send_ok[OF mal] s'(2,4) env serves_steps[OF ty s'(4)] Db_del
      by (auto simp: server_rep_def steps_to_def simp del: send_pre_data.simps wire.simps)
  qed
qed

end
