(* ===== verification/Server_Start.thy ===== *)
theory Server_Start
  imports Server_Map
begin

text \<open>
  What \<open>server_start\<close> leaves: the commands and types of the shipped objects, and an empty table.
\<close>

section \<open>An environment that has everything\<close>

definition roomy :: "rn_env \<Rightarrow> bool" where
  "roomy env \<longleftrightarrow> (\<forall>n. en_malloc env n) \<and> (\<forall>x. env_ok (en_ht env) x) \<and> en_fs env = calm_fs \<and>
     en_dlopen env = shipped env"

definition calm_server :: rn_env where
  "calm_server =
     (let env = \<lparr>en_malloc = \<lambda>_. True, en_ht = calm_env, en_fs = calm_fs, en_address = \<lambda>_. 0,
                 en_dlopen = \<lambda>_. None\<rparr>
      in env\<lparr>en_dlopen := shipped env\<rparr>)"

section \<open>Registration only adds to the command table\<close>

lemma register_literal_env:
  "en_fs env' = en_fs env \<Longrightarrow> register_literal env' = register_literal env"
  by (intro ext) (simp add: register_literal_def register_command_def)

lemma register_all_env:
  assumes "en_fs env' = en_fs env"
  shows "register_all env' = register_all env"
proof (intro ext)
  show "register_all env' rs s = register_all env rs s" for rs s
  proof (induction rs arbitrary: s)
    case (Cons r rs)
    have "register_all env' rs = register_all env rs" using Cons by blast
    then show ?case by (cases r) (simp add: register_literal_env[OF assms])
  qed simp
qed

lemma shipped_env: "en_fs env' = en_fs env \<Longrightarrow> shipped env' = shipped env"
  by (simp add: shipped_def string_commands_init_def config_commands_init_def hash_commands_init_def
      register_all_env[of env' env])

lemma shipped_calm: "en_dlopen calm_server = shipped calm_server"
proof -
  let ?env = "\<lparr>en_malloc = \<lambda>_. True, en_ht = calm_env, en_fs = calm_fs, en_address = \<lambda>_. 0,
                 en_dlopen = \<lambda>_. None\<rparr>"
  have "en_fs calm_server = en_fs ?env" by (simp add: calm_server_def)
  then show ?thesis using shipped_env[of calm_server ?env] by (simp add: calm_server_def)
qed

lemma roomy_calm: "roomy calm_server"
  unfolding roomy_def shipped_calm by (simp add: calm_server_def calm_env_def)

text \<open>\<open>f\<close> does not look at the table of keys.\<close>

definition table_free :: "(rn_state \<Rightarrow> rn_state run) \<Rightarrow> bool" where
  "table_free f \<longleftrightarrow> (\<forall>s t. f (s\<lparr>rs_table := t\<rparr>) = bind_run (f s) (\<lambda>s'. returns (s'\<lparr>rs_table := t\<rparr>)))"

lemma table_free_returns: "table_free returns"
  by (simp add: table_free_def)

lemma table_last [simp]:
  "s\<lparr>rs_table := t, rs_commands := c\<rparr> = s\<lparr>rs_commands := c, rs_table := t\<rparr>"
  by (cases s) simp

lemma table_free_bind:
  assumes "table_free f" and "table_free g"
  shows "table_free (\<lambda>s. bind_run (f s) g)"
proof -
  have "g (s\<lparr>rs_table := t\<rparr>) = bind_run (g s) (\<lambda>s'. returns (s'\<lparr>rs_table := t\<rparr>))" for s t
    using assms(2) by (simp add: table_free_def)
  then show ?thesis using assms(1) by (simp add: table_free_def bind_run_assoc)
qed

lemma table_free_literal: "table_free (register_literal env name f format)"
  by (auto simp: table_free_def register_literal_def register_command_def bind_run_assoc split_def)

lemma table_free_all: "table_free (register_all env rs)"
proof (induction rs)
  case (Cons r rs)
  obtain name f format where r: "r = (name, f, format)" by (cases r)
  have "register_all env (r # rs) = (\<lambda>s. bind_run (register_literal env name f format s) (register_all env rs))"
    by (simp add: r fun_eq_iff)
  then show ?case using table_free_bind[OF table_free_literal Cons] by simp
qed (simp add: table_free_def)

lemma table_free_types: "table_free string_type_init" "table_free hash_type_init"
  by (auto simp: table_free_def string_type_init_def hash_type_init_def register_type_def bind_run_assoc split_def)

lemma table_free_shipped: "shipped env name = Some f \<Longrightarrow> table_free f"
  by (auto simp: shipped_def string_commands_init_def config_commands_init_def hash_commands_init_def
      table_free_types table_free_all split: if_splits)

text \<open>Two environments with the same shared objects load the same.\<close>

lemma load_all_same:
  assumes "roomy env" and "roomy env'"
  shows "load_all env' fs (s\<lparr>rs_table := t\<rparr>) = bind_run (load_all env fs s) (\<lambda>s'. returns (s'\<lparr>rs_table := t\<rparr>))"
proof (induction fs arbitrary: s)
  case (Cons f fs)
  have sh: "en_dlopen env' = en_dlopen env" using assms by (simp add: roomy_def shipped_env[of env' env])
  have name: "cstr_text w None (Lit (ascii f)) = cstr_text w' None (Lit (ascii f))" for w w'
    by (simp add: cstr_text_def cstr_cells_def)
  show ?case
  proof (cases "cstr_text (rs_mem s) None (Lit (ascii f))")
    case (Inl e)
    then show ?thesis by (simp add: load_structures_def known_def)
  next
    case (Inr nm)
    show ?thesis
    proof (cases "en_dlopen env nm")
      case None
      then show ?thesis using Inr Cons sh by (simp add: load_structures_def known_def)
    next
      case (Some g)
      then have "table_free g" using assms(1) table_free_shipped by (simp add: roomy_def)
      then have "g (s\<lparr>rs_table := t\<rparr>) = bind_run (g s) (\<lambda>s'. returns (s'\<lparr>rs_table := t\<rparr>))"
        by (simp add: table_free_def)
      then show ?thesis
        using Inr Cons sh Some assms by (simp add: load_structures_def known_def roomy_def bind_run_assoc)
    qed
  qed
qed simp

section \<open>The state at the start\<close>

lemma server_start_table:
  assumes env: "roomy env" and t: "ht_init (en_ht env) True = Ok (Some t)"
  shows "server_start env = bind_run (server_start calm_server) (\<lambda>s. returns (s\<lparr>rs_table := t\<rparr>))"
proof -
  obtain t0 :: "addr ht_table" where t0: "ht_init calm_env True = Ok (Some t0)"
    using ht_init_map[of calm_env True] by auto
  have c: "en_ht calm_server = calm_env" "\<And>n. en_malloc calm_server n" "en_fs calm_server = en_fs env"
    "\<And>n. en_malloc env n"
    using env by (simp_all add: calm_server_def roomy_def)
  have same: "load_all env fs (s\<lparr>rs_table := t\<rparr>) =
      bind_run (load_all calm_server fs (s\<lparr>rs_table := t0\<rparr>)) (\<lambda>s'. returns (s'\<lparr>rs_table := t\<rparr>))" for fs s
    using load_all_same[OF roomy_calm env, of fs t "s\<lparr>rs_table := t0\<rparr>"] by simp
  define s0 where "s0 ct = \<lparr>rs_mem = \<lparr>w_heap = [], w_net = []\<rparr>, rs_objs = [], rs_table = undefined, rs_commands = ct,
      rs_ctx = \<lparr>cx_send_queue_ptr = 0, cx_needs_reply = False, cx_commits = []\<rparr>,
      rs_gc = \<lparr>gu_pending = False, gu_working_set = None\<rparr>, rs_gc_frees = []\<rparr>"
    for ct :: "(command_fn, type_fun) command_ht"
  have lit: "\<lparr>rs_mem = \<lparr>w_heap = [], w_net = []\<rparr>, rs_objs = [], rs_table = t', rs_commands = ct,
      rs_ctx = \<lparr>cx_send_queue_ptr = 0, cx_needs_reply = False, cx_commits = []\<rparr>,
      rs_gc = \<lparr>gu_pending = False, gu_working_set = None\<rparr>, rs_gc_frees = []\<rparr> = (s0 ct)\<lparr>rs_table := t'\<rparr>" for t' ct
    by (simp add: s0_def)
  show ?thesis
    unfolding server_start_def c(1) t t0 lit
    by (simp add: c same bind_run_assoc split_def del: load_all.simps split: option.split)
qed

lemma calm_start:
  "case server_start calm_server of Some (Inr s) \<Rightarrow> serves 252 (rs_commands s) \<and> rs_objs s = [] | _ \<Rightarrow> False"
  by code_simp

text \<open>An empty store of strings.\<close>

lemma server_start_ok:
  assumes env: "roomy env"
  obtains s where "server_start env = returns s" "server_rep {env_junk (en_ht env)} 252 env s Map.empty"
    "server_load s = 0"
proof -
  have ok: "\<And>x. env_ok (en_ht env) x" using env by (simp add: roomy_def)
  obtain t :: "addr ht_table" where t: "ht_init (en_ht env) True = Ok (Some t)"
    "ht_map {env_junk (en_ht env)} t Map.empty" "ht_element_count t = 0"
    using ht_init_map[OF ok, of True] by blast
  obtain s0 where s0: "server_start calm_server = returns s0" "serves 252 (rs_commands s0)"
    using calm_start by (auto split: option.splits sum.splits)
  have "db_values 252 (s0\<lparr>rs_table := t\<rparr>) Map.empty Map.empty" by (simp add: db_values_def)
  then have "server_rep {env_junk (en_ht env)} 252 env (s0\<lparr>rs_table := t\<rparr>) Map.empty"
    using env t(2) s0(2) by (auto simp: server_rep_def roomy_def plenty_def db_rel_def)
  moreover have "server_start env = returns (s0\<lparr>rs_table := t\<rparr>)"
    using server_start_table[OF env t(1)] s0(1) by simp
  moreover have "server_load (s0\<lparr>rs_table := t\<rparr>) = 0"  using t(3) by simp
  ultimately show thesis using that by blast
qed

text \<open>An empty store has nothing in memory.\<close>

lemma empty_server_mem:
  assumes "server_rep J ty env s Map.empty"
  shows "server_rep J ty env (s\<lparr>rs_mem := m\<rparr>) Map.empty"
proof -
  obtain tm where tm: "ht_map J (rs_table s) tm" "db_values ty s tm Map.empty"
    using assms by (auto simp: server_rep_def db_rel_def)
  then have "tm = Map.empty" by (simp add: db_values_def)
  then have "db_values ty (s\<lparr>rs_mem := m\<rparr>) tm Map.empty" by (simp add: db_values_def)
  then show ?thesis using assms tm(1) by (auto simp: server_rep_def db_rel_def)
qed

text \<open>A request with every argument in a block of its own, for examples.\<close>

definition request_of :: "bytes list \<Rightarrow> resp_allocations" where
  "request_of args =
     \<lparr>ra_allocations = None, ra_argv = Some (map (\<lambda>i. Some (Suc i, 0)) [0..<length args]),
      ra_argv_lengths = Some (map (\<lambda>a. Some (int (length a))) args), ra_argc = int (length args),
      ra_allocation_count = 1, ra_tag = 0\<rparr>"

definition memory_of :: "bytes list \<Rightarrow> rp_world" where
  "memory_of args = \<lparr>w_heap = map (\<lambda>a. Some (map Some a)) args, w_net = []\<rparr>"

lemma request_of_ok:
  assumes "length args < 2 ^ 31"
  shows "request args (request_of args) (memory_of args)"
proof -
  have "text_at (memory_of args) (Suc i, 0) (args ! i)" if "i < length args" for i
    using that by (simp add: text_at_def ptr_cells_def heap_block_def memory_of_def)
  then show ?thesis
    unfolding request_def using assms
    by (intro conjI exI[of _ "map (\<lambda>i. (Suc i, 0)) [0..<length args]"])
      (simp_all add: request_of_def resp_cmd_args_def)
qed

text \<open>A server that has just started, with these arguments in memory.\<close>

lemma fresh_server:
  obtains s where "server_start calm_server = returns s" "plenty {0} calm_server" "serves 252 (rs_commands s)"
    "server_rep {0} 252 calm_server (s\<lparr>rs_mem := m\<rparr>) Map.empty" "server_load (s\<lparr>rs_mem := m\<rparr>) = 0"
proof -
  have junk: "env_junk (en_ht calm_server) = 0" by (simp add: calm_server_def)
  obtain s where s: "server_start calm_server = returns s" "server_rep {0} 252 calm_server s Map.empty" "server_load s = 0"
    using server_start_ok[OF roomy_calm] unfolding junk by blast
  then show thesis using empty_server_mem[OF s(2), of m] by (intro that) (simp_all add: server_rep_def)
qed

lemma request_of_okI: "length args < 2 ^ 31 \<Longrightarrow> request args (request_of args) (rs_mem (s\<lparr>rs_mem := memory_of args\<rparr>))"
  using request_of_ok by simp

end
