(* ===== verification/Resp_Frame.thy ===== *)
theory Resp_Frame
  imports Resp_Parser
begin

text \<open>
  What the parser leaves alone: it writes only into the buffer it is filling, and every buffer it
  creates is fresh.  So the texts of earlier commands stay where they are.
\<close>

text \<open>From buffer \<open>b\<close> to buffer \<open>b'\<close>.\<close>

definition rp_frame :: "addr \<Rightarrow> rp_world \<Rightarrow> addr \<Rightarrow> rp_world \<Rightarrow> bool" where
  "rp_frame b w b' w' \<longleftrightarrow>
     length (w_heap w) \<le> length (w_heap w') \<and>
     (\<forall>a cs. heap_block a w = Ok cs \<longrightarrow> a \<noteq> b \<longrightarrow> heap_block a w' = Ok cs) \<and>
     (b' = b \<or> b' = NULL \<or> length (w_heap w) < b')"

lemma heap_block_bound: "heap_block a w = Ok cs \<Longrightarrow> a \<noteq> NULL \<and> a \<le> length (w_heap w)"
  by (auto simp: heap_block_def split: if_splits)

lemma rp_frame_refl [simp]: "rp_frame b w b w"
  by (simp add: rp_frame_def)

lemma rp_frame_null [simp]: "rp_frame b w NULL w"
  by (simp add: rp_frame_def)

lemma rp_frame_trans:
  assumes "rp_frame b w b1 w1" and "rp_frame b1 w1 b2 w2"
  shows "rp_frame b w b2 w2"
  unfolding rp_frame_def
proof (intro conjI allI impI)
  show "length (w_heap w) \<le> length (w_heap w2)" using assms unfolding rp_frame_def by linarith
  show "heap_block a w2 = Ok cs" if "heap_block a w = Ok cs" "a \<noteq> b" for a cs
  proof -
    have "heap_block a w1 = Ok cs" using assms(1) that unfolding rp_frame_def by blast
    moreover have "a \<noteq> b1" using assms(1) heap_block_bound[OF that(1)] that(2) unfolding rp_frame_def by auto
    ultimately show ?thesis using assms(2) unfolding rp_frame_def by blast
  qed
  show "b2 = b \<or> b2 = NULL \<or> length (w_heap w) < b2" using assms unfolding rp_frame_def by auto
qed

section \<open>The pieces\<close>

lemma heap_write_frame:
  assumes "heap_write b off bs w = Ok w'"
  shows "rp_frame b w b w'"
proof -
  obtain cs where cs: "heap_block b w = Ok cs"
    and w': "w' = w\<lparr>w_heap := (w_heap w)[b - 1 := Some (take off cs @ bs @ drop (off + length bs) cs)]\<rparr>"
    using assms by (auto simp: heap_write_def bind_res_Inr_iff split: if_splits)
  have "heap_block a w' = heap_block a w" if "a \<noteq> b" for a
  proof (cases "a = NULL")
    case False
    then have "a - 1 \<noteq> b - 1" using that heap_block_bound[OF cs] by linarith
    then show ?thesis by (simp add: heap_block_def w')
  qed (simp add: heap_block_def)
  then show ?thesis by (simp add: rp_frame_def w')
qed

lemma rp_frame_net [simp]: "rp_frame b (w\<lparr>w_net := net\<rparr>) b' w' = rp_frame b w b' w'"
  by (simp add: rp_frame_def heap_block_def)

lemma fill_frame:
  assumes "rp_fill_remaining b u t w = Ok (r, w')"
  shows "rp_frame b w b w'"
proof -
  have same: "rp_frame b w b (w\<lparr>w_net := net\<rparr>)" for net by (simp add: rp_frame_def heap_block_def)
  show ?thesis
    using assms same heap_write_frame[of b _ _ "w\<lparr>w_net := _\<rparr>" w']
    by (auto simp: rp_fill_remaining_def bind_res_Inr_iff split: if_splits prod.splits recv_result.splits)
qed

lemma create_frame:
  assumes "rp_create_buffer mal sz w = Ok (a, w')"
  shows "rp_frame b w a w'" and "rp_frame b w b w'"
  using assms
  by (auto simp: rp_create_buffer_def rp_frame_def heap_block_def nth_append Let_def split: if_splits)

lemma fresh_frame:
  assumes "rp_fresh_buffer mal sz sm w = Ok (sm', w')"
  shows "rp_frame b w (rb_buf (sm_data sm')) w'"
  using assms create_frame(1) by (auto simp: rp_fresh_buffer_def bind_res_Inr_iff on_data_def split: prod.splits)

lemma on_result_data: "on_result f sm = Ok sm' \<Longrightarrow> sm_data sm' = sm_data sm"
  by (auto simp: on_result_def bind_res_Inr_iff split: option.splits)

text \<open>A step as its outcome shows it.\<close>

definition frame_out :: "addr \<Rightarrow> rp_world \<Rightarrow> 'u rp_out \<Rightarrow> bool" where
  "frame_out b w out \<longleftrightarrow> (\<forall>n sm' w'. out = Ok (n, sm', w') \<longrightarrow> rp_frame b w (rb_buf (sm_data sm')) w')"

lemma frame_out_Ok [simp]: "frame_out b w (Ok (n, sm', w')) \<longleftrightarrow> rp_frame b w (rb_buf (sm_data sm')) w'"
  by (simp add: frame_out_def)

lemma frame_out_Fault [simp]: "frame_out b w (Fault e)"
  by (simp add: frame_out_def)

lemma frame_out_bind:
  assumes "\<And>x. m = Ok x \<Longrightarrow> frame_out b w (f x)"
  shows "frame_out b w (bind_res m f)"
  using assms by (cases m) (simp_all add: frame_out_def)

lemma frame_out_trans:
  assumes "rp_frame b w b1 w1" and "frame_out b1 w1 out"
  shows "frame_out b w out"
  using assms rp_frame_trans by (fastforce simp: frame_out_def)

lemma receive_frame:
  assumes "\<And>sm1 w1. rb_buf (sm_data sm1) = rb_buf (sm_data sm) \<Longrightarrow> frame_out (rb_buf (sm_data sm1)) w1 (k sm1 w1)"
  shows "frame_out (rb_buf (sm_data sm)) w (rp_receive sm w k)"
  unfolding rp_receive_def Let_def
proof (rule frame_out_bind)
  fix x assume fill: "rp_fill_remaining (rb_buf (sm_data sm)) (rb_end_ptr (sm_data sm)) (rb_length (sm_data sm)) w = Ok x"
  obtain r w1 where x: "x = (r, w1)" by (cases x)
  note fr = fill_frame[OF fill[unfolded x]]
  show "frame_out (rb_buf (sm_data sm)) w
     (case x of (r, w') \<Rightarrow> case r of
        Received bs \<Rightarrow> k (on_data (\<lambda>d. d\<lparr>rb_end_ptr := rb_end_ptr d + int (length bs)\<rparr>) sm) w'
      | RecvAgain \<Rightarrow> Ok (Return RESP_SM_STATUS_EMPTY, sm, w')
      | RecvEnd \<Rightarrow> Ok (Return RESP_SM_STATUS_CLOSED, sm, w'))"
  proof (cases r)
    case (Received bs)
    let ?sm1 = "on_data (\<lambda>d. d\<lparr>rb_end_ptr := rb_end_ptr d + int (length bs)\<rparr>) sm"
    have "frame_out (rb_buf (sm_data sm)) w1 (k ?sm1 w1)" using assms[of ?sm1 w1] by (simp add: on_data_def)
    from frame_out_trans[OF fr this] show ?thesis using Received x by simp
  qed (use fr x in simp_all)
qed

lemma receive_go [simp]:
  "frame_out (rb_buf (sm_data sm)) w (rp_receive sm w (\<lambda>sm w. Ok (Goto l, sm, w)))"
  by (rule receive_frame) simp

lemma sm_data_on_data [simp]: "sm_data (on_data f sm) = f (sm_data sm)"
  by (simp add: on_data_def)

section \<open>Every label\<close>

lemma clean_check_frame: "frame_out (rb_buf (sm_data sm)) w (rp_clean_check sm w)"
  unfolding rp_clean_check_def by (intro frame_out_bind) (simp add: on_data_def)

lemma clean_frame: "frame_out (rb_buf (sm_data sm)) w (rp_clean mal sm w)"
proof -
  let ?sm = "sm\<lparr>sm_result := Some (resp_cmd_init 0)\<rparr>"
  have body: "frame_out (rb_buf (sm_data s)) v (if rb_start_ptr (sm_data s) = rb_end_ptr (sm_data s)
      then rp_receive s v rp_clean_check else rp_clean_check s v)" for s :: "'a resp_sm" and v
  proof (cases "rb_start_ptr (sm_data s) = rb_end_ptr (sm_data s)")
    case True
    have "frame_out (rb_buf (sm_data s)) v (rp_receive s v rp_clean_check)"
      by (rule receive_frame) (rule clean_check_frame)
    then show ?thesis using True by simp
  qed (simp add: clean_check_frame)
  have "frame_out (rb_buf (sm_data sm)) w
      (bind_res (if rb_buf (sm_data ?sm) = NULL then rp_fresh_buffer mal BUFSIZE ?sm w else Ok (?sm, w)) (\<lambda>(sm, w).
          if rb_start_ptr (sm_data sm) = rb_end_ptr (sm_data sm) then rp_receive sm w rp_clean_check
          else rp_clean_check sm w))"
  proof (rule frame_out_bind)
    fix x assume x: "(if rb_buf (sm_data ?sm) = NULL then rp_fresh_buffer mal BUFSIZE ?sm w else Ok (?sm, w)) = Ok x"
    obtain sm1 w1 where x1: "x = (sm1, w1)" by (cases x)
    have "rp_frame (rb_buf (sm_data sm)) w (rb_buf (sm_data sm1)) w1"
      using x fresh_frame[of mal BUFSIZE ?sm w sm1 w1] by (auto simp: x1 split: if_splits)
    then show "frame_out (rb_buf (sm_data sm)) w (case x of (sm, w) \<Rightarrow>
          if rb_start_ptr (sm_data sm) = rb_end_ptr (sm_data sm) then rp_receive sm w rp_clean_check
          else rp_clean_check sm w)"
      unfolding x1 prod.case using frame_out_trans body by blast
  qed
  then show ?thesis by (auto simp: rp_clean_def Let_def split: if_splits)
qed

lemma ary_start_frame: "frame_out (rb_buf (sm_data sm)) w (rp_ary_start mal sm w)"
  unfolding rp_ary_start_def Let_def
  by (auto intro!: frame_out_bind dest!: on_result_data split: prod.splits)

lemma bs_init_frame: "frame_out (rb_buf (sm_data sm)) w (rp_bs_init sm w)"
  by (simp add: rp_bs_init_def)

text \<open>A fresh buffer, recorded in the result, and filled.\<close>

lemma fresh_receive_frame:
  "frame_out b w (bind_res (rp_fresh_buffer mal sz sm w) (\<lambda>(sm, w).
     bind_res (on_result (f sm) sm) (\<lambda>sm. rp_receive sm w (\<lambda>sm w. Ok (Goto l, sm, w)))))"
proof (rule frame_out_bind)
  fix x assume x: "rp_fresh_buffer mal sz sm w = Ok x"
  obtain sm1 w1 where x1: "x = (sm1, w1)" by (cases x)
  have fr: "rp_frame b w (rb_buf (sm_data sm1)) w1" using fresh_frame x unfolding x1 by blast
  have "frame_out (rb_buf (sm_data sm1)) w1
      (bind_res (on_result (f sm1) sm1) (\<lambda>sm. rp_receive sm w1 (\<lambda>sm w. Ok (Goto l, sm, w))))"
    by (rule frame_out_bind) (metis on_result_data receive_go)
  then show "frame_out b w (case x of (sm, w) \<Rightarrow>
     bind_res (on_result (f sm) sm) (\<lambda>sm. rp_receive sm w (\<lambda>sm w. Ok (Goto l, sm, w))))"
    unfolding x1 prod.case by (rule frame_out_trans[OF fr])
qed

lemma bs_start_pre_frame: "frame_out (rb_buf (sm_data sm)) w (rp_bs_start_pre mal sm w)"
  unfolding rp_bs_start_pre_def Let_def
  using fresh_receive_frame[of _ w mal BUFSIZE sm "\<lambda>sm. result_add_allocation (rb_buf (sm_data sm))"]
  by (auto intro!: frame_out_bind)

lemma bs_start_frame: "frame_out (rb_buf (sm_data sm)) w (rp_bs_start mal sm w)"
  unfolding rp_bs_start_def Let_def
  by (auto intro!: frame_out_bind[where m = "buf_memchr _ _ _ _ _"] frame_out_bind[where m = "buf_strtol _ _ _"]
      frame_out_bind[where m = "long_op _"] frame_out_bind[where m = "crlf_at _ _ _"]
      frame_out_bind[where m = "if _ then _ else _"] fresh_receive_frame split: prod.splits)

lemma bs_body_frame: "frame_out (rb_buf (sm_data sm)) w (rp_bs_body mal sm w)"
  unfolding rp_bs_body_def Let_def
  by (auto intro!: frame_out_bind[where m = "long_op _"] fresh_receive_frame)

lemma bs_body_fit_frame: "frame_out (rb_buf (sm_data sm)) w (rp_bs_body_fit sm w)"
  unfolding rp_bs_body_fit_def Let_def
  by (auto intro!: frame_out_bind dest!: on_result_data)

lemma bs_body_bigbuf_frame: "frame_out (rb_buf (sm_data sm)) w (rp_bs_body_bigbuf mal sm w)"
  unfolding rp_bs_body_bigbuf_def Let_def
  by (auto intro!: frame_out_bind dest!: on_result_data fresh_frame[where b = "rb_buf (sm_data sm)"])

lemma bs_body_finish_frame: "frame_out (rb_buf (sm_data sm)) w (rp_bs_body_finish mal sm w)"
proof -
  have "rp_frame (rb_buf (sm_data sm)) w a w2"
    if "rp_create_buffer mal BUFSIZE w = Ok (a, w1)" "heap_write a 0 cs w1 = Ok w2" for a w1 cs w2
    using rp_frame_trans[OF create_frame(1)[OF that(1)] heap_write_frame[OF that(2)]] .
  then show ?thesis
    unfolding rp_bs_body_finish_def Let_def
    by (auto intro!: frame_out_bind simp: on_data_def split: prod.splits)
qed

lemma rp_step_frame: "frame_out (rb_buf (sm_data sm)) w (rp_step mal l sm w)"
  by (cases l) (simp_all add: clean_frame ary_start_frame bs_init_frame bs_start_pre_frame bs_start_frame
      bs_body_frame bs_body_fit_frame bs_body_bigbuf_frame bs_body_finish_frame)

lemma rp_run_frame:
  assumes "rp_run mal l sm w = returns (st, sm', w')"
  shows "rp_frame (rb_buf (sm_data sm)) w (rb_buf (sm_data sm')) w'"
proof -
  have "case r of Inl e \<Rightarrow> True | Inr (st, sm', w') \<Rightarrow> rp_frame (rb_buf (sm_data sm)) w (rb_buf (sm_data sm')) w'"
    if "rp_run mal l sm w = Some r" for r
    using that
  proof (induction rule: rp_run.raw_induct[rotated 1, consumes 1, case_names step])
    case (step run mal l sm w y)
    show ?case
    proof (cases "rp_step mal l sm w")
      case (Inl e)
      then show ?thesis using step(2) by auto
    next
      case (Inr x)
      obtain n sm1 w1 where x: "x = (n, sm1, w1)" by (cases x) auto
      have fr: "rp_frame (rb_buf (sm_data sm)) w (rb_buf (sm_data sm1)) w1"
        using rp_step_frame[of sm w mal l] Inr x by simp
      show ?thesis
      proof (cases n)
        case (Return s)
        then show ?thesis using step(2) Inr x fr by auto
      next
        case (Goto l')
        then have "run mal l' sm1 w1 = Some y" using step(2) Inr x by simp
        from step(1)[OF this] show ?thesis using rp_frame_trans[OF fr] by (auto split: sum.splits)
      qed
    qed
  qed
  from this[OF assms] show ?thesis by simp
qed

lemma process_frame:
  assumes "resp_cmd_process_sm mal sm w = returns (st, sm', w')"
  shows "rp_frame (rb_buf (sm_data sm)) w (rb_buf (sm_data sm')) w'"
  using assms rp_run_frame by (auto simp: resp_cmd_process_sm_def split: option.splits)

end
