(* ===== verification/Worker_Map.thy ===== *)
theory Worker_Map
  imports Worker Server_Start Resp_Frame
begin

text \<open>
  One connection served by one thread, from the bytes on the socket to the bytes sent back: a client
  that waits for each reply before it sends the next command is answered as a finite map says.
\<close>

section \<open>Serving what has arrived\<close>

text \<open>The thread is called for the connection as long as the parser asks for more and more has arrived.\<close>

partial_function (option) serve_reads :: "rn_env \<Rightarrow> worker \<Rightarrow> worker run" where
  "serve_reads env w =
     (case onestep_read env w of
        None \<Rightarrow> None
      | Some (Inl e) \<Rightarrow> faults e
      | Some (Inr (status, w1)) \<Rightarrow>
          (if status = PR_REARM_AGAIN \<and> w_net (wk_mem w1) \<noteq> [] then serve_reads env w1 else returns w1))"

declare serve_reads.simps [code]

text \<open>The client sends one command, in any pieces, and gets what is sent.\<close>

definition wait_step :: "rn_env \<Rightarrow> worker \<Rightarrow> db_op \<times> segment list \<Rightarrow> (worker \<times> bytes) run" where
  "wait_step env w x =
     bind_run (serve_reads env (with_mem ((wk_mem w)\<lparr>w_net := w_net (wk_mem w) @ snd x\<rparr>) (w\<lparr>wk_sent := []\<rparr>)))
       (\<lambda>w'. returns (w', wk_sent w'))"

section \<open>The parser in the worker\<close>

lemma wk_simps [simp]:
  "wk_mem (with_mem m w) = m" "wk_sm (with_mem m w) = wk_sm w" "wk_head (with_mem m w) = wk_head w"
  "wk_window (with_mem m w) = wk_window w" "wk_pipe (with_mem m w) = wk_pipe w"
  "wk_sent (with_mem m w) = wk_sent w" "wk_state (with_mem m w) = (wk_state w)\<lparr>rs_mem := m\<rparr>"
  "wk_mem (w\<lparr>wk_sm := sm\<rparr>) = wk_mem w" "wk_mem (w\<lparr>wk_sent := bs\<rparr>) = wk_mem w"
  "wk_mem (w\<lparr>wk_window := ws\<rparr>) = wk_mem w" "with_mem m (with_mem m' w) = with_mem m w"
  "wk_mem (w\<lparr>wk_state := s\<rparr>) = rs_mem s" "rs_mem (wk_state w) = wk_mem w"
  by (simp_all add: wk_mem_def with_mem_def)

lemma with_mem_sm [simp]: "with_mem m w\<lparr>wk_sm := sm\<rparr> = with_mem m (w\<lparr>wk_sm := sm\<rparr>)"
  by (simp add: with_mem_def)

lemma reads_wait:
  assumes "resp_cmd_process_sm (en_malloc env) (wk_sm w) (wk_mem w) = returns (RESP_SM_STATUS_EMPTY, sm', m')"
  shows "onestep_read env w = returns (PR_REARM_AGAIN, with_mem m' (w\<lparr>wk_sm := sm'\<rparr>))"
  using assms by (simp add: onestep_read_def packet_reciever.simps[of env w])

lemma reads_run:
  assumes "resp_cmd_process_sm (en_malloc env) (wk_sm w) (wk_mem w) = returns (RESP_SM_STATUS_DONE, sm', m')"
    and "resp_cmd_sm_allocs sm' = Some r" "0 < ra_argc r" and "wk_window w = []"
  shows "onestep_read env w =
           bind_run (run_ticket env (Some r) (wk_head w) ((with_mem m' (w\<lparr>wk_sm := sm'\<rparr>))\<lparr>wk_window := [None]\<rparr>))
             (\<lambda>w'. returns (PR_DONE, w'))"
  using assms by (simp add: onestep_read_def packet_reciever.simps[of env w] take_ticket_def with_mem_def)

lemma serve_done:
  "(case bind_run X (\<lambda>w'. returns (PR_DONE, w')) of
      None \<Rightarrow> None
    | Some (Inl e) \<Rightarrow> faults e
    | Some (Inr (status, w1)) \<Rightarrow> (if status = PR_REARM_AGAIN \<and> P w1 then f w1 else returns w1)) = X"
proof (cases X)
  case (Some r)
  then show ?thesis by (cases r) simp_all
qed simp

text \<open>The parser reads one command, which is then run.  \<open>m0\<close> is the memory before.\<close>

lemma serves_one:
  assumes c: "small_command args" "args \<noteq> []" and mal: "small_grants (en_malloc env)"
    and ready: "rp_ready args [] (wk_sm w) (wk_mem w)"
    and fr: "rp_frame NULL m0 (rb_buf (sm_data (wk_sm w))) (wk_mem w)" and win: "wk_window w = []"
  shows "\<exists>sm' m' r. serve_reads env w =
           run_ticket env (Some r) (wk_head w) ((with_mem m' (w\<lparr>wk_sm := sm'\<rparr>))\<lparr>wk_window := [None]\<rparr>) \<and>
         command_args m' r = Some args \<and> ra_allocation_count r = 1 \<and>
         rp_clean_inv [] sm' m' \<and> rb_buf (sm_data sm') = NULL \<and> rp_frame NULL m0 NULL m'"
  using ready fr win
proof (induction "net_weight (w_net (wk_mem w))" arbitrary: w rule: less_induct)
  case less
  from c(1) mal less(2) show ?case
  proof (cases rule: process_ready)
    case (Empty sm' m')
    let ?w1 = "with_mem m' (w\<lparr>wk_sm := sm'\<rparr>)"
    have fr1: "rp_frame NULL m0 (rb_buf (sm_data sm')) m'"
      using rp_frame_trans[OF less(3) process_frame[OF Empty(1)]] .
    have "serve_reads env w = serve_reads env ?w1"
      using Empty(3) by (simp add: serve_reads.simps[of env w] reads_wait[OF Empty(1)])
    then show ?thesis using less(1)[of ?w1] Empty(2,4) fr1 less(4) by (simp add: with_mem_def)
  next
    case (Done s sm' m' r)
    then have s: "resp_cmd_process_sm (en_malloc env) (wk_sm w) (wk_mem w) = returns (RESP_SM_STATUS_DONE, sm', m')"
      and null: "rb_buf (sm_data sm') = NULL" by auto
    have "int (length args) = ra_argc r"
      using Done(4) zip_args_texts by (fastforce simp: command_args_def resp_cmd_args_def split: option.splits if_splits)
    then have argc: "0 < ra_argc r" using c(2) by (cases args) auto
    have fr1: "rp_frame NULL m0 NULL m'"
      using rp_frame_trans[OF less(3) process_frame[OF Done(1)]] null by simp
    have "serve_reads env w =
        run_ticket env (Some r) (wk_head w) ((with_mem m' (w\<lparr>wk_sm := sm'\<rparr>))\<lparr>wk_window := [None]\<rparr>)"
      unfolding serve_reads.simps[of env w] reads_run[OF s Done(3) argc less(4)] by (rule serve_done)
    then show ?thesis using Done(4-6) null fr1 by blast
  qed
qed

section \<open>The command in the worker\<close>

text \<open>What is known of memory before the parser ran is still known.\<close>

lemma server_rep_frame:
  assumes "server_rep J ty env s m" and "rp_frame NULL (rs_mem s) NULL m'"
  shows "server_rep J ty env (s\<lparr>rs_mem := m', rs_ctx := c\<rparr>) m"
proof -
  obtain tm where tm: "ht_map J (rs_table s) tm" "db_values ty s tm m"
    using assms(1) by (auto simp: server_rep_def db_rel_def)
  have "keeps s (s\<lparr>rs_mem := m', rs_ctx := c\<rparr>)"
    using assms(2) heap_block_bound by (fastforce simp: keeps_def rp_frame_def)
  then have "db_values ty (s\<lparr>rs_mem := m', rs_ctx := c\<rparr>) tm m"
    by (rule db_values_keeps[OF tm(2)]) simp
  then show ?thesis using assms(1) tm(1) by (auto simp: server_rep_def db_rel_def)
qed

text \<open>The command of the only open ticket.\<close>

lemma runs_ticket:
  assumes rep: "server_rep J ty env (wk_state w) m" and load: "server_load (wk_state w) < 2 ^ 30"
    and good: "good_op J m x" and req: "request (db_args x) r (wk_mem w)"
    and win: "wk_window w = [None]" and head: "wk_head w < 2 ^ 30"
    and ctx: "rp_frame NULL (wk_mem w) NULL (wk_mem w)"
  shows "\<exists>s'. run_ticket env (Some r) (wk_head w) w =
           returns (w\<lparr>wk_state := s', wk_window := [], wk_head := wk_head w + 1,
             wk_sent := wk_sent w @ wire (db_answer m x)\<rparr>) \<and>
         server_rep J ty env s' (db_next m x) \<and> server_load s' \<le> server_load (wk_state w) + 1 \<and>
         w_net (rs_mem s') = w_net (wk_mem w) \<and>
         (\<forall>a cs. heap_block a (wk_mem w) = Ok cs \<longrightarrow> heap_block a (rs_mem s') = Ok cs)"
proof -
  let ?s1 = "(wk_state w)\<lparr>rs_ctx := (rs_ctx (wk_state w))\<lparr>cx_send_queue_ptr := of_nat (wk_head w)\<rparr>\<rparr>"
  have "server_rep J ty env ((wk_state w)\<lparr>rs_mem := wk_mem w,
      rs_ctx := (rs_ctx (wk_state w))\<lparr>cx_send_queue_ptr := of_nat (wk_head w)\<rparr>\<rparr>) m"
    by (rule server_rep_frame[OF rep]) simp
  then have rep1: "server_rep J ty env ?s1 m" by (simp add: wk_mem_def del: wk_simps)
  obtain s' p where s': "runner env r ?s1 = returns s'" "committed ?s1 p s'"
    "send_pre_data (en_malloc env) (rs_mem s') p = returns (wire (db_answer m x), 0)"
    "w_net (rs_mem s') = w_net (wk_mem w)" "server_rep J ty env s' (db_next m x)"
    "server_load s' \<le> server_load (wk_state w) + 1"
    "\<forall>a cs. heap_block a (wk_mem w) = Ok cs \<longrightarrow> heap_block a (rs_mem s') = Ok cs"
    using runner_answers[OF rep1 _ good, of r] load req by auto
  have commits: "cx_commits (rs_ctx s') = cx_commits (rs_ctx (wk_state w)) @ [(of_nat (wk_head w), p)]"
    using s'(2) by (simp add: committed_def)
  have ticket: "unat (of_nat (wk_head w) :: u32) = wk_head w"
    using head by (simp add: unat_of_nat)
  have "run_ticket env (Some r) (wk_head w) w =
      returns (w\<lparr>wk_state := s', wk_window := [], wk_head := wk_head w + 1,
        wk_sent := wk_sent w @ wire (db_answer m x)\<rparr>)"
    using s'(1,3) commits ticket win by (simp add: run_ticket_def Let_def)
  then show ?thesis using s'(4-7) by blast
qed

section \<open>A waiting client\<close>

text \<open>The connection between two commands.\<close>

definition worker_rep :: "u32 set \<Rightarrow> u32 \<Rightarrow> rn_env \<Rightarrow> worker \<Rightarrow> (bytes \<rightharpoonup> bytes) \<Rightarrow> bool" where
  "worker_rep J ty env w m \<longleftrightarrow>
     server_rep J ty env (wk_state w) m \<and> rp_clean_inv [] (wk_sm w) (wk_mem w) \<and>
     rb_buf (sm_data (wk_sm w)) = NULL \<and> wk_window w = []"

definition worker_load :: "worker \<Rightarrow> nat" where
  "worker_load w = max (server_load (wk_state w)) (wk_head w)"

text \<open>A command and the pieces it is sent in.\<close>

definition good_send :: "u32 set \<Rightarrow> (bytes \<rightharpoonup> bytes) \<Rightarrow> db_op \<times> segment list \<Rightarrow> bool" where
  "good_send J m x \<longleftrightarrow>
     good_op J m (fst x) \<and> small_command (db_args (fst x)) \<and>
     net_open (snd x) \<and> net_bytes (snd x) = enc_command (db_args (fst x))"

lemma net_open_append [simp]: "net_open (xs @ ys) \<longleftrightarrow> net_open xs \<and> net_open ys"
  by (induction xs rule: net_open.induct) simp_all

lemma net_bytes_append [simp]: "net_bytes (xs @ ys) = net_bytes xs @ net_bytes ys"
  by (induction xs rule: net_bytes.induct) simp_all

lemma wait_step_law:
  assumes rep: "worker_rep J ty env w m" and load: "worker_load w < 2 ^ 30" and good: "good_send J m x"
  shows "\<exists>w'. wait_step env w x = returns (w', wire (db_answer m (fst x))) \<and>
           worker_rep J ty env w' (db_next m (fst x)) \<and> worker_load w' \<le> worker_load w + 1"
proof -
  let ?args = "db_args (fst x)"
  let ?m0 = "(wk_mem w)\<lparr>w_net := w_net (wk_mem w) @ snd x\<rparr>"
  let ?w0 = "with_mem ?m0 (w\<lparr>wk_sent := []\<rparr>)"
  have srv: "server_rep J ty env (wk_state w) m" and clean: "rp_clean_inv [] (wk_sm w) (wk_mem w)"
    and null: "rb_buf (sm_data (wk_sm w)) = NULL" and win: "wk_window w = []"
    using rep by (simp_all add: worker_rep_def)
  have op: "good_op J m (fst x)" "small_command ?args" and net: "net_open (snd x)" "net_bytes (snd x) = enc_command ?args"
    using good by (simp_all add: good_send_def)
  have mal: "small_grants (en_malloc env)" using srv by (simp add: server_rep_def plenty_def small_grants_def)
  have ne: "?args \<noteq> []" by (cases "fst x") simp_all
  have "rp_clean_inv (enc_command ?args @ []) (wk_sm w) ?m0"
    using clean null net by (simp add: rp_clean_inv_def)
  then have ready: "rp_ready ?args [] (wk_sm ?w0) (wk_mem ?w0)" by (simp add: rp_ready_def)
  have fr: "rp_frame NULL (wk_mem w) (rb_buf (sm_data (wk_sm ?w0))) (wk_mem ?w0)"
    using null by (simp add: rp_frame_def heap_block_def)
  obtain sm' m' r where run: "serve_reads env ?w0 =
        run_ticket env (Some r) (wk_head w) ((with_mem m' (?w0\<lparr>wk_sm := sm'\<rparr>))\<lparr>wk_window := [None]\<rparr>)"
    and r: "command_args m' r = Some ?args" "ra_allocation_count r = 1"
    and sm': "rp_clean_inv [] sm' m'" "rb_buf (sm_data sm') = NULL" "rp_frame NULL (wk_mem w) NULL m'"
    using serves_one[OF op(2) ne mal ready fr] win by (auto simp: with_mem_def)
  define w1 where "w1 = (with_mem m' (?w0\<lparr>wk_sm := sm'\<rparr>))\<lparr>wk_window := [None]\<rparr>"
  have w1: "wk_head w1 = wk_head w" "wk_window w1 = [None]" "wk_mem w1 = m'" "wk_sent w1 = []" "wk_sm w1 = sm'"
    "wk_state w1 = (wk_state w)\<lparr>rs_mem := m'\<rparr>"
    by (simp_all add: w1_def with_mem_def)
  have "length ?args < 2 ^ 31" by (cases "fst x") simp_all
  then have req: "request ?args r (wk_mem w1)" using parsed_request[OF r(1)] r(2) w1(3) by simp
  have "server_rep J ty env ((wk_state w)\<lparr>rs_mem := m', rs_ctx := rs_ctx (wk_state w)\<rparr>) m"
    by (rule server_rep_frame[OF srv]) (use sm'(3) in simp)
  then have rep1: "server_rep J ty env (wk_state w1) m" by (simp add: w1(6))
  have ld: "server_load (wk_state w1) < 2 ^ 30" "wk_head w1 < 2 ^ 30"
    using load by (simp_all add: w1 worker_load_def)
  obtain s' where s': "run_ticket env (Some r) (wk_head w1) w1 =
       returns (w1\<lparr>wk_state := s', wk_window := [], wk_head := wk_head w1 + 1,
         wk_sent := wk_sent w1 @ wire (db_answer m (fst x))\<rparr>)"
    "server_rep J ty env s' (db_next m (fst x))" "server_load s' \<le> server_load (wk_state w1) + 1"
    "w_net (rs_mem s') = w_net m'"
    using runs_ticket[OF rep1 ld(1) op(1) req w1(2) ld(2)] w1(3) by auto
  define w' where "w' = w1\<lparr>wk_state := s', wk_window := [], wk_head := wk_head w1 + 1,
      wk_sent := wk_sent w1 @ wire (db_answer m (fst x))\<rparr>"
  have "wait_step env w x = returns (w', wire (db_answer m (fst x)))"
    unfolding wait_step_def run[folded w1_def] s'(1)[unfolded w1(1), folded w1(1)]
    using s'(1) by (simp add: w'_def w1(1,4))
  moreover have "rp_clean_inv [] (wk_sm w') (wk_mem w')"
    using sm'(1,2) s'(4) by (simp add: rp_clean_inv_def w'_def w1(5) wk_mem_def)
  then have "worker_rep J ty env w' (db_next m (fst x))"
    using s'(2) sm'(2) by (simp add: worker_rep_def w'_def w1(5))
  moreover have "worker_load w' \<le> worker_load w + 1"
    using s'(3) by (simp add: worker_load_def w'_def w1(1,6))
  ultimately show ?thesis by blast
qed

interpretation db: db_server "worker_rep J ty env" worker_load "2 ^ 30" fst "good_send J" "wait_step env" wire
  by unfold_locales (rule wait_step_law)

section \<open>Properties\<close>

text \<open>
  C1. From the bytes of the requests to the bytes of the replies: on a server that has started, with every allocation
  granted, a client that sends up to \<open>2 ^ 30\<close> \<open>SET\<close>, \<open>GET\<close> and \<open>del\<close> commands, each in any pieces the network makes
  of it, and waits for every reply, is sent exactly the replies of a finite map from keys to values.  Every
  command must fit into 256 bytes on the wire; a value must have no NUL; only keys that are there are deleted; and a
  key must be one the table can hold (\<open>key_ok\<close>): not empty, its hash neither \<open>0\<close> nor \<open>0xFFFFFFFF\<close>, and, when its hash is
  even, its length not the one that happens to be in the key length of the sentinels, which the code never sets.
\<close>

theorem waiting_client_is_answered:
  assumes "roomy env" and "length xs \<le> 2 ^ 30"
    and "db_good (good_send {env_junk (en_ht env)}) fst Map.empty xs"
  shows "\<exists>s w. server_start env = returns s \<and>
           db_run (wait_step env) (worker_start s fd []) xs = returns (w, map wire (db_answers Map.empty (map fst xs)))"
proof -
  obtain s where s: "server_start env = returns s" "server_rep {env_junk (en_ht env)} 252 env s Map.empty"
    "server_load s = 0"
    using server_start_ok[OF assms(1)] by blast
  have "server_rep {env_junk (en_ht env)} 252 env (s\<lparr>rs_mem := (rs_mem s)\<lparr>w_net := []\<rparr>, rs_ctx := rs_ctx s\<rparr>) Map.empty"
    by (rule server_rep_frame[OF s(2)]) (simp add: rp_frame_def heap_block_def)
  then have "worker_rep {env_junk (en_ht env)} 252 env (worker_start s fd []) Map.empty"
    by (simp add: worker_rep_def worker_start_def resp_sm_init_def rp_clean_inv_def wk_mem_def)
  moreover have "worker_load (worker_start s fd []) = 0"
    using s(3) by (simp add: worker_load_def worker_start_def)
  ultimately show ?thesis using db.session[of _ 252 env _ Map.empty xs] s(1) assms(2,3) by fastforce
qed

theorem waiting_client_is_answered_witness:
  "\<exists>s w. server_start calm_server = returns s \<and>
     db_run (wait_step calm_server) (worker_start s 5 [])
       [(Db_get [97], [Bytes (enc_command [[71, 69, 84], [97]])]),
        (Db_set [97] [98], [Bytes (take 7 (enc_command [[83, 69, 84], [97], [98]])), WouldBlock,
           Bytes (drop 7 (enc_command [[83, 69, 84], [97], [98]]))]),
        (Db_get [97], [Bytes (enc_command [[71, 69, 84], [97]])])]
       = returns (w, [[36, 45, 49, 13, 10], [43, 79, 75, 13, 10], [36, 49, 13, 10, 98, 13, 0]])"
proof -
  let ?xs = "[(Db_get [97], [Bytes (enc_command [[71, 69, 84], [97]])]),
        (Db_set [97] [98], [Bytes (take 7 (enc_command [[83, 69, 84], [97], [98]])), WouldBlock,
           Bytes (drop 7 (enc_command [[83, 69, 84], [97], [98]]))]),
        (Db_get [97], [Bytes (enc_command [[71, 69, 84], [97]])])]"
  have junk: "env_junk (en_ht calm_server) = 0" by (simp add: calm_server_def)
  have args: "ascii ''GET'' = [71, 69, 84]" "ascii ''SET'' = [83, 69, 84]" by (simp_all add: ascii_def)
  have "db_good (good_send {env_junk (en_ht calm_server)}) fst Map.empty ?xs"
    by (simp add: junk good_send_def args key_ok_a plain_text_def small_command_def enc_command_def
        enc_head_def enc_arg_def dec.simps)
  from waiting_client_is_answered[OF roomy_calm _ this, of 5] show ?thesis
    by (simp add: ascii_def dec.simps)
qed

end
