(* ===== verification/Reply_Once.thy ===== *)
theory Reply_Once
  imports Server_Start
begin

text \<open>
  Whatever command a request names and whatever its arguments: when \<open>runner\<close> is done with it, exactly one
  reply has been committed, to the slot of its ticket.
\<close>

section \<open>What a step may do to the context\<close>

lemma bind_run_returns_iff: "bind_run m f = returns y \<longleftrightarrow> (\<exists>x. m = returns x \<and> f x = returns y)"
  by (auto simp: bind_run_def split: option.splits sum.splits)

lemmas step_simps = bind_run_returns_iff bind_res_Inr_iff Let_def with_ctx_def reply_steps

text \<open>Operations on values leave the context alone.\<close>

lemma typed_set_data_ctx: "typed_set_data a d s = Ok s' \<Longrightarrow> rs_ctx s' = rs_ctx s"
  by (auto simp: typed_set_data_def step_simps)

lemma initialize_string_ctx: "initialize_string env p args s = Ok s' \<Longrightarrow> rs_ctx s' = rs_ctx s"
  by (auto simp: initialize_string_def step_simps dest!: typed_set_data_ctx split: if_splits)

lemma initialize_hash_ctx: "initialize_hash env p args s = Ok s' \<Longrightarrow> rs_ctx s' = rs_ctx s"
  by (auto simp: initialize_hash_def step_simps dest!: typed_set_data_ctx split: option.splits)

lemma type_init_ctx:
  assumes "type_init env ty p args s = Ok s'"
  shows "rs_ctx s' = rs_ctx s"
proof -
  obtain raw f where "type_raw_at ty s = Ok raw" "tr_init raw = Some f"
    using assms by (auto simp: type_init_def step_simps split: option.splits)
  then show ?thesis
    using assms by (cases f) (auto simp: type_init_def dest: initialize_string_ctx initialize_hash_ctx)
qed

lemma string_set_ctx: "string_set env d p n s = Ok (rc, s') \<Longrightarrow> rs_ctx s' = rs_ctx s"
  by (auto simp: string_set_def step_simps dest!: typed_set_data_ctx split: if_splits)

lemma string_exchange_ctx: "string_exchange env d p n s = Ok (rc, old, s') \<Longrightarrow> rs_ctx s' = rs_ctx s"
  by (auto simp: string_exchange_def step_simps dest!: typed_set_data_ctx split: if_splits)

lemma try_initialize_ctx: "predis_arg_try_initialize env data i args s = Ok (b, d, data', s') \<Longrightarrow> rs_ctx s' = rs_ctx s"
  by (auto simp: predis_arg_try_initialize_def step_simps dest!: type_init_ctx split: if_splits)

lemma try_commit_ctx: "predis_arg_try_commit data i s = Ok (rc, d, data', s') \<Longrightarrow> rs_ctx s' = rs_ctx s"
  by (auto simp: predis_arg_try_commit_def step_simps split: if_splits)

lemma strdup_ctx: "strdup env p s = Ok (q, s') \<Longrightarrow> rs_ctx s' = rs_ctx s"
  by (auto simp: strdup_def step_simps split: if_splits)

lemma hash_store_ctx: "hash_store env t k n v s = returns (st, s') \<Longrightarrow> rs_ctx s' = rs_ctx s"
  by (auto simp: hash_store_def step_simps split: if_splits)

lemma set_attempt_ctx: "set_attempt env args raw data s = Ok (again, data', s') \<Longrightarrow> rs_ctx s' = rs_ctx s"
  by (auto simp: set_attempt_def step_simps dest!: try_initialize_ctx try_commit_ctx string_set_ctx split: if_splits)

lemma set_loop_ctx:
  assumes "set_loop env args raw data s = returns (data', s')"
  shows "rs_ctx s' = rs_ctx s"
proof -
  have "case r of Inl e \<Rightarrow> True | Inr (data', s') \<Rightarrow> rs_ctx s' = rs_ctx s"
    if "set_loop env args raw data s = Some r" for r
    using that
  proof (induction rule: set_loop.raw_induct[rotated 1, consumes 1, case_names step])
    case (step loop env args raw data s r)
    show ?case
    proof (cases "set_attempt env args raw data s")
      case (Inl e)
      then show ?thesis using step(2) by auto
    next
      case (Inr x)
      obtain again data1 s1 where x: "x = (again, data1, s1)" by (cases x) auto
      have s1: "rs_ctx s1 = rs_ctx s" using set_attempt_ctx Inr x by blast
      show ?thesis
      proof (cases again)
        case True
        then have "loop env args raw data1 s1 = Some r" using step(2) Inr x by simp
        from step(1)[OF this] show ?thesis using s1 by (auto split: sum.splits)
      qed (use step(2) Inr x s1 in auto)
    qed
  qed
  from this[OF assms] show ?thesis by simp
qed

section \<open>Commands\<close>

lemma command_set_ctx:
  "command_set env data argv lens argc s = returns (rc, data', s') \<Longrightarrow> ctx_step (rs_ctx s) (rs_ctx s')"
  by (auto simp: command_set_def step_simps dest!: set_loop_ctx split: if_splits)

lemma command_get_ctx: "command_get data argc s = returns (rc, data', s') \<Longrightarrow> ctx_step (rs_ctx s) (rs_ctx s')"
  by (auto simp: command_get_def step_simps split: if_splits)

lemma command_getset_ctx:
  "command_getset env data argv lens argc s = returns (rc, data', s') \<Longrightarrow> ctx_step (rs_ctx s) (rs_ctx s')"
  by (auto simp: command_getset_def step_simps dest!: string_exchange_ctx split: if_splits option.splits)

lemma command_bitcount_ctx:
  "command_bitcount env data argc s = returns (rc, data', s') \<Longrightarrow> ctx_step (rs_ctx s) (rs_ctx s')"
  by (auto simp: command_bitcount_def step_simps split: if_splits)

lemma command_others_ctx:
  "command_bitpos env data argv s = returns (rc, data', s') \<Longrightarrow> ctx_step (rs_ctx s) (rs_ctx s')"
  "command_strlen data s = returns (rc, data', s') \<Longrightarrow> ctx_step (rs_ctx s) (rs_ctx s')"
  "command_getrange data argv s = returns (rc, data', s') \<Longrightarrow> ctx_step (rs_ctx s) (rs_ctx s')"
  "command_mget data argv lens argc s = returns (rc, data', s') \<Longrightarrow> ctx_step (rs_ctx s) (rs_ctx s')"
  "config_print1cmd data argv argc s = returns (rc, data', s') \<Longrightarrow> ctx_step (rs_ctx s) (rs_ctx s')"
  "saysomething_print1cmd data argv lens argc s = returns (rc, data', s') \<Longrightarrow> ctx_step (rs_ctx s) (rs_ctx s')"
  by (auto simp: command_bitpos_def command_strlen_def command_getrange_def command_mget_def
      config_print1cmd_def saysomething_print1cmd_def step_simps split: if_splits)

lemma hash_hset_ctx:
  "hash_hset env data argv lens s = returns (rc, data', s') \<Longrightarrow> ctx_step (rs_ctx s) (rs_ctx s')"
  by (auto simp: hash_hset_def step_simps dest!: try_initialize_ctx try_commit_ctx strdup_ctx hash_store_ctx split: if_splits)

lemma hash_hget_ctx:
  "hash_hget data argv lens s = returns (rc, data', s') \<Longrightarrow> ctx_step (rs_ctx s) (rs_ctx s')"
  by (auto simp: hash_hget_def step_simps split: if_splits option.splits)

text \<open>A shared object registers with a context of its own.\<close>

definition loads_apart :: "rn_env \<Rightarrow> bool" where
  "loads_apart env \<longleftrightarrow>
     (\<forall>name f s s'. en_dlopen env name = Some f \<longrightarrow> f s = returns s' \<longrightarrow> rs_ctx s' = rs_ctx s)"

lemma load_structures_ctx:
  "loads_apart env \<Longrightarrow> load_structures env name argc s = returns (rc, s') \<Longrightarrow> ctx_step (rs_ctx s) (rs_ctx s')"
  by (auto simp: load_structures_def loads_apart_def step_simps split: if_splits option.splits)

lemma call_normal_ctx:
  assumes "loads_apart env" and "call_normal env f data argv lens argc s = returns (rc, data', s')"
  shows "ctx_step (rs_ctx s) (rs_ctx s')"
  using assms
  by (cases f) (auto simp: call_normal_def step_simps intro: command_set_ctx command_get_ctx command_getset_ctx
      command_bitcount_ctx command_others_ctx hash_hset_ctx hash_hget_ctx load_structures_ctx)

section \<open>The runner\<close>

lemma command_del_loop_ctx: "command_del_loop js argv lens s = returns s' \<Longrightarrow> rs_ctx s' = rs_ctx s"
proof (induction js arbitrary: s)
  case (Cons i js)
  then obtain n where n: "slot lens i = Ok n" by (auto simp: step_simps)
  show ?case
  proof (cases "n \<le> 0")
    case True
    then show ?thesis using Cons n by simp
  next
    case False
    then obtain t' r where r: "(case r of
         Some (HT_Value d, a, f) \<Rightarrow>
           command_del_loop js argv lens
             (s\<lparr>rs_table := t', rs_gc_frees := rs_gc_frees s @ [Gc_node None a f, Gc_typed_data d]\<rparr>)
       | _ \<Rightarrow> faults UninitRead) = returns s'"
      using Cons.prems n by (auto simp: bind_run_returns_iff)
    then obtain c a f where c: "r = Some (c, a, f)" by (cases r) auto
    then obtain d where "c = HT_Value d" using r by (cases c) auto
    then have "command_del_loop js argv lens
        (s\<lparr>rs_table := t', rs_gc_frees := rs_gc_frees s @ [Gc_node None a f, Gc_typed_data d]\<rparr>) = returns s'"
      using r c by simp
    from Cons.IH[OF this] show ?thesis by simp
  qed
qed simp

lemma call_meta_ctx:
  assumes "call_meta f argv lens argc s = returns (rc, s')"
  shows "rs_ctx s' = rs_ctx s"
proof -
  have "f = Some Command_del" using assms by (cases f; cases "the f") (simp_all add: call_meta_def)
  then show ?thesis
    using assms by (auto simp: call_meta_def command_del_def step_simps dest!: command_del_loop_ctx)
qed

lemma nil_on_error_ctx: "nil_on_error v s = (v', s') \<Longrightarrow> ctx_step (rs_ctx s) (rs_ctx s')"
  by (auto simp: nil_on_error_def step_simps split: if_splits)

lemma fetch_create_ctx:
  "fetch_create env fs argv lens v s = returns (v', s') \<Longrightarrow> ctx_step (rs_ctx s) (rs_ctx s')"
  by (auto simp: fetch_create_def step_simps split: if_splits ht_status.splits)

lemma fetch_readonly_ctx:
  "fetch_readonly fs argv lens v s = returns (v', s') \<Longrightarrow> ctx_step (rs_ctx s) (rs_ctx s')"
  by (auto simp: fetch_readonly_def step_simps dest!: nil_on_error_ctx intro: ctx_step_trans[OF reply_steps(2)]
      split: if_splits ht_status.splits) (metis ht_status.exhaust)

lemma fetch_optional_ctx:
  "fetch_optional fs argv lens v s = returns (v', s') \<Longrightarrow> ctx_step (rs_ctx s) (rs_ctx s')"
  by (auto simp: fetch_optional_def step_simps dest!: nil_on_error_ctx split: if_splits ht_status.splits)
    (metis ht_status.exhaust)

lemma fetch_arg_ctx:
  "fetch_arg env fs argc argv lens v s = returns (v', s') \<Longrightarrow> ctx_step (rs_ctx s) (rs_ctx s')"
  by (auto simp: fetch_arg_def step_simps dest: fetch_create_ctx fetch_readonly_ctx fetch_optional_ctx
      split: if_splits access_type.splits) (metis access_type.exhaust)

lemma fetch_loop_ctx:
  assumes "fetch_loop env fs argc argv lens v s = returns (v', s')"
  shows "ctx_step (rs_ctx s) (rs_ctx s')"
proof -
  have "case r of Inl e \<Rightarrow> True | Inr (v', s') \<Rightarrow> ctx_step (rs_ctx s) (rs_ctx s')"
    if "fetch_loop env fs argc argv lens v s = Some r" for r
    using that
  proof (induction rule: fetch_loop.raw_induct[rotated 1, consumes 1, case_names step])
    case (step loop env fs argc argv lens v s r)
    show ?case
    proof (cases "rv_i v < argc")
      case more: True
      then obtain y where y: "fetch_arg env fs argc argv lens v s = Some y" using step(2) by (auto split: option.splits)
      show ?thesis
      proof (cases y)
        case (Inl e)
        then show ?thesis using step(2) more y by auto
      next
        case (Inr x)
        obtain v1 s1 where x: "x = (v1, s1)" by (cases x)
        have s1: "ctx_step (rs_ctx s) (rs_ctx s1)" using fetch_arg_ctx y Inr x by blast
        show ?thesis
        proof (cases "rv_error_happened v1")
          case False
          then have "loop env fs argc argv lens (v1\<lparr>rv_index := rv_index v1 + 1, rv_i := rv_i v1 + 1\<rparr>) s1 = Some r"
            using step(2) more y Inr x by simp
          from step(1)[OF this] show ?thesis using s1 by (auto split: sum.splits intro: ctx_step_trans)
        qed (use step(2) more y Inr x s1 in auto)
      qed
    qed (use step(2) in auto)
  qed
  from this[OF assms] show ?thesis by simp
qed

lemma run_normal_ctx:
  assumes loads: "loads_apart env" and run: "run_normal env fs cmd argc argv lens s = returns s'"
  shows "ctx_step (rs_ctx s) (rs_ctx s')"
proof -
  obtain data v s1 where loop: "fetch_loop env fs argc argv lens
      \<lparr>rv_i = 0, rv_index = 0, rv_data = data, rv_members = replicate (2 * unat argc) NULL,
        rv_error_happened = False, rv_error_resolved = False\<rparr> (s\<lparr>rs_gc := gc_lock (rs_gc s)\<rparr>) = returns (v, s1)"
    and rest: "bind_run
              (if rv_error_happened v then returns (s1\<lparr>rs_gc := gc_commit (rs_gc s1) (Some (rv_members v))\<rparr>)
               else case cmd of
                 None \<Rightarrow> faults NullDeref
               | Some f \<Rightarrow>
                   bind_run (call_normal env f (rv_data v) argv lens (to_int (uint argc))
                     (s1\<lparr>rs_gc := gc_commit (rs_gc s1) (Some (rv_members v))\<rparr>)) (\<lambda>(rc, _, s3).
                   returns (if rc = WRONG_ARG_COUNT
                            then with_ctx (\<lambda>c. replySimpleString c (Lit (ascii ''ERR wrong arg count''))) s3
                            else s3))) (\<lambda>s4.
            let s5 = s4\<lparr>rs_gc := gc_clear (rs_gc s4)\<rparr> in
            returns (if rv_error_happened v \<and> \<not> rv_error_resolved v
                     then with_ctx (\<lambda>c. replySimpleString c (Lit (ascii ''ERR other thingie''))) s5
                     else s5)) = returns s'"
    using run unfolding run_normal_def Let_def
    by (auto simp: bind_run_returns_iff split: option.splits if_splits)
  have s1: "ctx_step (rs_ctx s) (rs_ctx s1)" using fetch_loop_ctx[OF loop] by simp
  have "ctx_step (rs_ctx s1) (rs_ctx s')"
  proof (cases "rv_error_happened v")
    case True
    then show ?thesis using rest by (auto simp: step_simps split: if_splits)
  next
    case False
    then obtain f rc data' s3 where call: "call_normal env f (rv_data v) argv lens (to_int (uint argc))
        (s1\<lparr>rs_gc := gc_commit (rs_gc s1) (Some (rv_members v))\<rparr>) = returns (rc, data', s3)"
      and s': "rs_ctx s' = rs_ctx s3 \<or> rs_ctx s' = fst (replySimpleString (rs_ctx s3) (Lit (ascii ''ERR wrong arg count'')))"
      using rest by (auto simp: step_simps split: option.splits if_splits)
    have s3: "ctx_step (rs_ctx s1) (rs_ctx s3)" using call_normal_ctx[OF loads call] by simp
    show ?thesis using s'
    proof
      assume "rs_ctx s' = rs_ctx s3"
      then show ?thesis using s3 by simp
    next
      assume "rs_ctx s' = fst (replySimpleString (rs_ctx s3) (Lit (ascii ''ERR wrong arg count'')))"
      then show ?thesis using ctx_step_trans[OF s3 reply_steps(1)] by simp
    qed
  qed
  then show ?thesis by (rule ctx_step_trans[OF s1])
qed

lemma run_found_ctx:
  assumes loads: "loads_apart env" and run: "run_found env entry argc argv lens s = returns s'"
  shows "ctx_step (rs_ctx s) (rs_ctx s')"
proof -
  obtain fstring cmd is_meta where entry: "entry = (fstring, cmd, is_meta)" by (cases entry) auto
  show ?thesis
  proof (cases is_meta)
    case True
    then obtain rc where "call_meta cmd argv lens (to_int (uint argc) - 1) s = returns (rc, s')"
      using run entry by (auto simp: run_found_def bind_run_returns_iff)
    then show ?thesis using call_meta_ctx by simp
  next
    case False
    then obtain fs where "fstring = Some (FsAt fs)"
      using run entry by (auto simp: run_found_def split: option.splits fs_pointer.splits)
    then show ?thesis
      using run entry False run_normal_ctx[OF loads]
      by (auto simp: run_found_def with_ctx_def reply_steps split: if_splits)
  qed
qed

lemma run_command_ctx:
  assumes loads: "loads_apart env" and "run_command env allocs s = returns s'"
  shows "ctx_step (rs_ctx s) (rs_ctx s')"
  using assms(2) unfolding run_command_def
  by (auto simp: step_simps dest: run_found_ctx[OF loads] split: option.splits if_splits prod.splits)

section \<open>Property\<close>

text \<open>
  C3. Whatever bytes a request holds, a command that the runner finishes has committed exactly one reply, to
  the slot of its own ticket, and owes none: not two when an error and a command both answer, and not none
  when nobody does.
\<close>

theorem every_command_replies_once:
  assumes "loads_apart env" and "runner env allocs s = returns s'"
  shows "\<exists>p. committed s p s' \<and> \<not> cx_needs_reply (rs_ctx s')"
proof -
  let ?s0 = "s\<lparr>rs_ctx := (rs_ctx s)\<lparr>cx_needs_reply := True\<rparr>\<rparr>"
  obtain s1 where s1: "run_command env allocs ?s0 = returns s1"
    and s': "rs_ctx s' = (if cx_needs_reply (rs_ctx s1)
        then fst (replySimpleString (rs_ctx s1) (Lit (ascii ''OK''))) else rs_ctx s1)"
    using assms(2) by (auto simp: runner_def step_simps)
  have "ctx_step (rs_ctx ?s0) (rs_ctx s1)" by (rule run_command_ctx[OF assms(1) s1])
  then show ?thesis using s' by (auto simp: ctx_step_def committed_def replySimpleString_def)
qed

text \<open>\<open>GET a\<close> on a server that has just started.\<close>

lemma loads_apart_calm: "loads_apart calm_server"
proof -
  have lit: "register_literal env n f fm s = returns s' \<Longrightarrow> rs_ctx s' = rs_ctx s" for env n f fm s s'
    by (auto simp: register_literal_def register_command_def step_simps)
  have all: "register_all env rs s = returns s' \<Longrightarrow> rs_ctx s' = rs_ctx s" for env rs s s'
    by (induction env rs s rule: register_all.induct) (auto simp: bind_run_returns_iff dest!: lit)
  have "shipped env name = Some f \<Longrightarrow> f s = returns s' \<Longrightarrow> rs_ctx s' = rs_ctx s" for env name f s s'
    by (auto simp: shipped_def string_commands_init_def config_commands_init_def hash_commands_init_def
        string_type_init_def hash_type_init_def register_type_def step_simps dest: all
        simp del: register_all.simps split: if_splits)
  then show ?thesis by (auto simp: loads_apart_def shipped_calm)
qed

theorem every_command_replies_once_witness:
  "\<exists>s s' p. server_start calm_server = returns s \<and>
     runner calm_server (request_of [[71, 69, 84], [97]]) (s\<lparr>rs_mem := memory_of [[71, 69, 84], [97]]\<rparr>) = returns s' \<and>
     committed (s\<lparr>rs_mem := memory_of [[71, 69, 84], [97]]\<rparr>) p s'"
proof -
  obtain s where s: "server_start calm_server = returns s"
    "server_rep {0} 252 calm_server (s\<lparr>rs_mem := memory_of [[71, 69, 84], [97]]\<rparr>) Map.empty"
    "server_load (s\<lparr>rs_mem := memory_of [[71, 69, 84], [97]]\<rparr>) = 0"
    by (rule fresh_server)
  let ?s = "s\<lparr>rs_mem := memory_of [[71, 69, 84], [97]]\<rparr>"
  have args: "db_args (Db_get [97]) = [[71, 69, 84], [97]]" by (simp add: ascii_def)
  have "request (db_args (Db_get [97])) (request_of [[71, 69, 84], [97]]) (rs_mem ?s)"
    unfolding args using request_of_ok[of "[[71, 69, 84], [97]]"] by simp
  moreover have "server_load ?s < 2 ^ 30" using s(3) by simp
  moreover have "good_op {0} Map.empty (Db_get [97])" by (simp add: key_ok_a)
  ultimately obtain s' where "runner calm_server (request_of [[71, 69, 84], [97]]) ?s = returns s'"
    using runner_answers[OF s(2)] by blast
  then show ?thesis using every_command_replies_once[OF loads_apart_calm] s(1) by blast
qed

end
