(* ===== verification/Pipeline.thy ===== *)
theory Pipeline
  imports Worker_Map
begin

text \<open>
  Two commands in one segment: the thread runs the second at once and leaves the first in the pipe.
\<close>

section \<open>A segment that fits the buffer\<close>

lemma net_weight_0 [simp]: "net_weight net = 0 \<longleftrightarrow> net = []"
  by (cases net rule: net_weight.cases) simp_all

lemma clean_takes_all:
  assumes null: "rb_buf (sm_data sm) = NULL" and net: "w_net w = [Bytes S]" and S: "S \<noteq> []" "length S \<le> 256"
    and out: "rp_clean mal sm w = Ok (n, sm', w')"
  shows "w_net w' = []"
proof -
  obtain a w1 where w1: "rp_create_buffer mal BUFSIZE w = Ok (a, w1)" "w_net w1 = [Bytes S]"
    and rec: "rp_receive (on_data (\<lambda>d. d\<lparr>rb_buf := a, rb_start_ptr := 0, rb_end_ptr := 0, rb_length := BUFSIZE\<rparr>)
          (sm\<lparr>sm_result := Some (resp_cmd_init 0)\<rparr>)) w1 rp_clean_check = Ok (n, sm', w')"
    using out null net
    by (auto simp: rp_clean_def Let_def rp_fresh_buffer_def rp_create_buffer_def bind_res_Inr_iff on_data_def
        split: if_splits)
  obtain w2 sm2 where w2: "heap_write a 0 (map Some S) (w1\<lparr>w_net := []\<rparr>) = Ok w2"
    and check: "rp_clean_check sm2 w2 = Ok (n, sm', w')"
    using rec w1(2) S
    by (auto simp: rp_receive_def rp_fill_remaining_def Let_def bind_res_Inr_iff on_data_def BUFSIZE_def)
  have "w' = w2" using check by (auto simp: rp_clean_check_def bind_res_Inr_iff split: if_splits)
  then show ?thesis using heap_write_net[OF w2] by simp
qed

lemma enc_command_head: "enc_command a @ r \<noteq> []" "(enc_command a @ r) ! 0 = 42"
  by (simp_all add: enc_command_def enc_head_def)

text \<open>When nothing is left on the network, a call that has a whole command does not wait.\<close>

lemma run_no_wait:
  assumes "small_command a" and "small_grants mal" and "rp_inv l a rest k sm w" and "w_net w = []"
  obtains s sm' w' where "rp_run mal l sm w = returns (s, sm', w')" "finishes a rest w s sm' w'" "w_net w' = []"
proof -
  obtain s sm' w' where r: "rp_run mal l sm w = returns (s, sm', w')"
    "waits a rest w s sm' w' \<or> finishes a rest w s sm' w'"
    using rp_run_ok[OF assms(1-3)] by blast
  moreover have "\<not> waits a rest w s sm' w'" using assms(4) by (simp add: waits_def)
  ultimately show thesis using that assms(4) by (auto simp: finishes_def)
qed

lemma process_first:
  assumes a: "small_command a" and m: "small_grants mal" and inv: "rp_clean_inv (enc_command a @ rest) sm w"
    and null: "rb_buf (sm_data sm) = NULL" and net: "w_net w = [Bytes (enc_command a @ rest)]"
    and len: "length (enc_command a @ rest) \<le> 256" and rest: "rest \<noteq> []"
  obtains sm' w' r where "resp_cmd_process_sm mal sm w = returns (RESP_SM_STATUS_MORE, sm', w')"
    "resp_cmd_sm_allocs sm' = Some r" "command_args w' r = Some a" "ra_allocation_count r = 1"
    "rp_clean_inv rest sm' w'" "w_net w' = []"
proof -
  have "clean_step_ok (enc_command a @ rest) w (rp_clean mal sm w)"
    by (rule step_clean[OF inv m]) (rule enc_command_head(2))
  moreover have "w_net w' = []" if "rp_clean mal sm w = Ok (n, sm', w')" for n sm' w'
    by (rule clean_takes_all[OF null net enc_command_head(1) len that])
  ultimately obtain sm1 w1 where go: "rp_clean mal sm w = Ok (Goto L_ARY_START, sm1, w1)"
      "rp_inv L_ARY_START a rest 0 sm1 w1" "w_net w1 = []"
    using enc_command_head(1) by (auto simp: clean_step_ok_def rp_inv_def) blast+
  obtain s sm' w' where r: "rp_run mal L_ARY_START sm1 w1 = returns (s, sm', w')" "finishes a rest w1 s sm' w'"
    "w_net w' = []"
    by (rule run_no_wait[OF a m go(2,3)])
  have p: "resp_cmd_process_sm mal sm w = returns (s, sm', w')"
    using inv go(1) r(1) by (simp add: rp_clean_inv_def resp_cmd_process_sm_def rp_run.simps[of mal L_CLEAN])
  have clean: "rp_clean_inv rest sm' w'" using r(2) by (simp add: finishes_def)
  then have "rb_buf (sm_data sm') \<noteq> NULL" using r(3) rest by (cases "rb_buf (sm_data sm') = NULL") (simp_all add: rp_clean_inv_def)
  then have "s = RESP_SM_STATUS_MORE" using r(2) by (auto simp: finishes_def)
  then show thesis using that p r(2,3) clean by (auto simp: finishes_def)
qed

lemma process_last:
  assumes b: "small_command b" and m: "small_grants mal" and inv: "rp_clean_inv (enc_command b) sm w"
    and net: "w_net w = []"
  obtains sm' w' r where "resp_cmd_process_sm mal sm w = returns (RESP_SM_STATUS_DONE, sm', w')"
    "resp_cmd_sm_allocs sm' = Some r" "command_args w' r = Some b"
proof -
  have "rp_ready b [] sm w" using inv by (simp add: rp_ready_def)
  with b m show thesis
    by (cases rule: process_ready) (use net that in auto)
qed

section \<open>Property\<close>

text \<open>
  C35. Two commands that arrive in one segment are not run in the order they were sent: the call of
  \<open>packet_reciever\<close> puts the first with ticket 0 into the pipe, and the thread then runs the second, with
  ticket 1, at once.  The replies keep the order of the tickets; what the second command sees is the store
  before the first.
\<close>

theorem pipelined_pair_runs_backwards:
  assumes "small_grants (en_malloc env)" and "small_command a" and "small_command b" and "b \<noteq> []"
    and "length (enc_command a @ enc_command b) \<le> 256"
  shows "\<exists>w1 w2 ra rb.
           packet_reciever env (worker_start s fd [Bytes (enc_command a @ enc_command b)]) = packet_reciever env w1 \<and>
           wk_pipe w1 = [(Some ra, 0)] \<and> command_args (wk_mem w1) ra = Some a \<and>
           packet_reciever env w1 = returns (PR_DONE, w2) \<and>
           wk_pipe w2 = [(Some ra, 0)] \<and> command_args (wk_mem w2) rb = Some b \<and>
           rs_table (wk_state w2) = rs_table s \<and>
           onestep_read env (worker_start s fd [Bytes (enc_command a @ enc_command b)]) =
             bind_run (run_ticket env (Some rb) 1 (w2\<lparr>wk_window := [None, None]\<rparr>)) (\<lambda>w. returns (PR_DONE, w))"
proof -
  let ?S = "enc_command a @ enc_command b"
  let ?w = "worker_start s fd [Bytes ?S]"
  have b: "enc_command b \<noteq> []" by (simp add: enc_command_def enc_head_def)
  have w: "wk_mem ?w = (rs_mem s)\<lparr>w_net := [Bytes ?S]\<rparr>" "wk_sm ?w = resp_sm_init 0 0 fd ()"
    "wk_window ?w = []" "wk_pipe ?w = []" "wk_head ?w = 0"
    by (simp_all add: worker_start_def wk_mem_def)
  have inv: "rp_clean_inv ?S (wk_sm ?w) (wk_mem ?w)" and null: "rb_buf (sm_data (wk_sm ?w)) = NULL"
    by (simp_all add: w rp_clean_inv_def resp_sm_init_def)
  have net: "w_net (wk_mem ?w) = [Bytes ?S]" by (simp add: w)
  obtain sm1 m1 ra where p1: "resp_cmd_process_sm (en_malloc env) (wk_sm ?w) (wk_mem ?w) =
        returns (RESP_SM_STATUS_MORE, sm1, m1)"
    "resp_cmd_sm_allocs sm1 = Some ra" "command_args m1 ra = Some a" "ra_allocation_count ra = 1"
    "rp_clean_inv (enc_command b) sm1 m1" "w_net m1 = []"
    by (rule process_first[OF assms(2,1) inv null net assms(5) b])
  obtain sm2 m2 rb where p2: "resp_cmd_process_sm (en_malloc env) sm1 m1 = returns (RESP_SM_STATUS_DONE, sm2, m2)"
    "resp_cmd_sm_allocs sm2 = Some rb" "command_args m2 rb = Some b"
    by (rule process_last[OF assms(3,1) p1(5,6)])
  have "int (length b) = ra_argc rb"
    using p2(3) zip_args_texts by (fastforce simp: command_args_def resp_cmd_args_def split: option.splits if_splits)
  then have argc: "\<not> ra_argc rb < 1" using assms(4) by (cases b) auto
  define w1 where "w1 = (with_mem m1 (?w\<lparr>wk_sm := sm1\<rparr>))\<lparr>wk_window := [None], wk_pipe := [(Some ra, 0)]\<rparr>"
  define w2 where "w2 = with_mem m2 (w1\<lparr>wk_sm := sm2\<rparr>)"
  have step1: "packet_reciever env ?w = packet_reciever env w1"
    unfolding packet_reciever.simps[of env ?w] using p1(1,2) w
    by (simp add: take_ticket_def w1_def with_mem_def)
  have w1: "wk_mem w1 = m1" "wk_sm w1 = sm1" by (simp_all add: w1_def wk_mem_def with_mem_def)
  have step2: "packet_reciever env w1 = returns (PR_DONE, w2)"
    unfolding packet_reciever.simps[of env w1] using p2(1,2) argc w1 by (simp add: w2_def)
  have w2: "wk_sm w2 = sm2" "wk_mem w2 = m2" "wk_window w2 = [None]" "wk_head w2 = 0" "wk_pipe w2 = [(Some ra, 0)]"
    "rs_table (wk_state w2) = rs_table s"
    by (simp_all add: w2_def w1_def wk_mem_def with_mem_def worker_start_def)
  have "onestep_read env ?w =
      bind_run (run_ticket env (Some rb) 1 (w2\<lparr>wk_window := [None, None]\<rparr>)) (\<lambda>w. returns (PR_DONE, w))"
    unfolding onestep_read_def step1 step2 using p2(2) w2 by (simp add: take_ticket_def)
  then show ?thesis
    using step1 step2 p1(3) p2(3) w1 w2 by (intro exI[of _ w1] exI[of _ w2] exI[of _ ra] exI[of _ rb]) (simp add: w1_def)
qed

text \<open>\<open>SET a b\<close> and \<open>GET a\<close>.\<close>

theorem pipelined_pair_runs_backwards_witness:
  "\<exists>s w2 ra rb. server_start calm_server = returns s \<and> wk_pipe w2 = [(Some ra, 0)] \<and> command_args (wk_mem w2) rb = Some [[71, 69, 84], [97]] \<and>
     onestep_read calm_server (worker_start s 5
         [Bytes (enc_command [[83, 69, 84], [97], [98]] @ enc_command [[71, 69, 84], [97]])]) =
       bind_run (run_ticket calm_server (Some rb) 1 (w2\<lparr>wk_window := [None, None]\<rparr>)) (\<lambda>w. returns (PR_DONE, w))"
proof -
  obtain s where "server_start calm_server = returns s" by (rule server_start_ok[OF roomy_calm])
  moreover have "small_grants (en_malloc calm_server)" by (simp add: small_grants_def calm_server_def)
  moreover have "small_command [[83, 69, 84], [97], [98]]" "small_command [[71, 69, 84], [97]]"
    "length (enc_command [[83, 69, 84], [97], [98]] @ enc_command [[71, 69, 84], [97]]) \<le> 256"
    by (simp_all add: small_command_def enc_command_def enc_head_def enc_arg_def dec.simps)
  ultimately show ?thesis
    using pipelined_pair_runs_backwards[of calm_server "[[83, 69, 84], [97], [98]]" "[[71, 69, 84], [97]]" s 5] by blast
qed

end
