(* ===== verification/Runner_Faults.thy ===== *)
theory Runner_Faults
  imports Worker_Map
begin

text \<open>
  What the runner does to requests that do not fit: a key of another type is refused, an argument too many
  and a deletion of a key that is not there make it read where it must not.
\<close>

section \<open>A key of another type\<close>

lemma fetch_readonly_wrong:
  assumes map: "ht_map J (rs_table s) tm"
    and key: "key_at argv lens v s = Ok (Some (k @ r), of_nat (length k))" "key_ok J k"
    and d: "tm k = Some d" "obj_at d s = Ok (O_typed ty' e)" and ty: "wanted_type fs v = Ok (Some ty)" "ty' \<noteq> Some ty"
  shows "\<exists>v'. fetch_readonly fs argv lens v s =
      returns (v', with_ctx (\<lambda>c. replyBulkString c null_str (- 1)) (with_ctx (\<lambda>c. replyError c (Lit (ascii ''ERR WRONGTYPE''))) s)) \<and>
      rv_error_happened v' \<and> rv_error_resolved v' \<and> rv_i v' = rv_i v"
proof -
  obtain a where run: "ht_find (rs_table s) (Some (k @ r)) (of_nat (length k)) = returns (HT_GOOD, a)"
    and a: "ht_slot (rs_table s) a = Some d"
    using ht_find_map[OF map key_arg_prefix[OF key(2)], of r] d(1) by auto
  have "ht_read_slot (rs_table s) a = Ok d" using a by (rule ht_read_slot_value)
  moreover have "typed_at d s = Ok (ty', e)" using d(2) by (simp add: typed_at_def)
  ultimately show ?thesis
    using run key(1) ty by (simp add: fetch_readonly_def nil_on_error_def Let_def set_arg_def)
qed

lemma fetch_create_wrong:
  assumes env: "plenty J env" and map: "ht_map J (rs_table s) tm" and cnt: "unat (ht_element_count (rs_table s)) < 2 ^ 30"
    and key: "key_at argv lens v s = Ok (Some (k @ r), of_nat (length k))" "key_ok J k"
    and d: "tm k = Some d" "obj_at d s = Ok (O_typed ty' e)" and ty: "wanted_type fs v = Ok (Some ty)" "ty' \<noteq> Some ty"
  shows "\<exists>v' t'. fetch_create env fs argv lens v s =
      returns (v', with_ctx (\<lambda>c. replyError c (Lit (ascii ''ERR WRONGTYPE''))) (s\<lparr>rs_table := t'\<rparr>)) \<and>
      rv_error_happened v' \<and> rv_error_resolved v' \<and> rv_i v' = rv_i v \<and> ht_map J t' tm"
proof -
  have e: "env_junk (en_ht env) \<in> J" "env_ok (en_ht env) KeyCopy" using env by (simp_all add: plenty_def)
  obtain t' st a where run: "ht_store (en_ht env) (rs_table s) (Some (k @ r)) (of_nat (length k)) NULL = returns (t', st, a)"
    and out: "store_outcome J (en_ht env) (rs_table s) tm k NULL t' st a"
    using ht_store_map[OF map key_arg_prefix[OF key(2)] e cnt] by blast
  have st: "st = HT_DUPLICATE_KEY" using out d(1) env by (cases st) (auto simp: store_outcome_def plenty_def)
  have "d \<noteq> NULL" using obj_at_bound[OF d(2)] by simp
  moreover have "ht_read_slot t' a = Ok d" using out st d(1) by (intro ht_read_slot_value) (simp add: store_outcome_def)
  moreover have "typed_at d (s\<lparr>rs_table := t'\<rparr>) = Ok (ty', e)" using d(2) by (simp add: typed_at_def)
  ultimately show ?thesis
    using run out st key(1) ty by (auto simp: fetch_create_def store_outcome_def set_arg_def)
qed

lemma fetch_loop_set_error:
  assumes "fetch_create env (set_format ty) argv lens (first_vars 2) s = returns (v1, s1)" and "rv_error_happened v1"
  shows "fetch_loop env (set_format ty) 2 argv lens (start_vars 2) s = returns (v1, s1)"
proof -
  have "fetch_arg env (set_format ty) 2 argv lens (start_vars 2) s = returns (v1, s1)"
    using assms(1)
    by (simp add: fetch_arg_def first_vars_def[symmetric] set_format_def fs_node_at_def elem_at_def)
      (simp add: start_vars_def)
  then show ?thesis using assms(2) by (subst fetch_loop.simps) (simp add: start_vars_def)
qed

lemma two_replies:
  assumes "cx_needs_reply c"
  shows "fst (replyBulkString (fst (replyError c x)) y i) = fst (replyError c x)"
  using assms by (simp add: replyBulkString_def replyError_def)

lemma wanted_types [simp]:
  "wanted_type (set_format ty) (first_vars n) = Ok (Some ty)"
  "wanted_type (get_format ty) (first_vars n) = Ok (Some ty)"
  by (simp_all add: wanted_type_def fs_node_at_def elem_at_def set_format_def get_format_def details_type_def)

text \<open>The key of a request in memory.\<close>

lemma first_key:
  assumes "text_at (rs_mem s) (ps ! 0) k" and "ps \<noteq> []" and "lens \<noteq> []" and "lens ! 0 = Some (int (length k))"
  obtains r where "key_at (map Some ps) lens (first_vars n) s = Ok (Some (k @ r), of_nat (length k))"
  by (rule key_at_ok[of "map Some ps" "first_vars n" "ps ! 0" lens k s])
    (use assms in \<open>simp_all add: slot_def elem_at_def known_def\<close>)

text \<open>From the request to the loop over its arguments.\<close>

lemma run_command_set:
  assumes ty: "serves ty (rs_commands s)" and req: "request (ascii ''SET'' # k # v # rest) allocs (rs_mem s)"
  obtains ps where "length ps = length (k # v # rest)"
    "\<And>i. i < length (k # v # rest) \<Longrightarrow> text_at (rs_mem s) (ps ! i) ((k # v # rest) ! i)"
    "run_command env allocs s = run_normal env (set_format ty) (Some Command_set) (of_nat (length (k # v # rest)))
       (map Some ps) (map (\<lambda>a. Some (int (length a))) (k # v # rest)) s"
proof -
  have fetch: "command_ht_fetch (rs_commands s) (ascii ''SET'') (of_nat (length (ascii ''SET''))) =
      returns (0, Some (Some (FsAt (set_format ty)), Some Command_set, False))"
    using ty by (simp add: serves_def)
  obtain ps where ps: "length ps = length (k # v # rest)"
    "\<And>i. i < length (k # v # rest) \<Longrightarrow> text_at (rs_mem s) (ps ! i) ((k # v # rest) ! i)"
    and run: "run_command env allocs s = run_found env (Some (FsAt (set_format ty)), Some Command_set, False)
       (of_nat (Suc (length (k # v # rest)))) (map Some ps) (map (\<lambda>a. Some (int (length a))) (k # v # rest)) s"
    by (rule run_command_found[OF req fetch]) auto
  have "length rest + 3 < 2 ^ 31" using req by (simp add: request_def)
  then have n: "unat (of_nat (length rest + 3) :: u64) = length rest + 3" by (subst unat_of_nat) simp
  have len: "Suc (length (k # v # rest)) = length rest + 3" by simp
  have "unat (fs_length (set_format ty) + fs_optional_argument_count (set_format ty) + 1) = 3"
    by (simp add: set_format_def)
  then have "\<not> unat (fs_length (set_format ty) + fs_optional_argument_count (set_format ty) + 1)
      > unat (of_nat (Suc (length (k # v # rest))) :: u64)"
    unfolding len n by simp
  then show thesis using that[OF ps] run by (simp add: run_found_def)
qed

lemma run_command_get:
  assumes ty: "serves ty (rs_commands s)" and req: "request [ascii ''GET'', k] allocs (rs_mem s)"
  obtains ps where "length ps = 1" "text_at (rs_mem s) (ps ! 0) k"
    "run_command env allocs s = run_normal env (get_format ty) (Some Command_get) 1
       (map Some ps) [Some (int (length k))] s"
proof -
  have fetch: "command_ht_fetch (rs_commands s) (ascii ''GET'') (of_nat (length (ascii ''GET''))) =
      returns (0, Some (Some (FsAt (get_format ty)), Some Command_get, False))"
    using ty by (simp add: serves_def)
  obtain ps where ps: "length ps = length [k]" "\<And>i. i < length [k] \<Longrightarrow> text_at (rs_mem s) (ps ! i) ([k] ! i)"
    and run: "run_command env allocs s = run_found env (Some (FsAt (get_format ty)), Some Command_get, False)
       (of_nat (Suc (length [k]))) (map Some ps) (map (\<lambda>a. Some (int (length a))) [k]) s"
    by (rule run_command_found[OF req fetch]) auto
  show thesis using that[of ps] ps(1) ps(2)[of 0] run by (simp add: run_found_def get_format_def)
qed

text \<open>The refusals, inside the runner.\<close>

lemma get_refused:
  assumes env: "plenty J env" and map: "ht_map J (rs_table s) tm" and owes: "cx_needs_reply (rs_ctx s)"
    and d: "tm k = Some d" "obj_at d s = Ok (O_typed ty' e)" "ty' \<noteq> Some ty" and k: "key_ok J k"
    and ps: "length ps = 1" "text_at (rs_mem s) (ps ! 0) k"
  shows "\<exists>s'. run_normal env (get_format ty) (Some Command_get) 1 (map Some ps) [Some (int (length k))] s = returns s' \<and>
      rs_ctx s' = fst (replyError (rs_ctx s) (Lit (ascii ''ERR WRONGTYPE''))) \<and>
      ht_map J (rs_table s') tm \<and> rs_objs s' = rs_objs s"
proof -
  define s0 where "s0 = s\<lparr>rs_gc := gc_lock (rs_gc s)\<rparr>"
  have s0: "rs_table s0 = rs_table s" "rs_ctx s0 = rs_ctx s" "rs_objs s0 = rs_objs s" "text_at (rs_mem s0) (ps ! 0) k"
    "obj_at d s0 = Ok (O_typed ty' e)"
    using ps(2) d(2) by (simp_all add: s0_def)
  obtain r where key: "key_at (map Some ps) [Some (int (length k))] (first_vars 1) s0 = Ok (Some (k @ r), of_nat (length k))"
    by (rule first_key[OF s0(4), of "[Some (int (length k))]" 1]) (use ps(1) in auto)
  obtain v where v: "fetch_readonly (get_format ty) (map Some ps) [Some (int (length k))] (first_vars 1) s0 =
      returns (v, with_ctx (\<lambda>c. replyBulkString c null_str (- 1)) (with_ctx (\<lambda>c. replyError c (Lit (ascii ''ERR WRONGTYPE''))) s0))"
    "rv_error_happened v" "rv_error_resolved v" "rv_i v = 0"
    using fetch_readonly_wrong[OF map[folded s0(1)] key k d(1) s0(5) wanted_types(2) d(3)] by auto
  have "fetch_loop env (get_format ty) 1 (map Some ps) [Some (int (length k))] (start_vars 1) s0 =
      returns (v, with_ctx (\<lambda>c. replyBulkString c null_str (- 1)) (with_ctx (\<lambda>c. replyError c (Lit (ascii ''ERR WRONGTYPE''))) s0))"
    using fetch_loop_get[OF v(1,4)] v(2) by simp
  from run_normal_resolved[OF env _ this[unfolded s0_def] v(2,3)] show ?thesis
    using s0(1-3) map owes by (simp add: with_ctx_def two_replies flip: s0_def)
qed

lemma set_refused:
  assumes env: "plenty J env" and map: "ht_map J (rs_table s) tm" and cnt: "unat (ht_element_count (rs_table s)) < 2 ^ 30"
    and d: "tm k = Some d" "obj_at d s = Ok (O_typed ty' e)" "ty' \<noteq> Some ty" and k: "key_ok J k"
    and ps: "length ps = 2" "text_at (rs_mem s) (ps ! 0) k"
  shows "\<exists>s'. run_normal env (set_format ty) (Some Command_set) 2 (map Some ps)
        [Some (int (length k)), Some (int (length x))] s = returns s' \<and>
      rs_ctx s' = fst (replyError (rs_ctx s) (Lit (ascii ''ERR WRONGTYPE''))) \<and>
      ht_map J (rs_table s') tm \<and> rs_objs s' = rs_objs s"
proof -
  let ?lens = "[Some (int (length k)), Some (int (length x))]"
  define s0 where "s0 = s\<lparr>rs_gc := gc_lock (rs_gc s)\<rparr>"
  have s0: "rs_table s0 = rs_table s" "rs_ctx s0 = rs_ctx s" "rs_objs s0 = rs_objs s" "text_at (rs_mem s0) (ps ! 0) k"
    "obj_at d s0 = Ok (O_typed ty' e)"
    using ps(2) d(2) by (simp_all add: s0_def)
  obtain r where key: "key_at (map Some ps) ?lens (first_vars 2) s0 = Ok (Some (k @ r), of_nat (length k))"
    by (rule first_key[OF s0(4), of ?lens 2]) (use ps(1) in auto)
  obtain v t' where v: "fetch_create env (set_format ty) (map Some ps) ?lens (first_vars 2) s0 =
      returns (v, with_ctx (\<lambda>c. replyError c (Lit (ascii ''ERR WRONGTYPE''))) (s0\<lparr>rs_table := t'\<rparr>))"
    "rv_error_happened v" "rv_error_resolved v" "ht_map J t' tm"
    using fetch_create_wrong[OF env map[folded s0(1)] cnt[folded s0(1)] key k d(1) s0(5) wanted_types(1) d(3)] by auto
  note loop = fetch_loop_set_error[OF v(1,2)]
  from run_normal_resolved[OF env _ loop[unfolded s0_def] v(2,3)] show ?thesis
    using s0(2,3) v(4) by (simp add: with_ctx_def flip: s0_def)
qed

section \<open>Properties\<close>

text \<open>
  C4. Types are checked before a command sees a value: \<open>GET\<close> and \<open>SET\<close> of a key (one the table can hold) whose data has
  another type than strings are answered \<open>ERR WRONGTYPE\<close>, once; the table still holds the same keys with the same
  pointers to data, and no object changes.  (A refused \<open>SET\<close> may have made the table larger before it found the key.)
  This is for a server whose allocations are granted and a table of fewer than \<open>2 ^ 30\<close> elements.
\<close>

theorem wrong_type_is_refused:
  assumes env: "plenty J env" and ty: "serves ty (rs_commands s)"
    and map: "ht_map J (rs_table s) tm" and cnt: "unat (ht_element_count (rs_table s)) < 2 ^ 30"
    and d: "tm k = Some d" "obj_at d s = Ok (O_typed ty' e)" "ty' \<noteq> Some ty" and k: "key_ok J k"
    and req: "args = [ascii ''GET'', k] \<or> args = [ascii ''SET'', k, x]" "request args allocs (rs_mem s)"
  shows "\<exists>s'. runner env allocs s = returns s' \<and> committed s (PRE_SEND_ERR (Lit (ascii ''ERR WRONGTYPE''))) s' \<and>
           ht_map J (rs_table s') tm \<and> rs_objs s' = rs_objs s"
proof -
  define s0 where "s0 = s\<lparr>rs_ctx := (rs_ctx s)\<lparr>cx_needs_reply := True\<rparr>\<rparr>"
  have s0: "rs_table s0 = rs_table s" "rs_commands s0 = rs_commands s" "rs_mem s0 = rs_mem s" "rs_objs s0 = rs_objs s"
    "rs_ctx s0 = (rs_ctx s)\<lparr>cx_needs_reply := True\<rparr>" "obj_at d s0 = Ok (O_typed ty' e)"
    using d(2) by (simp_all add: s0_def)
  obtain s1 where s1: "run_command env allocs s0 = returns s1" "ht_map J (rs_table s1) tm" "rs_objs s1 = rs_objs s"
    "rs_ctx s1 = fst (replyError (rs_ctx s0) (Lit (ascii ''ERR WRONGTYPE'')))"
    using req(1)
  proof
    assume args: "args = [ascii ''GET'', k]"
    obtain ps where ps: "length ps = 1" "text_at (rs_mem s0) (ps ! 0) k"
      and run: "run_command env allocs s0 = run_normal env (get_format ty) (Some Command_get) 1 (map Some ps) [Some (int (length k))] s0"
      by (rule run_command_get[where env = env and ty = ty and s = s0 and k = k and allocs = allocs]) (use ty req(2) args s0 in simp_all)
    show thesis
      using get_refused[OF env map[folded s0(1)] _ d(1) s0(6) d(3) k ps] run that s0(4,5) by auto
  next
    assume args: "args = [ascii ''SET'', k, x]"
    obtain ps where ps: "length ps = length [k, x]"
        "\<And>i. i < length [k, x] \<Longrightarrow> text_at (rs_mem s0) (ps ! i) ([k, x] ! i)"
      and run: "run_command env allocs s0 = run_normal env (set_format ty) (Some Command_set) (of_nat (length [k, x]))
         (map Some ps) (map (\<lambda>a. Some (int (length a))) [k, x]) s0"
      by (rule run_command_set[where env = env and ty = ty and s = s0 and k = k and v = x and rest = "[]" and allocs = allocs]) (use ty req(2) args s0 in simp_all)
    have "length ps = 2" "text_at (rs_mem s0) (ps ! 0) k" using ps(1) ps(2)[of 0] by simp_all
    from set_refused[OF env map[folded s0(1)] cnt[folded s0(1)] d(1) s0(6) d(3) k this, of x]
    show thesis using run that s0(4) by auto
  qed
  have "\<not> cx_needs_reply (rs_ctx s1)" using s1(4) by simp
  then have "runner env allocs s = returns s1"
    using runner_replied[OF s1(1)[unfolded s0_def]] req(2) by (simp add: request_def)
  then show ?thesis
    using s1(2-4) by (auto simp: committed_def replyError_def s0_def)
qed

text \<open>A key \<open>a\<close> whose data has the type with index 7.\<close>

theorem wrong_type_is_refused_witness:
  "\<exists>s s'. runner calm_server (request_of [ascii ''GET'', [97]]) s = returns s' \<and>
     committed s (PRE_SEND_ERR (Lit (ascii ''ERR WRONGTYPE''))) s' \<and> rs_objs s' = [O_typed (Some 7) NULL]"
proof -
  obtain b :: rn_state where b: "plenty {0} calm_server" "serves 252 (rs_commands b)"
    by (rule fresh_server[where m = "memory_of []"])
  obtain t :: "addr ht_table" where t: "ht_init calm_env True = Ok (Some t)"
    "ht_map {0} t Map.empty" "ht_element_count t = 0"
    using ht_init_map[of calm_env True] by auto
  have "key_arg {0} [97] 1 [97]" using key_ok_a by (simp add: key_arg_def)
  then obtain t' st a where "store_outcome {0} calm_env t Map.empty [97] (1 :: addr) t' st a"
    using ht_store_map[OF t(2), of "[97]" 1 "[97]" calm_env 1] t(3) by auto
  then have t': "ht_map {0} t' [[97] \<mapsto> 1]" "ht_element_count t' = 1"
    using t(3) by (auto simp: store_outcome_def split: ht_status.splits)
  let ?args = "[ascii ''GET'', [97]]"
  let ?s = "b\<lparr>rs_table := t', rs_objs := [O_typed (Some 7) NULL], rs_mem := memory_of ?args\<rparr>"
  have "\<exists>s'. runner calm_server (request_of ?args) ?s = returns s' \<and>
      committed ?s (PRE_SEND_ERR (Lit (ascii ''ERR WRONGTYPE''))) s' \<and>
      ht_map {0} (rs_table s') [[97] \<mapsto> 1] \<and> rs_objs s' = rs_objs ?s"
    by (rule wrong_type_is_refused[where ty = 252 and d = 1 and ty' = "Some 7" and e = NULL and k = "[97]"
          and x = "[]" and args = ?args])
      (use b t' key_ok_a request_of_ok[of ?args] in \<open>simp_all add: obj_at_def\<close>)
  then show ?thesis by auto
qed

text \<open>
  C36. One argument too many and the runner reads the format behind its end: the bound of the loop is off by one, so
  \<open>SET k v x\<close> faults on every store of strings, whether or not
  it has the key, on a server whose allocations are granted.  The strings have no NUL and fewer than \<open>2 ^ 30\<close> bytes.  The key is
  one the table can hold, and the table has fewer than \<open>2 ^ 30\<close> elements.  (A key with a value of another type is refused
  before the loop gets that far.)
\<close>

theorem extra_argument_reads_past_the_format:
  assumes rep: "server_rep J ty env s m" and load: "server_load s < 2 ^ 30" and k: "key_ok J k"
    and req: "request [ascii ''SET'', k, v, x] allocs (rs_mem s)"
  shows "runner env allocs s = faults OutOfBounds"
proof -
  define s0 where "s0 = s\<lparr>rs_ctx := (rs_ctx s)\<lparr>cx_needs_reply := True\<rparr>\<rparr>"
  define s1 where "s1 = s0\<lparr>rs_gc := gc_lock (rs_gc s0)\<rparr>"
  have env: "plenty J env" and ty: "serves ty (rs_commands s0)" using rep by (simp_all add: server_rep_def s0_def)
  obtain tm where map: "ht_map J (rs_table s1) tm" and vals: "db_values ty s1 tm m"
    using rep by (auto simp: server_rep_def db_rel_def s1_def s0_def)
  have cnt: "unat (ht_element_count (rs_table s1)) < 2 ^ 30" using load by (simp add: s1_def s0_def)
  obtain ps where ps: "length ps = length (k # v # [x])"
      "\<And>i. i < length (k # v # [x]) \<Longrightarrow> text_at (rs_mem s0) (ps ! i) ((k # v # [x]) ! i)"
    and run: "run_command env allocs s0 = run_normal env (set_format ty) (Some Command_set) (of_nat (length (k # v # [x])))
         (map Some ps) (map (\<lambda>a. Some (int (length a))) (k # v # [x])) s0"
    by (rule run_command_set[where env = env and ty = ty and s = s0 and k = k and v = v and rest = "[x]" and allocs = allocs])
      (use ty req in \<open>simp_all add: s0_def\<close>)
  let ?lens = "map (\<lambda>a. Some (int (length a))) (k # v # [x])"
  obtain r where key: "key_at (map Some ps) ?lens (first_vars 3) s1 = Ok (Some (k @ r), of_nat (length k))"
    by (rule first_key[of s1 ps k ?lens 3]) (use ps(1) ps(2)[of 0] in \<open>auto simp: s1_def\<close>)
  obtain d a f s2 where fc: "fetch_create env (set_format ty) (map Some ps) ?lens (first_vars 3) s1 =
      returns (set_members d a (set_arg f (first_vars 3)), s2)"
  proof (cases "tm k")
    case None
    then show thesis using fetch_create_new[OF env map cnt key k None wanted_types(1)] that by blast
  next
    case (Some d)
    obtain w where "string_value ty s1 d w" using db_values_value[OF vals Some] by blast
    then obtain e where "obj_at d s1 = Ok (O_typed (Some ty) e)" by (auto simp: string_value_def)
    then show thesis using fetch_create_old[OF env map cnt key k Some _ wanted_types(1)] that by blast
  qed
  let ?v1 = "set_members d a (set_arg f (first_vars 3))"
  let ?v2 = "?v1\<lparr>rv_index := 1, rv_i := 1\<rparr>"
  let ?v3 = "(set_arg (\<lambda>x. x\<lparr>pa_ht_value := Some NULL, pa_data := Some NULL\<rparr>) ?v2)\<lparr>rv_index := 2, rv_i := 2\<rparr>"
  have 1: "fetch_arg env (set_format ty) 3 (map Some ps) ?lens (start_vars 3) s1 = returns (?v1, s2)"
    using fc by (simp add: fetch_arg_def first_vars_def[symmetric] set_format_def fs_node_at_def elem_at_def)
      (simp add: start_vars_def)
  have 2: "fetch_arg env (set_format ty) 3 (map Some ps) ?lens ?v2 s2 =
      returns (set_arg (\<lambda>x. x\<lparr>pa_ht_value := Some NULL, pa_data := Some NULL\<rparr>) ?v2, s2)"
    by (simp add: fetch_arg_def set_format_def fs_node_at_def elem_at_def var_defs)
  have 3: "fetch_arg env (set_format ty) 3 (map Some ps) ?lens ?v3 s2 = faults OutOfBounds"
    by (simp add: fetch_arg_def set_format_def fs_node_at_def elem_at_def var_defs)
  have "\<not> rv_error_happened ?v1" "rv_i ?v1 = 0" "rv_index ?v1 = 0" by (simp_all add: var_defs)
  then have "fetch_loop env (set_format ty) 3 (map Some ps) ?lens (start_vars 3) s1 =
      fetch_loop env (set_format ty) 3 (map Some ps) ?lens ?v2 s2"
    using 1 by (subst fetch_loop.simps) (simp add: start_vars_def)
  also have "\<dots> = fetch_loop env (set_format ty) 3 (map Some ps) ?lens ?v3 s2"
    using 2 by (subst fetch_loop.simps) (simp add: var_defs)
  also have "\<dots> = faults OutOfBounds"
    using 3 by (subst fetch_loop.simps) (simp add: var_defs)
  finally have "run_normal env (set_format ty) (Some Command_set) 3 (map Some ps) ?lens s0 = faults OutOfBounds"
    using env data_array_small[of 3 env]
    by (simp add: run_normal_def start_vars_def plenty_def Let_def s1_def)
  then show ?thesis using run by (simp add: runner_def s0_def)
qed

theorem extra_argument_reads_past_the_format_witness:
  "\<exists>s. server_start calm_server = returns s \<and>
     runner calm_server (request_of [ascii ''SET'', [97], [98], [99]])
       (s\<lparr>rs_mem := memory_of [ascii ''SET'', [97], [98], [99]]\<rparr>) = faults OutOfBounds"
proof -
  obtain s where s: "server_start calm_server = returns s"
    "server_rep {0} 252 calm_server (s\<lparr>rs_mem := memory_of [ascii ''SET'', [97], [98], [99]]\<rparr>) Map.empty"
    "server_load (s\<lparr>rs_mem := memory_of [ascii ''SET'', [97], [98], [99]]\<rparr>) = 0"
    by (rule fresh_server)
  then show ?thesis
    using extra_argument_reads_past_the_format[OF s(2) _ key_ok_a request_of_okI] by simp
qed



end
