(* ===== verification/Timer.thy ===== *)
theory Timer
  imports Resp_Parser "HOL-Library.Multiset"
begin

text \<open>
  \<^verbatim>\<open>lib/timer.c\<close>: the segments of time each thread records, and \<open>timer_print\<close>, which merges them.  The list
  of timers and the doubly linked list of the blocks of a timer are lists, the current block last; a
  reading of the clock is an argument.
\<close>

section \<open>Times\<close>

datatype timespec = Timespec (tv_sec: int) (tv_nsec: int)

definition timespec_lt :: "timespec \<Rightarrow> timespec \<Rightarrow> bool" where
  "timespec_lt a b = (if tv_sec a = tv_sec b then tv_nsec a < tv_nsec b else tv_sec a < tv_sec b)"

instantiation timespec :: linorder
begin

definition less_timespec :: "timespec \<Rightarrow> timespec \<Rightarrow> bool" where
  "less_timespec a b \<longleftrightarrow> timespec_lt a b"

definition less_eq_timespec :: "timespec \<Rightarrow> timespec \<Rightarrow> bool" where
  "less_eq_timespec a b \<longleftrightarrow> \<not> timespec_lt b a"

instance
proof
  fix a b c :: timespec
  show "a < b \<longleftrightarrow> a \<le> b \<and> \<not> b \<le> a"
    by (auto simp: less_timespec_def less_eq_timespec_def timespec_lt_def)
  show "a \<le> a" by (simp add: less_eq_timespec_def timespec_lt_def)
  show "a \<le> b \<Longrightarrow> b \<le> c \<Longrightarrow> a \<le> c"
    by (auto simp: less_eq_timespec_def timespec_lt_def split: if_splits)
  show "a \<le> b \<Longrightarrow> b \<le> a \<Longrightarrow> a = b"
    by (cases a; cases b) (auto simp: less_eq_timespec_def timespec_lt_def split: if_splits)
  show "a \<le> b \<or> b \<le> a"
    by (auto simp: less_eq_timespec_def timespec_lt_def)
qed

end

section \<open>Segments and blocks\<close>

datatype thread_type = THREAD_RECIEVER | THREAD_RUNNER | THREAD_SENDER

datatype interval_type = INTERVAL_QUEUE | INTERVAL_RUNNING

text \<open>The union with its tag; the end of an interval is unset until it is stopped.\<close>

datatype timing_data =
    SEGMENT_INTERVAL timespec "timespec option"
  | SEGMENT_SUM timespec timespec timespec

record timer_segment =
  seg_data :: timing_data
  seg_tag :: u32
  seg_type :: interval_type

record time_block =
  tb_index :: u32
  tb_size :: u32
  tb_intervals :: "timer_segment option list option"

record timer =
  tm_blocks :: "time_block list"
  tm_pool_id :: int
  tm_type :: thread_type

definition tblock_init :: "grants \<Rightarrow> u32 \<Rightarrow> time_block res" where
  "tblock_init mal interval_count =
     (if \<not> mal 32 then Fault NullDeref
      else Ok \<lparr>tb_index = 0, tb_size = interval_count,
        tb_intervals = (if mal (64 * uint interval_count) then Some (replicate (unat interval_count) None) else None)\<rparr>)"

text \<open>The new timer goes to the end of the list of all timers.\<close>

definition timer_init :: "grants \<Rightarrow> int \<Rightarrow> thread_type \<Rightarrow> timer list \<Rightarrow> (timer \<times> timer list) res" where
  "timer_init mal pool_id ttype timers =
     (if \<not> mal 16 then Fault NullDeref
      else bind_res (tblock_init mal 1024) (\<lambda>b.
        let t = \<lparr>tm_blocks = [b], tm_pool_id = pool_id, tm_type = ttype\<rparr> in Ok (t, timers @ [t])))"

definition timer_room :: "grants \<Rightarrow> timer \<Rightarrow> timer res" where
  "timer_room mal t =
     (if tb_index (last (tm_blocks t)) = tb_size (last (tm_blocks t))
      then bind_res (tblock_init mal 1024) (\<lambda>b. Ok (t\<lparr>tm_blocks := tm_blocks t @ [b]\<rparr>))
      else Ok t)"

text \<open>The segment at the index of the current block is written; the result says where it is.\<close>

definition timer_push :: "timer_segment \<Rightarrow> timer \<Rightarrow> (timer \<times> nat \<times> nat) res" where
  "timer_push seg t =
     (let b = last (tm_blocks t); i = unat (tb_index b) in
      case tb_intervals b of
        None \<Rightarrow> Fault NullDeref
      | Some xs \<Rightarrow>
          if length xs \<le> i then Fault OutOfBounds
          else Ok (t\<lparr>tm_blocks := butlast (tm_blocks t) @
                 [b\<lparr>tb_index := tb_index b + 1, tb_intervals := Some (xs[i := Some seg])\<rparr>]\<rparr>,
                 length (tm_blocks t) - 1, i))"

definition timer_start_interval ::
    "grants \<Rightarrow> timespec \<Rightarrow> timer \<Rightarrow> interval_type \<Rightarrow> u32 \<Rightarrow> (timer \<times> nat \<times> nat) res" where
  "timer_start_interval mal now t itype tag =
     bind_res (timer_room mal t)
       (timer_push \<lparr>seg_data = SEGMENT_INTERVAL now None, seg_tag = tag, seg_type = itype\<rparr>)"

definition timer_start_sum ::
    "grants \<Rightarrow> timespec \<Rightarrow> timer \<Rightarrow> interval_type \<Rightarrow> u32 \<Rightarrow> (timer \<times> nat \<times> nat) res" where
  "timer_start_sum mal now t itype tag =
     bind_res (timer_room mal t)
       (timer_push \<lparr>seg_data = SEGMENT_SUM now now (Timespec 0 0), seg_tag = tag, seg_type = itype\<rparr>)"

section \<open>Stopping and summing\<close>

definition timer_stop :: "timespec \<Rightarrow> timer_segment \<Rightarrow> timer_segment res" where
  "timer_stop now tint =
     (case seg_data tint of
        SEGMENT_INTERVAL s _ \<Rightarrow> Ok (tint\<lparr>seg_data := SEGMENT_INTERVAL s (Some now)\<rparr>)
      | _ \<Rightarrow> Fault AssertFail)"

abbreviation (input) NSECS_IN_SEC :: int where "NSECS_IN_SEC \<equiv> 1000000000"

definition time_diff :: "timespec \<Rightarrow> timespec \<Rightarrow> timespec res" where
  "time_diff cur last_start =
     bind_res (long_op (tv_nsec cur - tv_nsec last_start)) (\<lambda>nsec.
     bind_res (long_op (tv_sec cur - tv_sec last_start)) (\<lambda>sec.
     if nsec < 0 then bind_res (long_op (sec - 1)) (\<lambda>sec. Ok (Timespec sec (nsec + NSECS_IN_SEC)))
     else Ok (Timespec sec nsec)))"

definition time_add :: "timespec \<Rightarrow> timespec \<Rightarrow> timespec res" where
  "time_add acc d =
     bind_res (long_op (tv_sec acc + tv_sec d)) (\<lambda>sec.
     bind_res (long_op (tv_nsec acc + tv_nsec d)) (\<lambda>nsec.
     if NSECS_IN_SEC < nsec then bind_res (long_op (sec + 1)) (\<lambda>sec. Ok (Timespec sec (nsec - NSECS_IN_SEC)))
     else Ok (Timespec sec nsec)))"

definition timer_incr :: "timespec \<Rightarrow> timer_segment \<Rightarrow> timer_segment res" where
  "timer_incr now tint =
     (case seg_data tint of
        SEGMENT_SUM s last_start acc \<Rightarrow>
          bind_res (time_diff now last_start) (\<lambda>d.
          bind_res (time_add acc d) (\<lambda>acc'.
          Ok (tint\<lparr>seg_data := SEGMENT_SUM s now acc'\<rparr>)))
      | _ \<Rightarrow> Fault AssertFail)"

definition timer_restart :: "timespec \<Rightarrow> timer_segment \<Rightarrow> timer_segment res" where
  "timer_restart now tint =
     (case seg_data tint of
        SEGMENT_SUM s _ acc \<Rightarrow> Ok (tint\<lparr>seg_data := SEGMENT_SUM s now acc\<rparr>)
      | _ \<Rightarrow> Fault AssertFail)"

section \<open>Printing\<close>

definition timer_segment_get_start :: "timer_segment \<Rightarrow> timespec" where
  "timer_segment_get_start seg = (case seg_data seg of SEGMENT_SUM s _ _ \<Rightarrow> s | SEGMENT_INTERVAL s _ \<Rightarrow> s)"

definition timer_segment_get_end :: "timer_segment \<Rightarrow> timespec res" where
  "timer_segment_get_end seg =
     (case seg_data seg of
        SEGMENT_SUM _ l _ \<Rightarrow> Ok l
      | SEGMENT_INTERVAL _ e \<Rightarrow> (case e of None \<Rightarrow> Fault UninitRead | Some t \<Rightarrow> Ok t))"

text \<open>Where the printing of a timer is: the block and those after it, none for null, and the index.\<close>

record timer_cursor =
  tp_blocks :: "time_block list"
  tp_pool_id :: int
  tp_thread :: thread_type
  tp_index :: u32

definition cursor_segment :: "timer_cursor \<Rightarrow> timer_segment res" where
  "cursor_segment p =
     (case tp_blocks p of
        [] \<Rightarrow> Fault NullDeref
      | b # _ \<Rightarrow>
          (case tb_intervals b of
             None \<Rightarrow> Fault NullDeref
           | Some xs \<Rightarrow>
               if length xs \<le> unat (tp_index p) then Fault OutOfBounds
               else (case xs ! unat (tp_index p) of None \<Rightarrow> Fault UninitRead | Some s \<Rightarrow> Ok s)))"

text \<open>The earliest of the next segments, and the number of timers that have none.\<close>

fun lowest_scan :: "timer_cursor list \<Rightarrow> timer_cursor list \<Rightarrow> nat \<Rightarrow> nat option \<Rightarrow> nat \<Rightarrow> (nat option \<times> nat) res" where
  "lowest_scan ps [] i lowest nulls = Ok (lowest, nulls)"
| "lowest_scan ps (p # qs) i lowest nulls =
     (if tp_blocks p = [] then lowest_scan ps qs (i + 1) lowest (nulls + 1)
      else case lowest of
        None \<Rightarrow> lowest_scan ps qs (i + 1) (Some i) nulls
      | Some l \<Rightarrow>
          bind_res (cursor_segment p) (\<lambda>a.
          bind_res (cursor_segment (ps ! l)) (\<lambda>b.
          lowest_scan ps qs (i + 1)
            (if timespec_lt (timer_segment_get_start a) (timer_segment_get_start b) then Some i else Some l)
            nulls)))"

definition cursor_next :: "timer_cursor \<Rightarrow> timer_cursor" where
  "cursor_next p =
     (if tp_index p + 1 \<ge> tb_index (hd (tp_blocks p)) then p\<lparr>tp_index := 0, tp_blocks := tl (tp_blocks p)\<rparr>
      else p\<lparr>tp_index := tp_index p + 1\<rparr>)"

text \<open>
  The list of active segments: its nodes (\<open>None\<close> once freed), each with its next, and the head.  The loop
  gives the tags it prints, the nodes, the head and \<open>prev\<close>.
\<close>

type_synonym active_nodes = "(timer_segment \<times> nat option) option list"

record active_list =
  ac_nodes :: active_nodes
  ac_head :: "nat option"

definition active_node :: "active_nodes \<Rightarrow> nat \<Rightarrow> (timer_segment \<times> nat option) res" where
  "active_node nodes i = (case nodes ! i of None \<Rightarrow> Fault UseAfterFree | Some x \<Rightarrow> Ok x)"

definition set_next :: "nat \<Rightarrow> nat option \<Rightarrow> active_nodes \<Rightarrow> active_nodes res" where
  "set_next i nx nodes = bind_res (active_node nodes i) (\<lambda>(s, _). Ok (nodes[i := Some (s, nx)]))"

datatype active_step = Active_done | Active_go active_list "nat option" "nat option" "u32 list"

text \<open>One round of the loop.\<close>

definition active_round ::
    "timespec \<Rightarrow> active_list \<Rightarrow> nat option \<Rightarrow> nat option \<Rightarrow> u32 list \<Rightarrow> active_step res" where
  "active_round start al prev cur tags =
     (case cur of
        None \<Rightarrow> Ok Active_done
      | Some c \<Rightarrow>
          bind_res (active_node (ac_nodes al) c) (\<lambda>(seg, nx).
          bind_res (timer_segment_get_end seg) (\<lambda>e.
          if timespec_lt start e then Ok (Active_go al prev nx (tags @ [seg_tag seg]))
          else case prev of
            None \<Rightarrow> Ok (Active_go (al\<lparr>ac_head := nx\<rparr>) (Some c) nx tags)
          | Some p \<Rightarrow>
              bind_res (set_next p nx (ac_nodes al)) (\<lambda>nodes.
              Ok (Active_go (al\<lparr>ac_nodes := nodes[c := None]\<rparr>) prev nx tags)))))"

partial_function (option) active_loop ::
    "timespec \<Rightarrow> active_list \<Rightarrow> nat option \<Rightarrow> nat option \<Rightarrow> u32 list
       \<Rightarrow> (u32 list \<times> active_list \<times> nat option) run" where
  "active_loop start al prev cur tags =
     (case active_round start al prev cur tags of
        Inl e \<Rightarrow> faults e
      | Inr x \<Rightarrow>
          (case x of
             Active_done \<Rightarrow> returns (tags, al, prev)
           | Active_go al' prev' cur' tags' \<Rightarrow> active_loop start al' prev' cur' tags'))"

declare active_loop.simps [code]

definition active_add :: "grants \<Rightarrow> timer_segment \<Rightarrow> nat option \<Rightarrow> active_list \<Rightarrow> active_list res" where
  "active_add mal seg prev al =
     (if \<not> mal 16 then Fault NullDeref
      else
        let new = length (ac_nodes al); al' = al\<lparr>ac_nodes := ac_nodes al @ [Some (seg, None)]\<rparr> in
        case prev of
          None \<Rightarrow> Ok (al'\<lparr>ac_head := Some new\<rparr>)
        | Some p \<Rightarrow> bind_res (set_next p (Some new) (ac_nodes al')) (\<lambda>nodes. Ok (al'\<lparr>ac_nodes := nodes\<rparr>)))"

text \<open>A line of the output, as the values that are printed.\<close>

record timer_line =
  ln_pool_id :: int
  ln_thread :: thread_type
  ln_segment :: timer_segment
  ln_active :: "u32 list"
  ln_nsecs :: int
  ln_end :: timespec

definition print_line ::
    "grants \<Rightarrow> timer_cursor \<Rightarrow> timer_segment \<Rightarrow> active_list \<Rightarrow> (timer_line \<times> active_list) run" where
  "print_line mal p seg al =
     bind_run (active_loop (timer_segment_get_start seg) al None (ac_head al) []) (\<lambda>(tags, al1, prev).
     bind_run (Some (active_add mal seg prev al1)) (\<lambda>al2.
     bind_run (Some (timer_segment_get_end seg)) (\<lambda>e.
     bind_run (Some (long_op (tv_nsec e - tv_nsec (timer_segment_get_start seg)))) (\<lambda>d.
     returns (\<lparr>ln_pool_id = tp_pool_id p, ln_thread = tp_thread p, ln_segment = seg, ln_active = tags,
        ln_nsecs = d, ln_end = e\<rparr>, al2)))))"

text \<open>One round: nothing when every timer is at its end, else at most one line.\<close>

definition print_round ::
    "grants \<Rightarrow> timer_cursor list \<Rightarrow> active_list \<Rightarrow> (timer_line list \<times> timer_cursor list \<times> active_list) option run" where
  "print_round mal ps al =
     bind_run (Some (lowest_scan ps ps 0 None 0)) (\<lambda>(lowest, nulls).
     if nulls = length ps then returns None
     else case lowest of
       None \<Rightarrow> faults NullDeref
     | Some l \<Rightarrow>
         bind_run (Some (cursor_segment (ps ! l))) (\<lambda>seg.
         bind_run (if seg_type seg \<noteq> INTERVAL_QUEUE
                   then bind_run (print_line mal (ps ! l) seg al) (\<lambda>(line, al'). returns ([line], al'))
                   else returns ([], al)) (\<lambda>(lines, al').
         returns (Some (lines, ps[l := cursor_next (ps ! l)], al')))))"

partial_function (option) print_loop ::
    "grants \<Rightarrow> timer_cursor list \<Rightarrow> active_list \<Rightarrow> timer_line list \<Rightarrow> timer_line list run" where
  "print_loop mal ps al out =
     (case print_round mal ps al of
        None \<Rightarrow> None
      | Some (Inl e) \<Rightarrow> faults e
      | Some (Inr x) \<Rightarrow>
          (case x of
             None \<Rightarrow> returns out
           | Some (lines, ps', al') \<Rightarrow> print_loop mal ps' al' (out @ lines)))"

declare print_loop.simps [code]

definition timer_print :: "grants \<Rightarrow> timer list \<Rightarrow> timer_line list run" where
  "timer_print mal timers =
     (if \<not> mal (24 * int (length timers)) \<and> timers \<noteq> [] then faults NullDeref
      else print_loop mal
        (map (\<lambda>t. \<lparr>tp_blocks = tm_blocks t, tp_pool_id = tm_pool_id t, tp_thread = tm_type t, tp_index = 0\<rparr>) timers)
        \<lparr>ac_nodes = [], ac_head = None\<rparr> [])"

section \<open>Sums\<close>

definition nanos :: "timespec \<Rightarrow> int" where
  "nanos t = tv_sec t * NSECS_IN_SEC + tv_nsec t"

text \<open>What the clock of a process gives.\<close>

definition clock_time :: "timespec \<Rightarrow> bool" where
  "clock_time t \<longleftrightarrow> 0 \<le> tv_sec t \<and> tv_sec t < 2 ^ 32 \<and> 0 \<le> tv_nsec t \<and> tv_nsec t < NSECS_IN_SEC"

lemma long_op_Ok [simp]: "- (2 ^ 63) \<le> x \<Longrightarrow> x < 2 ^ 63 \<Longrightarrow> long_op x = Ok x"
  by (simp add: long_op_def)

lemma time_diff_ok:
  assumes "clock_time a" and "clock_time b" and "a \<le> b"
  obtains d where "time_diff b a = Ok d" "nanos d = nanos b - nanos a" "0 \<le> tv_nsec d" "tv_nsec d < NSECS_IN_SEC"
    "0 \<le> tv_sec d" "tv_sec d < 2 ^ 32"
proof -
  have le: "tv_sec a < tv_sec b \<or> tv_sec a = tv_sec b \<and> tv_nsec a \<le> tv_nsec b"
    using assms(3) by (auto simp: less_eq_timespec_def timespec_lt_def split: if_splits)
  have sec: "long_op (tv_sec b - tv_sec a) = Ok (tv_sec b - tv_sec a)"
    and nsec: "long_op (tv_nsec b - tv_nsec a) = Ok (tv_nsec b - tv_nsec a)"
    and dec: "long_op (tv_sec b - tv_sec a - 1) = Ok (tv_sec b - tv_sec a - 1)"
    using assms(1,2) by (auto simp: clock_time_def intro!: long_op_Ok)
  show thesis
  proof (cases "tv_nsec b - tv_nsec a < 0")
    case True
    then show thesis
      using that[of "Timespec (tv_sec b - tv_sec a - 1) (tv_nsec b - tv_nsec a + NSECS_IN_SEC)"] le assms(1,2)
      by (simp add: time_diff_def sec nsec dec nanos_def clock_time_def algebra_simps)
  next
    case False
    then show thesis
      using that[of "Timespec (tv_sec b - tv_sec a) (tv_nsec b - tv_nsec a)"] le assms(1,2)
      by (auto simp: time_diff_def sec nsec nanos_def clock_time_def algebra_simps)
  qed
qed

lemma time_add_ok:
  assumes "0 \<le> tv_sec a" "tv_sec a < 2 ^ 62" "0 \<le> tv_nsec a" "tv_nsec a \<le> NSECS_IN_SEC"
    and "0 \<le> tv_sec d" "tv_sec d < 2 ^ 32" "0 \<le> tv_nsec d" "tv_nsec d < NSECS_IN_SEC"
  obtains c where "time_add a d = Ok c" "nanos c = nanos a + nanos d" "0 \<le> tv_nsec c" "tv_nsec c \<le> NSECS_IN_SEC"
    "0 \<le> tv_sec c" "tv_sec c \<le> tv_sec a + 2 ^ 32"
proof -
  have "long_op (tv_sec a + tv_sec d) = Ok (tv_sec a + tv_sec d)"
    "long_op (tv_nsec a + tv_nsec d) = Ok (tv_nsec a + tv_nsec d)"
    "long_op (tv_sec a + tv_sec d + 1) = Ok (tv_sec a + tv_sec d + 1)"
    using assms by (auto intro!: long_op_Ok)
  then show thesis
    using assms that[of "if NSECS_IN_SEC < tv_nsec a + tv_nsec d
        then Timespec (tv_sec a + tv_sec d + 1) (tv_nsec a + tv_nsec d - NSECS_IN_SEC)
        else Timespec (tv_sec a + tv_sec d) (tv_nsec a + tv_nsec d)"]
    by (simp add: time_add_def nanos_def algebra_simps split: if_splits)
qed

text \<open>A sum that is restarted and incremented again and again.\<close>

fun timer_laps :: "(timespec \<times> timespec) list \<Rightarrow> timer_segment \<Rightarrow> timer_segment res" where
  "timer_laps [] seg = Ok seg"
| "timer_laps ((a, b) # laps) seg =
     bind_res (timer_restart a seg) (\<lambda>seg. bind_res (timer_incr b seg) (timer_laps laps))"

lemma laps_from:
  assumes "\<forall>(a, b) \<in> set laps. clock_time a \<and> clock_time b \<and> a \<le> b"
    and "seg_data seg = SEGMENT_SUM s l acc" and "0 \<le> tv_nsec acc" "tv_nsec acc \<le> NSECS_IN_SEC" "0 \<le> tv_sec acc"
    and "tv_sec acc + int (length laps) * 2 ^ 32 < 2 ^ 62"
  shows "\<exists>seg' l' acc'. timer_laps laps seg = Ok seg' \<and> seg_data seg' = SEGMENT_SUM s l' acc' \<and>
           nanos acc' = nanos acc + (\<Sum>(a, b) \<leftarrow> laps. nanos b - nanos a) \<and>
           0 \<le> tv_nsec acc' \<and> tv_nsec acc' \<le> NSECS_IN_SEC"
  using assms
proof (induction laps arbitrary: seg l acc)
  case (Cons x laps)
  obtain a b where x: "x = (a, b)" by (cases x)
  have ab: "clock_time a" "clock_time b" "a \<le> b" using Cons.prems(1) x by auto
  obtain d where d: "time_diff b a = Ok d" "nanos d = nanos b - nanos a" "0 \<le> tv_nsec d" "tv_nsec d < NSECS_IN_SEC"
    "0 \<le> tv_sec d" "tv_sec d < 2 ^ 32"
    by (rule time_diff_ok[OF ab])
  have small: "tv_sec acc < 2 ^ 62" using Cons.prems(6) by (simp add: algebra_simps)
  obtain c where c: "time_add acc d = Ok c" "nanos c = nanos acc + nanos d" "0 \<le> tv_nsec c" "tv_nsec c \<le> NSECS_IN_SEC"
    "0 \<le> tv_sec c" "tv_sec c \<le> tv_sec acc + 2 ^ 32"
    by (rule time_add_ok[OF Cons.prems(5) small Cons.prems(3,4) d(5,6,3,4)])
  let ?seg = "seg\<lparr>seg_data := SEGMENT_SUM s b c\<rparr>"
  have step: "timer_laps (x # laps) seg = timer_laps laps ?seg"
    using Cons.prems(2) d(1) c(1) by (simp add: x timer_restart_def timer_incr_def)
  have "\<exists>seg' l' acc'. timer_laps laps ?seg = Ok seg' \<and> seg_data seg' = SEGMENT_SUM s l' acc' \<and>
           nanos acc' = nanos c + (\<Sum>(a, b) \<leftarrow> laps. nanos b - nanos a) \<and>
           0 \<le> tv_nsec acc' \<and> tv_nsec acc' \<le> NSECS_IN_SEC"
    using Cons.prems(1,6) c by (intro Cons.IH) (auto simp: algebra_simps)
  then show ?case unfolding step using c(2) d(2) x by (simp add: add.assoc)
qed simp

text \<open>
  C39. A sum adds up: whatever the readings of the clock at its restarts and increments, the accumulator is
  the total of the times between them to the nanosecond, and nothing overflows.  The nanoseconds may
  be a whole second, which the test for a carry lets through.
\<close>

theorem timer_sum_is_total:
  assumes "\<forall>(a, b) \<in> set laps. clock_time a \<and> clock_time b \<and> a \<le> b" and "length laps < 2 ^ 29"
    and "timer_start_sum mal now t itype tag = Ok (t', i, j)"
  shows "\<exists>xs seg seg' l acc. tb_intervals (last (tm_blocks t')) = Some xs \<and> xs ! j = Some seg \<and>
           timer_laps laps seg = Ok seg' \<and> seg_data seg' = SEGMENT_SUM now l acc \<and>
           nanos acc = (\<Sum>(a, b) \<leftarrow> laps. nanos b - nanos a) \<and> 0 \<le> tv_nsec acc \<and> tv_nsec acc \<le> NSECS_IN_SEC"
proof -
  let ?seg = "\<lparr>seg_data = SEGMENT_SUM now now (Timespec 0 0), seg_tag = tag, seg_type = itype\<rparr>"
  obtain xs where xs: "tb_intervals (last (tm_blocks t')) = Some (xs[j := Some ?seg])" "j < length xs"
    using assms(3)
    by (auto simp: timer_start_sum_def timer_push_def bind_res_Inr_iff Let_def split: option.splits if_splits)
  have "int (length laps) < 2 ^ 29" using assms(2) by simp
  then have "tv_sec (Timespec 0 0) + int (length laps) * 2 ^ 32 < 2 ^ 62" by simp
  from laps_from[OF assms(1), of ?seg now now "Timespec 0 0", OF _ _ _ _ this] xs show ?thesis
    by (simp add: nanos_def)
qed

text \<open>Two laps of half a second and a nanosecond more: a whole second in the nanoseconds' place is carried.\<close>

theorem timer_sum_is_total_witness:
  "\<exists>t t' i j xs seg seg' l acc. timer_init (\<lambda>_. True) 1 THREAD_RUNNER [] = Ok (t, [t]) \<and>
     timer_start_sum (\<lambda>_. True) (Timespec 5 0) t INTERVAL_RUNNING 7 = Ok (t', i, j) \<and>
     tb_intervals (last (tm_blocks t')) = Some xs \<and> xs ! j = Some seg \<and>
     timer_laps [(Timespec 5 0, Timespec 5 500000000), (Timespec 5 800000000, Timespec 6 300000001)] seg = Ok seg' \<and>
     seg_data seg' = SEGMENT_SUM (Timespec 5 0) l acc \<and> nanos acc = 1000000001"
proof -
  let ?laps = "[(Timespec 5 0, Timespec 5 500000000), (Timespec 5 800000000, Timespec 6 300000001)]"
  obtain t where t: "timer_init (\<lambda>_. True) 1 THREAD_RUNNER [] = Ok (t, [t])"
    and b: "tm_blocks t = [\<lparr>tb_index = 0, tb_size = 1024, tb_intervals = Some (replicate 1024 None)\<rparr>]"
    by (simp add: timer_init_def tblock_init_def Let_def)
  obtain t' i j where start: "timer_start_sum (\<lambda>_. True) (Timespec 5 0) t INTERVAL_RUNNING 7 = Ok (t', i, j)"
    using b by (simp add: timer_start_sum_def timer_room_def timer_push_def)
  have laps: "\<forall>(a, b) \<in> set ?laps. clock_time a \<and> clock_time b \<and> a \<le> b"
    by (simp add: clock_time_def less_eq_timespec_def timespec_lt_def)
  have "(\<Sum>(a, b) \<leftarrow> ?laps. nanos b - nanos a) = 1000000001" by (simp add: nanos_def)
  then show ?thesis using timer_sum_is_total[OF laps _ start] t start by simp blast
qed

section \<open>What is printed\<close>

text \<open>The segments a timer has recorded, in order, and those a cursor has still to print.\<close>

definition block_segs :: "time_block \<Rightarrow> timer_segment list" where
  "block_segs b = (case tb_intervals b of None \<Rightarrow> [] | Some xs \<Rightarrow> map the (take (unat (tb_index b)) xs))"

definition timer_segs :: "timer \<Rightarrow> timer_segment list" where
  "timer_segs t = concat (map block_segs (tm_blocks t))"

definition rest :: "timer_cursor \<Rightarrow> timer_segment list" where
  "rest p = (case tp_blocks p of [] \<Rightarrow> [] | b # bs \<Rightarrow> drop (unat (tp_index p)) (block_segs b) @ concat (map block_segs bs))"

text \<open>A segment that has ended, and a block with at least one segment, all of them ended.\<close>

definition seg_ok :: "timer_segment \<Rightarrow> bool" where
  "seg_ok seg \<longleftrightarrow> clock_time (timer_segment_get_start seg) \<and> (\<exists>e. timer_segment_get_end seg = Ok e \<and> clock_time e)"

definition block_ok :: "time_block \<Rightarrow> bool" where
  "block_ok b \<longleftrightarrow> (\<exists>xs. tb_intervals b = Some xs \<and> 0 < tb_index b \<and> unat (tb_index b) \<le> length xs \<and>
     (\<forall>x \<in> set (take (unat (tb_index b)) xs). \<exists>s. x = Some s \<and> seg_ok s))"

definition cursor_ok :: "timer_cursor \<Rightarrow> bool" where
  "cursor_ok p \<longleftrightarrow> (\<forall>b \<in> set (tp_blocks p). block_ok b) \<and>
     (tp_blocks p \<noteq> [] \<longrightarrow> tp_index p < tb_index (hd (tp_blocks p)))"

lemma length_block_segs: "block_ok b \<Longrightarrow> length (block_segs b) = unat (tb_index b)"
  by (auto simp: block_ok_def block_segs_def)

lemma set_block_segs: "block_ok b \<Longrightarrow> s \<in> set (block_segs b) \<Longrightarrow> seg_ok s"
  by (fastforce simp: block_ok_def block_segs_def)

lemma seg_ok_rest: "cursor_ok p \<Longrightarrow> s \<in> set (rest p) \<Longrightarrow> seg_ok s"
  by (cases "tp_blocks p") (auto simp: rest_def cursor_ok_def intro: set_block_segs dest: in_set_dropD)

lemma block_at:
  assumes "block_ok b" and "i < tb_index b"
  obtains xs s where "tb_intervals b = Some xs" "unat i < length xs" "xs ! unat i = Some s" "block_segs b ! unat i = s"
    "unat i < length (block_segs b)"
proof -
  obtain xs where xs: "tb_intervals b = Some xs" "unat (tb_index b) \<le> length xs"
    "\<forall>x \<in> set (take (unat (tb_index b)) xs). \<exists>s. x = Some s \<and> seg_ok s"
    using assms(1) by (auto simp: block_ok_def)
  have i: "unat i < unat (tb_index b)" using assms(2) by (simp add: word_less_nat_alt)
  then have "xs ! unat i \<in> set (take (unat (tb_index b)) xs)"
    using xs(2) by (auto simp: in_set_conv_nth intro!: exI[of _ "unat i"])
  then obtain s where "xs ! unat i = Some s" using xs(3) by blast
  then show thesis using that xs(1,2) i by (simp add: block_segs_def)
qed

lemma rest_Cons:
  assumes "cursor_ok p" and "tp_blocks p \<noteq> []"
  obtains s where "cursor_segment p = Ok s" "rest p = s # rest (cursor_next p)" "cursor_ok (cursor_next p)"
proof -
  obtain b bs where p: "tp_blocks p = b # bs" using assms(2) by (cases "tp_blocks p") auto
  have b: "block_ok b" "tp_index p < tb_index b" using assms(1) p by (auto simp: cursor_ok_def)
  obtain xs s where s: "tb_intervals b = Some xs" "unat (tp_index p) < length xs" "xs ! unat (tp_index p) = Some s"
    "block_segs b ! unat (tp_index p) = s" "unat (tp_index p) < length (block_segs b)"
    by (rule block_at[OF b])
  have "tp_index p \<noteq> - 1" using b(2) by (metis word_order.extremum_strict)
  then have suc: "unat (tp_index p + 1) = Suc (unat (tp_index p))"
    by (metis add.commute add_eq_0_iff unatSuc)
  have drop: "drop (unat (tp_index p)) (block_segs b) = s # drop (unat (tp_index p + 1)) (block_segs b)"
    unfolding suc using s(4,5) by (metis Cons_nth_drop_Suc)
  have ends: "drop (unat (tp_index p + 1)) (block_segs b) = []" if "tb_index b \<le> tp_index p + 1"
    using that by (simp add: length_block_segs[OF b(1)] word_le_nat_alt)
  have first: "0 < tb_index b'" if "b' \<in> set bs" for b'
    using assms(1) p that by (auto simp: cursor_ok_def block_ok_def)
  show thesis
  proof (rule that)
    show "cursor_segment p = Ok s" using s p by (simp add: cursor_segment_def)
    show "rest p = s # rest (cursor_next p)"
      using drop ends by (auto simp: rest_def p cursor_next_def split: list.splits)
    show "cursor_ok (cursor_next p)"
      using assms(1) first by (cases bs) (auto simp: cursor_ok_def cursor_next_def p)
  qed
qed

lemma rest_null: "tp_blocks p = [] \<Longrightarrow> rest p = []"
  by (simp add: rest_def)

lemma rest_empty: "cursor_ok p \<Longrightarrow> rest p = [] \<longleftrightarrow> tp_blocks p = []"
  by (metis list.distinct(1) list.simps(4) rest_Cons rest_def)

abbreviation (input) next_start :: "timer_cursor \<Rightarrow> timespec" where
  "next_start p \<equiv> timer_segment_get_start (hd (rest p))"

text \<open>What the scan has found among the first \<open>i\<close> timers.\<close>

definition least :: "timer_cursor list \<Rightarrow> nat \<Rightarrow> nat option \<Rightarrow> bool" where
  "least ps i lowest \<longleftrightarrow> (case lowest of
      None \<Rightarrow> \<forall>k < i. tp_blocks (ps ! k) = []
    | Some l \<Rightarrow> l < i \<and> tp_blocks (ps ! l) \<noteq> [] \<and>
        (\<forall>k < i. tp_blocks (ps ! k) \<noteq> [] \<longrightarrow> next_start (ps ! l) \<le> next_start (ps ! k)))"

lemma lowest_scan_least:
  assumes "\<forall>p \<in> set ps. cursor_ok p" and "ps = xs @ qs" and "least ps (length xs) lowest"
  shows "\<exists>lowest'. lowest_scan ps qs (length xs) lowest nulls = Ok (lowest', nulls + length (filter (\<lambda>p. tp_blocks p = []) qs)) \<and>
           least ps (length ps) lowest'"
  using assms
proof (induction qs arbitrary: xs lowest nulls)
  case (Cons p qs)
  have p: "ps ! length xs = p" "cursor_ok p" using Cons.prems(1,2) by auto
  have step: "\<exists>lowest'. lowest_scan ps qs (length xs + 1) lo n = Ok (lowest', n + length (filter (\<lambda>p. tp_blocks p = []) qs)) \<and>
           least ps (length ps) lowest'" if "least ps (length xs + 1) lo" for lo n
    using Cons.IH[of "xs @ [p]" lo n] Cons.prems(1,2) that by simp
  show ?case
  proof (cases "tp_blocks p = []")
    case True
    then have "least ps (length xs + 1) lowest"
      using Cons.prems(3) p(1) by (auto simp: least_def less_Suc_eq split: option.splits)
    from step[OF this, of "nulls + 1"] show ?thesis using True by simp
  next
    case False
    obtain a where a: "cursor_segment p = Ok a" "hd (rest p) = a" using rest_Cons[OF p(2) False] by (metis list.sel(1))
    show ?thesis
    proof (cases lowest)
      case None
      then have "least ps (length xs + 1) (Some (length xs))"
        using Cons.prems(3) p(1) False by (auto simp: least_def less_Suc_eq)
      from step[OF this, of nulls] show ?thesis using False None by simp
    next
      case (Some l)
      have l: "l < length xs" "tp_blocks (ps ! l) \<noteq> []"
        "\<forall>k < length xs. tp_blocks (ps ! k) \<noteq> [] \<longrightarrow> next_start (ps ! l) \<le> next_start (ps ! k)"
        using Cons.prems(3) Some by (auto simp: least_def)
      have "cursor_ok (ps ! l)" using l(1) Cons.prems(1,2) by (metis length_append nth_mem trans_less_add1)
      then obtain b where b: "cursor_segment (ps ! l) = Ok b" "hd (rest (ps ! l)) = b"
        using rest_Cons[OF _ l(2)] by (metis list.sel(1))
      let ?lt = "timespec_lt (timer_segment_get_start a) (timer_segment_get_start b)"
      have "least ps (length xs + 1) (if ?lt then Some (length xs) else Some l)"
        using l a(2) b(2) p(1) False
        by (auto simp: least_def less_Suc_eq less_timespec_def[symmetric] not_less
            intro: order.trans[OF less_imp_le])
      from step[OF this, of nulls] show ?thesis using False Some a(1) b(1) by simp
    qed
  qed
qed simp

text \<open>The list of active segments is empty or one segment that has ended and has no next.\<close>

definition act_ok :: "active_list \<Rightarrow> bool" where
  "act_ok al \<longleftrightarrow> (case ac_head al of None \<Rightarrow> True
     | Some c \<Rightarrow> c < length (ac_nodes al) \<and> (\<exists>s. ac_nodes al ! c = Some (s, None) \<and> seg_ok s))"

lemma active_loop_None: "active_loop start al prev None tags = returns (tags, al, prev)"
  by (subst active_loop.simps) (simp add: active_round_def)

lemma active_loop_one:
  assumes "act_ok al"
  obtains tags al' prev where "active_loop start al None (ac_head al) [] = returns (tags, al', prev)" "length tags \<le> 1"
    "ac_nodes al' = ac_nodes al" "prev = None \<or> prev = ac_head al \<and> ac_head al' = None"
proof (cases "ac_head al")
  case None
  then show thesis using that[of "[]" al None] by (simp add: active_loop_None)
next
  case (Some c)
  obtain s e where s: "ac_nodes al ! c = Some (s, None)" "timer_segment_get_end s = Ok e"
    using assms Some by (auto simp: act_ok_def seg_ok_def)
  show thesis
  proof (cases "timespec_lt start e")
    case True
    then have "active_loop start al None (Some c) [] = returns ([seg_tag s], al, None)"
      by (subst active_loop.simps) (simp add: active_round_def active_node_def s active_loop_None)
    then show thesis using that[of "[seg_tag s]" al None] Some by simp
  next
    case False
    then have "active_loop start al None (Some c) [] = returns ([], al\<lparr>ac_head := None\<rparr>, Some c)"
      by (subst active_loop.simps) (simp add: active_round_def active_node_def s active_loop_None)
    then show thesis using that[of "[]" "al\<lparr>ac_head := None\<rparr>" "Some c"] Some by simp
  qed
qed

lemma print_line_ok:
  assumes "mal 16" and "act_ok al" and "seg_ok seg"
  obtains line al' where "print_line mal p seg al = returns (line, al')" "ln_segment line = seg"
    "length (ln_active line) \<le> 1" "act_ok al'"
proof -
  let ?s = "timer_segment_get_start seg"
  obtain tags al1 prev where loop: "active_loop ?s al None (ac_head al) [] = returns (tags, al1, prev)"
    and tags: "length tags \<le> 1" and al1: "ac_nodes al1 = ac_nodes al"
    and prev: "prev = None \<or> prev = ac_head al \<and> ac_head al1 = None"
    by (rule active_loop_one[OF assms(2)])
  obtain e where e: "timer_segment_get_end seg = Ok e" "long_op (tv_nsec e - tv_nsec ?s) = Ok (tv_nsec e - tv_nsec ?s)"
    using assms(3) by (auto simp: seg_ok_def clock_time_def)
  have "\<exists>al2. active_add mal seg prev al1 = Ok al2 \<and> act_ok al2"
  proof (cases prev)
    case None
    then show ?thesis using assms(1,3) by (simp add: active_add_def act_ok_def)
  next
    case (Some c)
    then have "ac_head al = Some c" "ac_head al1 = None" using prev by auto
    then obtain s where "c < length (ac_nodes al)" "ac_nodes al ! c = Some (s, None)"
      using assms(2) by (auto simp: act_ok_def)
    with Some assms(1) \<open>ac_head al1 = None\<close> show ?thesis
      by (simp add: active_add_def act_ok_def set_next_def active_node_def al1 nth_append)
  qed
  then obtain al2 where "active_add mal seg prev al1 = Ok al2" "act_ok al2" by blast
  with loop tags e show thesis by (intro that) (simp add: print_line_def, simp_all)
qed

abbreviation (input) printed :: "timer_segment \<Rightarrow> bool" where
  "printed seg \<equiv> seg_type seg \<noteq> INTERVAL_QUEUE"

text \<open>The merge as a relation on the segments still to print: it takes an earliest first segment each time.\<close>

lemma print_round_end:
  assumes "\<forall>p \<in> set ps. cursor_ok p" and "\<forall>p \<in> set ps. tp_blocks p = []"
  shows "print_round mal ps al = returns None"
  using lowest_scan_least[OF assms(1), of "[]" ps None 0] assms(2)
  by (auto simp: print_round_def least_def)

lemma print_round_step:
  assumes "\<forall>p \<in> set ps. cursor_ok p" and "p0 \<in> set ps" "tp_blocks p0 \<noteq> []" and "mal 16" and "act_ok al"
  obtains l seg lines al' where "l < length ps" "rest (ps ! l) = seg # rest (cursor_next (ps ! l))" "cursor_ok (cursor_next (ps ! l))"
    "\<forall>p \<in> set ps. rest p \<noteq> [] \<longrightarrow> timer_segment_get_start seg \<le> next_start p"
    "print_round mal ps al = returns (Some (lines, ps[l := cursor_next (ps ! l)], al'))"
    "map ln_segment lines = filter printed [seg]" "\<forall>line \<in> set lines. length (ln_active line) \<le> 1" "act_ok al'"
proof -
  let ?n = "length (filter (\<lambda>p. tp_blocks p = []) ps)"
  obtain lowest where scan: "lowest_scan ps ps 0 None 0 = Ok (lowest, ?n)" and least: "least ps (length ps) lowest"
    using lowest_scan_least[OF assms(1), of "[]" ps None 0] by (auto simp: least_def)
  have n: "?n \<noteq> length ps" using assms(2,3) length_filter_less[of p0 ps "\<lambda>p. tp_blocks p = []"] by simp
  obtain l where lo: "lowest = Some l"
    using least assms(2,3) by (cases lowest) (auto simp: least_def in_set_conv_nth)
  have l: "l < length ps" "tp_blocks (ps ! l) \<noteq> []"
    "\<forall>k < length ps. tp_blocks (ps ! k) \<noteq> [] \<longrightarrow> next_start (ps ! l) \<le> next_start (ps ! k)"
    using least lo by (auto simp: least_def)
  have ok: "cursor_ok (ps ! l)" using l(1) assms(1) by simp
  obtain seg where seg: "cursor_segment (ps ! l) = Ok seg" "rest (ps ! l) = seg # rest (cursor_next (ps ! l))"
    "cursor_ok (cursor_next (ps ! l))"
    by (rule rest_Cons[OF ok l(2)])
  have segok: "seg_ok seg" using seg_ok_rest[OF ok] seg(2) by simp
  have low: "\<forall>p \<in> set ps. rest p \<noteq> [] \<longrightarrow> timer_segment_get_start seg \<le> next_start p"
    using l(3) seg(2) rest_null by (metis in_set_conv_nth list.sel(1))
  obtain line al' where line: "print_line mal (ps ! l) seg al = returns (line, al')" "ln_segment line = seg"
    "length (ln_active line) \<le> 1" "act_ok al'"
    by (rule print_line_ok[of mal al seg "ps ! l", OF assms(4,5) segok])
  show thesis
  proof (cases "printed seg")
    case True
    have "print_round mal ps al = returns (Some ([line], ps[l := cursor_next (ps ! l)], al'))"
      using scan n lo seg(1) line(1) True by (simp add: print_round_def)
    then show thesis using that[OF l(1) seg(2,3) low] line True by simp
  next
    case False
    have "print_round mal ps al = returns (Some ([], ps[l := cursor_next (ps ! l)], al))"
      using scan n lo seg(1) False by (simp add: print_round_def)
    then show thesis using that[OF l(1) seg(2,3) low] assms(5) False by simp
  qed
qed

definition remaining :: "timer_cursor list \<Rightarrow> timer_segment multiset" where
  "remaining ps = (\<Sum>p \<leftarrow> ps. mset (rest p))"

lemma in_remaining: "s \<in># remaining ps \<longleftrightarrow> (\<exists>p \<in> set ps. s \<in> set (rest p))"
  by (induction ps) (auto simp: remaining_def)

lemma remaining_step:
  assumes "l < length ps" and "rest (ps ! l) = s # rest p'"
  shows "remaining ps = add_mset s (remaining (ps[l := p']))"
proof -
  have "ps = take l ps @ ps ! l # drop (Suc l) ps" using assms(1) by (simp add: id_take_nth_drop)
  then have "remaining ps = remaining (take l ps @ ps ! l # drop (Suc l) ps)" by simp
  then show ?thesis using assms by (simp add: remaining_def upd_conv_take_nth_drop)
qed

abbreviation (input) by_start :: "timer_segment list \<Rightarrow> bool" where
  "by_start segs \<equiv> sorted (map timer_segment_get_start segs)"

lemma by_start_step:
  assumes "l < length ps" and nxt: "rest (ps ! l) = seg # rest p'"
    and low: "\<forall>p \<in> set ps. rest p \<noteq> [] \<longrightarrow> timer_segment_get_start seg \<le> next_start p"
    and sorted: "\<forall>p \<in> set ps. by_start (rest p)" and segs: "mset segs = remaining (ps[l := p'])"
    and tail: "(\<forall>p \<in> set (ps[l := p']). by_start (rest p)) \<longrightarrow> by_start segs"
  shows "by_start (seg # segs)"
proof -
  have "by_start (rest p')" using sorted assms(1) nxt by (metis list.simps(9) nth_mem sorted_simps(2))
  then have "\<forall>p \<in> set (ps[l := p']). by_start (rest p)" using sorted by (auto dest!: set_update_subset_insert[THEN subsetD])
  then have "by_start segs" using tail by blast
  moreover have "timer_segment_get_start seg \<le> timer_segment_get_start x" if "x \<in> set segs" for x
  proof -
    have "x \<in># remaining ps" using that segs remaining_step[OF assms(1) nxt] by (metis insertI2 set_mset_add_mset_insert set_mset_mset)
    then obtain p where p: "p \<in> set ps" "x \<in> set (rest p)" by (auto simp: in_remaining)
    then have "next_start p \<le> timer_segment_get_start x" using sorted by (cases "rest p") auto
    then show ?thesis using low p by force
  qed
  ultimately show ?thesis by simp
qed

lemma print_loop_merges:
  assumes "\<forall>p \<in> set ps. cursor_ok p" and "mal 16" and "act_ok al"
  shows "\<exists>segs lines. print_loop mal ps al out = returns (out @ lines) \<and> mset segs = remaining ps \<and>
           ((\<forall>p \<in> set ps. by_start (rest p)) \<longrightarrow> by_start segs) \<and>
           map ln_segment lines = filter printed segs \<and> (\<forall>line \<in> set lines. length (ln_active line) \<le> 1)"
  using assms
proof (induction "size (remaining ps)" arbitrary: ps al out)
  case 0
  then have empty: "\<forall>p \<in> set ps. rest p = []" using in_remaining[of _ ps] by (metis all_not_in_conv set_empty size_eq_0_iff_empty empty_iff set_mset_empty)
  then have "\<forall>p \<in> set ps. tp_blocks p = []" using 0(2) rest_empty by blast
  then have "print_loop mal ps al out = returns (out @ [])"
    by (subst print_loop.simps) (simp add: print_round_end[OF 0(2)])
  then show ?case using 0(1) by (intro exI[of _ "[]"]) simp
next
  case (Suc n)
  obtain s where "s \<in># remaining ps" using Suc(2) by (metis size_eq_Suc_imp_elem)
  then obtain p0 where p0: "p0 \<in> set ps" "tp_blocks p0 \<noteq> []" using rest_null by (fastforce simp: in_remaining)
  obtain l seg lines1 al' where l: "l < length ps" and nxt: "rest (ps ! l) = seg # rest (cursor_next (ps ! l))"
    and ok: "cursor_ok (cursor_next (ps ! l))"
    and low: "\<forall>p \<in> set ps. rest p \<noteq> [] \<longrightarrow> timer_segment_get_start seg \<le> next_start p"
    and round: "print_round mal ps al = returns (Some (lines1, ps[l := cursor_next (ps ! l)], al'))"
    and lines1: "map ln_segment lines1 = filter printed [seg]" "\<forall>line \<in> set lines1. length (ln_active line) \<le> 1"
    and al': "act_ok al'"
    by (rule print_round_step[of ps p0 mal al, OF Suc.prems(1) p0 Suc.prems(2,3)])
  let ?ps = "ps[l := cursor_next (ps ! l)]"
  have rem: "remaining ps = add_mset seg (remaining ?ps)" by (rule remaining_step[OF l nxt])
  have "\<forall>p \<in> set ?ps. cursor_ok p" using Suc.prems(1) ok by (auto dest!: set_update_subset_insert[THEN subsetD])
  from Suc.hyps(1)[OF _ this Suc.prems(2) al', of "out @ lines1"] rem Suc.hyps(2)
  obtain segs lines where IH: "print_loop mal ?ps al' (out @ lines1) = returns ((out @ lines1) @ lines)"
    "mset segs = remaining ?ps" "(\<forall>p \<in> set ?ps. by_start (rest p)) \<longrightarrow> by_start segs"
    "map ln_segment lines = filter printed segs" "\<forall>line \<in> set lines. length (ln_active line) \<le> 1"
    by auto
  have run: "print_loop mal ps al out = returns (out @ lines1 @ lines)"
    by (subst print_loop.simps) (simp add: round IH(1))
  have "by_start (seg # segs)" if "\<forall>p \<in> set ps. by_start (rest p)"
    using by_start_step[OF l nxt low that IH(2,3)] .
  then show ?case
    using run IH(2,4,5) lines1 rem by (intro exI[of _ "seg # segs"] exI[of _ "lines1 @ lines"]) (auto split: if_splits)
qed

text \<open>
  C38. Let every block of every timer have at least one segment, and let every segment have ended, with
  times of less than \<open>2 ^ 32\<close> seconds (\<open>block_ok\<close>), and let \<open>malloc\<close> grant what is asked.  Then the timer prints every segment that has been recorded and is not a queue's, in the order of their starts
  when every thread has recorded its own in that order; it ends, and reads nothing outside the blocks.
  A line names at most one active segment, however many overlap it.
\<close>

theorem timer_print_merges:
  assumes "\<forall>t \<in> set timers. \<forall>b \<in> set (tm_blocks t). block_ok b" and "\<forall>n. mal n"
  shows "\<exists>segs lines. timer_print mal timers = returns lines \<and> mset segs = (\<Sum>t \<leftarrow> timers. mset (timer_segs t)) \<and>
           ((\<forall>t \<in> set timers. by_start (timer_segs t)) \<longrightarrow> by_start segs) \<and>
           map ln_segment lines = filter printed segs \<and> (\<forall>line \<in> set lines. length (ln_active line) \<le> 1)"
proof -
  let ?cur = "\<lambda>t. \<lparr>tp_blocks = tm_blocks t, tp_pool_id = tm_pool_id t, tp_thread = tm_type t, tp_index = 0\<rparr>"
  have rest: "rest (?cur t) = timer_segs t" for t by (simp add: rest_def timer_segs_def split: list.splits)
  have "cursor_ok (?cur t)" if "t \<in> set timers" for t
    using assms(1) that by (cases "tm_blocks t") (auto simp: cursor_ok_def block_ok_def)
  then have ok: "\<forall>p \<in> set (map ?cur timers). cursor_ok p" by simp
  have "mal 16" "act_ok \<lparr>ac_nodes = [], ac_head = None\<rparr>" using assms(2) by (simp_all add: act_ok_def)
  from print_loop_merges[of "map ?cur timers" mal "\<lparr>ac_nodes = [], ac_head = None\<rparr>" "[]", OF ok this] assms(2)
  show ?thesis
    by (simp add: timer_print_def rest remaining_def comp_def)
qed

text \<open>Two threads, the second with a segment that starts between those of the first and overlaps both.\<close>

definition ended_block :: "timer_segment list \<Rightarrow> time_block" where
  "ended_block segs = \<lparr>tb_index = of_nat (length segs), tb_size = 1024, tb_intervals = Some (map Some segs @ replicate (1024 - length segs) None)\<rparr>"

definition overlapping_timers :: "timer list" where
  "overlapping_timers =
     [\<lparr>tm_blocks = [ended_block
         [\<lparr>seg_data = SEGMENT_INTERVAL (Timespec 1 0) (Some (Timespec 4 0)), seg_tag = 1, seg_type = INTERVAL_RUNNING\<rparr>,
          \<lparr>seg_data = SEGMENT_SUM (Timespec 3 0) (Timespec 5 0) (Timespec 2 0), seg_tag = 2, seg_type = INTERVAL_RUNNING\<rparr>]],
       tm_pool_id = 1, tm_type = THREAD_RUNNER\<rparr>,
      \<lparr>tm_blocks = [ended_block
         [\<lparr>seg_data = SEGMENT_INTERVAL (Timespec 2 0) (Some (Timespec 6 0)), seg_tag = 3, seg_type = INTERVAL_RUNNING\<rparr>]],
       tm_pool_id = 2, tm_type = THREAD_RECIEVER\<rparr>]"

lemma ended_block:
  assumes "segs \<noteq> []" and "length segs < 1024"
  shows "block_segs (ended_block segs) = segs" and "(\<forall>s \<in> set segs. seg_ok s) \<Longrightarrow> block_ok (ended_block segs)"
proof -
  have n: "unat (of_nat (length segs) :: u32) = length segs" using assms(2) by (subst unat_of_nat) simp
  show "block_segs (ended_block segs) = segs" by (simp add: block_segs_def ended_block_def n comp_def)
  have "(0 :: u32) < of_nat (length segs)" using assms(1) n by (simp add: word_less_nat_alt)
  then show "block_ok (ended_block segs)" if "\<forall>s \<in> set segs. seg_ok s"
    using that by (auto simp: block_ok_def ended_block_def n)
qed

theorem timer_print_merges_witness:
  "\<exists>lines. timer_print (\<lambda>_. True) overlapping_timers = returns lines \<and>
     map (\<lambda>line. timer_segment_get_start (ln_segment line)) lines = [Timespec 1 0, Timespec 2 0, Timespec 3 0] \<and>
     (\<forall>line \<in> set lines. length (ln_active line) \<le> 1)"
proof -
  have ok: "\<forall>t \<in> set overlapping_timers. \<forall>b \<in> set (tm_blocks t). block_ok b"
    by (auto simp: overlapping_timers_def clock_time_def seg_ok_def timer_segment_get_start_def timer_segment_get_end_def
        intro!: ended_block(2))
  have segs: "map timer_segs overlapping_timers =
    [[\<lparr>seg_data = SEGMENT_INTERVAL (Timespec 1 0) (Some (Timespec 4 0)), seg_tag = 1, seg_type = INTERVAL_RUNNING\<rparr>,
      \<lparr>seg_data = SEGMENT_SUM (Timespec 3 0) (Timespec 5 0) (Timespec 2 0), seg_tag = 2, seg_type = INTERVAL_RUNNING\<rparr>],
     [\<lparr>seg_data = SEGMENT_INTERVAL (Timespec 2 0) (Some (Timespec 6 0)), seg_tag = 3, seg_type = INTERVAL_RUNNING\<rparr>]]"
    by (simp add: overlapping_timers_def timer_segs_def ended_block(1))
  obtain segs lines where run: "timer_print (\<lambda>_. True) overlapping_timers = returns lines"
    and m: "mset segs = (\<Sum>t \<leftarrow> overlapping_timers. mset (timer_segs t))"
    and sorted: "(\<forall>t \<in> set overlapping_timers. by_start (timer_segs t)) \<longrightarrow> by_start segs"
    and lines: "map ln_segment lines = filter printed segs" "\<forall>line \<in> set lines. length (ln_active line) \<le> 1"
    using timer_print_merges[OF ok, of "\<lambda>_. True"] by blast
  have each: "\<forall>t \<in> set overlapping_timers. by_start (timer_segs t)"
    using segs by (auto simp: overlapping_timers_def timer_segment_get_start_def less_eq_timespec_def timespec_lt_def)
  have starts: "mset (map timer_segment_get_start segs) = mset [Timespec 1 0, Timespec 2 0, Timespec 3 0]"
    and kinds: "\<forall>seg \<in> set segs. printed seg"
    using m segs by (auto simp: overlapping_timers_def timer_segment_get_start_def simp flip: set_mset_mset)
  have "sort [Timespec 1 0, Timespec 2 0, Timespec 3 0] = [Timespec 1 0, Timespec 2 0, Timespec 3 0]"
    by (simp add: less_eq_timespec_def timespec_lt_def)
  then have "map timer_segment_get_start segs = [Timespec 1 0, Timespec 2 0, Timespec 3 0]"
    using properties_for_sort[OF starts] sorted each by simp
  moreover have "map ln_segment lines = segs" using lines(1) kinds by simp
  ultimately show ?thesis using run lines(2) by (intro exI[of _ lines]) (auto simp: map_map[symmetric, unfolded comp_def])
qed

end
