(* ===== verification/Gc.thy ===== *)
theory Gc
  imports Runner Ht_Iter
begin

text \<open>
  The collector, \<^verbatim>\<open>lib/gc.c\<close>: what has been unlinked waits on a free list, a hash table under the addresses
  of its elements, until no working set names it.  One thread runs at a time: a user that is pending when it is
  looked at stays so.
\<close>

section \<open>State\<close>

text \<open>
  A pointer that can be on the free list: a node of the free list itself, a node of another table, or typed data.
\<close>

datatype gc_ptr = Free_list_node addr | Table_node "addr option" addr | Typed_data addr

datatype gc_free_func = Gc_ht_func ht_gc_func | Gc_free_typed_data

record gc_free_list_elem =
  ge_ptr :: gc_ptr
  ge_free_func :: gc_free_func
  ge_used :: u32

text \<open>The global state, the newest user first, and the calls of the registered functions on what lives elsewhere.\<close>

record gc_global_state =
  gs_users :: "gc_user list"
  gs_free_list :: "gc_free_list_elem ht_table option"
  gs_used_ctr :: u32
  gs_freed :: "(gc_ptr \<times> gc_free_func) list"

text \<open>What \<open>malloc\<close> grants, also in the table, and where it has placed an object.\<close>

record gc_env =
  gv_malloc :: grants
  gv_ht :: ht_env
  gv_place :: "gc_ptr \<Rightarrow> u64"

text \<open>The eight bytes of a pointer, the low ones first, are its key.\<close>

definition ptr_key :: "gc_env \<Rightarrow> gc_ptr \<Rightarrow> bytes" where
  "ptr_key env p = map (\<lambda>i. ucast (drop_bit (8 * i) (gv_place env p))) [0..<8]"

definition gc_static :: gc_global_state where
  "gc_static = \<lparr>gs_users = [], gs_free_list = None, gs_used_ctr = 0, gs_freed = []\<rparr>"

section \<open>Users and the free list\<close>

text \<open>A second call frees the table it has just made.\<close>

definition gc_initialize :: "gc_env \<Rightarrow> gc_global_state \<Rightarrow> gc_global_state run" where
  "gc_initialize env g =
     bind_run (Some (ht_init (gv_ht env) False)) (\<lambda>table.
     case gs_free_list g of
       None \<Rightarrow> returns (g\<lparr>gs_free_list := table\<rparr>)
     | Some _ \<Rightarrow> (case table of None \<Rightarrow> faults NullDeref | Some t \<Rightarrow> bind_run (ht_free t True) (\<lambda>_. returns g)))"

text \<open>The free list is a dangling pointer afterwards: its nodes are gone.\<close>

definition gc_cleanup :: "gc_global_state \<Rightarrow> gc_global_state run" where
  "gc_cleanup g =
     (case gs_free_list g of
        None \<Rightarrow> faults NullDeref
      | Some t \<Rightarrow> bind_run (ht_free t False) (\<lambda>(h, _). returns (g\<lparr>gs_free_list := Some (t\<lparr>ht_heap := h\<rparr>)\<rparr>)))"

definition gc_register_user :: "gc_env \<Rightarrow> gc_global_state \<Rightarrow> gc_global_state res" where
  "gc_register_user env g =
     (if \<not> gv_malloc env 24 then Fault NullDeref
      else Ok (g\<lparr>gs_users := \<lparr>gu_pending = False, gu_working_set = None\<rparr> # gs_users g\<rparr>))"

text \<open>What the store reports is not looked at.\<close>

definition gc_free :: "gc_env \<Rightarrow> gc_ptr \<Rightarrow> gc_free_func \<Rightarrow> gc_global_state \<Rightarrow> gc_global_state run" where
  "gc_free env ptr free_func g =
     (if \<not> gv_malloc env 24 then faults NullDeref
      else case gs_free_list g of
        None \<Rightarrow> faults NullDeref
      | Some t \<Rightarrow>
          bind_run (ht_store (gv_ht env) t (Some (ptr_key env ptr)) 8
            \<lparr>ge_ptr = ptr, ge_free_func = free_func, ge_used = gs_used_ctr g\<rparr>) (\<lambda>(t', _, _).
          returns (g\<lparr>gs_free_list := Some t'\<rparr>)))"

text \<open>What a worker has passed to \<open>gc_free\<close>.\<close>

fun gc_free_item :: "gc_env \<Rightarrow> gc_item \<Rightarrow> gc_global_state \<Rightarrow> gc_global_state run" where
  "gc_free_item env (Gc_node tbl a f) = gc_free env (Table_node tbl a) (Gc_ht_func f)"
| "gc_free_item env (Gc_typed_data d) = gc_free env (Typed_data d) Gc_free_typed_data"

section \<open>A collection\<close>

text \<open>The members of a working set are data and nodes of the table of keys in turn.\<close>

definition member_ptr :: "nat \<times> addr \<Rightarrow> gc_ptr" where
  "member_ptr x = (if even (fst x) then Typed_data (snd x) else Table_node None (snd x))"

text \<open>
  \<open>ht_find\<close> gives the address of the slot, not the element in it; \<open>used\<close> of an element at that place
  is behind the end of the node.
\<close>

fun gc_check_members :: "gc_env \<Rightarrow> gc_free_list_elem ht_table option \<Rightarrow> (nat \<times> addr) list \<Rightarrow> unit run" where
  "gc_check_members env fl [] = returns ()"
| "gc_check_members env fl (x # xs) =
     (if snd x = NULL then gc_check_members env fl xs
      else case fl of
        None \<Rightarrow> faults NullDeref
      | Some t \<Rightarrow>
          bind_run (ht_find t (Some (ptr_key env (member_ptr x))) 8) (\<lambda>(st, _).
          if st = HT_GOOD then faults OutOfBounds else gc_check_members env fl xs))"

text \<open>The tag on the working set is put on and taken off again.\<close>

fun gc_check_users :: "gc_env \<Rightarrow> gc_free_list_elem ht_table option \<Rightarrow> gc_user list \<Rightarrow> unit run" where
  "gc_check_users env fl [] = returns ()"
| "gc_check_users env fl (user # users) =
     (if gu_pending user then None
      else case gu_working_set user of
        None \<Rightarrow> gc_check_users env fl users
      | Some ms \<Rightarrow> bind_run (gc_check_members env fl (enumerate 0 ms)) (\<lambda>_. gc_check_users env fl users))"

text \<open>A call of a registered function: a node of the free list goes from its heap.\<close>

definition gc_call :: "gc_ptr \<Rightarrow> gc_free_func \<Rightarrow> gc_global_state \<Rightarrow> gc_global_state" where
  "gc_call p f g =
     (case p of
        Free_list_node a \<Rightarrow>
          g\<lparr>gs_free_list := map_option (\<lambda>t. t\<lparr>ht_heap := (ht_heap t)(a := None)\<rparr>) (gs_free_list g)\<rparr>
      | _ \<Rightarrow> g\<lparr>gs_freed := gs_freed g @ [(p, f)]\<rparr>)"

text \<open>\<open>ht_del\<close> passes the node it has unlinked to \<open>gc_free\<close>: it goes on the list it was taken from.\<close>

definition gc_reclaim :: "gc_env \<Rightarrow> gc_free_list_elem \<Rightarrow> gc_free_list_elem ht_table \<Rightarrow> gc_global_state \<Rightarrow> gc_global_state run" where
  "gc_reclaim env e t g =
     bind_run (ht_del t (Some (ptr_key env (ge_ptr e))) 8) (\<lambda>(t', st, r).
     let g' = g\<lparr>gs_free_list := Some t'\<rparr> in
     case r of
       None \<Rightarrow> returns g'
     | Some (_, a, f) \<Rightarrow>
         bind_run (gc_free env (Free_list_node a) (Gc_ht_func f) g') (\<lambda>g''.
         returns (gc_call (ge_ptr e) (ge_free_func e) g'')))"

definition gc_scan_round :: "gc_env \<Rightarrow> u32 \<Rightarrow> addr \<Rightarrow> gc_global_state \<Rightarrow> (addr \<times> gc_global_state) run" where
  "gc_scan_round env ctr n g =
     (case gs_free_list g of
        None \<Rightarrow> faults NullDeref
      | Some t \<Rightarrow>
          bind_run (Some (ht_value t n)) (\<lambda>c.
          case c of
            HT_Value e \<Rightarrow>
              bind_run (if sint (ge_used e) < sint ctr then gc_reclaim env e t g else returns g) (\<lambda>g'.
              case gs_free_list g' of
                None \<Rightarrow> faults NullDeref
              | Some t' \<Rightarrow> bind_run (ht_next t' n) (\<lambda>n'. returns (n', g')))
          | _ \<Rightarrow> faults UninitRead))"

partial_function (option) gc_scan :: "gc_env \<Rightarrow> u32 \<Rightarrow> addr \<Rightarrow> gc_global_state \<Rightarrow> gc_global_state run" where
  "gc_scan env ctr n g =
     (if n = NULL then returns g
      else case gc_scan_round env ctr n g of
        None \<Rightarrow> None
      | Some (Inl e) \<Rightarrow> faults e
      | Some (Inr (n', g')) \<Rightarrow> gc_scan env ctr n' g')"

declare gc_scan.simps [code]

definition gc_run :: "gc_env \<Rightarrow> gc_global_state \<Rightarrow> gc_global_state run" where
  "gc_run env g =
     (let ctr = gs_used_ctr g; g1 = g\<lparr>gs_used_ctr := ctr + 1\<rparr> in
      bind_run (gc_check_users env (gs_free_list g1) (gs_users g1)) (\<lambda>_.
      case gs_free_list g1 of
        None \<Rightarrow> faults NullDeref
      | Some t \<Rightarrow>
          bind_run (Some (ht_head t)) (\<lambda>head.
          bind_run (ht_next t head) (\<lambda>n.
          gc_scan env ctr n g1))))"

text \<open>The thread that collects for ever: \<open>stop i\<close> is what the \<open>i\<close>-th test of its flag reads.\<close>

partial_function (option) gc_thread :: "gc_env \<Rightarrow> (nat \<Rightarrow> bool) \<Rightarrow> nat \<Rightarrow> gc_global_state \<Rightarrow> gc_global_state run" where
  "gc_thread env stop i g =
     (if stop i then returns g
      else case gc_run env g of
        None \<Rightarrow> None
      | Some (Inl e) \<Rightarrow> faults e
      | Some (Inr g') \<Rightarrow> gc_thread env stop (i + 1) g')"

declare gc_thread.simps [code]

section \<open>No collection ends\<close>

lemma ht_next_loop_not_null: "ht_next_loop h n = Some r \<Longrightarrow> r \<noteq> Ok NULL"
  by (induction rule: ht_next_loop.raw_induct[rotated 1, consumes 1])
     (auto simp: ht_node_at_def split: sum.splits if_splits option.splits)

lemma gc_scan_round_not_null: "gc_scan_round env ctr n g \<noteq> returns (NULL, g')"
  by (auto simp: gc_scan_round_def ht_next_def bind_run_returns dest: ht_next_loop_not_null
      split: option.splits ht_contents.splits)

lemma gc_scan_faults: "gc_scan env ctr n g = Some r \<Longrightarrow> n \<noteq> NULL \<Longrightarrow> \<exists>e. r = Inl e"
proof (induction rule: gc_scan.raw_induct[rotated 1, consumes 1, case_names step])
  case (step scan env ctr n g r)
  have "gc_scan_round env ctr n g = returns (n', g') \<Longrightarrow> n' \<noteq> NULL" for n' g'
    using gc_scan_round_not_null by metis
  with step show ?case by (fastforce split: option.splits sum.splits prod.splits)
qed

lemma gc_run_faults: "gc_run env g \<noteq> returns g'"
proof
  assume "gc_run env g = returns g'"
  then obtain t :: "gc_free_list_elem ht_table" and head n where "ht_next t head = returns n"
    and scan: "gc_scan env (gs_used_ctr g) n (g\<lparr>gs_used_ctr := gs_used_ctr g + 1\<rparr>) = returns g'"
    by (auto simp: gc_run_def Let_def bind_run_returns split: option.splits)
  then have "n \<noteq> NULL" by (auto simp: ht_next_def bind_run_returns dest: ht_next_loop_not_null)
  then show False using gc_scan_faults[OF scan] by blast
qed

text \<open>The list a server starts with holds no key, and the walk over it ends at once.\<close>

lemma first_gc_run:
  assumes "gc_initialize env gc_static = returns g"
  shows "gc_run env g = faults NullDeref"
proof (cases "gs_free_list g")
  case None
  then show ?thesis using assms by (auto simp: gc_initialize_def gc_static_def gc_run_def bind_run_returns)
next
  case (Some t)
  have init: "ht_init (gv_ht env) False = Ok (Some t)" and g: "gs_users g = []"
    using assms Some by (auto simp: gc_initialize_def gc_static_def bind_run_returns)
  let ?h = "ht_heap t"
  have head: "ht_head t = Ok 1" and h: "\<exists>nd. ?h 1 = Some nd \<and> nd_next nd = 3" "\<exists>nd. ?h 3 = Some nd \<and> nd_next nd = 2 \<and> nd_key nd = None"
    "\<exists>nd. ?h 2 = Some nd \<and> nd_next nd = NULL \<and> nd_key nd = None"
    using init by (auto simp: ht_init_def Let_def ht_head_def ht_bucket_def split: if_splits)
  have "ht_next_loop ?h NULL = faults NullDeref" by (subst ht_next_loop.simps) (simp add: ht_node_at_def)
  then have "ht_next_loop ?h 2 = faults NullDeref"
    using h(3) by (subst ht_next_loop.simps) (auto simp: ht_node_at_def)
  then have "ht_next_loop ?h 3 = faults NullDeref"
    using h(2) by (subst ht_next_loop.simps) (auto simp: ht_node_at_def)
  then have "ht_next t 1 = faults NullDeref" using h(1) by (auto simp: ht_next_def ht_node_at_def)
  then show ?thesis using Some g head by (simp add: gc_run_def Let_def)
qed

text \<open>
  C5. No collection ever returns: at the end of the free list \<open>ht_next\<close> reads the key of the null pointer before
  it compares the pointer with null.  The thread that collects returns when the first test of its flag is
  positive and in no other case, and the first collection of a server is its last.
\<close>

theorem no_collection_returns:
  "gc_run env g \<noteq> returns g' \<and> (gc_thread env stop i g = returns g'' \<longleftrightarrow> stop i \<and> g'' = g) \<and>
   bind_run (gc_initialize env gc_static) (gc_run env) \<in> {faults NullDeref, faults UseAfterFree}"
proof -
  have never: "gc_run env g \<noteq> returns h" for h by (rule gc_run_faults)
  then have "gc_thread env stop i g = returns g'' \<longleftrightarrow> stop i \<and> g'' = g"
    by (subst gc_thread.simps) (auto split: option.splits sum.splits)
  moreover have "bind_run (gc_initialize env gc_static) (gc_run env) \<in> {faults NullDeref, faults UseAfterFree}"
  proof (cases "ht_init (gv_ht env) False :: gc_free_list_elem ht_table option res")
    case (Inl e)
    then show ?thesis by (auto simp: gc_initialize_def gc_static_def ht_init_def Let_def split: if_splits)
  next
    case (Inr table)
    then have "gc_initialize env gc_static = returns (gc_static\<lparr>gs_free_list := table\<rparr>)"
      by (simp add: gc_initialize_def gc_static_def)
    then show ?thesis using first_gc_run by fastforce
  qed
  ultimately show ?thesis using never by blast
qed

section \<open>What the free list and the working sets do\<close>

lemma length_ptr_key [simp]: "length (ptr_key env p) = 8"
  by (simp add: ptr_key_def)

lemma key_arg_ptr: "key_ok J (ptr_key env p) \<Longrightarrow> key_arg J (ptr_key env p) 8 (ptr_key env p)"
  by (simp add: key_arg_def)

text \<open>An allocator that gives what is asked for, in the table too.\<close>

definition gc_calm :: "u32 set \<Rightarrow> gc_env \<Rightarrow> bool" where
  "gc_calm J env \<longleftrightarrow> gv_malloc env 24 \<and> (\<forall>site. env_ok (gv_ht env) site) \<and> env_junk (gv_ht env) \<in> J"

lemma gc_free_map:
  assumes "gc_calm J env" and "gs_free_list g = Some t" "ht_map J t m" "unat (ht_element_count t) < 2 ^ 30"
    and "key_ok J (ptr_key env p)"
  obtains t' where "gc_free env p f g = returns (g\<lparr>gs_free_list := Some t'\<rparr>)"
    "ht_map J t' (case m (ptr_key env p) of Some _ \<Rightarrow> m
       | None \<Rightarrow> m(ptr_key env p \<mapsto> \<lparr>ge_ptr = p, ge_free_func = f, ge_used = gs_used_ctr g\<rparr>))"
    "unat (ht_element_count t') \<le> unat (ht_element_count t) + 1"
proof -
  let ?e = "\<lparr>ge_ptr = p, ge_free_func = f, ge_used = gs_used_ctr g\<rparr>"
  have calm: "gv_malloc env 24" "env_junk (gv_ht env) \<in> J" "env_ok (gv_ht env) KeyCopy"
    "\<And>site. env_ok (gv_ht env) site"
    using assms(1) by (auto simp: gc_calm_def)
  obtain t' st a where st: "ht_store (gv_ht env) t (Some (ptr_key env p)) 8 ?e = returns (t', st, a)"
    and out: "store_outcome J (gv_ht env) t m (ptr_key env p) ?e t' st a"
    using ht_store_map[OF assms(3) key_arg_ptr[OF assms(5)] calm(2,3) assms(4)] by blast
  have "ht_map J t' (case m (ptr_key env p) of Some _ \<Rightarrow> m | None \<Rightarrow> m(ptr_key env p \<mapsto> ?e))"
    using out calm(4) by (auto simp: store_outcome_def split: ht_status.splits option.splits)
  moreover have "unat (ht_element_count t') \<le> unat (ht_element_count t) + 1"
  proof -
    have "unat (ht_element_count t + 1) = unat (ht_element_count t) + 1"
      using assms(4) by (intro unat_Suc_no_overflow) simp
    then show ?thesis using out by (auto simp: store_outcome_def split: ht_status.splits)
  qed
  ultimately show thesis using that assms(2) calm(1) st by (simp add: gc_free_def)
qed

text \<open>The pointers a working set names.\<close>

definition ws_ptrs :: "gc_user \<Rightarrow> gc_ptr set" where
  "ws_ptrs user = (case gu_working_set user of None \<Rightarrow> {}
     | Some ms \<Rightarrow> set (map member_ptr (filter (\<lambda>x. snd x \<noteq> NULL) (enumerate 0 ms))))"

lemma gc_check_members_map:
  assumes "ht_map J t m" and "\<forall>x \<in> set xs. snd x \<noteq> NULL \<longrightarrow> key_ok J (ptr_key env (member_ptr x))"
  shows "gc_check_members env (Some t) xs =
     (if \<exists>x \<in> set xs. snd x \<noteq> NULL \<and> ptr_key env (member_ptr x) \<in> dom m then faults OutOfBounds else returns ())"
  using assms(2)
proof (induction xs)
  case (Cons x xs)
  show ?case
  proof (cases "snd x = NULL")
    case False
    obtain st a where "ht_find t (Some (ptr_key env (member_ptr x))) 8 = returns (st, a)"
      "case m (ptr_key env (member_ptr x)) of None \<Rightarrow> st = HT_NOT_FOUND \<and> a = NULL
       | Some v \<Rightarrow> st = HT_GOOD \<and> ht_slot t a = Some v"
      using ht_find_map[OF assms(1) key_arg_ptr, of env "member_ptr x"] Cons.prems False by auto
    then show ?thesis using Cons False by (auto split: option.splits)
  qed (use Cons in auto)
qed simp

lemma gc_check_users_map:
  assumes "ht_map J t m" and "\<forall>u \<in> set us. \<not> gu_pending u \<and> (\<forall>p \<in> ws_ptrs u. key_ok J (ptr_key env p))"
  shows "gc_check_users env (Some t) us =
     (if \<exists>u \<in> set us. \<exists>p \<in> ws_ptrs u. ptr_key env p \<in> dom m then faults OutOfBounds else returns ())"
  using assms(2)
proof (induction us)
  case (Cons u us)
  show ?case
  proof (cases "gu_working_set u")
    case None
    then show ?thesis using Cons by (simp add: ws_ptrs_def)
  next
    case (Some ms)
    have ok: "\<forall>x \<in> set (enumerate 0 ms). snd x \<noteq> NULL \<longrightarrow> key_ok J (ptr_key env (member_ptr x))"
      using Cons.prems Some by (auto simp: ws_ptrs_def)
    have "(\<exists>p \<in> ws_ptrs u. ptr_key env p \<in> dom m) \<longleftrightarrow>
        (\<exists>x \<in> set (enumerate 0 ms). snd x \<noteq> NULL \<and> ptr_key env (member_ptr x) \<in> dom m)"
      using Some by (simp add: ws_ptrs_def Bex_def)
    then show ?thesis
      using Cons Some by (simp add: gc_check_members_map[OF assms(1) ok])
  qed
qed simp

text \<open>
  C6. The case the working sets exist for.  An object that a user still names is handed over, as a deletion
  does; the collection after it writes past the end of a node of the free list.
\<close>

theorem held_object_corrupts_memory:
  assumes "gc_calm J env" and "gs_free_list g = Some t" "ht_map J t m" "unat (ht_element_count t) < 2 ^ 30"
    and "\<forall>u \<in> set (gs_users g). \<not> gu_pending u \<and> (\<forall>p \<in> ws_ptrs u. key_ok J (ptr_key env p))"
    and "u \<in> set (gs_users g)" "p \<in> ws_ptrs u"
  shows "\<exists>g'. gc_free env p f g = returns g' \<and> gc_run env g' = faults OutOfBounds"
proof -
  have "key_ok J (ptr_key env p)" using assms(5-7) by blast
  then obtain t' where t': "gc_free env p f g = returns (g\<lparr>gs_free_list := Some t'\<rparr>)"
    "ht_map J t' (case m (ptr_key env p) of Some _ \<Rightarrow> m
       | None \<Rightarrow> m(ptr_key env p \<mapsto> \<lparr>ge_ptr = p, ge_free_func = f, ge_used = gs_used_ctr g\<rparr>))"
    by (rule gc_free_map[OF assms(1-4)])
  have mem: "ptr_key env p \<in> dom (case m (ptr_key env p) of Some _ \<Rightarrow> m
       | None \<Rightarrow> m(ptr_key env p \<mapsto> \<lparr>ge_ptr = p, ge_free_func = f, ge_used = gs_used_ctr g\<rparr>))"
    by (auto split: option.splits)
  have "gc_check_users env (Some t') (gs_users g) = faults OutOfBounds"
    unfolding gc_check_users_map[OF t'(2) assms(5)] using mem assms(6,7) by auto
  then have "gc_run env (g\<lparr>gs_free_list := Some t'\<rparr>) = faults OutOfBounds"
    by (simp add: gc_run_def Let_def)
  with t'(1) show ?thesis by blast
qed

text \<open>A worker has fetched a key, its data object 5 and its node 7, when another deletes the key.\<close>

definition flat_env :: gc_env where
  "flat_env = \<lparr>gv_malloc = (\<lambda>_. True), gv_ht = calm_env, gv_place = (\<lambda>p. case p of
      Table_node _ a \<Rightarrow> 4096 + 32 * of_nat a | Typed_data d \<Rightarrow> 65536 + 16 * of_nat d | Free_list_node a \<Rightarrow> 131072 + 32 * of_nat a)\<rparr>"

lemma flat_env_keys:
  "key_ok {0} (ptr_key flat_env (Table_node None 7))" "key_ok {0} (ptr_key flat_env (Typed_data 5))"
proof -
  have "ptr_key flat_env (Table_node None 7) = [224, 16, 0, 0, 0, 0, 0, 0]"
    "ptr_key flat_env (Typed_data 5) = [80, 0, 1, 0, 0, 0, 0, 0]"
    by (code_simp, code_simp)
  then show "key_ok {0} (ptr_key flat_env (Table_node None 7))" "key_ok {0} (ptr_key flat_env (Typed_data 5))"
    by (simp_all add: key_ok_def)
qed

theorem held_object_corrupts_memory_witness:
  "\<exists>t g'. ht_init calm_env False = Ok (Some t) \<and>
     gc_free flat_env (Table_node None 7) (Gc_ht_func Ht_default_gc_free_func)
       (gc_static\<lparr>gs_free_list := Some t, gs_users := [\<lparr>gu_pending = False, gu_working_set = Some [5, 7]\<rparr>]\<rparr>) = returns g' \<and>
     gc_run flat_env g' = faults OutOfBounds"
proof -
  obtain t :: "gc_free_list_elem ht_table" where t: "ht_init calm_env False = Ok (Some t)" "ht_map {0} t Map.empty"
    using ht_init_map[of calm_env False] by auto
  have count: "unat (ht_element_count t) < 2 ^ 30" using t(1) by (auto simp: ht_init_def Let_def split: if_splits)
  let ?u = "\<lparr>gu_pending = False, gu_working_set = Some [5, 7]\<rparr> :: gc_user"
  let ?g = "gc_static\<lparr>gs_free_list := Some t, gs_users := [?u]\<rparr>"
  have ws: "ws_ptrs ?u = {Typed_data 5, Table_node None 7}" by (simp add: ws_ptrs_def member_ptr_def del: set_map set_filter)
  have calm: "gc_calm {0} flat_env" by (simp add: gc_calm_def flat_env_def calm_env_def)
  have users: "\<forall>u \<in> set (gs_users ?g). \<not> gu_pending u \<and> (\<forall>p \<in> ws_ptrs u. key_ok {0} (ptr_key flat_env p))"
    using flat_env_keys by (simp add: ws)
  have list: "gs_free_list ?g = Some t" and held: "Table_node None 7 \<in> ws_ptrs ?u" and u: "?u \<in> set (gs_users ?g)"
    by (simp_all add: ws)
  from held_object_corrupts_memory[OF calm list t(2) count users u held] t(1) show ?thesis by blast
qed

end
