(* ===== verification/Netwrap.thy ===== *)
theory Netwrap
  imports Resp_Encode
begin

text \<open>
  \<^verbatim>\<open>lib/netwrap.c\<close>: a buffer in front of a socket, read with and without copying.  Pointers into the
  buffer are offsets; the socket is what it will give.
\<close>

section \<open>The buffer\<close>

record data_wrap =
  dw_end :: nat
  dw_ptr :: nat
  dw_data :: cells
  dw_length :: nat
  dw_fd :: "segment list"

definition dw_init :: "grants \<Rightarrow> segment list \<Rightarrow> nat \<Rightarrow> data_wrap res" where
  "dw_init mal fd allocation_size =
     (if \<not> mal 40 \<or> \<not> mal (size_t (int allocation_size + 1)) then Fault NullDeref
      else if size_t (int allocation_size + 1) = 0 then Fault OutOfBounds
      else Ok \<lparr>dw_end = 0, dw_ptr = 0, dw_data = replicate allocation_size None @ [Some 0],
        dw_length = allocation_size, dw_fd = fd\<rparr>)"

text \<open>\<open>recv\<close> into the buffer at an offset: its result and the buffer.\<close>

definition dw_recv :: "nat \<Rightarrow> nat \<Rightarrow> data_wrap \<Rightarrow> int \<times> data_wrap" where
  "dw_recv off len dw =
     (case sock_recv len (dw_fd dw) of
        (Received bs, net) \<Rightarrow>
          (int (length bs),
           dw\<lparr>dw_data := take off (dw_data dw) @ map Some bs @ drop (off + length bs) (dw_data dw), dw_fd := net\<rparr>)
      | (RecvAgain, net) \<Rightarrow> (- 1, dw\<lparr>dw_fd := net\<rparr>)
      | (RecvEnd, net) \<Rightarrow> (if hd net = Shutdown then 0 else - 1, dw\<lparr>dw_fd := net\<rparr>))"

text \<open>More data, behind what is there or, when the buffer is full, from its start; a result ends the read.\<close>

definition dw_refill :: "data_wrap \<Rightarrow> int option \<times> data_wrap" where
  "dw_refill dw =
     (if dw_end dw = dw_length dw then
        (case dw_recv 0 (dw_length dw) dw of (r, dw') \<Rightarrow>
           if 0 < r then (None, dw'\<lparr>dw_ptr := 0, dw_end := nat r\<rparr>) else (Some r, dw'))
      else
        (case dw_recv (dw_end dw) (dw_length dw - dw_end dw) dw of (r, dw') \<Rightarrow>
           if 0 < r then (None, dw'\<lparr>dw_end := dw_end dw + nat r\<rparr>) else (Some (r - 1), dw')))"

text \<open>\<open>memchr\<close>, with the place.\<close>

fun memchr_pos :: "byte \<Rightarrow> cells \<Rightarrow> nat \<Rightarrow> nat \<Rightarrow> nat option res" where
  "memchr_pos c cs 0 i = Ok None"
| "memchr_pos c [] (Suc n) i = Fault OutOfBounds"
| "memchr_pos c (None # cs) (Suc n) i = Fault UninitRead"
| "memchr_pos c (Some b # cs) (Suc n) i = (if b = c then Ok (Some i) else memchr_pos c cs n (i + 1))"

text \<open>
  How much one round takes, and whether the end character was found.  It is looked for in all of the buffered
  bytes, also behind the number asked for.
\<close>

definition dw_span :: "bool \<Rightarrow> int \<Rightarrow> byte option \<Rightarrow> data_wrap \<Rightarrow> (nat \<times> bool) res" where
  "dw_span nostop sz end_char dw =
     (let remaining = dw_end dw - dw_ptr dw;
          n = (if int remaining < sz \<or> nostop then remaining else nat sz) in
      case end_char of
        None \<Rightarrow> Ok (n, False)
      | Some c \<Rightarrow>
          bind_res (memchr_pos c (drop (dw_ptr dw) (dw_data dw)) remaining 0) (\<lambda>r.
          Ok (case r of None \<Rightarrow> (n, False) | Some k \<Rightarrow> (k, True))))"

section \<open>Reading with a copy\<close>

record dw_copy =
  cp_dw :: data_wrap
  cp_buf :: "cells option"
  cp_off :: nat
  cp_size :: int
  cp_copied :: int

definition copy_out :: "nat \<Rightarrow> nat \<Rightarrow> data_wrap \<Rightarrow> cells option \<Rightarrow> cells option res" where
  "copy_out off n dw buf =
     (case buf of
        None \<Rightarrow> Ok None
      | Some b \<Rightarrow>
          if off + n \<le> length b then
            Ok (Some (take off b @ take n (drop (dw_ptr dw) (dw_data dw)) @ drop (off + n) b))
          else Fault OutOfBounds)"

definition dw_copy_round :: "bool \<Rightarrow> byte option \<Rightarrow> dw_copy \<Rightarrow> (int option \<times> dw_copy) res" where
  "dw_copy_round nostop end_char c =
     (let dw = cp_dw c in
      if dw_end dw < dw_ptr dw then Ok (Some (- 3), c)
      else
        bind_res (dw_span nostop (cp_size c) end_char dw) (\<lambda>(n, found).
        bind_res (copy_out (cp_off c) n dw (cp_buf c)) (\<lambda>buf.
        let dw = dw\<lparr>dw_ptr := dw_ptr dw + n\<rparr>;
            sz = (if nostop then cp_size c else size_t (cp_size c - int n));
            c = \<lparr>cp_dw = dw, cp_buf = buf, cp_off = cp_off c + n, cp_size = sz, cp_copied = cp_copied c + int n\<rparr> in
        if found then Ok (Some (cp_copied c), c)
        else if dw_ptr dw = dw_end dw \<and> 0 < sz then
          (case dw_refill dw of (r, dw') \<Rightarrow> Ok (r, c\<lparr>cp_dw := dw'\<rparr>))
        else Ok (None, c))))"

partial_function (option) dw_copy_loop :: "bool \<Rightarrow> byte option \<Rightarrow> dw_copy \<Rightarrow> (int \<times> dw_copy) run" where
  "dw_copy_loop nostop end_char c =
     (if nostop \<or> 0 < cp_size c then
        (case dw_copy_round nostop end_char c of
           Inl e \<Rightarrow> faults e
         | Inr (r, c') \<Rightarrow> (case r of Some v \<Rightarrow> returns (v, c') | None \<Rightarrow> dw_copy_loop nostop end_char c'))
      else returns (cp_copied c, c))"

declare dw_copy_loop.simps [code]

text \<open>The result, the buffer, and the block that was copied into, from the given offset.\<close>

definition dw_read_copy ::
    "data_wrap \<Rightarrow> cells option \<Rightarrow> nat \<Rightarrow> int \<Rightarrow> byte option \<Rightarrow> (int \<times> data_wrap \<times> cells option) run" where
  "dw_read_copy dw buf off size_raw end_char =
     bind_run (dw_copy_loop (size_raw = - 1) end_char
         \<lparr>cp_dw = dw, cp_buf = buf, cp_off = off, cp_size = (if size_raw < 0 then 0 else size_raw), cp_copied = 0\<rparr>)
       (\<lambda>(r, c). returns (r, cp_dw c, cp_buf c))"

definition dw_eat :: "data_wrap \<Rightarrow> int \<Rightarrow> (int \<times> data_wrap) run" where
  "dw_eat dw sz = bind_run (dw_read_copy dw None 0 sz None) (\<lambda>(r, dw', _). returns (r, dw'))"

section \<open>Reading in place\<close>

text \<open>The number of bytes left and copied; a result ends the read, with the flag that it was cut off.\<close>

record dw_place =
  pl_dw :: data_wrap
  pl_size :: int
  pl_copied :: int

definition dw_place_round :: "bool \<Rightarrow> byte option \<Rightarrow> dw_place \<Rightarrow> ((int \<times> bool) option \<times> dw_place) res" where
  "dw_place_round nostop end_char c =
     (let dw = pl_dw c in
      if dw_end dw < dw_ptr dw then Ok (Some (- 3, False), c)
      else
        bind_res (dw_span nostop (pl_size c) end_char dw) (\<lambda>(n, found).
        let dw = dw\<lparr>dw_ptr := dw_ptr dw + n\<rparr>;
            sz = (if nostop then pl_size c else size_t (pl_size c - int n));
            c = \<lparr>pl_dw = dw, pl_size = sz, pl_copied = pl_copied c + int n\<rparr> in
        if found then Ok (Some (pl_copied c, False), c)
        else if dw_ptr dw = dw_end dw \<and> (sz \<noteq> 0 \<or> nostop) then
          (let full = (dw_end dw = dw_length dw) in
           case dw_refill dw of (r, dw') \<Rightarrow>
             Ok (case r of Some v \<Rightarrow> Some (v, full) | None \<Rightarrow> if full then Some (pl_copied c, True) else None,
                 c\<lparr>pl_dw := dw'\<rparr>))
        else Ok (None, c)))"

partial_function (option) dw_place_loop :: "bool \<Rightarrow> byte option \<Rightarrow> dw_place \<Rightarrow> (int \<times> bool \<times> dw_place) run" where
  "dw_place_loop nostop end_char c =
     (if nostop \<or> 0 < pl_size c then
        (case dw_place_round nostop end_char c of
           Inl e \<Rightarrow> faults e
         | Inr (r, c') \<Rightarrow>
             (case r of Some (v, again) \<Rightarrow> returns (v, again, c') | None \<Rightarrow> dw_place_loop nostop end_char c'))
      else returns (pl_copied c, False, c))"

declare dw_place_loop.simps [code]

text \<open>The result, \<open>*start_ptr\<close>, \<open>*nocopy_again\<close> and the buffer.\<close>

definition dw_read_nocopy :: "data_wrap \<Rightarrow> int \<Rightarrow> byte option \<Rightarrow> (int \<times> nat \<times> bool \<times> data_wrap) run" where
  "dw_read_nocopy dw size_raw end_char =
     bind_run (dw_place_loop (size_raw = - 1) end_char
         \<lparr>pl_dw = dw, pl_size = (if 0 < size_raw then size_raw else 0), pl_copied = 0\<rparr>)
       (\<lambda>(r, again, c). returns (r, dw_ptr dw, again, pl_dw c))"

section \<open>The buffer as a stream\<close>

text \<open>
  A blocking socket that never fails; what is still to be read is what is unread in the buffer and
  what the socket has.
\<close>

definition net_calm :: "segment list \<Rightarrow> bool" where
  "net_calm net \<longleftrightarrow> (\<forall>s \<in> set net. \<exists>bs. s = Bytes bs)"

definition unread :: "data_wrap \<Rightarrow> cells" where
  "unread dw = take (dw_end dw - dw_ptr dw) (drop (dw_ptr dw) (dw_data dw))"

definition dw_stream :: "data_wrap \<Rightarrow> bytes \<Rightarrow> bool" where
  "dw_stream dw S \<longleftrightarrow>
     dw_ptr dw \<le> dw_end dw \<and> dw_end dw \<le> dw_length dw \<and> length (dw_data dw) = dw_length dw + 1 \<and>
     0 < dw_length dw \<and> net_calm (dw_fd dw) \<and>
     (\<exists>bs. unread dw = map Some bs \<and> S = bs @ net_bytes (dw_fd dw))"

lemma dw_init_stream:
  assumes "0 < n" "n < 2 ^ 63" and "net_calm net" and "\<forall>k. mal k"
  obtains dw where "dw_init mal net n = Ok dw" "dw_stream dw (net_bytes net)" "dw_ptr dw = 0" "dw_length dw = n"
  using assms by (auto simp: dw_init_def dw_stream_def unread_def size_t_def)

lemma sock_recv_calm:
  assumes "net_calm net" and "0 < n" and "net_bytes net \<noteq> []"
  obtains bs net' where "sock_recv n net = (Received bs, net')" "net_calm net'" "bs \<noteq> []" "length bs \<le> n"
    "net_bytes net = bs @ net_bytes net'"
  using assms
proof (induction n net arbitrary: thesis rule: sock_recv.induct)
  case (5 n bs net)
  show ?case
  proof (cases "bs = []")
    case True
    have "net_calm net" "net_bytes net \<noteq> []" using 5(3,5) True by (auto simp: net_calm_def)
    then obtain bs' net' where "sock_recv n net = (Received bs', net')" "net_calm net'" "bs' \<noteq> []" "length bs' \<le> n"
      "net_bytes net = bs' @ net_bytes net'"
      using 5(1)[OF True _ _ 5(4)] by blast
    then show ?thesis using True by (intro 5(2)[of bs' net']) auto
  next
    case False
    show ?thesis
    proof (cases "length bs \<le> n")
      case True
      then show ?thesis using False 5(3) by (intro 5(2)) (auto simp: net_calm_def)
    next
      case long: False
      then show ?thesis using False 5(3,4)
        by (intro 5(2)[of "take n bs" "Bytes (drop n bs) # net"]) (auto simp: net_calm_def)
    qed
  qed
qed (auto simp: net_calm_def)

lemma dw_advance:
  assumes "dw_stream dw S" and "m \<le> dw_end dw - dw_ptr dw"
  shows "dw_stream (dw\<lparr>dw_ptr := dw_ptr dw + m\<rparr>) (drop m S)" and "take m (drop (dw_ptr dw) (dw_data dw)) = map Some (take m S)"
    and "m \<le> length S"
proof -
  obtain bs where bs: "unread dw = map Some bs" "S = bs @ net_bytes (dw_fd dw)" using assms(1) by (auto simp: dw_stream_def)
  have "length (unread dw) = dw_end dw - dw_ptr dw" using assms(1) by (auto simp: dw_stream_def unread_def)
  then have len: "m \<le> length bs" using bs(1) assms(2) by simp
  then show "m \<le> length S" using bs(2) by simp
  have "take m (unread dw) = take m (drop (dw_ptr dw) (dw_data dw))" using assms(2) by (simp add: unread_def)
  then show "take m (drop (dw_ptr dw) (dw_data dw)) = map Some (take m S)" using bs len by (simp add: take_map)
  have "unread (dw\<lparr>dw_ptr := dw_ptr dw + m\<rparr>) = drop m (unread dw)"
    by (simp add: unread_def drop_take add.commute)
  then have "unread (dw\<lparr>dw_ptr := dw_ptr dw + m\<rparr>) = map Some (drop m bs)" using bs(1) by (simp add: drop_map)
  then show "dw_stream (dw\<lparr>dw_ptr := dw_ptr dw + m\<rparr>) (drop m S)"
    using assms bs len by (auto simp: dw_stream_def)
qed

text \<open>What a read keeps of the buffer as long as it does not start again at its beginning.\<close>

definition dw_kept :: "data_wrap \<Rightarrow> bytes \<Rightarrow> data_wrap \<Rightarrow> bool" where
  "dw_kept dw xs dw' \<longleftrightarrow> dw_ptr dw' = dw_ptr dw + length xs \<and>
     take (dw_ptr dw') (dw_data dw') = take (dw_ptr dw) (dw_data dw) @ map Some xs"

lemma dw_kept_trans: "dw_kept dw xs dw1 \<Longrightarrow> dw_kept dw1 ys dw2 \<Longrightarrow> dw_kept dw (xs @ ys) dw2"
  by (auto simp: dw_kept_def)

lemma dw_kept_advance:
  assumes "dw_stream dw S" and "m \<le> dw_end dw - dw_ptr dw"
  shows "dw_kept dw (take m S) (dw\<lparr>dw_ptr := dw_ptr dw + m\<rparr>)"
  using dw_advance[OF assms] by (simp add: dw_kept_def take_add)

lemma dw_refill_calm:
  assumes "dw_stream dw S" and "dw_ptr dw = dw_end dw" and "S \<noteq> []"
  obtains dw' where "dw_refill dw = (None, dw')" "dw_stream dw' S" "dw_ptr dw' < dw_end dw'"
    "dw_length dw' = dw_length dw" "dw_end dw < dw_length dw \<Longrightarrow> dw_kept dw [] dw'"
proof -
  have ok: "dw_end dw \<le> dw_length dw" "length (dw_data dw) = dw_length dw + 1" "0 < dw_length dw" "net_calm (dw_fd dw)"
    and S: "S = net_bytes (dw_fd dw)"
    using assms(1,2) by (auto simp: dw_stream_def unread_def)
  show thesis
  proof (cases "dw_end dw = dw_length dw")
    case True
    obtain bs net where r: "sock_recv (dw_length dw) (dw_fd dw) = (Received bs, net)" "net_calm net" "bs \<noteq> []"
      "length bs \<le> dw_length dw" "net_bytes (dw_fd dw) = bs @ net_bytes net"
      using sock_recv_calm[OF ok(4,3)] S assms(3) by metis
    let ?dw = "dw\<lparr>dw_data := map Some bs @ drop (length bs) (dw_data dw), dw_fd := net, dw_ptr := 0, dw_end := length bs\<rparr>"
    show thesis
      using ok S True r by (intro that[of ?dw]) (auto simp: dw_refill_def dw_recv_def dw_stream_def unread_def)
  next
    case False
    then have room: "0 < dw_length dw - dw_end dw" using ok(1) by simp
    obtain bs net where r: "sock_recv (dw_length dw - dw_end dw) (dw_fd dw) = (Received bs, net)" "net_calm net" "bs \<noteq> []"
      "length bs \<le> dw_length dw - dw_end dw" "net_bytes (dw_fd dw) = bs @ net_bytes net"
      using sock_recv_calm[OF ok(4) room] S assms(3) by metis
    let ?dw = "dw\<lparr>dw_data := take (dw_end dw) (dw_data dw) @ map Some bs @ drop (dw_end dw + length bs) (dw_data dw),
      dw_fd := net, dw_end := dw_end dw + length bs\<rparr>"
    show thesis
      using ok S False assms(2) r by (intro that[of ?dw]) (auto simp: dw_refill_def dw_recv_def dw_stream_def unread_def dw_kept_def)
  qed
qed

text \<open>A block with bytes put at an offset.\<close>

definition placed :: "nat \<Rightarrow> bytes \<Rightarrow> cells \<Rightarrow> cells" where
  "placed off bs b = take off b @ map Some bs @ drop (off + length bs) b"

lemma length_placed [simp]: "off + length bs \<le> length b \<Longrightarrow> length (placed off bs b) = length b"
  by (simp add: placed_def)

lemma placed_placed:
  assumes "off + length bs \<le> length b"
  shows "placed (off + length bs) cs (placed off bs b) = placed off (bs @ cs) b"
  using assms by (simp add: placed_def ac_simps)

lemma copy_out_calm:
  assumes "dw_stream dw S" and "m \<le> dw_end dw - dw_ptr dw" and "\<forall>b. buf = Some b \<longrightarrow> off + m \<le> length b"
  shows "copy_out off m dw buf = Ok (map_option (placed off (take m S)) buf)"
  using dw_advance[OF assms(1,2)] assms(3) by (auto simp: copy_out_def placed_def split: option.splits)

text \<open>One round of a read of \<open>n\<close> bytes.\<close>

lemma copy_round_calm:
  assumes "dw_stream dw S" and "0 < n" "n < 2 ^ 63" "n \<le> length S" and "\<forall>b. buf = Some b \<longrightarrow> off + n \<le> length b"
  obtains m dw' where "dw_copy_round False None \<lparr>cp_dw = dw, cp_buf = buf, cp_off = off, cp_size = int n, cp_copied = k\<rparr> =
      Ok (None, \<lparr>cp_dw = dw', cp_buf = map_option (placed off (take m S)) buf, cp_off = off + m, cp_size = int (n - m),
        cp_copied = k + int m\<rparr>)"
    "m \<le> n" "dw_stream dw' (drop m S)" "dw_length dw' = dw_length dw" "dw_ptr dw + n \<le> dw_length dw \<Longrightarrow> dw_kept dw (take m S) dw'"
    "0 < m \<or> dw_ptr dw' < dw_end dw'" "dw_ptr dw < dw_end dw \<Longrightarrow> 0 < m"
proof -
  define m where "m = min (dw_end dw - dw_ptr dw) n"
  let ?dw = "dw\<lparr>dw_ptr := dw_ptr dw + m\<rparr>"
  have le: "dw_ptr dw \<le> dw_end dw" using assms(1) by (simp add: dw_stream_def)
  have m: "m \<le> dw_end dw - dw_ptr dw" "m \<le> n" by (auto simp: m_def)
  have adv: "dw_stream ?dw (drop m S)" by (rule dw_advance[OF assms(1) m(1)])
  have span: "dw_span False (int n) None dw = Ok (m, False)"
    by (auto simp: dw_span_def Let_def m_def min_def)
  have out: "copy_out off m dw buf = Ok (map_option (placed off (take m S)) buf)"
    using assms(5) m by (intro copy_out_calm[OF assms(1) m(1)]) auto
  have sz: "size_t (int n - int m) = int (n - m)" using assms(3) m(2) by (simp add: of_nat_diff)
  let ?c = "\<lambda>dw'. \<lparr>cp_dw = dw', cp_buf = map_option (placed off (take m S)) buf, cp_off = off + m, cp_size = int (n - m),
        cp_copied = k + int m\<rparr>"
  show thesis
  proof (cases "dw_ptr ?dw = dw_end ?dw \<and> m < n")
    case False
    then have "\<not> (dw_ptr ?dw = dw_end ?dw \<and> 0 < int (n - m))" using m(2) by auto
    then have round: "dw_copy_round False None \<lparr>cp_dw = dw, cp_buf = buf, cp_off = off, cp_size = int n, cp_copied = k\<rparr> = Ok (None, ?c ?dw)"
      using le span out sz by (auto simp: dw_copy_round_def Let_def)
    have some: "0 < m \<or> dw_ptr ?dw < dw_end ?dw" "dw_ptr dw < dw_end dw \<Longrightarrow> 0 < m"
      using False m le assms(2) by (auto simp: m_def)
    show thesis
      by (rule that[OF round m(2) adv _ dw_kept_advance[OF assms(1) m(1)] some]) simp
  next
    case True
    then have "drop m S \<noteq> []" using assms(4) by simp
    then obtain dw' where dw': "dw_refill ?dw = (None, dw')" "dw_stream dw' (drop m S)" "dw_ptr dw' < dw_end dw'"
      "dw_length dw' = dw_length ?dw" "dw_end ?dw < dw_length ?dw \<Longrightarrow> dw_kept ?dw [] dw'"
      using dw_refill_calm[OF adv] True by metis
    have "dw_kept dw (take m S) dw'" if "dw_ptr dw + n \<le> dw_length dw"
      using dw_kept_trans[OF dw_kept_advance[OF assms(1) m(1)] dw'(5)] True that by simp
    moreover have "dw_copy_round False None \<lparr>cp_dw = dw, cp_buf = buf, cp_off = off, cp_size = int n, cp_copied = k\<rparr> = Ok (None, ?c dw')"
      using True le span out sz dw'(1) by (simp add: dw_copy_round_def Let_def)
    ultimately show thesis using dw' m(2) assms(2) by (intro that[where m = m and dw' = dw']) (auto simp: m_def)
  qed
qed

lemma copy_loop_calm:
  assumes "dw_stream dw S" and "n < 2 ^ 63" "n \<le> length S" and "\<forall>b. buf = Some b \<longrightarrow> off + n \<le> length b"
  shows "\<exists>c. dw_copy_loop False None \<lparr>cp_dw = dw, cp_buf = buf, cp_off = off, cp_size = int n, cp_copied = k\<rparr> = returns (k + int n, c) \<and>
           dw_stream (cp_dw c) (drop n S) \<and> cp_buf c = map_option (placed off (take n S)) buf \<and>
           dw_length (cp_dw c) = dw_length dw \<and> (dw_ptr dw + n \<le> dw_length dw \<longrightarrow> dw_kept dw (take n S) (cp_dw c))"
  using assms
proof (induction "2 * n + (if dw_ptr dw < dw_end dw then 0 else 1)" arbitrary: dw S n buf off k rule: less_induct)
  case less
  show ?case
  proof (cases "n = 0")
    case True
    have "placed off [] b = b" for b by (simp add: placed_def)
    then show ?thesis using less.prems True
      by (subst dw_copy_loop.simps) (auto simp: dw_kept_def option.map_ident cong: map_option_cong)
  next
    case False
    then have pos: "0 < n" by simp
    obtain m dw' where round: "dw_copy_round False None \<lparr>cp_dw = dw, cp_buf = buf, cp_off = off, cp_size = int n, cp_copied = k\<rparr> =
        Ok (None, \<lparr>cp_dw = dw', cp_buf = map_option (placed off (take m S)) buf, cp_off = off + m, cp_size = int (n - m),
          cp_copied = k + int m\<rparr>)"
      and m: "m \<le> n" and dw': "dw_stream dw' (drop m S)" and len: "dw_length dw' = dw_length dw"
      and kept: "dw_ptr dw + n \<le> dw_length dw \<Longrightarrow> dw_kept dw (take m S) dw'"
      and prog: "0 < m \<or> dw_ptr dw' < dw_end dw'" "dw_ptr dw < dw_end dw \<Longrightarrow> 0 < m"
      by (rule copy_round_calm[OF less.prems(1) pos less.prems(2-4)]) blast
    have less_m: "2 * (n - m) + (if dw_ptr dw' < dw_end dw' then 0 else 1) < 2 * n + (if dw_ptr dw < dw_end dw then 0 else 1)"
      using prog m by auto
    have room: "\<forall>b. map_option (placed off (take m S)) buf = Some b \<longrightarrow> off + m + (n - m) \<le> length b"
      using less.prems(3,4) m by auto
    have n1: "n - m < 2 ^ 63" "n - m \<le> length (drop m S)" using less.prems(2,3) by auto
    obtain c where c: "dw_copy_loop False None \<lparr>cp_dw = dw', cp_buf = map_option (placed off (take m S)) buf, cp_off = off + m,
          cp_size = int (n - m), cp_copied = k + int m\<rparr> = returns (k + int m + int (n - m), c)"
      "dw_stream (cp_dw c) (drop (n - m) (drop m S))"
      "cp_buf c = map_option (placed (off + m) (take (n - m) (drop m S))) (map_option (placed off (take m S)) buf)"
      "dw_length (cp_dw c) = dw_length dw'" "dw_ptr dw' + (n - m) \<le> dw_length dw' \<longrightarrow> dw_kept dw' (take (n - m) (drop m S)) (cp_dw c)"
      using less.hyps[OF less_m dw' n1 room, of "k + int m"] by blast
    have all: "take m S @ take (n - m) (drop m S) = take n S" using m by (metis le_add_diff_inverse take_add)
    have buf: "cp_buf c = map_option (placed off (take n S)) buf"
      using c(3) less.prems(3,4) m all placed_placed[of off "take m S" _ "take (n - m) (drop m S)"]
      by (cases buf) auto
    have "dw_kept dw (take n S) (cp_dw c)" if "dw_ptr dw + n \<le> dw_length dw"
    proof -
      have k1: "dw_kept dw (take m S) dw'" by (rule kept[OF that])
      then have "dw_kept dw' (take (n - m) (drop m S)) (cp_dw c)" using c(5) len that m less.prems(3) by (auto simp: dw_kept_def)
      from dw_kept_trans[OF k1 this] show ?thesis unfolding all .
    qed
    moreover have "dw_copy_loop False None \<lparr>cp_dw = dw, cp_buf = buf, cp_off = off, cp_size = int n, cp_copied = k\<rparr> = returns (k + int n, c)"
      using pos m c(1) by (subst dw_copy_loop.simps) (simp add: round)
    ultimately show ?thesis using c(2,4) buf len m by auto
  qed
qed

section \<open>Lines\<close>

lemma memchr_pos_known:
  "memchr_pos c (map Some bs @ r) (length bs) i =
     Ok (if c \<in> set bs then Some (i + length (takeWhile (\<lambda>x. x \<noteq> c) bs)) else None)"
  by (induction bs arbitrary: i) auto

text \<open>The end of the line is in the buffer, or everything in the buffer is before it.\<close>

lemma span_line:
  assumes "dw_stream dw (ds @ c # R)" and "c \<notin> set ds"
  shows "dw_span nostop sz (Some c) dw =
    Ok (if length ds < dw_end dw - dw_ptr dw then (length ds, True)
        else (if int (dw_end dw - dw_ptr dw) < sz \<or> nostop then dw_end dw - dw_ptr dw else nat sz, False))"
proof -
  obtain bs where bs: "unread dw = map Some bs" "ds @ c # R = bs @ net_bytes (dw_fd dw)"
    using assms(1) by (auto simp: dw_stream_def)
  have len: "length bs = dw_end dw - dw_ptr dw"
    using arg_cong[OF bs(1), of length] assms(1) by (auto simp: dw_stream_def unread_def)
  have "drop (dw_ptr dw) (dw_data dw) = map Some bs @ drop (dw_end dw - dw_ptr dw) (drop (dw_ptr dw) (dw_data dw))"
    using bs(1) unfolding unread_def by (metis append_take_drop_id)
  from arg_cong[OF this, of "\<lambda>x. memchr_pos c x (length bs) 0"]
  have find: "memchr_pos c (drop (dw_ptr dw) (dw_data dw)) (dw_end dw - dw_ptr dw) 0 =
      Ok (if c \<in> set bs then Some (length (takeWhile (\<lambda>x. x \<noteq> c) bs)) else None)"
    unfolding memchr_pos_known by (simp add: len)
  show ?thesis
  proof (cases "length ds < length bs")
    case True
    have "bs = take (length bs) (ds @ c # R)" using bs(2) by (metis append_eq_conv_conj)
    then have "bs = ds @ c # take (length bs - length ds - 1) R" using True by (simp add: take_Cons')
    then have "c \<in> set bs \<and> takeWhile (\<lambda>x. x \<noteq> c) bs = ds" using assms(2) by (metis (mono_tags, lifting) in_set_conv_decomp takeWhile_append2 takeWhile.simps(2) append_Nil2)
    then show ?thesis using find True len by (simp add: dw_span_def)
  next
    case False
    have "take (length bs) (ds @ c # R) = bs" using bs(2) by (metis append_eq_conv_conj)
    then have "bs = take (length bs) ds" using False by simp
    then have "c \<notin> set bs" using assms(2) by (metis in_set_takeD)
    then show ?thesis using find False len by (simp add: dw_span_def)
  qed
qed

text \<open>A line that fits into what is left of the buffer is read in place.\<close>

lemma place_line:
  assumes "dw_stream dw (ds @ c # R)" and "c \<notin> set ds" and "dw_ptr dw + length ds < dw_length dw"
  shows "\<exists>x. dw_place_loop True (Some c) \<lparr>pl_dw = dw, pl_size = sz, pl_copied = k\<rparr> = returns (k + int (length ds), False, x) \<and>
           dw_stream (pl_dw x) (c # R) \<and> dw_kept dw ds (pl_dw x) \<and> dw_length (pl_dw x) = dw_length dw \<and>
           dw_ptr (pl_dw x) < dw_end (pl_dw x)"
  using assms
proof (induction "2 * length ds + (if dw_ptr dw < dw_end dw then 0 else 1)" arbitrary: dw ds k rule: less_induct)
  case less
  let ?r = "dw_end dw - dw_ptr dw"
  have le: "dw_ptr dw \<le> dw_end dw" using less.prems(1) by (simp add: dw_stream_def)
  note span = span_line[OF less.prems(1,2), of True sz]
  show ?case
  proof (cases "length ds < ?r")
    case True
    let ?dw = "dw\<lparr>dw_ptr := dw_ptr dw + length ds\<rparr>"
    have "dw_place_loop True (Some c) \<lparr>pl_dw = dw, pl_size = sz, pl_copied = k\<rparr> =
        returns (k + int (length ds), False, \<lparr>pl_dw = ?dw, pl_size = sz, pl_copied = k + int (length ds)\<rparr>)"
      using True le by (subst dw_place_loop.simps) (simp add: dw_place_round_def Let_def span)
    moreover have "dw_stream ?dw (c # R)" using dw_advance(1)[OF less.prems(1), of "length ds"] True by simp
    moreover have "dw_kept dw ds ?dw" using dw_kept_advance[OF less.prems(1), of "length ds"] True by simp
    moreover have "dw_ptr ?dw < dw_end ?dw" using True by simp
    ultimately show ?thesis by auto
  next
    case False
    let ?dw = "dw\<lparr>dw_ptr := dw_ptr dw + ?r\<rparr>"
    have adv: "dw_stream ?dw (drop ?r ds @ c # R)" using dw_advance(1)[OF less.prems(1), of ?r] False by simp
    have end_ptr: "dw_ptr ?dw = dw_end ?dw" "dw_end ?dw < dw_length ?dw" using le False less.prems(3) by auto
    then obtain dw' where dw': "dw_refill ?dw = (None, dw')" "dw_stream dw' (drop ?r ds @ c # R)" "dw_ptr dw' < dw_end dw'"
      "dw_length dw' = dw_length ?dw" "dw_kept ?dw [] dw'"
      using dw_refill_calm[OF adv] by (metis append_is_Nil_conv list.distinct(1))
    have k1: "dw_kept dw (take ?r ds) dw'"
      using dw_kept_trans[OF dw_kept_advance[OF less.prems(1) order.refl] dw'(5)] False by simp
    have step: "dw_place_loop True (Some c) \<lparr>pl_dw = dw, pl_size = sz, pl_copied = k\<rparr> =
        dw_place_loop True (Some c) \<lparr>pl_dw = dw', pl_size = sz, pl_copied = k + int ?r\<rparr>"
      using False end_ptr le dw'(1) by (subst dw_place_loop.simps) (simp add: dw_place_round_def Let_def span)
    have meas: "2 * length (drop ?r ds) + (if dw_ptr dw' < dw_end dw' then 0 else 1) <
        2 * length ds + (if dw_ptr dw < dw_end dw then 0 else 1)"
      using False dw'(3) by auto
    have room: "dw_ptr dw' + length (drop ?r ds) < dw_length dw'"
      using k1 dw'(4) less.prems(3) False by (simp add: dw_kept_def)
    have notin: "c \<notin> set (drop ?r ds)" using less.prems(2) by (metis in_set_dropD)
    from less.hyps[OF meas dw'(2) notin room, of "k + int ?r"] False
    obtain x where x: "dw_place_loop True (Some c) \<lparr>pl_dw = dw', pl_size = sz, pl_copied = k + int ?r\<rparr> =
        returns (k + int (length ds), False, x)" "dw_stream (pl_dw x) (c # R)" "dw_kept dw' (drop ?r ds) (pl_dw x)"
        "dw_length (pl_dw x) = dw_length dw'" "dw_ptr (pl_dw x) < dw_end (pl_dw x)"
      by auto
    then show ?thesis using step dw_kept_trans[OF k1 x(3)] dw'(4) by auto
  qed
qed

text \<open>A line that is copied into a block with room for it and more.\<close>

lemma copy_line:
  assumes "dw_stream dw (ds @ c # R)" and "c \<notin> set ds" and "dw_ptr dw + length ds < dw_length dw"
    and "length ds < n" "n < 2 ^ 63" and "off + length ds \<le> length b"
  shows "\<exists>x. dw_copy_loop False (Some c) \<lparr>cp_dw = dw, cp_buf = Some b, cp_off = off, cp_size = int n, cp_copied = k\<rparr> =
             returns (k + int (length ds), x) \<and>
           dw_stream (cp_dw x) (c # R) \<and> cp_buf x = Some (placed off ds b) \<and> dw_kept dw ds (cp_dw x) \<and>
           dw_length (cp_dw x) = dw_length dw"
  using assms
proof (induction "2 * length ds + (if dw_ptr dw < dw_end dw then 0 else 1)" arbitrary: dw ds n b off k rule: less_induct)
  case less
  let ?r = "dw_end dw - dw_ptr dw"
  have le: "dw_ptr dw \<le> dw_end dw" using less.prems(1) by (simp add: dw_stream_def)
  note span = span_line[OF less.prems(1,2), of False "int n"]
  show ?case
  proof (cases "length ds < ?r")
    case True
    let ?dw = "dw\<lparr>dw_ptr := dw_ptr dw + length ds\<rparr>"
    have out: "copy_out off (length ds) dw (Some b) = Ok (Some (placed off ds b))"
      using copy_out_calm[OF less.prems(1), of "length ds" "Some b" off] True less.prems(6) by simp
    have "\<exists>m. dw_copy_loop False (Some c) \<lparr>cp_dw = dw, cp_buf = Some b, cp_off = off, cp_size = int n, cp_copied = k\<rparr> =
        returns (k + int (length ds), \<lparr>cp_dw = ?dw, cp_buf = Some (placed off ds b), cp_off = off + length ds, cp_size = m,
          cp_copied = k + int (length ds)\<rparr>)"
      using True le out less.prems(4) by (subst dw_copy_loop.simps) (simp add: dw_copy_round_def Let_def span)
    moreover have "dw_stream ?dw (c # R)" using dw_advance(1)[OF less.prems(1), of "length ds"] True by simp
    moreover have "dw_kept dw ds ?dw" using dw_kept_advance[OF less.prems(1), of "length ds"] True by simp
    ultimately show ?thesis by fastforce
  next
    case False
    let ?dw = "dw\<lparr>dw_ptr := dw_ptr dw + ?r\<rparr>" and ?b = "placed off (take ?r ds) b"
    have adv: "dw_stream ?dw (drop ?r ds @ c # R)" using dw_advance(1)[OF less.prems(1), of ?r] False by simp
    have end_ptr: "dw_ptr ?dw = dw_end ?dw" "dw_end ?dw < dw_length ?dw" using le False less.prems(3) by auto
    then obtain dw' where dw': "dw_refill ?dw = (None, dw')" "dw_stream dw' (drop ?r ds @ c # R)" "dw_ptr dw' < dw_end dw'"
      "dw_length dw' = dw_length ?dw" "dw_kept ?dw [] dw'"
      using dw_refill_calm[OF adv] by (metis append_is_Nil_conv list.distinct(1))
    have k1: "dw_kept dw (take ?r ds) dw'"
      using dw_kept_trans[OF dw_kept_advance[OF less.prems(1) order.refl] dw'(5)] False by simp
    have out: "copy_out off ?r dw (Some b) = Ok (Some ?b)"
      using copy_out_calm[OF less.prems(1), of ?r "Some b" off] False less.prems(6) by simp
    have sz: "size_t (int n - int ?r) = int (n - ?r)" "?r < n" "?r \<le> length ds"
      using less.prems(4,5) False by (auto simp: of_nat_diff)
    then have "dw_copy_round False (Some c) \<lparr>cp_dw = dw, cp_buf = Some b, cp_off = off, cp_size = int n, cp_copied = k\<rparr> =
        Ok (None, \<lparr>cp_dw = dw', cp_buf = Some ?b, cp_off = off + ?r, cp_size = int (n - ?r), cp_copied = k + int ?r\<rparr>)"
      unfolding dw_copy_round_def using False le end_ptr dw'(1) out span
      by (simp add: Let_def del: of_nat_diff)
    then have step: "dw_copy_loop False (Some c) \<lparr>cp_dw = dw, cp_buf = Some b, cp_off = off, cp_size = int n, cp_copied = k\<rparr> =
        dw_copy_loop False (Some c) \<lparr>cp_dw = dw', cp_buf = Some ?b, cp_off = off + ?r, cp_size = int (n - ?r), cp_copied = k + int ?r\<rparr>"
      using less.prems(4) by (subst dw_copy_loop.simps) simp
    have meas: "2 * length (drop ?r ds) + (if dw_ptr dw' < dw_end dw' then 0 else 1) <
        2 * length ds + (if dw_ptr dw < dw_end dw then 0 else 1)"
      using False dw'(3) by auto
    have room: "dw_ptr dw' + length (drop ?r ds) < dw_length dw'" "length (drop ?r ds) < n - ?r" "n - ?r < 2 ^ 63"
      "off + ?r + length (drop ?r ds) \<le> length ?b"
      using k1 dw'(4) less.prems(3-6) False sz(2) by (auto simp: dw_kept_def)
    have notin: "c \<notin> set (drop ?r ds)" using less.prems(2) by (metis in_set_dropD)
    have "placed (off + ?r) (drop ?r ds) ?b = placed off ds b"
      using placed_placed[of off "take ?r ds" b "drop ?r ds"] less.prems(6) sz(3) by simp
    with less.hyps[OF meas dw'(2) notin room, of "k + int ?r"] False
    obtain x where x: "dw_copy_loop False (Some c) \<lparr>cp_dw = dw', cp_buf = Some ?b, cp_off = off + ?r, cp_size = int (n - ?r), cp_copied = k + int ?r\<rparr> =
        returns (k + int (length ds), x)" "dw_stream (cp_dw x) (c # R)" "dw_kept dw' (drop ?r ds) (cp_dw x)"
        "dw_length (cp_dw x) = dw_length dw'" "cp_buf x = Some (placed off ds b)"
      by auto
    then show ?thesis using step dw_kept_trans[OF k1 x(3)] dw'(4) by auto
  qed
qed

text \<open>A longer line: the copy leaves the block, or the block is full and the rest of the line is still to come.\<close>

lemma copy_long_line:
  assumes "dw_stream dw (ds @ c # R)" and "c \<notin> set ds" and "dw_ptr dw + length ds < dw_length dw"
    and "0 < n" "n \<le> length ds" "n < 2 ^ 63" and "length b = off + n"
  shows "dw_copy_loop False (Some c) \<lparr>cp_dw = dw, cp_buf = Some b, cp_off = off, cp_size = int n, cp_copied = k\<rparr> = faults OutOfBounds \<or>
     (\<exists>x b'. dw_copy_loop False (Some c) \<lparr>cp_dw = dw, cp_buf = Some b, cp_off = off, cp_size = int n, cp_copied = k\<rparr> = returns (k + int n, x) \<and>
        dw_stream (cp_dw x) (drop n ds @ c # R) \<and> cp_buf x = Some b' \<and> length b' = length b \<and>
        dw_ptr (cp_dw x) = dw_ptr dw + n \<and> dw_length (cp_dw x) = dw_length dw)"
  using assms
proof (induction "2 * n + (if dw_ptr dw < dw_end dw then 0 else 1)" arbitrary: dw ds n b off k rule: less_induct)
  case less
  let ?r = "dw_end dw - dw_ptr dw"
  let ?c = "\<lparr>cp_dw = dw, cp_buf = Some b, cp_off = off, cp_size = int n, cp_copied = k\<rparr>"
  have le: "dw_ptr dw \<le> dw_end dw" using less.prems(1) by (simp add: dw_stream_def)
  note span = span_line[OF less.prems(1,2), of False "int n"]
  consider (found) "length ds < ?r" | (fits) "\<not> length ds < ?r" "n \<le> ?r" | (more) "?r < n" using less.prems(5) by linarith
  then show ?case
  proof cases
    case found
    show ?thesis
    proof (cases "length ds = n")
      case False
      then have "dw_copy_loop False (Some c) ?c = faults OutOfBounds"
        using found le less.prems(4,5,7) by (subst dw_copy_loop.simps) (simp add: dw_copy_round_def Let_def span copy_out_def)
      then show ?thesis by blast
    next
      case True
      have out: "copy_out off n dw (Some b) = Ok (Some (placed off (take n (ds @ c # R)) b))"
        using copy_out_calm[OF less.prems(1), of n "Some b" off] found True less.prems(7) by simp
      let ?dw = "dw\<lparr>dw_ptr := dw_ptr dw + n\<rparr>"
      have "\<exists>m. dw_copy_loop False (Some c) ?c =
          returns (k + int n, \<lparr>cp_dw = ?dw, cp_buf = Some (placed off (take n (ds @ c # R)) b), cp_off = off + n, cp_size = m, cp_copied = k + int n\<rparr>)"
        using found le out less.prems(4) True by (subst dw_copy_loop.simps) (simp add: dw_copy_round_def Let_def span)
      then show ?thesis
        using dw_advance(1)[OF less.prems(1), of n] found True less.prems(7) by fastforce
    qed
  next
    case fits
    have out: "copy_out off n dw (Some b) = Ok (Some (placed off (take n (ds @ c # R)) b))"
      using copy_out_calm[OF less.prems(1), of n "Some b" off] fits less.prems(7) by simp
    let ?dw = "dw\<lparr>dw_ptr := dw_ptr dw + n\<rparr>"
    have "dw_copy_round False (Some c) ?c =
        Ok (None, \<lparr>cp_dw = ?dw, cp_buf = Some (placed off (take n (ds @ c # R)) b), cp_off = off + n, cp_size = 0, cp_copied = k + int n\<rparr>)"
      using fits le out less.prems(4,6) by (auto simp: dw_copy_round_def Let_def span size_t_def)
    then have "dw_copy_loop False (Some c) ?c =
        returns (k + int n, \<lparr>cp_dw = ?dw, cp_buf = Some (placed off (take n (ds @ c # R)) b), cp_off = off + n, cp_size = 0, cp_copied = k + int n\<rparr>)"
      using less.prems(4) by (subst dw_copy_loop.simps, simp, subst dw_copy_loop.simps, simp)
    then show ?thesis
      using dw_advance(1)[OF less.prems(1), of n] fits less.prems(5,7) by fastforce
  next
    case more
    let ?dw = "dw\<lparr>dw_ptr := dw_ptr dw + ?r\<rparr>" and ?b = "placed off (take ?r ds) b"
    have short: "?r \<le> length ds" using more less.prems(5) by simp
    have adv: "dw_stream ?dw (drop ?r ds @ c # R)" using dw_advance(1)[OF less.prems(1), of ?r] short by simp
    have end_ptr: "dw_ptr ?dw = dw_end ?dw" "dw_end ?dw < dw_length ?dw" using le short less.prems(3) by auto
    then obtain dw' where dw': "dw_refill ?dw = (None, dw')" "dw_stream dw' (drop ?r ds @ c # R)" "dw_ptr dw' < dw_end dw'"
      "dw_length dw' = dw_length ?dw" "dw_kept ?dw [] dw'"
      using dw_refill_calm[OF adv] by (metis append_is_Nil_conv list.distinct(1))
    have ptr: "dw_ptr dw' = dw_ptr dw + ?r" using dw'(5) by (simp add: dw_kept_def)
    have out: "copy_out off ?r dw (Some b) = Ok (Some ?b)"
      using copy_out_calm[OF less.prems(1), of ?r "Some b" off] short more less.prems(7) by simp
    have sz: "size_t (int n - int ?r) = int (n - ?r)" using less.prems(6) more by (auto simp: of_nat_diff)
    have "dw_copy_round False (Some c) ?c =
        Ok (None, \<lparr>cp_dw = dw', cp_buf = Some ?b, cp_off = off + ?r, cp_size = int (n - ?r), cp_copied = k + int ?r\<rparr>)"
      unfolding dw_copy_round_def using more short le end_ptr dw'(1) out span sz
      by (simp add: Let_def del: of_nat_diff)
    then have step: "dw_copy_loop False (Some c) ?c =
        dw_copy_loop False (Some c) \<lparr>cp_dw = dw', cp_buf = Some ?b, cp_off = off + ?r, cp_size = int (n - ?r), cp_copied = k + int ?r\<rparr>"
      using less.prems(4) by (subst dw_copy_loop.simps) simp
    have meas: "2 * (n - ?r) + (if dw_ptr dw' < dw_end dw' then 0 else 1) < 2 * n + (if dw_ptr dw < dw_end dw then 0 else 1)"
      using more dw'(3) by auto
    have notin: "c \<notin> set (drop ?r ds)" using less.prems(2) by (metis in_set_dropD)
    have side: "dw_ptr dw' + length (drop ?r ds) < dw_length dw'" "0 < n - ?r" "n - ?r \<le> length (drop ?r ds)" "n - ?r < 2 ^ 63"
      "length ?b = off + ?r + (n - ?r)"
      using ptr dw'(4) less.prems(3-7) more short by auto
    have "drop (n - ?r) (drop ?r ds) = drop n ds" using more by simp
    with less.hyps[OF meas dw'(2) notin side, of "k + int ?r"] step ptr dw'(4) more short less.prems(7)
    show ?thesis by auto
  qed
qed

text \<open>One byte in place.\<close>

lemma place_byte:
  assumes "dw_stream dw (c # S)" and "dw_ptr dw < dw_length dw"
  obtains dw' where "dw_read_nocopy dw 1 None = returns (1, dw_ptr dw, False, dw')" "dw_stream dw' S" "dw_kept dw [c] dw'"
    "dw_length dw' = dw_length dw"
proof -
  have take1: "dw_place_loop False None \<lparr>pl_dw = dw, pl_size = 1, pl_copied = 0\<rparr> =
      returns (1, False, \<lparr>pl_dw = dw\<lparr>dw_ptr := dw_ptr dw + 1\<rparr>, pl_size = 0, pl_copied = 1\<rparr>)"
    if "dw_ptr dw < dw_end dw" for dw
  proof -
    have "dw_place_round False None \<lparr>pl_dw = dw, pl_size = 1, pl_copied = 0\<rparr> =
        Ok (None, \<lparr>pl_dw = dw\<lparr>dw_ptr := dw_ptr dw + 1\<rparr>, pl_size = 0, pl_copied = 1\<rparr>)"
      using that by (simp add: dw_place_round_def dw_span_def Let_def)
    then show ?thesis by (subst dw_place_loop.simps, simp, subst dw_place_loop.simps, simp)
  qed
  have le: "dw_ptr dw \<le> dw_end dw" using assms(1) by (simp add: dw_stream_def)
  show thesis
  proof (cases "dw_ptr dw < dw_end dw")
    case True
    then show thesis
      using dw_advance(1)[OF assms(1), of 1] dw_kept_advance[OF assms(1), of 1] take1[OF True]
      by (intro that[of "dw\<lparr>dw_ptr := dw_ptr dw + 1\<rparr>"]) (simp_all add: dw_read_nocopy_def)
  next
    case False
    then have at: "dw_ptr dw = dw_end dw" using le by simp
    then have same: "dw\<lparr>dw_ptr := dw_end dw\<rparr> = dw" by (cases dw) simp
    obtain dw1 where dw1: "dw_refill dw = (None, dw1)" "dw_stream dw1 (c # S)" "dw_ptr dw1 < dw_end dw1"
      "dw_length dw1 = dw_length dw" "dw_kept dw [] dw1"
      using dw_refill_calm[OF assms(1)] assms(2) at by (metis list.distinct(1))
    have refill: "dw_refill (dw\<lparr>dw_ptr := dw_end dw\<rparr>) = (None, dw1)" unfolding same by (rule dw1(1))
    have "dw_place_loop False None \<lparr>pl_dw = dw, pl_size = 1, pl_copied = 0\<rparr> =
        dw_place_loop False None \<lparr>pl_dw = dw1, pl_size = 1, pl_copied = 0\<rparr>"
      using at assms(2) refill by (subst dw_place_loop.simps) (simp add: dw_place_round_def dw_span_def Let_def)
    moreover have "dw_kept dw [c] (dw1\<lparr>dw_ptr := dw_ptr dw1 + 1\<rparr>)"
      using dw_kept_trans[OF dw1(5) dw_kept_advance[OF dw1(2), of 1]] dw1(3) by simp
    ultimately show thesis
      using dw_advance(1)[OF dw1(2), of 1] take1[OF dw1(3)] dw1(3,4)
      by (intro that[of "dw1\<lparr>dw_ptr := dw_ptr dw1 + 1\<rparr>"]) (simp_all add: dw_read_nocopy_def)
  qed
qed

section \<open>Reads of a number of bytes\<close>

text \<open>
  C8. A read of \<open>n\<close> bytes into a block is a read from the stream: whatever the size of the buffer and however the
  network cuts the stream up, the block gets its next \<open>n\<close> bytes, nothing else of the block
  changes, and the rest of the stream is still to be read.
\<close>

theorem dw_read_copy_is_a_stream_read:
  assumes "dw_stream dw S" and "n \<le> length S" "n < 2 ^ 63" and "off + n \<le> length b"
  shows "\<exists>dw'. dw_read_copy dw (Some b) off (int n) None = returns (int n, dw', Some (placed off (take n S) b)) \<and>
           dw_stream dw' (drop n S)"
proof -
  have "\<forall>b'. Some b = Some b' \<longrightarrow> off + n \<le> length b'" using assms(4) by simp
  from copy_loop_calm[OF assms(1,3,2) this, of 0] show ?thesis by (auto simp: dw_read_copy_def)
qed

text \<open>A buffer of four bytes, and seven bytes that come in two parts.\<close>

theorem dw_read_copy_is_a_stream_read_witness:
  "\<exists>dw dw' :: data_wrap. dw_init (\<lambda>_. True) [Bytes [1, 2, 3, 4, 5], Bytes [6, 7]] 4 = Ok dw \<and>
     dw_read_copy dw (Some (replicate 8 None)) 1 (int 6) None =
       returns (int 6, dw', Some [None, Some 1, Some 2, Some 3, Some 4, Some 5, Some 6, None]) \<and> dw_stream dw' [7]"
proof -
  obtain dw where dw: "dw_init (\<lambda>_. True) [Bytes [1, 2, 3, 4, 5], Bytes [6, 7]] 4 = Ok dw" "dw_stream dw [1, 2, 3, 4, 5, 6, 7]"
    by (auto simp: dw_init_def size_t_def dw_stream_def unread_def net_calm_def)
  have put: "placed 1 (take 6 [1, 2, 3, 4, 5, 6, 7]) (replicate 8 None) = [None, Some 1, Some 2, Some 3, Some 4, Some 5, Some 6, None]"
    by code_simp
  show ?thesis using dw_read_copy_is_a_stream_read[OF dw(2), of 6 1 "replicate 8 None"] dw(1) unfolding put by auto
qed

end
