(* ===== verification/Resp_Dw.thy ===== *)
theory Resp_Dw
  imports Netwrap Replies
begin

text \<open>
  \<^verbatim>\<open>lib/resp_parser_dw.c\<close>, the older parser of replies and commands, over the buffer of \<open>Netwrap\<close>.  A string is
  the block \<^verbatim>\<open>malloc\<close> gave for it.
\<close>

section \<open>Responses\<close>

datatype resp_fault =
    process_string_net_err | process_string_malloc_err | process_string_dw_err | process_string_length_err
  | process_int_net_err | process_bulk_string_net_err | process_bulk_string_malloc_err
  | process_bulk_string_length_err | process_array_malloc_err | process_array_length_err

text \<open>The elements of an array are null or a list, an element that has not been written being unset.\<close>

datatype resp_response =
    PROCESSING_ERROR resp_fault
  | SIMPLE_STRING cells
  | ERROR_STRING cells
  | INTEGER int
  | BULK_STRING "cells option"
  | ARRAY int "resp_response option list option"

definition resp_error :: "resp_response \<Rightarrow> resp_fault option" where
  "resp_error r = (case r of PROCESSING_ERROR e \<Rightarrow> Some e | _ \<Rightarrow> None)"

definition resp_array_length :: "resp_response \<Rightarrow> int" where
  "resp_array_length r = (case r of ARRAY n _ \<Rightarrow> n | _ \<Rightarrow> - 1)"

definition resp_type :: "resp_response \<Rightarrow> byte" where
  "resp_type r = (case r of SIMPLE_STRING _ \<Rightarrow> 43 | ERROR_STRING _ \<Rightarrow> 45 | BULK_STRING _ \<Rightarrow> 36 | INTEGER _ \<Rightarrow> 58
     | ARRAY _ _ \<Rightarrow> 42 | PROCESSING_ERROR _ \<Rightarrow> 33)"

definition resp_bulkstring_array_fetch :: "resp_response \<Rightarrow> int \<Rightarrow> cells option res" where
  "resp_bulkstring_array_fetch r idx =
     (case r of
        ARRAY n elems \<Rightarrow>
          if n \<le> to_long idx then Ok None
          else (case elems of
            None \<Rightarrow> Fault NullDeref
          | Some es \<Rightarrow>
              if idx < 0 \<or> int (length es) \<le> idx then Fault OutOfBounds
              else (case es ! nat idx of
                None \<Rightarrow> Fault UninitRead
              | Some (BULK_STRING s) \<Rightarrow> Ok s
              | Some _ \<Rightarrow> Ok None))
      | _ \<Rightarrow> Ok None)"

section \<open>Strings and numbers\<close>

text \<open>
  The loop of \<open>process_string\<close>: the result of the last read, how much the block grew for it, and the block, or
  nothing when it cannot grow.
\<close>

partial_function (option) string_loop ::
    "grants \<Rightarrow> cells \<Rightarrow> data_wrap \<Rightarrow> ((int \<times> nat \<times> cells) option \<times> data_wrap) run" where
  "string_loop mal buf dw =
     (let n = length buf; incr = (if min n 512 < 8 then 8 else min n 512) in
      if \<not> mal (int (n + incr)) then returns (None, dw)
      else case dw_read_copy dw (Some (buf @ replicate incr None)) n (int incr) (Some 13) of
        None \<Rightarrow> None
      | Some (Inl e) \<Rightarrow> faults e
      | Some (Inr (r, dw', b)) \<Rightarrow>
          (case b of
             None \<Rightarrow> faults NullDeref
           | Some buf' \<Rightarrow> if r = - 1 then string_loop mal buf' dw' else returns (Some (r, incr, buf'), dw')))"

declare string_loop.simps [code]

definition process_string :: "grants \<Rightarrow> data_wrap \<Rightarrow> (resp_response \<times> data_wrap) run" where
  "process_string mal dw =
     bind_run (string_loop mal [] dw) (\<lambda>(x, dw).
     case x of
       None \<Rightarrow> returns (PROCESSING_ERROR process_string_malloc_err, dw)
     | Some (retval, incr, buf) \<Rightarrow>
         bind_run (dw_eat dw 2) (\<lambda>(_, dw).
         if retval \<le> - 2 then
           returns (PROCESSING_ERROR (if retval \<le> - 4 then process_string_dw_err else process_string_net_err), dw)
         else
           let i = int (length buf - incr) + retval in
           if i - 2 < 0 then returns (PROCESSING_ERROR process_string_length_err, dw)
           else if int (length buf) \<le> i then faults OutOfBounds
           else returns (SIMPLE_STRING (buf[nat i := Some 0]), dw)))"

text \<open>A number, and whether all of it has been read.\<close>

partial_function (option) int_loop :: "int \<Rightarrow> data_wrap \<Rightarrow> (int \<times> int \<times> data_wrap) run" where
  "int_loop i dw =
     (case dw_read_nocopy dw (- 1) (Some 13) of
        None \<Rightarrow> None
      | Some (Inl e) \<Rightarrow> faults e
      | Some (Inr (recv_len, start, again, dw')) \<Rightarrow>
          if recv_len < 0 then returns (to_int recv_len, i, dw')
          else
            (case (if recv_len = 0 then Ok i
                   else bind_res (strtol_cells (drop start (dw_data dw'))) (\<lambda>(v, _).
                     bind_res (long_op (i * 10)) (\<lambda>a.
                     bind_res (long_op (a * recv_len)) (\<lambda>b.
                     long_op (b + v))))) of
               Inl e \<Rightarrow> faults e
             | Inr i' \<Rightarrow> if again then int_loop i' dw' else returns (0, i', dw')))"

declare int_loop.simps [code]

definition process_int_raw :: "data_wrap \<Rightarrow> (int \<times> int \<times> data_wrap) run" where
  "process_int_raw dw =
     bind_run (int_loop 0 dw) (\<lambda>(rc, i, dw).
     if rc \<noteq> 0 then returns (rc, i, dw)
     else bind_run (dw_eat dw 2) (\<lambda>(_, dw). returns (0, i, dw)))"

definition process_int :: "data_wrap \<Rightarrow> (resp_response \<times> data_wrap) run" where
  "process_int dw =
     bind_run (process_int_raw dw) (\<lambda>(rc, i, dw).
     returns (if rc \<noteq> 0 then PROCESSING_ERROR process_int_net_err else INTEGER i, dw))"

section \<open>Bulk strings\<close>

text \<open>\<open>str\<close> is the block \<open>*str\<close> points to, if it points to one.\<close>

definition process_bulk_string_raw ::
    "grants \<Rightarrow> data_wrap \<Rightarrow> cells option \<Rightarrow> int \<Rightarrow> (int \<times> cells option \<times> data_wrap) run" where
  "process_bulk_string_raw mal dw str maxlen =
     bind_run (process_int_raw dw) (\<lambda>(err, i, dw).
     if err \<noteq> 0 then returns (err, str, dw)
     else if i \<le> 0 then returns (to_int i, str, dw)
     else
       bind_run (Some (if maxlen \<le> i then long_op (i + 1) else Ok 0)) (\<lambda>n.
       if maxlen \<le> i \<and> \<not> mal n then returns (- 7, None, dw)
       else
         (case (if maxlen \<le> i then Some (replicate (nat n) None) else str) of
            None \<Rightarrow> faults UninitRead
          | Some b \<Rightarrow>
              bind_run (dw_read_copy dw (Some b) 0 i None) (\<lambda>(main_recv, dw, b).
              bind_run (dw_eat dw 2) (\<lambda>(cleanup_recv, dw).
              if main_recv < 0 \<or> cleanup_recv < 0 then returns (- 2, b, dw)
              else (case b of
                None \<Rightarrow> faults NullDeref
              | Some b \<Rightarrow>
                  if int (length b) \<le> i then faults OutOfBounds
                  else returns (to_int i, Some (b[nat i := Some 0]), dw)))))))"

definition process_bulk_string :: "grants \<Rightarrow> data_wrap \<Rightarrow> (resp_response \<times> data_wrap) run" where
  "process_bulk_string mal dw =
     bind_run (process_int dw) (\<lambda>(response, dw).
     case response of
       INTEGER n \<Rightarrow>
         if n = - 1 then returns (BULK_STRING None, dw)
         else if n < - 1 then returns (PROCESSING_ERROR process_bulk_string_length_err, dw)
         else if \<not> mal (n + 1) then returns (PROCESSING_ERROR process_bulk_string_malloc_err, dw)
         else
           bind_run (dw_read_copy dw (Some (replicate (nat (n + 1)) None)) 0 n None) (\<lambda>(main_recv, dw, b).
           bind_run (dw_eat dw 2) (\<lambda>(cleanup_recv, dw).
           if main_recv \<le> 0 \<and> cleanup_recv \<le> 0 then returns (PROCESSING_ERROR process_bulk_string_net_err, dw)
           else returns (BULK_STRING (map_option (\<lambda>b. b[nat n := Some 0]) b), dw)))
     | _ \<Rightarrow> returns (response, dw))"

section \<open>Types, arrays and packets\<close>

text \<open>The first byte of a packet; none after an error of the network.\<close>

partial_function (option) type_loop :: "data_wrap \<Rightarrow> (int \<times> nat \<times> data_wrap) run" where
  "type_loop dw =
     (case dw_read_nocopy dw 1 None of
        None \<Rightarrow> None
      | Some (Inl e) \<Rightarrow> faults e
      | Some (Inr (rval, start, again, dw')) \<Rightarrow>
          if again then type_loop dw' else returns (rval, start, dw'))"

declare type_loop.simps [code]

definition read_type :: "data_wrap \<Rightarrow> (byte option \<times> data_wrap) run" where
  "read_type dw =
     bind_run (type_loop dw) (\<lambda>(rval, start, dw).
     if rval < 0 then returns (None, dw)
     else bind_run (Some (cell_at (dw_data dw) (int start))) (\<lambda>c. returns (Some c, dw)))"

primrec command_elems ::
    "grants \<Rightarrow> int \<Rightarrow> nat \<Rightarrow> int \<Rightarrow> cells option list \<Rightarrow> data_wrap \<Rightarrow> (int option \<times> cells option list \<times> data_wrap) run" where
  "command_elems mal maxlen 0 i elems dw = returns (None, elems, dw)"
| "command_elems mal maxlen (Suc n) i elems dw =
     bind_run (read_type dw) (\<lambda>(c, dw).
     if c \<noteq> Some 36 then returns (Some (- 4), elems, dw)
     else if int (length elems) \<le> i then faults OutOfBounds
     else
       bind_run (process_bulk_string_raw mal dw (elems ! nat i) maxlen) (\<lambda>(retlen, str, dw).
       let elems = elems[nat i := str] in
       if retlen < - 1 then returns (Some (- 5), elems, dw)
       else bind_run (Some (if 2 ^ 31 \<le> i + 1 then Fault SignedOverflow else Ok (i + 1))) (\<lambda>i.
         command_elems mal maxlen n i elems dw)))"

text \<open>The caller's array of \<open>array_length\<close> blocks of \<open>substr_length\<close> bytes is used when the command fits.\<close>

definition resp_process_command ::
    "grants \<Rightarrow> data_wrap \<Rightarrow> cells option list \<Rightarrow> int \<Rightarrow> int \<Rightarrow> (int \<times> cells option list \<times> data_wrap) run" where
  "resp_process_command mal dw array array_length substr_length =
     bind_run (read_type dw) (\<lambda>(c, dw).
     if c \<noteq> Some 42 then returns (- 4, array, dw)
     else
       bind_run (process_int_raw dw) (\<lambda>(err, len, dw).
       if err \<noteq> 0 then returns (- 3, array, dw)
       else if len \<le> 0 then returns (to_int len, array, dw)
       else
         let safe = (len \<le> array_length); n = size_t (8 * len) in
         if \<not> safe \<and> \<not> mal n then returns (- 2, array, dw)
         else
           bind_run (command_elems mal (if safe then substr_length else 0) (nat len) 0
               (if safe then array else replicate (nat (n div 8)) None) dw) (\<lambda>(rc, elems, dw).
           returns (case rc of Some e \<Rightarrow> e | None \<Rightarrow> to_int len, elems, dw))))"

text \<open>The loop over the elements of an array; what \<open>resp_process_packet\<close> reports for one is not looked at.\<close>

type_synonym packet_parser = "data_wrap \<Rightarrow> (int \<times> resp_response option \<times> data_wrap) run"

primrec array_elements ::
    "packet_parser \<Rightarrow> int \<Rightarrow> nat \<Rightarrow> int \<Rightarrow> data_wrap \<Rightarrow> (resp_response option list \<times> data_wrap) run" where
  "array_elements parse slots 0 i dw = returns ([], dw)"
| "array_elements parse slots (Suc n) i dw =
     (if slots \<le> i then faults OutOfBounds
      else
        bind_run (parse dw) (\<lambda>(_, r, dw).
        bind_run (Some (if 2 ^ 31 \<le> i + 1 then Fault SignedOverflow else Ok (i + 1))) (\<lambda>i.
        bind_run (array_elements parse slots n i dw) (\<lambda>(rs, dw).
        returns (r # rs, dw)))))"

definition process_array :: "packet_parser \<Rightarrow> grants \<Rightarrow> data_wrap \<Rightarrow> (resp_response \<times> data_wrap) run" where
  "process_array parse mal dw =
     bind_run (process_int dw) (\<lambda>(response, dw).
     case response of
       INTEGER len \<Rightarrow>
         if len = - 1 then returns (ARRAY len None, dw)
         else if len < - 1 then returns (PROCESSING_ERROR process_array_length_err, dw)
         else
           let n = size_t (24 * len) in
           if \<not> mal n then returns (PROCESSING_ERROR process_array_malloc_err, dw)
           else bind_run (array_elements parse (n div 24) (nat len) 0 dw) (\<lambda>(rs, dw).
             returns (ARRAY len (Some rs), dw))
     | _ \<Rightarrow> returns (response, dw))"

lemma array_elements_mono [partial_function_mono]:
  assumes "\<And>dw. mono_option (\<lambda>f. P f dw)"
  shows "mono_option (\<lambda>f. array_elements (P f) slots n i dw)"
proof (induction n arbitrary: i dw)
  case (Suc n)
  show ?case
    unfolding array_elements.simps
    by (cases "slots \<le> i") (auto intro!: bind_run_mono assms Suc.IH option.const_mono split: prod.splits)
qed (simp add: option.const_mono)

lemma process_array_mono [partial_function_mono]:
  assumes "\<And>dw. mono_option (\<lambda>f. P f dw)"
  shows "mono_option (\<lambda>f. process_array (P f) mal dw)"
  unfolding process_array_def Let_def
proof (intro bind_run_mono option.const_mono)
  fix y :: "resp_response \<times> data_wrap"
  obtain r dw where "y = (r, dw)" by (cases y)
  then show "mono_option (\<lambda>f. case y of (response, dw) \<Rightarrow> (case response of
       INTEGER len \<Rightarrow>
         if len = - 1 then returns (ARRAY len None, dw)
         else if len < - 1 then returns (PROCESSING_ERROR process_array_length_err, dw)
         else if \<not> mal (size_t (24 * len)) then returns (PROCESSING_ERROR process_array_malloc_err, dw)
         else bind_run (array_elements (P f) (size_t (24 * len) div 24) (nat len) 0 dw) (\<lambda>(rs, dw).
             returns (ARRAY len (Some rs), dw))
     | _ \<Rightarrow> returns (response, dw)))"
    by (cases r) (auto intro!: partial_function_mono assms)
qed

partial_function (option) resp_process_packet :: "grants \<Rightarrow> data_wrap \<Rightarrow> (int \<times> resp_response option \<times> data_wrap) run" where
  "resp_process_packet mal dw =
     bind_run (read_type dw) (\<lambda>(c, dw).
     case c of
       None \<Rightarrow> returns (- 1, None, dw)
     | Some c \<Rightarrow>
         if c = 43 then bind_run (process_string mal dw) (\<lambda>(r, dw). returns (0, Some r, dw))
         else if c = 45 then
           bind_run (process_string mal dw) (\<lambda>(r, dw).
           returns (0, Some (case r of SIMPLE_STRING s \<Rightarrow> ERROR_STRING s | _ \<Rightarrow> r), dw))
         else if c = 58 then bind_run (process_int dw) (\<lambda>(r, dw). returns (0, Some r, dw))
         else if c = 36 then bind_run (process_bulk_string mal dw) (\<lambda>(r, dw). returns (0, Some r, dw))
         else if c = 42 then
           bind_run (process_array (resp_process_packet mal) mal dw) (\<lambda>(r, dw). returns (0, Some r, dw))
         else returns (- 2, None, dw))"

declare resp_process_packet.simps [code]

section \<open>Printing\<close>

text \<open>Literals are bytes; a string is printed up to its NUL.\<close>

definition literal :: "string \<Rightarrow> bytes" where
  "literal s = map of_char s"

fun print_response_inner :: "nat \<Rightarrow> resp_response option \<Rightarrow> bytes res"
  and print_elements :: "nat \<Rightarrow> resp_response option list \<Rightarrow> bytes res" where
  "print_response_inner depth None = Fault UninitRead"
| "print_response_inner depth (Some r) =
     bind_res (case r of
       PROCESSING_ERROR _ \<Rightarrow> Ok (literal ''A processing error occured'')
     | SIMPLE_STRING s \<Rightarrow> bind_res (c_text None s) (\<lambda>t. Ok ([34] @ t @ [34]))
     | ERROR_STRING s \<Rightarrow> bind_res (c_text None s) (\<lambda>t. Ok (literal ''ERR '' @ [34] @ t @ [34]))
     | INTEGER i \<Rightarrow> Ok (dec_int i)
     | BULK_STRING None \<Rightarrow> Ok (literal ''(BS) '' @ [34] @ literal ''(null bulk string)'' @ [34])
     | BULK_STRING (Some s) \<Rightarrow> bind_res (c_text None s) (\<lambda>t. Ok (literal ''(BS) '' @ [34] @ t @ [34]))
     | ARRAY n elems \<Rightarrow>
         bind_res (case elems of None \<Rightarrow> (if 0 < n then Fault NullDeref else Ok []) | Some es \<Rightarrow> print_elements depth es) (\<lambda>t.
         Ok ([91, 10] @ t @ concat (replicate (depth - 1) [32, 32]) @ [93]))) (\<lambda>t.
     Ok (if depth = 1 then t @ [10] else t))"
| "print_elements depth [] = Ok []"
| "print_elements depth (e # es) =
     bind_res (print_response_inner (depth + 1) e) (\<lambda>t.
     bind_res (print_elements depth es) (\<lambda>u.
     Ok (concat (replicate depth [32, 32]) @ t @ (if es = [] then [] else [44]) @ [10] @ u)))"

definition resp_print :: "resp_response option \<Rightarrow> bytes res" where
  "resp_print r = (case r of None \<Rightarrow> Ok (literal ''Resp is null'' @ [10]) | Some x \<Rightarrow> print_response_inner 1 (Some x))"

section \<open>Reading ahead in the stream\<close>

text \<open>
  The bytes \<open>xs\<close> are next and fit into the rest of the buffer, then \<open>R\<close>; and what holds when they have been read.
\<close>

definition ahead :: "data_wrap \<Rightarrow> bytes \<Rightarrow> bytes \<Rightarrow> bool" where
  "ahead dw xs R \<longleftrightarrow> dw_stream dw (xs @ R) \<and> dw_ptr dw + length xs \<le> dw_length dw"

definition past :: "data_wrap \<Rightarrow> bytes \<Rightarrow> bytes \<Rightarrow> data_wrap \<Rightarrow> bool" where
  "past dw xs R dw' \<longleftrightarrow> dw_stream dw' R \<and> dw_ptr dw' = dw_ptr dw + length xs \<and> dw_length dw' = dw_length dw"

lemma ahead_past: "ahead dw (xs @ ys) R \<Longrightarrow> past dw xs (ys @ R) dw' \<Longrightarrow> ahead dw' ys R"
  by (simp add: ahead_def past_def)


lemma ahead_appendD: "ahead dw (xs @ ys) R \<Longrightarrow> ahead dw xs (ys @ R)"
  by (simp add: ahead_def)

lemma dw_eat_ahead:
  assumes "ahead dw xs R" and "length xs < 2 ^ 63"
  obtains dw' where "dw_eat dw (int (length xs)) = returns (int (length xs), dw')" "past dw xs R dw'"
proof -
  have st: "dw_stream dw (xs @ R)" "length xs \<le> length (xs @ R)" and room: "dw_ptr dw + length xs \<le> dw_length dw"
    and none: "\<forall>b. None = Some b \<longrightarrow> 0 + length xs \<le> length b"
    using assms(1) by (simp_all add: ahead_def)
  from copy_loop_calm[OF st(1) assms(2) st(2) none, of 0] room that show thesis
    by (auto simp: dw_eat_def dw_read_copy_def past_def dw_kept_def)
qed


lemma read_type_ahead:
  assumes "ahead dw [c] R"
  obtains dw' where "read_type dw = returns (Some c, dw')" "past dw [c] R dw'"
proof -
  have st: "dw_stream dw (c # R)" and room: "dw_ptr dw < dw_length dw" using assms by (simp_all add: ahead_def)
  obtain dw' where dw': "dw_read_nocopy dw 1 None = returns (1, dw_ptr dw, False, dw')" "dw_stream dw' R" "dw_kept dw [c] dw'"
    "dw_length dw' = dw_length dw"
    by (rule place_byte[OF st room])
  have len: "dw_ptr dw < length (dw_data dw)" "length (dw_data dw') = dw_length dw + 1"
    using st room dw'(2,4) by (simp_all add: dw_stream_def)
  have "take (dw_ptr dw + 1) (dw_data dw') = take (dw_ptr dw) (dw_data dw) @ [Some c]"
    using dw'(3) by (auto simp: dw_kept_def)
  from arg_cong[OF this, of "\<lambda>xs. xs ! dw_ptr dw"] have "dw_data dw' ! dw_ptr dw = Some c"
    using len by (simp add: nth_append)
  then have "read_type dw = returns (Some c, dw')"
    using dw'(1) len room by (subst read_type_def, subst type_loop.simps) (simp add: cell_at_def)
  then show thesis using that dw'(2-4) by (simp add: past_def dw_kept_def)
qed

section \<open>Numbers\<close>





abbreviation crlf :: bytes where
  "crlf \<equiv> [13, 10]"




section \<open>Strings\<close>





section \<open>Round trip\<close>











lemma packet_steps:
  assumes "read_type dw = returns (Some c, dw1)"
  shows "c = 43 \<Longrightarrow> resp_process_packet mal dw = bind_run (process_string mal dw1) (\<lambda>(r, dw). returns (0, Some r, dw))"
    and "c = 45 \<Longrightarrow> resp_process_packet mal dw = bind_run (process_string mal dw1) (\<lambda>(r, dw).
      returns (0, Some (case r of SIMPLE_STRING s \<Rightarrow> ERROR_STRING s | _ \<Rightarrow> r), dw))"
    and "c = 58 \<Longrightarrow> resp_process_packet mal dw = bind_run (process_int dw1) (\<lambda>(r, dw). returns (0, Some r, dw))"
    and "c = 36 \<Longrightarrow> resp_process_packet mal dw = bind_run (process_bulk_string mal dw1) (\<lambda>(r, dw). returns (0, Some r, dw))"
    and "c = 42 \<Longrightarrow> resp_process_packet mal dw =
      bind_run (process_array (resp_process_packet mal) mal dw1) (\<lambda>(r, dw). returns (0, Some r, dw))"
  using assms by (subst resp_process_packet.simps, simp)+





section \<open>Simple strings that are not short\<close>

text \<open>
  C40. A simple string of eight bytes or more, without a carriage return, that fits with its mark and line end into what is left of
  the buffer is never read back: in whatever pieces it arrives (without a pause), bytes are written behind the block of eight
  bytes that \<open>malloc\<close> grants for it.  The block does not grow, since only an error of the network makes the loop go round.
\<close>

theorem long_simple_strings_overflow:
  assumes "dw_stream dw (43 # s @ [13, 10] @ rest)" and "dw_ptr dw + length s + 3 \<le> dw_length dw"
    and "13 \<notin> set s" and "8 \<le> length s" and "mal 8"
  shows "resp_process_packet mal dw = faults OutOfBounds"
proof -
  have at: "ahead dw ([43] @ s @ crlf) rest" using assms(1,2) by (simp add: ahead_def)
  obtain dw1 where c: "read_type dw = returns (Some 43, dw1)" "past dw [43] ((s @ crlf) @ rest) dw1"
    by (rule read_type_ahead[OF ahead_appendD[OF at]])
  have st: "dw_stream dw1 (s @ 13 # 10 # rest)" and room: "dw_ptr dw1 + length s + 2 \<le> dw_length dw1"
    using ahead_past[OF at c(2)] by (simp_all add: ahead_def)
  let ?run = "dw_copy_loop False (Some 13) \<lparr>cp_dw = dw1, cp_buf = Some (replicate 8 None), cp_off = 0, cp_size = 8, cp_copied = 0\<rparr>"
  have "?run = faults OutOfBounds \<or> (\<exists>x b'. ?run = returns (8, x) \<and> dw_stream (cp_dw x) (drop 8 s @ 13 # 10 # rest) \<and>
      cp_buf x = Some b' \<and> length b' = 8 \<and> dw_ptr (cp_dw x) = dw_ptr dw1 + 8 \<and> dw_length (cp_dw x) = dw_length dw1)"
    using copy_long_line[OF st assms(3), of 8 "replicate 8 None" 0 0] room assms(4) by simp
  then have "process_string mal dw1 = faults OutOfBounds"
  proof (elim disjE exE conjE)
    fix x b'
    assume x: "?run = returns (8, x)" "dw_stream (cp_dw x) (drop 8 s @ 13 # 10 # rest)" "cp_buf x = Some b'" "length b' = 8"
      "dw_ptr (cp_dw x) = dw_ptr dw1 + 8" "dw_length (cp_dw x) = dw_length dw1"
    let ?two = "take 2 (drop 8 s @ crlf)" and ?rest = "drop 2 (drop 8 s @ crlf) @ rest"
    have two: "?two @ ?rest = drop 8 s @ 13 # 10 # rest" by (metis append_assoc append_take_drop_id append_Cons append_Nil)
    have "ahead (cp_dw x) ?two ?rest" using x(2,5,6) room assms(4) unfolding ahead_def two by simp
    then obtain dw2 where "dw_eat (cp_dw x) (int (length ?two)) = returns (int (length ?two), dw2)"
      by (rule dw_eat_ahead) auto
    moreover have "length ?two = 2" by (simp add: min_def)
    ultimately have eat: "dw_eat (cp_dw x) 2 = returns (2, dw2)" by (metis of_nat_numeral)
    have "string_loop mal [] dw1 = returns (Some (8, 8, b'), cp_dw x)"
      using x(1,3) assms(5) by (subst string_loop.simps) (simp add: dw_read_copy_def)
    then show ?thesis using eat x(4) by (simp add: process_string_def Let_def)
  next
    assume "?run = faults OutOfBounds"
    then have "string_loop mal [] dw1 = faults OutOfBounds"
      using assms(5) by (subst string_loop.simps) (simp add: dw_read_copy_def)
    then show ?thesis by (simp add: process_string_def)
  qed
  then show ?thesis by (simp add: packet_steps(1)[OF c(1) refl])
qed

text \<open>The reply \<open>+PREDIS OK\<close>, in two pieces.\<close>

theorem long_simple_strings_overflow_witness:
  "\<exists>dw. dw_init (\<lambda>_. True) [Bytes [43, 80, 82, 69, 68], Bytes [73, 83, 32, 79, 75, 13, 10]] 64 = Ok dw \<and>
     resp_process_packet (\<lambda>_. True) dw = faults OutOfBounds"
proof -
  let ?s = "[80, 82, 69, 68, 73, 83, 32, 79, 75] :: bytes"
  obtain dw where dw: "dw_init (\<lambda>_. True) [Bytes [43, 80, 82, 69, 68], Bytes [73, 83, 32, 79, 75, 13, 10]] 64 = Ok dw"
    "dw_stream dw (43 # ?s @ [13, 10] @ [])" "dw_ptr dw = 0" "dw_length dw = 64"
    by (rule dw_init_stream[of 64 "[Bytes [43, 80, 82, 69, 68], Bytes [73, 83, 32, 79, 75, 13, 10]]" "\<lambda>_. True"])
       (simp_all add: net_calm_def)
  show ?thesis using long_simple_strings_overflow[OF dw(2), of "\<lambda>_. True"] dw(1,3,4) by auto
qed

section \<open>What is read wrongly\<close>

definition dw_packet :: "nat \<Rightarrow> bytes \<Rightarrow> (int \<times> resp_response option) run" where
  "dw_packet cap bs =
     bind_run (Some (dw_init (\<lambda>_. True) [Bytes bs] cap)) (\<lambda>dw.
     bind_run (resp_process_packet (\<lambda>_. True) dw) (\<lambda>(rc, r, _). returns (rc, r)))"

definition dw_command :: "nat \<Rightarrow> bytes \<Rightarrow> int run" where
  "dw_command cap bs =
     bind_run (Some (dw_init (\<lambda>_. True) [Bytes bs] cap)) (\<lambda>dw.
     bind_run (resp_process_command (\<lambda>_. True) dw [] 0 0) (\<lambda>(rc, _, _). returns rc))"

text \<open>
  A number that the end of the buffer cuts in two is misread: the rest of it has overwritten the start when
  the digits are looked at, and 1234567 becomes 207.  A command with an empty argument that is not its last is
  refused, since the two bytes behind the argument are not taken.
\<close>

lemma cut_numbers_are_misread:
  "dw_packet 6 [58, 49, 50, 51, 52, 53, 54, 55, 13, 10] = returns (0, Some (INTEGER 207)) \<and>
   dw_command 64 [42, 50, 13, 10, 36, 48, 13, 10, 13, 10, 36, 49, 13, 10, 97, 13, 10] = returns (- 4) \<and>
   dw_command 64 [42, 50, 13, 10, 36, 49, 13, 10, 97, 13, 10, 36, 49, 13, 10, 98, 13, 10] = returns 2"
  by (intro conjI; code_simp)

end
