(* ===== verification/Resp_Block.thy ===== *)
theory Resp_Block
  imports Resp_Roundtrip
begin

text \<open>
  The parser that takes a whole command per call, \<open>resp_cmd_process\<close> of \<^verbatim>\<open>lib/resp_parser.c\<close>, with
  \<open>process_length_internal\<close> and the spare page of a connection: the part of the last buffer that
  belongs to the next command.  \<open>argv\<close>, \<open>allocations\<close> and \<open>argv_lengths\<close> are three parts of one block.
\<close>

section \<open>Connections, and what malloc gives for a command\<close>

record resp_spare_page =
  sp_page :: addr
  sp_size :: int

record 'u resp_conn_data =
  cd_data :: 'u
  cd_spare_page :: resp_spare_page
  cd_fd :: int

definition resp_conn_data_init :: "int \<Rightarrow> 'u \<Rightarrow> 'u resp_conn_data" where
  "resp_conn_data_init fd data = \<lparr>cd_data = data, cd_spare_page = \<lparr>sp_page = NULL, sp_size = 0\<rparr>, cd_fd = fd\<rparr>"

text \<open>The conversion to \<open>unsigned int\<close>.\<close>

definition u_int :: "int \<Rightarrow> int" where
  "u_int x = x mod 2 ^ 32"

text \<open>
  A slot of the block holds a pointer (a block and an offset) or a \<open>long\<close>; \<open>ba_allocations\<close> and
  \<open>ba_argv_lengths\<close> are the slots where these arrays start.
\<close>

datatype bk_slot = SlotPtr addr int | SlotLong int

record bk_allocs =
  ba_block :: "bk_slot slots"
  ba_allocations :: int
  ba_argv_lengths :: int
  ba_argc :: int
  ba_allocation_count :: int
  ba_tag :: u32

definition bk_cmd_init :: "u32 \<Rightarrow> bk_allocs" where
  "bk_cmd_init tag = \<lparr>ba_block = None, ba_allocations = 0, ba_argv_lengths = 0, ba_argc = 0,
     ba_allocation_count = 0, ba_tag = tag\<rparr>"

definition put_slot :: "int \<Rightarrow> bk_slot \<Rightarrow> bk_allocs \<Rightarrow> bk_allocs res" where
  "put_slot i x al = bind_res (slots_put (ba_block al) i x) (\<lambda>b. Ok (al\<lparr>ba_block := b\<rparr>))"

text \<open>\<open>allocs->allocations[allocs->allocation_count] = a; allocs->allocation_count += 1\<close>.\<close>

definition add_allocation :: "addr \<Rightarrow> bk_allocs \<Rightarrow> bk_allocs res" where
  "add_allocation a al =
     bind_res (put_slot (ba_allocations al + ba_allocation_count al) (SlotPtr a 0) al) (\<lambda>al.
     Ok (al\<lparr>ba_allocation_count := ba_allocation_count al + 1\<rparr>))"

section \<open>The socket\<close>

text \<open>
  A socket is blocking or not.  A blocking one waits where the other would say that there is nothing,
  for ever when nothing comes any more.  With \<open>MSG_WAITALL\<close> a read goes on until it has all it asked
  for, except at the end of the stream, at an error, and where a socket that does not block has no more.
\<close>

fun sock_wait :: "bool \<Rightarrow> nat \<Rightarrow> segment list \<Rightarrow> (recv_result \<times> segment list) run" where
  "sock_wait blocking n [] = (if blocking then None else returns (RecvAgain, []))"
| "sock_wait blocking n (WouldBlock # net) = (if blocking then sock_wait blocking n net else returns (RecvAgain, net))"
| "sock_wait blocking n (Shutdown # net) = returns (RecvEnd, Shutdown # net)"
| "sock_wait blocking n (SocketError # net) = returns (RecvEnd, SocketError # net)"
| "sock_wait blocking n (Bytes bs # net) =
     (if bs = [] then sock_wait blocking n net
      else if length bs \<le> n then returns (Received bs, net)
      else returns (Received (take n bs), Bytes (drop n bs) # net))"

definition short_read :: "bytes \<Rightarrow> recv_result \<Rightarrow> recv_result" where
  "short_read acc r = (if acc = [] then r else Received acc)"

fun sock_wait_all :: "bool \<Rightarrow> nat \<Rightarrow> bytes \<Rightarrow> segment list \<Rightarrow> (recv_result \<times> segment list) run" where
  "sock_wait_all blocking n acc [] = (if blocking then None else returns (short_read acc RecvAgain, []))"
| "sock_wait_all blocking n acc (WouldBlock # net) =
     (if blocking then sock_wait_all blocking n acc net else returns (short_read acc RecvAgain, net))"
| "sock_wait_all blocking n acc (Shutdown # net) = returns (short_read acc RecvEnd, Shutdown # net)"
| "sock_wait_all blocking n acc (SocketError # net) = returns (short_read acc RecvEnd, SocketError # net)"
| "sock_wait_all blocking n acc (Bytes bs # net) =
     (if length bs < n then sock_wait_all blocking (n - length bs) (acc @ bs) net
      else if length bs = n then returns (Received (acc @ bs), net)
      else returns (Received (acc @ take n bs), Bytes (drop n bs) # net))"

definition recv_into ::
    "addr \<Rightarrow> int \<Rightarrow> (recv_result \<times> segment list) run \<Rightarrow> rp_world \<Rightarrow> (recv_result \<times> rp_world) run" where
  "recv_into buf off got w =
     bind_run got (\<lambda>(r, net).
     case r of
       Received bs \<Rightarrow>
         bind_run (Some (heap_write buf (nat off) (map Some bs) (w\<lparr>w_net := net\<rparr>))) (\<lambda>w. returns (r, w))
     | _ \<Rightarrow> returns (r, w\<lparr>w_net := net\<rparr>))"

definition bk_fill_remaining :: "bool \<Rightarrow> addr \<Rightarrow> int \<Rightarrow> int \<Rightarrow> rp_world \<Rightarrow> (recv_result \<times> rp_world) run" where
  "bk_fill_remaining blocking buf used_length total_size w =
     (if \<not> used_length < total_size then faults AssertFail
      else recv_into buf used_length (sock_wait blocking (nat (total_size - used_length)) (w_net w)) w)"

definition rp_fill :: "bool \<Rightarrow> addr \<Rightarrow> int \<Rightarrow> int \<Rightarrow> rp_world \<Rightarrow> (recv_result \<times> rp_world) run" where
  "rp_fill blocking buf used_length fill_up_to w =
     (if \<not> used_length \<le> fill_up_to then faults AssertFail
      else recv_into buf used_length (sock_wait_all blocking (nat (fill_up_to - used_length)) [] (w_net w)) w)"

definition rp_setup_buffer :: "grants \<Rightarrow> bool \<Rightarrow> rp_world \<Rightarrow> (addr \<times> recv_result \<times> rp_world) run" where
  "rp_setup_buffer mal blocking w =
     bind_run (Some (rp_create_buffer mal BUFSIZE w)) (\<lambda>(buf, w).
     bind_run (recv_into buf 0 (sock_wait blocking (nat BUFSIZE) (w_net w)) w) (\<lambda>(r, w).
     returns (buf, r, w)))"

text \<open>\<open>memcpy\<close> between blocks; bytes that are not initialised may be copied.\<close>

definition heap_copy :: "addr \<Rightarrow> addr \<Rightarrow> int \<Rightarrow> int \<Rightarrow> rp_world \<Rightarrow> rp_world res" where
  "heap_copy dst src off n w =
     bind_res (heap_block src w) (\<lambda>cs.
       if int (length cs) < off + n then Fault OutOfBounds
       else heap_write dst 0 (take (nat n) (drop (nat off) cs)) w)"

section \<open>The length of an array or a string\<close>

text \<open>
  What the loop of \<open>process_length_internal\<close> keeps: the buffer, where the number starts in it, how much
  of it is filled, and the new page, if there is one.  A round ends with a return code, or goes on; with
  code 0 the number and the place behind it are known.
\<close>

record pl_state =
  pl_buffer :: addr
  pl_orig :: int
  pl_length :: int
  pl_page :: addr
  pl_ptr :: int
  pl_number :: int

definition pl_more :: "bool \<Rightarrow> pl_state \<Rightarrow> rp_world \<Rightarrow> (int option \<times> pl_state \<times> rp_world) run" where
  "pl_more blocking p w =
     bind_run (bk_fill_remaining blocking (pl_buffer p) (pl_length p) BUFSIZE w) (\<lambda>(r, w).
     case r of
       Received bs \<Rightarrow> returns (None, p\<lparr>pl_length := u_int (pl_length p + int (length bs))\<rparr>, w)
     | _ \<Rightarrow> returns (Some (- 1), p, w))"

definition pl_new_page :: "grants \<Rightarrow> bool \<Rightarrow> pl_state \<Rightarrow> rp_world \<Rightarrow> (int option \<times> pl_state \<times> rp_world) run" where
  "pl_new_page mal blocking p w =
     (if pl_page p \<noteq> NULL then returns (Some (- 2), p, w)
      else if \<not> 0 \<le> pl_length p - pl_orig p then faults AssertFail
      else
        let copy_length = u_int (pl_length p - pl_orig p) in
        bind_run (Some (rp_create_buffer mal BUFSIZE w)) (\<lambda>(a, w).
        bind_run (Some (heap_copy a (pl_buffer p) (pl_orig p) copy_length w)) (\<lambda>w.
        bind_run (bk_fill_remaining blocking a copy_length BUFSIZE w) (\<lambda>(r, w).
        case r of
          Received bs \<Rightarrow>
            returns (None, p\<lparr>pl_page := a, pl_buffer := a, pl_orig := 0,
              pl_length := u_int (u_int (int (length bs)) + copy_length)\<rparr>, w)
        | _ \<Rightarrow> returns (Some (- 2), p\<lparr>pl_page := a\<rparr>, w)))))"

definition pl_round :: "grants \<Rightarrow> bool \<Rightarrow> pl_state \<Rightarrow> rp_world \<Rightarrow> (int option \<times> pl_state \<times> rp_world) run" where
  "pl_round mal blocking p w =
     bind_run (Some (buf_strtol (pl_buffer p) (pl_orig p) w)) (\<lambda>(v, ptr).
     let p = p\<lparr>pl_number := v, pl_ptr := ptr\<rparr> in
     bind_run (Some (if pl_length p < ptr + 2 then Ok False else crlf_at (pl_buffer p) ptr w)) (\<lambda>complete.
     if complete then returns (Some 0, p, w)
     else if pl_length p < BUFSIZE then pl_more blocking p w
     else pl_new_page mal blocking p w))"

partial_function (option) pl_loop ::
    "grants \<Rightarrow> bool \<Rightarrow> pl_state \<Rightarrow> rp_world \<Rightarrow> (int \<times> pl_state \<times> rp_world) run" where
  "pl_loop mal blocking p w =
     bind_run (pl_round mal blocking p w) (\<lambda>(code, p, w).
     case code of Some c \<Rightarrow> returns (c, p, w) | None \<Rightarrow> pl_loop mal blocking p w)"

declare pl_loop.simps [code]

definition process_length_internal ::
    "grants \<Rightarrow> bool \<Rightarrow> int \<Rightarrow> addr \<Rightarrow> int \<Rightarrow> rp_world \<Rightarrow> (int \<times> pl_state \<times> rp_world) run" where
  "process_length_internal mal blocking buf_ptr current_buffer current_buffer_length w =
     pl_loop mal blocking
       \<lparr>pl_buffer = current_buffer, pl_orig = buf_ptr, pl_length = current_buffer_length, pl_page = NULL,
        pl_ptr = 0, pl_number = 0\<rparr> w"

section \<open>The arguments\<close>

text \<open>
  The variables of \<open>resp_cmd_process\<close>; \<open>bs_filled\<close> is \<open>current_buffer_length\<close>.  A part of the function gives a return code and the variables;
  code 0 means that the function goes on.
\<close>

record bk_state =
  bs_allocs :: bk_allocs
  bs_buffer :: addr
  bs_ptr :: int
  bs_filled :: int
  bs_length :: int
  bs_world :: rp_world

type_synonym bk_out = "(int \<times> bk_state) run"

definition bk_then :: "bk_out \<Rightarrow> (bk_state \<Rightarrow> bk_out) \<Rightarrow> bk_out" where
  "bk_then m f = bind_run m (\<lambda>(code, s). if code \<noteq> 0 then returns (code, s) else f s)"

definition bk_record :: "addr \<Rightarrow> bk_state \<Rightarrow> bk_state res" where
  "bk_record a s = bind_res (add_allocation a (bs_allocs s)) (\<lambda>al. Ok (s\<lparr>bs_allocs := al\<rparr>))"

text \<open>A fresh buffer, filled from the socket, recorded, and only then looked at.\<close>

definition bk_fresh :: "grants \<Rightarrow> bool \<Rightarrow> bk_state \<Rightarrow> bk_out" where
  "bk_fresh mal blocking s =
     bind_run (rp_setup_buffer mal blocking (bs_world s)) (\<lambda>(a, r, w).
     bind_run (Some (bk_record a (s\<lparr>bs_buffer := a, bs_ptr := 0, bs_world := w\<rparr>))) (\<lambda>s.
     case r of
       Received bs \<Rightarrow> returns (0, s\<lparr>bs_filled := u_int (int (length bs))\<rparr>)
     | _ \<Rightarrow> returns (- 4, s)))"

text \<open>Data for the next argument: the branches C1 and C2.\<close>

definition arg_refill :: "grants \<Rightarrow> bool \<Rightarrow> bk_state \<Rightarrow> bk_out" where
  "arg_refill mal blocking s =
     (if bs_filled s \<le> bs_ptr s then
        if bs_filled s = BUFSIZE then bk_fresh mal blocking s
        else
          bind_run (bk_fill_remaining blocking (bs_buffer s) (bs_filled s) BUFSIZE (bs_world s)) (\<lambda>(r, w).
          case r of
            Received bs \<Rightarrow> returns (0, s\<lparr>bs_filled := u_int (bs_filled s + int (length bs)), bs_world := w\<rparr>)
          | _ \<Rightarrow> returns (- 5, s\<lparr>bs_world := w\<rparr>))
      else returns (0, s))"

text \<open>\<open>buf_ptr = fresh_page_ptr\<close> and the rest of what follows a call of \<open>process_length_internal\<close>.\<close>

definition after_length :: "pl_state \<Rightarrow> rp_world \<Rightarrow> bk_state \<Rightarrow> bk_state res" where
  "after_length p w s =
     (let s = s\<lparr>bs_ptr := pl_ptr p, bs_filled := pl_length p, bs_world := w\<rparr> in
      bind_res (if pl_page p \<noteq> NULL then bk_record (pl_page p) (s\<lparr>bs_buffer := pl_page p\<rparr>) else Ok s) (\<lambda>s.
      Ok (s\<lparr>bs_ptr := bs_ptr s + 2\<rparr>)))"

definition arg_length :: "grants \<Rightarrow> bool \<Rightarrow> int \<Rightarrow> bk_state \<Rightarrow> bk_out" where
  "arg_length mal blocking i s =
     bind_run (Some (buf_at (bs_buffer s) (bs_ptr s) (bs_world s))) (\<lambda>c.
     if c \<noteq> 36 then returns (- 6, s)
     else
       bind_run (process_length_internal mal blocking (bs_ptr s + 1) (bs_buffer s) (bs_filled s) (bs_world s))
         (\<lambda>(code, p, w).
         if code \<noteq> 0 then returns (- 7, s\<lparr>bs_world := w\<rparr>)
         else
           bind_run (Some (put_slot (ba_argv_lengths (bs_allocs s) + i) (SlotLong (pl_number p)) (bs_allocs s))) (\<lambda>al.
           bind_run (Some (after_length p w (s\<lparr>bs_allocs := al, bs_length := pl_number p\<rparr>))) (\<lambda>s.
           returns (0, s)))))"

text \<open>\<open>allocs->argv[i] = p\<close>.\<close>

definition set_argv :: "int \<Rightarrow> bk_slot \<Rightarrow> bk_state \<Rightarrow> bk_state res" where
  "set_argv i x s = bind_res (put_slot i x (bs_allocs s)) (\<lambda>al. Ok (s\<lparr>bs_allocs := al\<rparr>))"

text \<open>The NUL behind the argument that starts at an offset, and the place behind its line end.\<close>

definition end_arg :: "int \<Rightarrow> bk_state \<Rightarrow> bk_state res" where
  "end_arg start s =
     bind_res (heap_write (bs_buffer s) (nat (start + bs_length s)) [Some 0] (bs_world s)) (\<lambda>w.
     Ok (s\<lparr>bs_ptr := start + bs_length s + 2, bs_world := w\<rparr>))"

text \<open>D1: the argument is in the buffer.\<close>

definition arg_here :: "int \<Rightarrow> bk_state \<Rightarrow> bk_out" where
  "arg_here i s =
     bind_run (Some (set_argv i (SlotPtr (bs_buffer s) (bs_ptr s)) s)) (\<lambda>s.
     bind_run (Some (end_arg (bs_ptr s) s)) (\<lambda>s. returns (0, s)))"

text \<open>D2: the rest of it fits behind what is there.\<close>

definition arg_fill :: "bool \<Rightarrow> int \<Rightarrow> bk_state \<Rightarrow> bk_out" where
  "arg_fill blocking i s =
     bind_run (Some (set_argv i (SlotPtr (bs_buffer s) (bs_ptr s)) s)) (\<lambda>s.
     bind_run (rp_fill blocking (bs_buffer s) (bs_filled s) (size_t (bs_ptr s + bs_length s + 2)) (bs_world s)) (\<lambda>(r, w).
     case r of
       Received bs \<Rightarrow>
         bind_run (Some (end_arg (bs_ptr s) (s\<lparr>bs_filled := u_int (bs_filled s + int (length bs)), bs_world := w\<rparr>)))
           (\<lambda>s. returns (0, s))
     | _ \<Rightarrow> returns (- 8, s\<lparr>bs_world := w\<rparr>)))"

text \<open>D3: it fits into a fresh buffer.\<close>

definition arg_move :: "grants \<Rightarrow> bool \<Rightarrow> int \<Rightarrow> bk_state \<Rightarrow> bk_out" where
  "arg_move mal blocking i s =
     (if \<not> 0 \<le> bs_filled s - bs_ptr s then faults AssertFail
      else
        let copy_length = u_int (bs_filled s - bs_ptr s) in
        bind_run (Some (rp_create_buffer mal BUFSIZE (bs_world s))) (\<lambda>(a, w).
        bind_run (Some (bk_record a s)) (\<lambda>s.
        bind_run (Some (heap_copy a (bs_buffer s) (bs_ptr s) copy_length w)) (\<lambda>w.
        bind_run (rp_fill blocking a copy_length (size_t (size_t (bs_length s) + 2)) w) (\<lambda>(r, w).
        case r of
          Received bs \<Rightarrow>
            bind_run (Some (set_argv i (SlotPtr a 0) s)) (\<lambda>s.
            bind_run (Some (end_arg 0 (s\<lparr>bs_buffer := a, bs_filled := u_int (copy_length + u_int (int (length bs))),
                bs_world := w\<rparr>))) (\<lambda>s. returns (0, s)))
        | _ \<Rightarrow> returns (- 9, s\<lparr>bs_buffer := a, bs_world := w\<rparr>))))))"

text \<open>D4: it gets a block of its own, without room for more, and the next argument a fresh buffer.\<close>

definition heap_alloc :: "grants \<Rightarrow> int \<Rightarrow> rp_world \<Rightarrow> (addr \<times> rp_world) res" where
  "heap_alloc mal n w =
     (if mal n then Ok (length (w_heap w) + 1, w\<lparr>w_heap := w_heap w @ [Some (replicate (nat n) None)]\<rparr>)
      else Fault NullDeref)"

definition arg_big :: "grants \<Rightarrow> bool \<Rightarrow> int \<Rightarrow> bk_state \<Rightarrow> bk_out" where
  "arg_big mal blocking i s =
     (if \<not> 0 \<le> bs_filled s - bs_ptr s then faults AssertFail
      else
        let copy_length = u_int (bs_filled s - bs_ptr s) in
        bind_run (Some (heap_alloc mal (size_t (size_t (bs_length s) + 2)) (bs_world s))) (\<lambda>(a, w).
        bind_run (Some (bk_record a s)) (\<lambda>s.
        bind_run (Some (heap_copy a (bs_buffer s) (bs_ptr s) copy_length w)) (\<lambda>w.
        bind_run (rp_fill blocking a copy_length (size_t (size_t (bs_length s) + 2)) w) (\<lambda>(r, w).
        case r of
          Received bs \<Rightarrow>
            bind_run (Some (end_arg 0 (s\<lparr>bs_buffer := a, bs_world := w\<rparr>))) (\<lambda>s.
            bind_run (Some (set_argv i (SlotPtr a 0) s)) (\<lambda>s. bk_fresh mal blocking s))
        | _ \<Rightarrow> returns (- 9, s\<lparr>bs_buffer := a, bs_world := w\<rparr>))))))"

definition arg_body :: "grants \<Rightarrow> bool \<Rightarrow> int \<Rightarrow> bk_state \<Rightarrow> bk_out" where
  "arg_body mal blocking i s =
     (let wanted = bs_ptr s + bs_length s + 2 in
      if bs_length s < 0 then bind_run (Some (set_argv i (SlotPtr NULL 0) s)) (\<lambda>s. returns (0, s))
      else if wanted \<le> bs_filled s then arg_here i s
      else if wanted < BUFSIZE then arg_fill blocking i s
      else
        bind_run (Some (long_op (bs_length s + 2))) (\<lambda>n.
        if n < BUFSIZE then arg_move mal blocking i s else arg_big mal blocking i s))"

text \<open>The loop over the arguments: \<open>n\<close> of them are left, and \<open>i\<close> is the next.\<close>

fun args_loop :: "grants \<Rightarrow> bool \<Rightarrow> nat \<Rightarrow> int \<Rightarrow> bk_state \<Rightarrow> bk_out" where
  "args_loop mal blocking 0 i s = returns (0, s)"
| "args_loop mal blocking (Suc n) i s =
     bk_then (bk_then (bk_then (arg_refill mal blocking s) (arg_length mal blocking i)) (arg_body mal blocking i))
       (args_loop mal blocking n (i + 1))"

section \<open>A whole command\<close>

text \<open>\<open>print_raw\<close> prints up to the next NUL; what it prints is its result.\<close>

fun print_raw :: "cells \<Rightarrow> bytes res" where
  "print_raw [] = Fault OutOfBounds"
| "print_raw (None # cs) = Fault UninitRead"
| "print_raw (Some c # cs) =
     (if c = 0 then Ok [10]
      else map_sum id ((@) (if c = 13 then [92, 114] else if c = 10 then [92, 110] else [c])) (print_raw cs))"

definition spare_or_read ::
    "grants \<Rightarrow> bool \<Rightarrow> resp_spare_page \<Rightarrow> rp_world \<Rightarrow> (int \<times> addr \<times> int \<times> rp_world) run" where
  "spare_or_read mal blocking spare w =
     (if sp_page spare = NULL then
        bind_run (rp_setup_buffer mal blocking w) (\<lambda>(a, r, w).
        case r of Received bs \<Rightarrow> returns (0, a, u_int (int (length bs)), w) | _ \<Rightarrow> returns (- 1, a, 0, w))
      else returns (0, sp_page spare, sp_size spare, w))"

text \<open>The block for \<open>argc\<close> arguments; \<open>argc\<close> is the \<open>unsigned int\<close>, \<open>argc_raw\<close> the \<open>long\<close>.\<close>

definition alloc_argv :: "grants \<Rightarrow> int \<Rightarrow> bk_allocs \<Rightarrow> bk_allocs" where
  "alloc_argv mal argc_raw al =
     (let argc = u_int argc_raw in
      al\<lparr>ba_block := slots_alloc mal (3 * u_int (argc + 1)), ba_allocations := argc + 1,
         ba_argv_lengths := u_int (u_int (argc + 1) * 2), ba_allocation_count := 0, ba_argc := argc_raw\<rparr>)"

definition save_spare :: "grants \<Rightarrow> bk_state \<Rightarrow> (resp_spare_page \<times> rp_world) res" where
  "save_spare mal s =
     (if bs_ptr s < bs_filled s then
        let n = u_int (bs_filled s - bs_ptr s) in
        bind_res (rp_create_buffer mal BUFSIZE (bs_world s)) (\<lambda>(a, w).
        bind_res (heap_copy a (bs_buffer s) (bs_ptr s) n w) (\<lambda>w.
        bind_res (heap_write a (nat n) [Some 0] w) (\<lambda>w.
        Ok (\<lparr>sp_page = a, sp_size = n\<rparr>, w))))
      else Ok (\<lparr>sp_page = NULL, sp_size = 0\<rparr>, bs_world s))"

text \<open>From the array's length to the end; \<open>buf\<close> is the buffer, \<open>filled\<close> its length.\<close>

definition array_args ::
    "grants \<Rightarrow> bool \<Rightarrow> addr \<Rightarrow> bk_allocs \<Rightarrow> 'u resp_conn_data \<Rightarrow> pl_state \<Rightarrow> rp_world \<Rightarrow>
       (int \<times> bk_allocs \<times> 'u resp_conn_data \<times> rp_world) run" where
  "array_args mal blocking buf al cd p w =
     bind_run (Some (add_allocation buf (alloc_argv mal (pl_number p) al))) (\<lambda>al.
     bind_run (Some (after_length p w
         \<lparr>bs_allocs = al, bs_buffer = buf, bs_ptr = 0, bs_filled = 0, bs_length = 0, bs_world = w\<rparr>)) (\<lambda>s.
     bind_run (args_loop mal blocking (nat (u_int (pl_number p))) 0 s) (\<lambda>(code, s).
     if code \<noteq> 0 then returns (code, bs_allocs s, cd, bs_world s)
     else
       bind_run (Some (save_spare mal s)) (\<lambda>(spare, w).
       returns (0, bs_allocs s, cd\<lparr>cd_spare_page := spare\<rparr>, w)))))"

text \<open>
  \<open>cd\<close> is the connection that \<open>epoll_wait\<close> reports; \<open>*cdata\<close>, \<open>*udata\<close> and \<open>*ret_fd\<close> are it, its data and
  its descriptor.
\<close>

definition process_ready_conn ::
    "grants \<Rightarrow> bool \<Rightarrow> bk_allocs \<Rightarrow> 'u resp_conn_data \<Rightarrow> rp_world \<Rightarrow>
       (int \<times> bk_allocs \<times> 'u resp_conn_data \<times> rp_world) run" where
  "process_ready_conn mal blocking al cd w =
     bind_run (spare_or_read mal blocking (cd_spare_page cd) w) (\<lambda>(code, buf, filled, w).
     if code \<noteq> 0 then returns (code, al, cd, w)
     else if \<not> 1 \<le> filled then faults AssertFail
     else
       bind_run (Some (buf_at buf 0 w)) (\<lambda>c.
       if c \<noteq> 42 then
         bind_run (Some (bind_res (heap_block buf w) print_raw)) (\<lambda>_. returns (- 2, al, cd, w))
       else
         bind_run (process_length_internal mal blocking 1 buf filled w) (\<lambda>(code, p, w).
         if code \<noteq> 0 then returns (- 3, al, cd, w)
         else if pl_number p \<le> 0 then returns (0, al, cd, w)
         else array_args mal blocking buf al cd p w)))"

text \<open>\<open>None\<close>: \<open>epoll_wait\<close> was interrupted and reported no connection.\<close>

definition resp_cmd_process ::
    "grants \<Rightarrow> bool \<Rightarrow> 'u resp_conn_data option \<Rightarrow> bk_allocs \<Rightarrow> rp_world \<Rightarrow>
       (int \<times> bk_allocs \<times> 'u resp_conn_data option \<times> rp_world) run" where
  "resp_cmd_process mal blocking ready al w =
     (case ready of
        None \<Rightarrow> returns (- 10, al, None, w)
      | Some cd \<Rightarrow>
          bind_run (process_ready_conn mal blocking al cd w) (\<lambda>(code, al, cd, w). returns (code, al, Some cd, w)))"

text \<open>
  \<open>epoll_wait\<close> without a timeout, on a set with one connection: time passes until the socket has data, its end or an
  error.  It knows nothing of spare pages, and when nothing comes any more it never returns.
\<close>

fun epoll_wait :: "segment list \<Rightarrow> segment list run" where
  "epoll_wait [] = None"
| "epoll_wait (WouldBlock # net) = epoll_wait net"
| "epoll_wait (Bytes bs # net) = (if bs = [] then epoll_wait net else returns (Bytes bs # net))"
| "epoll_wait (Shutdown # net) = returns (Shutdown # net)"
| "epoll_wait (SocketError # net) = returns (SocketError # net)"

definition wait_and_process ::
    "grants \<Rightarrow> bool \<Rightarrow> 'u resp_conn_data \<Rightarrow> bk_allocs \<Rightarrow> rp_world \<Rightarrow>
       (int \<times> bk_allocs \<times> 'u resp_conn_data option \<times> rp_world) run" where
  "wait_and_process mal blocking cd al w =
     bind_run (epoll_wait (w_net w)) (\<lambda>net. resp_cmd_process mal blocking (Some cd) al (w\<lparr>w_net := net\<rparr>))"

end
