(* ===== verification/Resp_Batch.thy ===== *)
theory Resp_Batch
  imports Resp_Block
begin

text \<open>
  What \<open>resp_cmd_process\<close> does with whole commands: one call takes one command out of the buffer, and
  the next call goes on in the spare page.
\<close>

section \<open>A buffer that holds all there is\<close>

text \<open>Page \<open>a\<close> is filled with exactly \<open>S\<close>; the socket does not matter.\<close>

definition page_ok :: "bytes \<Rightarrow> addr \<Rightarrow> rp_world \<Rightarrow> bool" where
  "page_ok S a w \<longleftrightarrow> buf_ok S a (length S) (w\<lparr>w_net := []\<rparr>)"

lemma page_ok_iff:
  "page_ok S a w \<longleftrightarrow> (\<exists>cs. heap_block a w = Ok cs \<and> length cs = 257 \<and> length S \<le> 256 \<and> take (length S) cs = map Some S)"
  by (auto simp: page_ok_def buf_ok_def)

lemma buf_at_net [simp]: "buf_at a i (w\<lparr>w_net := net\<rparr>) = buf_at a i w"
  by (simp add: buf_at_def)

lemma crlf_strtol_net [simp]:
  "crlf_at a i (w\<lparr>w_net := net\<rparr>) = crlf_at a i w"
  "buf_strtol a i (w\<lparr>w_net := net\<rparr>) = buf_strtol a i w"
  by (simp_all add: crlf_at_def buf_strtol_def cong: if_cong)

lemma page_at: "page_ok S a w \<Longrightarrow> i < length S \<Longrightarrow> buf_at a (int i) w = Ok (S ! i)"
  using buf_at_ok[of S a "length S" "w\<lparr>w_net := []\<rparr>" i] by (simp add: page_ok_def)

lemma page_not_null: "page_ok S a w \<Longrightarrow> a \<noteq> NULL"
  unfolding page_ok_def by (rule buf_ok_not_null)

text \<open>The number at \<open>s\<close> is there with its line end: the first round finds it.\<close>

lemma page_number:
  assumes ok: "page_ok S a w" and at: "drop s S = dec n @ 13 # 10 # r" and n: "n < 2 ^ 63"
  shows "process_length_internal mal blocking (int s) a (int (length S)) w =
           returns (0, \<lparr>pl_buffer = a, pl_orig = int s, pl_length = int (length S), pl_page = NULL,
             pl_ptr = int (s + length (dec n)), pl_number = int n\<rparr>, w)"
proof -
  have l: "s + length (dec n) + 1 < length S" using arg_cong[OF at, of length] by simp
  have st: "buf_strtol a (int s) w = Ok (int n, int (s + length (dec n)))"
    using buf_strtol_ok[OF ok[unfolded page_ok_def] at n] l by simp
  have cr: "crlf_at a (int (s + length (dec n))) w = Ok True"
    using crlf_ok[OF ok[unfolded page_ok_def] at l] by simp
  show ?thesis
    unfolding process_length_internal_def
    apply (subst pl_loop.simps)
    using l cr st by (simp add: pl_round_def Let_def)
qed

section \<open>The ends of the arguments\<close>

text \<open>The stream with a NUL behind each of the first \<open>k\<close> arguments.\<close>

fun nul_ends :: "bytes list \<Rightarrow> nat \<Rightarrow> bytes \<Rightarrow> bytes" where
  "nul_ends args 0 S = S"
| "nul_ends args (Suc k) S = (nul_ends args k S)[text_pos args k + length (args ! k) := 0]"

lemma length_nul_ends [simp]: "length (nul_ends args k S) = length S"
  by (induction k) simp_all

lemma drop_nul_ends:
  "k \<le> length args \<Longrightarrow> arg_pos args k \<le> p \<Longrightarrow> drop p (nul_ends args k S) = drop p S"
proof (induction k)
  case (Suc k)
  then have "arg_pos args (Suc k) = text_pos args k + length (args ! k) + 2" by (intro arg_pos_Suc) simp
  moreover have "arg_pos args k \<le> text_pos args k" by (simp add: text_pos_def)
  ultimately show ?case using Suc by simp
qed simp

lemma take_drop_update: "j < p \<or> p + n \<le> j \<Longrightarrow> take n (drop p (xs[j := v])) = take n (drop p xs)"
  by (auto simp: drop_update_swap)

lemma nul_ends_text:
  assumes "k \<le> length args" and "i < length args"
  shows "take (length (args ! i)) (drop (text_pos args i) (nul_ends args k S)) =
           take (length (args ! i)) (drop (text_pos args i) S)"
  using assms(1)
proof (induction k)
  case (Suc k)
  have "text_pos args k + length (args ! k) < text_pos args i \<or>
        text_pos args i + length (args ! i) \<le> text_pos args k + length (args ! k)"
  proof (cases "k < i")
    case True
    then have "arg_pos args (Suc k) \<le> arg_pos args i" using assms(2) by (intro arg_pos_mono) auto
    then show ?thesis using arg_pos_Suc[of k args] Suc.prems by (simp add: text_pos_def)
  next
    case False
    show ?thesis
    proof (cases "i = k")
      case neq: False
      then have "arg_pos args (Suc i) \<le> arg_pos args k" using False Suc.prems by (intro arg_pos_mono) auto
      then show ?thesis using arg_pos_Suc[OF assms(2)] by (simp add: text_pos_def)
    qed simp
  qed
  then show ?case using Suc by (simp add: take_drop_update)
qed simp

section \<open>One argument\<close>

text \<open>
  Before argument \<open>k\<close>: it is next in the page, and the arguments before it are in the block with their
  lengths.
\<close>

definition block_ok :: "bytes list \<Rightarrow> nat \<Rightarrow> addr \<Rightarrow> bk_allocs \<Rightarrow> bool" where
  "block_ok args k a al \<longleftrightarrow>
     ba_allocations al = int (length args) + 1 \<and> ba_argv_lengths al = 2 * (int (length args) + 1) \<and>
     ba_argc al = int (length args) \<and> ba_allocation_count al = 1 \<and>
     (\<exists>b. ba_block al = Some b \<and> length b = 3 * (length args + 1) \<and>
        (\<forall>i < k. b ! i = Some (SlotPtr a (int (text_pos args i))) \<and>
                 b ! (2 * (length args + 1) + i) = Some (SlotLong (int (length (args ! i))))))"

definition bk_inv :: "bytes list \<Rightarrow> bytes \<Rightarrow> nat \<Rightarrow> segment list \<Rightarrow> bk_state \<Rightarrow> bool" where
  "bk_inv args rest k net s \<longleftrightarrow>
     k \<le> length args \<and> bs_ptr s = int (arg_pos args k) \<and> bs_filled s = int (length (enc_command args @ rest)) \<and>
     page_ok (nul_ends args k (enc_command args @ rest)) (bs_buffer s) (bs_world s) \<and>
     block_ok args k (bs_buffer s) (bs_allocs s) \<and> w_net (bs_world s) = net"

lemma put_slot_nat:
  "ba_block al = Some b \<Longrightarrow> j < length b \<Longrightarrow> put_slot (int j) x al = Ok (al\<lparr>ba_block := Some (b[j := Some x])\<rparr>)"
  by (simp add: put_slot_def slots_put_def)

lemma record_arg:
  assumes ok: "block_ok args k a al" and k: "k < length args"
  obtains al1 al2 where
    "put_slot (ba_argv_lengths al + int k) (SlotLong (int (length (args ! k)))) al = Ok al1"
    "put_slot (int k) (SlotPtr a (int (text_pos args k))) al1 = Ok al2" "block_ok args (Suc k) a al2"
proof -
  let ?j = "2 * (length args + 1) + k"
  from ok obtain b where b: "ba_block al = Some b" "length b = 3 * (length args + 1)"
    "\<forall>i < k. b ! i = Some (SlotPtr a (int (text_pos args i))) \<and>
             b ! (2 * (length args + 1) + i) = Some (SlotLong (int (length (args ! i))))"
    by (auto simp: block_ok_def)
  have j: "ba_argv_lengths al + int k = int ?j" using ok by (simp add: block_ok_def)
  have lt: "?j < length b" "k < length b" using b(2) k by simp_all
  let ?b1 = "b[?j := Some (SlotLong (int (length (args ! k))))]"
  let ?b2 = "?b1[k := Some (SlotPtr a (int (text_pos args k)))]"
  have "put_slot (ba_argv_lengths al + int k) (SlotLong (int (length (args ! k)))) al = Ok (al\<lparr>ba_block := Some ?b1\<rparr>)"
    unfolding j by (rule put_slot_nat[OF b(1) lt(1)])
  moreover have "put_slot (int k) (SlotPtr a (int (text_pos args k))) (al\<lparr>ba_block := Some ?b1\<rparr>) =
      Ok (al\<lparr>ba_block := Some ?b2\<rparr>)"
    using put_slot_nat[of "al\<lparr>ba_block := Some ?b1\<rparr>" ?b1 k] lt(2) by simp
  moreover have "block_ok args (Suc k) a (al\<lparr>ba_block := Some ?b2\<rparr>)"
    using ok b lt k by (auto simp: block_ok_def nth_list_update less_Suc_eq)
  ultimately show thesis by (rule that)
qed


lemma bk_then_ok: "bk_then (returns (0, s)) f = f s"
  by (simp add: bk_then_def)

lemma page_end:
  assumes ok: "page_ok S a w" and j: "j < length S"
  obtains w' where "heap_write a j [Some 0] w = Ok w'" "page_ok (S[j := 0]) a w'" "w_net w' = w_net w"
proof -
  from ok obtain cs where cs: "heap_block a w = Ok cs" "length cs = 257" "length S \<le> 256"
    "take (length S) cs = map Some S" by (auto simp: page_ok_iff)
  have "j + length [Some (0 :: byte)] \<le> length cs" using j cs by simp
  from heap_block_write[OF cs(1) this] obtain w' where w': "heap_write a j [Some 0] w = Ok w'" "w_net w' = w_net w"
    "heap_block a w' = Ok (take j cs @ [Some 0] @ drop (j + length [Some (0 :: byte)]) cs)" by auto
  have upd: "take j cs @ [Some 0] @ drop (j + length [Some (0 :: byte)]) cs = cs[j := Some 0]"
    using j cs by (simp add: upd_conv_take_nth_drop)
  have "take (length S) (cs[j := Some 0]) = map Some (S[j := 0])"
    using j cs(4) by (simp add: take_update_swap map_update)
  then have "page_ok (S[j := 0]) a w'" using w'(3)[unfolded upd] cs by (simp add: page_ok_iff)
  then show thesis using w' that by blast
qed

text \<open>One turn of the loop: the argument is recorded and ended, and nothing is read from the socket.\<close>

lemma arg_turn:
  assumes inv: "bk_inv args rest k net s" and k: "k < length args"
  obtains s' where
    "bk_then (bk_then (arg_refill mal blocking s) (arg_length mal blocking (int k))) (arg_body mal blocking (int k)) =
       returns (0, s')"
    "bk_inv args rest (Suc k) net s'"
proof -
  let ?S = "enc_command args @ rest" and ?a = "bs_buffer s" and ?n = "length (args ! k)"
  let ?Z = "nul_ends args k ?S"
  from inv have p: "bs_ptr s = int (arg_pos args k)" "bs_filled s = int (length ?Z)" "page_ok ?Z ?a (bs_world s)"
    and blk: "block_ok args k ?a (bs_allocs s)" and net: "w_net (bs_world s) = net" by (auto simp: bk_inv_def)
  have Z: "drop q ?Z = drop q ?S" if "arg_pos args k \<le> q" for q using that k by (simp add: drop_nul_ends)
  have t: "arg_pos args k < text_pos args k" by (simp add: text_pos_def)
  have next_pos: "arg_pos args (Suc k) = text_pos args k + ?n + 2" using k by (rule arg_pos_Suc)
  have last: "arg_pos args (Suc k) \<le> length ?S"
    using arg_pos_le[of "Suc k" args] k by simp
  have at: "drop (arg_pos args k + 1) ?Z = dec ?n @ 13 # 10 # drop (text_pos args k) ?S"
    using stream_text(1)[OF k] by (simp add: Z)
  have "?Z ! arg_pos args k = 36"
    using stream_text(3)[OF k, of rest] Z[of "arg_pos args k"] last t next_pos
    by (metis (no_types, lifting) hd_drop_conv_nth length_nul_ends less_le_trans order_refl le_less_trans less_imp_le le_add1)
  then have dollar: "buf_at ?a (bs_ptr s) (bs_world s) = Ok 36"
    using page_at[OF p(3), of "arg_pos args k"] last t next_pos by (simp add: p(1))
  have n: "?n < 2 ^ 63" using p(3) last next_pos by (auto simp: page_ok_iff)
  have number: "process_length_internal mal blocking (bs_ptr s + 1) ?a (bs_filled s) (bs_world s) =
      returns (0, \<lparr>pl_buffer = ?a, pl_orig = int (arg_pos args k + 1), pl_length = int (length ?Z), pl_page = NULL,
        pl_ptr = int (arg_pos args k + 1 + length (dec ?n)), pl_number = int ?n\<rparr>, bs_world s)"
    using page_number[OF p(3) at n, of mal blocking] p(1,2) by (simp add: add.commute)
  obtain al1 al2 where al: "put_slot (ba_argv_lengths (bs_allocs s) + int k) (SlotLong (int ?n)) (bs_allocs s) = Ok al1"
    "put_slot (int k) (SlotPtr ?a (int (text_pos args k))) al1 = Ok al2" "block_ok args (Suc k) ?a al2"
    using record_arg[OF blk k] .
  let ?s1 = "s\<lparr>bs_allocs := al1, bs_length := int ?n, bs_ptr := int (text_pos args k), bs_filled := int (length ?S)\<rparr>"
  have len: "arg_length mal blocking (int k) s = returns (0, ?s1)"
    using dollar number al(1) by (simp add: arg_length_def after_length_def text_pos_def)
  obtain w where w: "page_ok (?Z[text_pos args k + ?n := 0]) ?a w" "w_net w = net"
    "heap_write ?a (text_pos args k + ?n) [Some 0] (bs_world s) = Ok w"
    using page_end[OF p(3), of "text_pos args k + ?n"] last next_pos net by auto
  let ?s2 = "?s1\<lparr>bs_allocs := al2, bs_ptr := int (arg_pos args (Suc k)), bs_world := w\<rparr>"
  have "arg_body mal blocking (int k) ?s1 = arg_here (int k) ?s1"
    using last next_pos by (simp add: arg_body_def Let_def)
  also have "\<dots> = returns (0, ?s2)"
    using al(2) w(3) next_pos by (simp add: arg_here_def set_argv_def end_arg_def nat_int_add)
  finally have body: "arg_body mal blocking (int k) ?s1 = returns (0, ?s2)" .
  have refill: "arg_refill mal blocking s = returns (0, s)"
    using p last next_pos t by (simp add: arg_refill_def)
  show thesis
  proof (rule that)
    show "bk_then (bk_then (arg_refill mal blocking s) (arg_length mal blocking (int k))) (arg_body mal blocking (int k)) =
        returns (0, ?s2)"
      unfolding refill bk_then_ok len body ..
    show "bk_inv args rest (Suc k) net ?s2"
      using k w al(3) by (simp add: bk_inv_def)
  qed
qed

lemma args_loop_ok:
  assumes "bk_inv args rest k net s" and "k + n = length args"
  obtains s' where "args_loop mal blocking n (int k) s = returns (0, s')" "bk_inv args rest (length args) net s'"
  using assms
proof (induction n arbitrary: k s thesis)
  case (Suc n)
  have k: "k < length args" using Suc.prems(3) by simp
  obtain s1 where s1: "bk_then (bk_then (arg_refill mal blocking s) (arg_length mal blocking (int k)))
      (arg_body mal blocking (int k)) = returns (0, s1)" "bk_inv args rest (Suc k) net s1"
    using arg_turn[OF Suc.prems(2) k] .
  obtain s' where "args_loop mal blocking n (int (Suc k)) s1 = returns (0, s')" "bk_inv args rest (length args) net s'"
    using Suc.IH[OF _ s1(2)] Suc.prems(3) by auto
  then show ?case using s1(1) Suc.prems(1) by (simp add: bk_then_ok add.commute)
qed simp

section \<open>A call\<close>

text \<open>What the caller reads from the block: the bytes of argument \<open>i\<close>, and all arguments.\<close>

definition bk_arg :: "rp_world \<Rightarrow> bk_allocs \<Rightarrow> nat \<Rightarrow> bytes option" where
  "bk_arg w al i =
     (case ba_block al of
        None \<Rightarrow> None
      | Some b \<Rightarrow>
          let j = nat (ba_argv_lengths al) + i in
          if length b \<le> j then None
          else (case (b ! i, b ! j) of
             (Some (SlotPtr a off), Some (SlotLong n)) \<Rightarrow> arg_bytes w (a, off) n
           | _ \<Rightarrow> None))"

definition bk_command_args :: "rp_world \<Rightarrow> bk_allocs \<Rightarrow> bytes list option" where
  "bk_command_args w al = those (map (bk_arg w al) [0..<nat (ba_argc al)])"

text \<open>The spare page has the bytes \<open>S\<close>, which is none when there is no page.\<close>

definition spare_ok :: "bytes \<Rightarrow> resp_spare_page \<Rightarrow> rp_world \<Rightarrow> bool" where
  "spare_ok S spare w \<longleftrightarrow>
     (if S = [] then sp_page spare = NULL else sp_size spare = int (length S) \<and> page_ok S (sp_page spare) w)"

lemma heap_copy_ok:
  assumes src: "page_ok S a w" and d: "heap_block d w = Ok (replicate 256 None @ [Some 0])" and r: "drop p S = r"
    and le: "p \<le> length S"
  shows "\<exists>w'. heap_copy d a (int p) (int (length r)) w = Ok w' \<and> w_net w' = w_net w \<and>
    heap_block d w' = Ok (map Some r @ drop (length r) (replicate 256 None @ [Some 0])) \<and>
    (\<forall>b. b \<noteq> d \<longrightarrow> heap_block b w' = heap_block b w)"
proof -
  from src obtain cs where cs: "heap_block a w = Ok cs" "length cs = 257" "length S \<le> 256"
    "take (length S) cs = map Some S" by (auto simp: page_ok_iff)
  have n: "length r = length S - p" using r by auto
  have "take (length r) (drop p cs) = drop p (take (length S) cs)" by (simp add: n drop_take)
  then have part: "take (length r) (drop p cs) = map Some r" by (simp add: cs(4) drop_map r)
  have "0 + length (map Some r) \<le> length (replicate 256 None @ [Some (0 :: byte)])" using cs(3) n by simp
  from heap_block_write[OF d this] obtain w' where w': "heap_write d 0 (map Some r) w = Ok w'"
    "w_net w' = w_net w"
    "heap_block d w' = Ok (map Some r @ drop (length r) (replicate 256 None @ [Some 0]))" by auto
  have "heap_copy d a (int p) (int (length r)) w = Ok w'"
    unfolding heap_copy_def cs(1) bind_res_simps nat_int part using cs(2,3) le n w'(1) by simp
  then show ?thesis using w' heap_block_write_other[OF w'(1)] by blast
qed

lemma save_spare_ok:
  assumes m: "small_grants mal" and inv: "bk_inv args rest (length args) net s"
  obtains spare w where "save_spare mal s = Ok (spare, w)" "spare_ok rest spare w" "w_net w = net"
    "\<And>a cs. heap_block a (bs_world s) = Ok cs \<Longrightarrow> heap_block a w = Ok cs"
proof -
  let ?S = "enc_command args @ rest" and ?a = "bs_buffer s" and ?p = "length (enc_command args)"
  let ?Z = "nul_ends args (length args) ?S"
  from inv have p: "bs_ptr s = int ?p" "bs_filled s = int (length ?Z)" "page_ok ?Z ?a (bs_world s)"
    "w_net (bs_world s) = net" by (auto simp: bk_inv_def arg_pos_length)
  have rest: "drop ?p ?Z = rest" "length ?Z - ?p = length rest" by (simp_all add: drop_nul_ends arg_pos_length)
  show thesis
  proof (cases "rest = []")
    case True
    then show thesis using that p by (auto simp: save_spare_def spare_ok_def)
  next
    case False
    then have lt: "?p < length ?Z" by simp
    have l256: "length rest < 256" using p(3) False by (auto simp: page_ok_iff enc_command_def enc_head_def)
    obtain w1 where w1: "rp_create_buffer mal BUFSIZE (bs_world s) = Ok (length (w_heap (bs_world s)) + 1, w1)"
      "w_net w1 = net" "heap_block (length (w_heap (bs_world s)) + 1) w1 = Ok (replicate 256 None @ [Some 0])"
      "\<And>a cs. heap_block a (bs_world s) = Ok cs \<Longrightarrow> heap_block a w1 = Ok cs \<and> a \<noteq> length (w_heap (bs_world s)) + 1"
      by (rule rp_create_buffer_ok[OF m, of "bs_world s"]) (use p(4) in auto)
    let ?d = "length (w_heap (bs_world s)) + 1"
    obtain cs where cs: "heap_block ?a (bs_world s) = Ok cs" "length cs = 257" "length ?Z \<le> 256"
      "take (length ?Z) cs = map Some ?Z" using p(3) unfolding page_ok_iff by blast
    have page1: "page_ok ?Z ?a w1" "?d \<noteq> ?a"
      using w1(4)[OF cs(1)] cs(2-4) unfolding page_ok_iff by auto
    obtain w2 where w2: "heap_copy ?d ?a (int ?p) (int (length rest)) w1 = Ok w2" "w_net w2 = w_net w1"
      "heap_block ?d w2 = Ok (map Some rest @ drop (length rest) (replicate 256 None @ [Some 0]))"
      "\<forall>b. b \<noteq> ?d \<longrightarrow> heap_block b w2 = heap_block b w1"
      using heap_copy_ok[OF page1(1) w1(3) rest(1) less_imp_le[OF lt]] by blast
    let ?cs = "map Some rest @ drop (length rest) (replicate 256 None @ [Some (0 :: byte)])"
    have "length rest + length [Some (0 :: byte)] \<le> length ?cs" using l256 by simp
    from heap_block_write[OF w2(3) this] obtain w3 where w3: "heap_write ?d (length rest) [Some 0] w2 = Ok w3"
      "w_net w3 = net" "heap_block ?d w3 = Ok (map Some rest @ Some 0 # drop (length rest + 1) ?cs)"
      using w2(2) w1(2) by auto
    have n: "u_int (bs_filled s - bs_ptr s) = int (length rest)" using p(1,2) l256 by (simp add: u_int_def)
    have "save_spare mal s = Ok (\<lparr>sp_page = ?d, sp_size = int (length rest)\<rparr>, w3)"
      unfolding save_spare_def Let_def n using p(1,2) False w1(1) w2(1) w3(1) by simp
    moreover have "spare_ok rest \<lparr>sp_page = ?d, sp_size = int (length rest)\<rparr> w3"
      using False w3(3) l256 by (simp add: spare_ok_def page_ok_iff)
    moreover have "heap_block a w3 = Ok cs" if "heap_block a (bs_world s) = Ok cs" for a cs
      using w1(4)[OF that] w2(4) heap_block_write_other[OF w3(1), of a] by simp
    ultimately show thesis using w3(2) that by blast
  qed
qed

text \<open>The block of a command of up to 256 bytes is a small request.\<close>

lemma few_args:
  assumes "length (enc_command args @ rest) \<le> 256"
  shows "6 * length args \<le> 256"
proof -
  have "6 * length xs \<le> length (concat (map enc_arg xs))" for xs
  proof (induction xs)
    case (Cons x xs)
    have "length (enc_arg x) = 5 + length (dec (length x)) + length x" by (simp add: enc_arg_def)
    moreover have "0 < length (dec (length x))" by simp
    moreover have "length (concat (map enc_arg (x # xs))) = length (enc_arg x) + length (concat (map enc_arg xs))"
      "length (x # xs) = length xs + 1" by simp_all
    ultimately show ?case using Cons.IH by linarith
  qed simp
  from this[of args] show ?thesis using assms by (simp add: enc_command_def)
qed

lemma alloc_argv_ok:
  assumes m: "small_grants mal" and n: "length args \<le> 50"
  obtains al' where "add_allocation a (alloc_argv mal (int (length args)) al) = Ok al'" "block_ok args 0 a al'"
proof -
  let ?n = "length args"
  have u: "u_int (int ?n) = int ?n" "u_int (int ?n + 1) = int ?n + 1" "u_int ((int ?n + 1) * 2) = (int ?n + 1) * 2"
    using n by (simp_all add: u_int_def)
  have k: "3 * (int ?n + 1) = int (3 * (?n + 1))" by simp
  have b: "slots_alloc mal (3 * (int ?n + 1)) = Some (replicate (3 * (?n + 1)) None)"
    unfolding k using slots_alloc_small[OF m, of "int (3 * (?n + 1))"] n by (simp del: of_nat_mult of_nat_add of_nat_Suc)
  let ?al = "al\<lparr>ba_block := Some (replicate (3 * (?n + 1)) None), ba_allocations := int ?n + 1,
      ba_argv_lengths := (int ?n + 1) * 2, ba_allocation_count := 0, ba_argc := int ?n\<rparr>"
  have al: "alloc_argv mal (int ?n) al = ?al" unfolding alloc_argv_def Let_def u b ..
  have j: "ba_allocations ?al + ba_allocation_count ?al = int (?n + 1)" by simp
  have "add_allocation a (alloc_argv mal (int ?n) al) =
      Ok (?al\<lparr>ba_block := Some ((replicate (3 * (?n + 1)) None)[?n + 1 := Some (SlotPtr a 0)]), ba_allocation_count := 1\<rparr>)"
    unfolding al add_allocation_def j by (subst put_slot_nat) simp_all
  moreover have "block_ok args 0 a
      (?al\<lparr>ba_block := Some ((replicate (3 * (?n + 1)) None)[?n + 1 := Some (SlotPtr a 0)]), ba_allocation_count := 1\<rparr>)"
    by (simp add: block_ok_def)
  ultimately show thesis by (rule that)
qed

lemma bk_args_ok:
  assumes inv: "bk_inv args rest (length args) net s"
    and keep: "\<And>a cs. heap_block a (bs_world s) = Ok cs \<Longrightarrow> heap_block a w = Ok cs"
  shows "bk_command_args w (bs_allocs s) = Some args"
proof -
  let ?S = "enc_command args @ rest" and ?a = "bs_buffer s" and ?al = "bs_allocs s" and ?n = "length args"
  let ?Z = "nul_ends args ?n ?S"
  from inv have page: "page_ok ?Z ?a (bs_world s)" and blk: "block_ok args ?n ?a ?al" by (auto simp: bk_inv_def)
  obtain cs where cs: "heap_block ?a w = Ok cs" "take (length ?Z) cs = map Some (take (length ?Z) ?Z)"
    "length ?Z \<le> length cs"
    using page keep[of ?a] by (auto simp: page_ok_iff)
  have "bk_arg w ?al i = Some (args ! i)" if i: "i < ?n" for i
  proof -
    have le: "text_pos args i + length (args ! i) \<le> length ?Z"
      using arg_pos_le[of "Suc i" args] arg_pos_Suc[OF i] i by simp
    have "take (length (args ! i)) (drop (text_pos args i) ?Z) = args ! i"
      using nul_ends_text[OF order_refl i] stream_text(2)[OF i] by simp
    then have "drop (text_pos args i) ?Z = args ! i @ drop (length (args ! i)) (drop (text_pos args i) ?Z)"
      by (metis append_take_drop_id)
    then have "arg_bytes w (?a, int (text_pos args i)) (int (length (args ! i))) = Some (args ! i)"
      by (rule arg_bytes_ok[OF cs(1,2) order_refl cs(3)]) (rule le)
    then show ?thesis using blk i by (auto simp: block_ok_def bk_arg_def nat_mult_distrib nat_add_distrib)
  qed
  then have "map (bk_arg w ?al) [0..<?n] = map Some (map ((!) args) [0..<?n])" by simp
  then have "those (map (bk_arg w ?al) [0..<?n]) = Some args" by (simp only: those_map_Some map_nth)
  then show ?thesis using blk by (simp add: bk_command_args_def block_ok_def)
qed

lemma array_args_ok:
  assumes m: "small_grants mal" and page: "page_ok (enc_command args @ rest) a w"
    and p: "pl_number p = int (length args)" "pl_ptr p = int (arg_pos args 0) - 2"
      "pl_length p = int (length (enc_command args @ rest))" "pl_page p = NULL"
  obtains al' spare w' where
    "array_args mal blocking a al cd p w = returns (0, al', cd\<lparr>cd_spare_page := spare\<rparr>, w')"
    "bk_command_args w' al' = Some args" "spare_ok rest spare w'" "w_net w' = w_net w"
proof -
  have n: "6 * length args \<le> 256" using page by (intro few_args[of args rest]) (auto simp: page_ok_iff)
  then have n50: "length args \<le> 50" by simp
  obtain al0 where al0: "add_allocation a (alloc_argv mal (int (length args)) al) = Ok al0" "block_ok args 0 a al0"
    using alloc_argv_ok[OF m n50] .
  let ?s = "\<lparr>bs_allocs = al0, bs_buffer = a, bs_ptr = int (arg_pos args 0), bs_filled = pl_length p, bs_length = 0,
      bs_world = w\<rparr>"
  have "bk_inv args rest 0 (w_net w) ?s" using al0 page p by (simp add: bk_inv_def)
  then obtain s' where s': "args_loop mal blocking (length args) 0 ?s = returns (0, s')"
    "bk_inv args rest (length args) (w_net w) s'"
    using args_loop_ok[of args rest 0 "w_net w" ?s "length args" mal blocking] by auto
  obtain spare w' where w': "save_spare mal s' = Ok (spare, w')" "spare_ok rest spare w'" "w_net w' = w_net w"
    "\<And>a cs. heap_block a (bs_world s') = Ok cs \<Longrightarrow> heap_block a w' = Ok cs"
    using save_spare_ok[OF m s'(2)] by blast
  have "nat (u_int (int (length args))) = length args" using n by (simp add: u_int_def)
  then have "array_args mal blocking a al cd p w = returns (0, bs_allocs s', cd\<lparr>cd_spare_page := spare\<rparr>, w')"
    using al0(1) s'(1) w'(1) p by (simp add: array_args_def after_length_def Let_def)
  moreover have "bk_command_args w' (bs_allocs s') = Some args" using s'(2) w'(4) by (rule bk_args_ok)
  ultimately show thesis using w'(2,3) by (rule that)
qed

lemma call_ok:
  assumes m: "small_grants mal" and args: "args \<noteq> []"
    and got: "spare_or_read mal blocking (cd_spare_page cd) w0 = returns (0, a, int (length (enc_command args @ rest)), w)"
    and page: "page_ok (enc_command args @ rest) a w"
  obtains al' spare w' where
    "resp_cmd_process mal blocking (Some cd) al w0 = returns (0, al', Some (cd\<lparr>cd_spare_page := spare\<rparr>), w')"
    "bk_command_args w' al' = Some args" "spare_ok rest spare w'" "w_net w' = w_net w"
proof -
  let ?S = "enc_command args @ rest" and ?n = "length args"
  have len: "\<not> \<not> 1 \<le> int (length ?S)" by (simp add: enc_command_def enc_head_def)
  have star: "buf_at a 0 w = Ok 42"
    using page_at[OF page, of 0] by (simp add: enc_command_def enc_head_def)
  have n: "?n < 2 ^ 63" using few_args[of args rest] page by (auto simp: page_ok_iff)
  let ?p = "\<lparr>pl_buffer = a, pl_orig = int 1, pl_length = int (length ?S), pl_page = NULL,
      pl_ptr = int (1 + length (dec ?n)), pl_number = int ?n\<rparr>"
  have number: "process_length_internal mal blocking 1 a (int (length ?S)) w = returns (0, ?p, w)"
    using page_number[OF page stream_head n, of mal blocking] by simp
  obtain al' spare w' where w': "array_args mal blocking a al cd ?p w = returns (0, al', cd\<lparr>cd_spare_page := spare\<rparr>, w')"
    "bk_command_args w' al' = Some args" "spare_ok rest spare w'" "w_net w' = w_net w"
    using array_args_ok[OF m page, where p = ?p and al = al and cd = cd and blocking = blocking] by (auto simp: arg_pos_0)
  have pos: "\<not> pl_number ?p \<le> 0" using args by simp
  have "process_ready_conn mal blocking al cd w0 = returns (0, al', cd\<lparr>cd_spare_page := spare\<rparr>, w')"
    unfolding process_ready_conn_def got bind_run_simps prod.case star number using len pos w'(1) by simp
  then have "resp_cmd_process mal blocking (Some cd) al w0 = returns (0, al', Some (cd\<lparr>cd_spare_page := spare\<rparr>), w')"
    by (simp add: resp_cmd_process_def)
  then show thesis using w'(2-4) by (rule that)
qed

section \<open>Calls in a row\<close>

text \<open>
  \<open>n\<close> calls for one connection, each with new allocations and each from its \<open>epoll_wait\<close> on; what the caller reads
  after each of them, and \<open>None\<close> for a call that does not return 0.
\<close>

fun bk_session ::
    "grants \<Rightarrow> bool \<Rightarrow> nat \<Rightarrow> 'u resp_conn_data \<Rightarrow> rp_world \<Rightarrow> bytes list option list run" where
  "bk_session mal blocking 0 cd w = returns []"
| "bk_session mal blocking (Suc n) cd w =
     bind_run (wait_and_process mal blocking cd (bk_cmd_init 0) w) (\<lambda>(code, al, cd', w).
     case cd' of
       None \<Rightarrow> faults NullDeref
     | Some cd \<Rightarrow>
         bind_run (bk_session mal blocking n cd w) (\<lambda>cmds.
         returns ((if code = 0 then bk_command_args w al else None) # cmds)))"

text \<open>What the network brings, without its pauses, and how it goes on after it.\<close>

definition brings :: "bytes list \<Rightarrow> segment list \<Rightarrow> segment list \<Rightarrow> bool" where
  "brings parts tail net \<longleftrightarrow> filter (\<lambda>s. s \<noteq> WouldBlock) net = map Bytes parts @ tail"

text \<open>Waiting takes the pauses away.\<close>

lemma wait_part:
  assumes "brings (S # parts) tail net" and "S \<noteq> []"
  obtains net' where "epoll_wait net = returns (Bytes S # net')" "brings parts tail net'"
proof -
  have "\<exists>net'. epoll_wait net = returns (Bytes S # net') \<and> brings parts tail net'"
    using assms unfolding brings_def by (induction net rule: epoll_wait.induct) auto
  then show thesis using that by blast
qed

lemma wait_end:
  assumes "brings [] [Shutdown] net"
  obtains net' where "epoll_wait net = returns net'" "brings [] [Shutdown] net'"
proof -
  have "\<exists>net'. epoll_wait net = returns net' \<and> brings [] [Shutdown] net'"
    using assms unfolding brings_def by (induction net rule: epoll_wait.induct) auto
  then show thesis using that by blast
qed

lemma wait_for_ever: "brings [] [] net \<Longrightarrow> epoll_wait net = None"
  unfolding brings_def by (induction net rule: epoll_wait.induct) auto

lemma setup_ok:
  assumes m: "small_grants mal" and net: "w_net w = Bytes S # net" and S: "S \<noteq> []" "length S \<le> 256"
    and none: "sp_page spare = NULL"
  obtains a w' where "spare_or_read mal blocking spare w = returns (0, a, int (length S), w')"
    "page_ok S a w'" "w_net w' = net"
proof -
  let ?a = "length (w_heap w) + 1"
  obtain w1 where w1: "rp_create_buffer mal BUFSIZE w = Ok (?a, w1)" "w_net w1 = w_net w"
    "heap_block ?a w1 = Ok (replicate 256 None @ [Some 0])" by (rule rp_create_buffer_ok[OF m])
  have got: "sock_wait blocking 256 (w_net w) = returns (Received S, net)" using net S by simp
  let ?w1 = "w1\<lparr>w_net := net\<rparr>"
  have blk: "heap_block ?a ?w1 = Ok (replicate 256 None @ [Some 0])" using w1(3) by simp
  have "0 + length (map Some S) \<le> length (replicate 256 None @ [Some (0 :: byte)])" using S(2) by simp
  from heap_block_write[OF blk this] obtain w2 where w2: "heap_write ?a 0 (map Some S) ?w1 = Ok w2" "w_net w2 = net"
    "heap_block ?a w2 = Ok (map Some S @ drop (length S) (replicate 256 None @ [Some 0]))" by auto
  have bf: "nat BUFSIZE = 256" by (simp add: BUFSIZE_def)
  have "rp_setup_buffer mal blocking w = returns (?a, Received S, w2)"
    unfolding rp_setup_buffer_def bf w1(1) using got w2(1) w1(2) by (simp add: recv_into_def)
  then have "spare_or_read mal blocking spare w = returns (0, ?a, int (length S), w2)"
    using none S(2) by (simp add: spare_or_read_def u_int_def)
  moreover have "page_ok S ?a w2" using w2(3) S(2) by (simp add: page_ok_iff)
  ultimately show thesis using w2(2) that by blast
qed

text \<open>A batch is some commands that arrive together, in at most one buffer.\<close>

definition batch_bytes :: "bytes list list \<Rightarrow> bytes" where
  "batch_bytes cmds = concat (map enc_command cmds)"

definition small_batch :: "bytes list list \<Rightarrow> bool" where
  "small_batch cmds \<longleftrightarrow> cmds \<noteq> [] \<and> [] \<notin> set cmds \<and> length (batch_bytes cmds) \<le> 256"

text \<open>
  Between two calls: \<open>cmds\<close> are in the spare page, \<open>batches\<close> are still to come, and then the client stays silent or
  closes.
\<close>

definition bk_ready ::
    "bytes list list \<Rightarrow> bytes list list list \<Rightarrow> segment list \<Rightarrow> 'u resp_conn_data \<Rightarrow> rp_world \<Rightarrow> bool" where
  "bk_ready cmds batches tail cd w \<longleftrightarrow>
     [] \<notin> set cmds \<and> spare_ok (batch_bytes cmds) (cd_spare_page cd) w \<and>
     (\<forall>b \<in> set batches. small_batch b) \<and> brings (map batch_bytes batches) tail (w_net w)"

lemma batch_bytes_Cons: "batch_bytes (c # cs) = enc_command c @ batch_bytes cs"
  by (simp add: batch_bytes_def)

lemma batch_not_empty: "batch_bytes (c # cs) \<noteq> []"
  by (simp add: batch_bytes_def enc_command_def enc_head_def)

text \<open>The next call, once \<open>epoll_wait\<close> has returned, when there is a spare page.\<close>

lemma next_from_spare:
  assumes m: "small_grants mal" and ready: "bk_ready (c # cs) batches tail cd w"
    and wait: "epoll_wait (w_net w) = returns net" "brings (map batch_bytes batches) tail net"
  obtains al w' cd' where "wait_and_process mal blocking cd (bk_cmd_init 0) w = returns (0, al, Some cd', w')"
    "bk_command_args w' al = Some c" "bk_ready cs batches tail cd' w'"
proof -
  let ?w = "w\<lparr>w_net := net\<rparr>"
  have spare: "spare_ok (enc_command c @ batch_bytes cs) (cd_spare_page cd) ?w" and ne: "c \<noteq> []" "[] \<notin> set cs"
    using ready by (auto simp: bk_ready_def spare_ok_def page_ok_iff batch_bytes_Cons)
  have full: "enc_command c @ batch_bytes cs \<noteq> []" using batch_not_empty[of c cs] by (simp add: batch_bytes_Cons)
  have got: "spare_or_read mal blocking (cd_spare_page cd) ?w =
      returns (0, sp_page (cd_spare_page cd), int (length (enc_command c @ batch_bytes cs)), ?w)"
    "page_ok (enc_command c @ batch_bytes cs) (sp_page (cd_spare_page cd)) ?w"
    using spare full page_not_null[of _ "sp_page (cd_spare_page cd)"] unfolding spare_ok_def spare_or_read_def
    by (simp_all only: if_False split: if_splits) (metis (no_types) neq0_conv)+
  obtain al sp w' where w': "resp_cmd_process mal blocking (Some cd) (bk_cmd_init 0) ?w =
      returns (0, al, Some (cd\<lparr>cd_spare_page := sp\<rparr>), w')" "bk_command_args w' al = Some c"
    "spare_ok (batch_bytes cs) sp w'" "w_net w' = w_net ?w"
    using call_ok[OF m ne(1) got] .
  have "bk_ready cs batches tail (cd\<lparr>cd_spare_page := sp\<rparr>) w'"
    using ready ne w'(3,4) wait(2) by (auto simp: bk_ready_def)
  then show thesis using that w'(1,2) wait(1) by (simp add: wait_and_process_def)
qed

text \<open>And when the next batch has arrived and there is none.\<close>

lemma next_from_batch:
  assumes m: "small_grants mal" and ready: "bk_ready [] ((c # cs) # batches) tail cd w"
  obtains al w' cd' where "wait_and_process mal blocking cd (bk_cmd_init 0) w = returns (0, al, Some cd', w')"
    "bk_command_args w' al = Some c" "bk_ready cs batches tail cd' w'"
proof -
  have b: "brings (batch_bytes (c # cs) # map batch_bytes batches) tail (w_net w)" "small_batch (c # cs)"
    "sp_page (cd_spare_page cd) = NULL"
    using ready by (auto simp: bk_ready_def spare_ok_def batch_bytes_def)
  obtain net where net: "epoll_wait (w_net w) = returns (Bytes (batch_bytes (c # cs)) # net)"
    "brings (map batch_bytes batches) tail net"
    using wait_part[OF b(1) batch_not_empty] .
  have ne: "c \<noteq> []" "[] \<notin> set cs" "length (batch_bytes (c # cs)) \<le> 256" using b(2) by (auto simp: small_batch_def)
  obtain a w1 where w1: "spare_or_read mal blocking (cd_spare_page cd) (w\<lparr>w_net := Bytes (batch_bytes (c # cs)) # net\<rparr>) =
      returns (0, a, int (length (batch_bytes (c # cs))), w1)" "page_ok (batch_bytes (c # cs)) a w1" "w_net w1 = net"
    using setup_ok[OF m _ batch_not_empty ne(3) b(3), of "w\<lparr>w_net := Bytes (batch_bytes (c # cs)) # net\<rparr>" net] by auto
  obtain al sp w' where w': "resp_cmd_process mal blocking (Some cd) (bk_cmd_init 0) (w\<lparr>w_net := Bytes (batch_bytes (c # cs)) # net\<rparr>) =
      returns (0, al, Some (cd\<lparr>cd_spare_page := sp\<rparr>), w')" "bk_command_args w' al = Some c"
    "spare_ok (batch_bytes cs) sp w'" "w_net w' = w_net w1"
    using call_ok[OF m ne(1) w1(1,2)[unfolded batch_bytes_Cons], of "bk_cmd_init 0"]
    unfolding batch_bytes_Cons by blast
  have "bk_ready cs batches tail (cd\<lparr>cd_spare_page := sp\<rparr>) w'"
    using ready ne w'(3,4) w1(3) net(2) by (auto simp: bk_ready_def)
  then show thesis using that w'(1,2) net(1) by (simp add: wait_and_process_def)
qed

lemma session_step:
  assumes "wait_and_process mal blocking cd (bk_cmd_init 0) w = returns (0, al, Some cd', w')"
    and "bk_command_args w' al = Some c" and "bk_session mal blocking n cd' w' = returns rs"
  shows "bk_session mal blocking (Suc n) cd w = returns (Some c # rs)"
  using assms by simp

lemma session_stuck:
  assumes "wait_and_process mal blocking cd (bk_cmd_init 0) w = returns (0, al, Some cd', w')"
    and "bk_session mal blocking n cd' w' = None"
  shows "bk_session mal blocking (Suc n) cd w = None"
  using assms by simp

text \<open>The next call, when the socket has something or has been closed.\<close>

lemma next_call:
  assumes m: "small_grants mal" and ready: "bk_ready cmds batches tail cd w"
    and more: "batches \<noteq> [] \<or> tail = [Shutdown]" "cmds @ concat batches \<noteq> []"
  obtains c cs bs al w' cd' where "wait_and_process mal blocking cd (bk_cmd_init 0) w = returns (0, al, Some cd', w')"
    "bk_command_args w' al = Some c" "bk_ready cs bs tail cd' w'"
    "cmds = c # cs \<and> bs = batches \<or> cmds = [] \<and> batches = (c # cs) # bs"
proof (cases cmds)
  case (Cons c cs)
  obtain net where net: "epoll_wait (w_net w) = returns net" "brings (map batch_bytes batches) tail net"
  proof (cases batches)
    case Nil
    then show thesis using that wait_end more(1) ready by (auto simp: bk_ready_def)
  next
    case (Cons b bs)
    have ne: "batch_bytes b \<noteq> []"
      using ready Cons batch_not_empty by (cases b) (auto simp: bk_ready_def small_batch_def)
    then show thesis
      using that wait_part[OF _ ne, of "map batch_bytes bs" tail "w_net w"] ready Cons
      by (force simp: bk_ready_def brings_def)
  qed
  show thesis
    by (rule next_from_spare[OF m ready[unfolded Cons] net, of blocking]) (use that Cons in blast)
next
  case Nil
  then obtain c cs bs where b: "batches = (c # cs) # bs"
    using more(2) ready by (cases batches; cases "hd batches") (auto simp: bk_ready_def small_batch_def)
  show thesis
    by (rule next_from_batch[OF m ready[unfolded Nil b], of blocking]) (use that Nil b in blast)
qed

text \<open>A client that closes at the end: every command is read.\<close>

lemma session_closed:
  assumes m: "small_grants mal" and "bk_ready cmds batches [Shutdown] cd w"
  shows "bk_session mal blocking (length (cmds @ concat batches)) cd w = returns (map Some (cmds @ concat batches))"
  using assms(2)
proof (induction "length (cmds @ concat batches)" arbitrary: cmds batches cd w)
  case 0
  then have none: "cmds @ concat batches = []" by simp
  show ?case unfolding none by simp
next
  case (Suc n)
  have some: "cmds @ concat batches \<noteq> []" using Suc.hyps(2) by (metis list.size(3) nat.distinct(1))
  obtain c cs bs al w' cd' where call: "wait_and_process mal blocking cd (bk_cmd_init 0) w = returns (0, al, Some cd', w')"
    "bk_command_args w' al = Some c" "bk_ready cs bs [Shutdown] cd' w'"
    and next_cmds: "cmds = c # cs \<and> bs = batches \<or> cmds = [] \<and> batches = (c # cs) # bs"
    by (rule next_call[OF m Suc.prems _ some, of blocking]) auto
  have cmds: "cmds @ concat batches = c # cs @ concat bs" using next_cmds by auto
  have "bk_session mal blocking (length (cs @ concat bs)) cd' w' = returns (map Some (cs @ concat bs))"
    using Suc.hyps(2) cmds by (intro Suc.hyps(1)[OF _ call(3)]) simp
  then show ?case unfolding cmds using call(1,2) by simp
qed

text \<open>
  A client that stays silent: the first command of its last batch is read, and the call for the next one never
  returns.
\<close>

definition within_reach :: "bytes list list \<Rightarrow> bytes list list list \<Rightarrow> nat" where
  "within_reach cmds batches =
     (if batches = [] then 0 else length cmds + length (concat (butlast batches)) + 1)"

lemma session_open:
  assumes m: "small_grants mal" and "bk_ready cmds batches [] cd w"
  shows "bk_session mal blocking n cd w =
           (if n \<le> within_reach cmds batches then returns (map Some (take n (cmds @ concat batches))) else None)"
  using assms(2)
proof (induction n arbitrary: cmds batches cd w)
  case (Suc n)
  show ?case
  proof (cases "batches = []")
    case True
    then have "epoll_wait (w_net w) = None" using Suc.prems by (intro wait_for_ever) (simp add: bk_ready_def)
    then show ?thesis using True by (simp add: within_reach_def wait_and_process_def)
  next
    case False
    then have some: "cmds @ concat batches \<noteq> []"
      using Suc.prems by (cases batches) (auto simp: bk_ready_def small_batch_def)
    obtain c cs bs al w' cd' where call: "wait_and_process mal blocking cd (bk_cmd_init 0) w = returns (0, al, Some cd', w')"
      "bk_command_args w' al = Some c" "bk_ready cs bs [] cd' w'"
      and next_cmds: "cmds = c # cs \<and> bs = batches \<or> cmds = [] \<and> batches = (c # cs) # bs"
      by (rule next_call[OF m Suc.prems _ some, of blocking]) (use False in auto)
    have cmds: "cmds @ concat batches = c # cs @ concat bs" using next_cmds by auto
    have reach: "within_reach cmds batches = Suc (within_reach cs bs)"
      using next_cmds False by (auto simp: within_reach_def)
    show ?thesis unfolding cmds reach using call(1,2) Suc.IH[OF call(3)] by simp
  qed
qed simp

section \<open>Properties\<close>

text \<open>
  C12. The blocking parser reads back batches of commands, as far as \<open>epoll_wait\<close> lets it.  Let every segment
  consist of whole commands and fit into a buffer of 256 bytes, with any pauses between them, on a blocking socket or another, and let allocations
  of up to 4096 bytes be granted.  When the client then closes, one call after the other returns 0 and gives exactly the commands that were
  sent, in order and byte for byte: the first of a batch from a fresh buffer, the others from the spare pages
  that the calls before them have left.  When the client stays silent instead, this holds up to the first command
  of the last batch, and the next call waits for ever, whether or not its command is already in the spare page.
\<close>

theorem batches_are_parsed:
  assumes "small_grants mal" and "\<forall>b \<in> set batches. small_batch b"
    and "brings (map batch_bytes batches) [Shutdown] closed" and "brings (map batch_bytes batches) [] silent"
    and "batches \<noteq> []"
  shows "bk_session mal blocking (length (concat batches)) (resp_conn_data_init fd data) \<lparr>w_heap = heap, w_net = closed\<rparr> =
           returns (map Some (concat batches)) \<and>
         bk_session mal blocking n (resp_conn_data_init fd data) \<lparr>w_heap = heap, w_net = silent\<rparr> =
           (if n \<le> length (concat (butlast batches)) + 1 then returns (map Some (take n (concat batches))) else None)"
proof -
  have ready: "bk_ready [] batches tail (resp_conn_data_init fd data) \<lparr>w_heap = heap, w_net = net\<rparr>"
    if "brings (map batch_bytes batches) tail net" for tail net
    using that assms(2) by (simp add: bk_ready_def resp_conn_data_init_def spare_ok_def batch_bytes_def)
  show ?thesis
    using session_closed[OF assms(1) ready[OF assms(3)], of blocking] assms(5)
      session_open[OF assms(1) ready[OF assms(4)], of blocking n]
    by (simp add: within_reach_def)
qed

text \<open>\<open>GET k\<close>, and after a pause \<open>GET k\<close> and \<open>SET k v\<close> together: the \<open>SET\<close> is only read when the client closes.\<close>

definition sample_batches :: "bytes list list list" where
  "sample_batches = [[[[71, 69, 84], [107]]], [[[71, 69, 84], [107]], [[83, 69, 84], [107], [118]]]]"

theorem batches_are_parsed_witness:
  "bk_session (\<lambda>n. n \<le> 4096) False 3 (resp_conn_data_init 5 ())
     \<lparr>w_heap = [], w_net = [Bytes (batch_bytes (sample_batches ! 0)), WouldBlock, Bytes (batch_bytes (sample_batches ! 1)), Shutdown]\<rparr>
     = returns (map Some (concat sample_batches)) \<and>
   bk_session (\<lambda>n. n \<le> 4096) False 3 (resp_conn_data_init 5 ())
     \<lparr>w_heap = [], w_net = [Bytes (batch_bytes (sample_batches ! 0)), WouldBlock, Bytes (batch_bytes (sample_batches ! 1))]\<rparr> = None"
proof -
  let ?net = "[Bytes (batch_bytes (sample_batches ! 0)), WouldBlock, Bytes (batch_bytes (sample_batches ! 1))]"
  have "small_grants (\<lambda>n. n \<le> 4096)" by (simp add: small_grants_def)
  moreover have "\<forall>b \<in> set sample_batches. small_batch b"
    by (simp add: sample_batches_def small_batch_def batch_bytes_def enc_command_def enc_head_def enc_arg_def dec.simps)
  moreover have "brings (map batch_bytes sample_batches) [Shutdown] (?net @ [Shutdown])"
    "brings (map batch_bytes sample_batches) [] ?net" "sample_batches \<noteq> []"
    by (simp_all add: brings_def sample_batches_def)
  moreover have "length (concat sample_batches) = 3" "length (concat (butlast sample_batches)) + 1 = 2"
    by (simp_all add: sample_batches_def)
  ultimately show ?thesis
    using batches_are_parsed[of "\<lambda>n. n \<le> 4096" sample_batches "?net @ [Shutdown]" ?net False 5 "()" "[]" 3] by simp
qed

end
