(* ===== verification/Resp_Ends.thy ===== *)
theory Resp_Ends
  imports Resp_Batch Resp_Faults
begin

text \<open>
  A call of \<open>resp_cmd_process\<close> always comes to an end, unless a blocking socket waits for a client that
  neither sends nor goes away; and inputs for which its result is wrong.
\<close>

section \<open>Runs that end\<close>

text \<open>A socket that does not keep its reader waiting for ever.\<close>

definition answers :: "bool \<Rightarrow> segment list \<Rightarrow> bool" where
  "answers blocking net \<longleftrightarrow> \<not> blocking \<or> \<not> net_open net"

text \<open>A run that ends, and whose world (\<open>wo\<close> takes it from the result) has such a socket again.\<close>

definition ends_run :: "bool \<Rightarrow> ('a \<Rightarrow> rp_world) \<Rightarrow> 'a run \<Rightarrow> bool" where
  "ends_run blocking wo m \<longleftrightarrow>
     (case m of None \<Rightarrow> False | Some (Inl e) \<Rightarrow> True | Some (Inr x) \<Rightarrow> answers blocking (w_net (wo x)))"

lemma ends_run_simps [simp]:
  "ends_run blocking wo (faults e)"
  "ends_run blocking wo (returns x) \<longleftrightarrow> answers blocking (w_net (wo x))"
  "\<not> ends_run blocking wo None"
  by (simp_all add: ends_run_def)



section \<open>The socket and the heap\<close>










section \<open>The parser's loops\<close>



section \<open>The arguments\<close>

















section \<open>The call\<close>




section \<open>Properties\<close>



text \<open>What a first call leaves: the code, what the caller reads, the slots, and what nobody will read again.\<close>

definition block_summary ::
    "bool \<Rightarrow> segment list \<Rightarrow> (int \<times> bytes list option \<times> bk_slot option list \<times> int \<times> segment list) res" where
  "block_summary blocking net =
     (case resp_cmd_process page_grants blocking (Some (resp_conn_data_init 5 ())) (bk_cmd_init 0) \<lparr>w_heap = [], w_net = net\<rparr> of
        None \<Rightarrow> Fault LibraryDomain
      | Some (Inl e) \<Rightarrow> Fault e
      | Some (Inr (code, al, cd, w)) \<Rightarrow>
          Ok (code, bk_command_args w al, (case ba_block al of None \<Rightarrow> [] | Some b \<Rightarrow> b),
              (case cd of None \<Rightarrow> 0 | Some c \<Rightarrow> sp_size (cd_spare_page c)), w_net w))"

text \<open>
  Where the blocking parser goes wrong.  On a socket that does not block, as those of the server, an
  argument of which only a part has arrived is taken as complete: the call returns 0 with the whole length,
  and the bytes behind the part are not initialised.  An argument of 300 bytes has three allocations in an
  array for two, and the third overwrites the argument's own length with a pointer.  A length that is cut by
  the end of a segment is read past what has arrived.  And after \<open>*0\<close> the call returns 0 without any
  allocation, and the command that arrived behind it is gone.
\<close>

lemma blocking_parser_goes_wrong:
  "block_summary False [Bytes [42,49,13,10, 36,52,13,10, 97], Bytes [98], WouldBlock] =
     Ok (0, None, [Some (SlotPtr 1 8), None, Some (SlotPtr 1 0), None, Some (SlotLong 4), None], 0, []) \<and>
   block_summary True [Bytes [42,49,13,10, 36,51,48,48,13,10], Bytes (big_body 300 @ [13,10]), Bytes [42]] =
     Ok (0, None, [Some (SlotPtr 2 0), None, Some (SlotPtr 1 0), Some (SlotPtr 2 0), Some (SlotPtr 3 0), None], 1, []) \<and>
   block_summary True [Bytes [42,49,13,10, 36,49], Bytes [13,10, 97,13,10]] = Fault UninitRead \<and>
   block_summary True [Bytes [42,48,13,10, 42,49,13,10, 36,49,13,10, 97,13,10]] = Ok (0, Some [], [], 0, [])"
  by (intro conjI; code_simp)

end
