(* ===== verification/Resp_Grow.thy ===== *)
theory Resp_Grow
  imports Resp_Frame Resp_Roundtrip
begin

text \<open>
  The parser writes only bytes that were not initialised: what is known of memory stays known, also in
  the buffer that is being filled.
\<close>

section \<open>Memory that grows\<close>

definition cells_le :: "cells \<Rightarrow> cells \<Rightarrow> bool" where
  "cells_le cs cs' \<longleftrightarrow> length cs' = length cs \<and> (\<forall>i < length cs. cs ! i \<noteq> None \<longrightarrow> cs' ! i = cs ! i)"

definition heap_le :: "rp_world \<Rightarrow> rp_world \<Rightarrow> bool" where
  "heap_le w w' \<longleftrightarrow> (\<forall>a cs. heap_block a w = Ok cs \<longrightarrow> (\<exists>cs'. heap_block a w' = Ok cs' \<and> cells_le cs cs'))"

lemma cells_le_refl [simp]: "cells_le cs cs"
  by (simp add: cells_le_def)

lemma cells_le_trans: "cells_le x y \<Longrightarrow> cells_le y z \<Longrightarrow> cells_le x z"
  by (simp add: cells_le_def)

lemma heap_le_kept: "(\<And>a cs. heap_block a w = Ok cs \<Longrightarrow> heap_block a w' = Ok cs) \<Longrightarrow> heap_le w w'"
  unfolding heap_le_def using cells_le_refl by blast

lemma heap_le_refl [simp]: "heap_le w w"
  by (rule heap_le_kept)

lemma heap_le_net [simp]:
  "heap_le (w\<lparr>w_net := net\<rparr>) w' = heap_le w w'" "heap_le w (w'\<lparr>w_net := net\<rparr>) = heap_le w w'"
  by (simp_all add: heap_le_def)

lemma heap_le_trans: "heap_le w1 w2 \<Longrightarrow> heap_le w2 w3 \<Longrightarrow> heap_le w1 w3"
  unfolding heap_le_def using cells_le_trans by meson

text \<open>The part of a buffer that is still to be filled is not initialised.\<close>

definition room :: "resp_sm_buf \<Rightarrow> rp_world \<Rightarrow> bool" where
  "room d w \<longleftrightarrow> 0 \<le> rb_end_ptr d \<and>
     (\<forall>cs i. heap_block (rb_buf d) w = Ok cs \<longrightarrow> rb_end_ptr d \<le> int i \<longrightarrow> int i < rb_length d \<longrightarrow> i < length cs \<longrightarrow>
        cs ! i = None)"

lemma room_net [simp]: "room d (w\<lparr>w_net := net\<rparr>) = room d w"
  by (simp add: room_def)

lemma room_fields [simp]:
  "room (d\<lparr>rb_start_ptr := x\<rparr>) w = room d w" "room (d\<lparr>rb_bs_length := x\<rparr>) w = room d w"
  "room (d\<lparr>rb_argc_countdown := x\<rparr>) w = room d w"
  by (simp_all add: room_def)

lemma room_null [simp]: "room (d\<lparr>rb_buf := NULL, rb_start_ptr := s, rb_end_ptr := 0\<rparr>) w"
  by (simp add: room_def heap_block_def)

lemma room_kept:
  assumes "room d w" and "heap_block (rb_buf d) w' = heap_block (rb_buf d) w"
  shows "room d w'"
  using assms by (simp add: room_def)

section \<open>The pieces\<close>

lemma sock_recv_length: "sock_recv n net = (Received bs, net') \<Longrightarrow> length bs \<le> n"
  by (induction n net rule: sock_recv.induct) (auto split: if_splits)

text \<open>A write of bytes over cells that were not initialised.\<close>

lemma heap_write_block:
  assumes "heap_write a off bs w = Ok w'" and "heap_block a w = Ok cs"
  shows "off + length bs \<le> length cs \<and> heap_block a w' = Ok (take off cs @ bs @ drop (off + length bs) cs)"
proof -
  have le: "off + length bs \<le> length cs" using assms by (auto simp: heap_write_def split: if_splits)
  then show ?thesis using heap_block_write[OF assms(2) le] assms(1) by auto
qed

lemma heap_write_grow:
  assumes wr: "heap_write a off (map Some bs) w = Ok w'"
    and none: "\<And>cs i. heap_block a w = Ok cs \<Longrightarrow> off \<le> i \<Longrightarrow> i < off + length bs \<Longrightarrow> i < length cs \<Longrightarrow> cs ! i = None"
  shows "heap_le w w'"
  unfolding heap_le_def
proof (intro allI impI)
  fix b cs
  assume b: "heap_block b w = Ok cs"
  show "\<exists>cs'. heap_block b w' = Ok cs' \<and> cells_le cs cs'"
  proof (cases "b = a")
    case True
    have "cells_le cs (take off cs @ map Some bs @ drop (off + length bs) cs)"
      using heap_write_block[OF wr b[unfolded True]] none[OF b[unfolded True]]
      by (auto simp: cells_le_def nth_append not_less)
    then show ?thesis using heap_write_block[OF wr b[unfolded True]] True by auto
  next
    case False
    then show ?thesis using heap_block_write_other[OF wr False] b by auto
  qed
qed

lemma fill_grow:
  assumes r: "room d w" and fill: "rp_fill_remaining (rb_buf d) (rb_end_ptr d) (rb_length d) w = Ok (res, w')"
  shows "heap_le w w' \<and>
    room (case res of Received bs \<Rightarrow> d\<lparr>rb_end_ptr := rb_end_ptr d + int (length bs)\<rparr> | _ \<Rightarrow> d) w'"
proof -
  let ?e = "nat (rb_end_ptr d)"
  have e: "int ?e = rb_end_ptr d" using r by (simp add: room_def)
  obtain got net where got: "sock_recv (nat (rb_length d - rb_end_ptr d)) (w_net w) = (got, net)" by force
  have lt: "rb_end_ptr d < rb_length d" using fill by (auto simp: rp_fill_remaining_def split: if_splits)
  show ?thesis
  proof (cases "\<exists>bs. got = Received bs")
    case True
    then obtain bs where bs: "got = Received bs" by blast
    have wr: "heap_write (rb_buf d) ?e (map Some bs) (w\<lparr>w_net := net\<rparr>) = Ok w'" and res: "res = Received bs"
      using fill lt got bs by (auto simp: rp_fill_remaining_def bind_res_Inr_iff)
    have len: "int (length bs) \<le> rb_length d - rb_end_ptr d" using sock_recv_length[OF got[unfolded bs]] lt by simp
    have none: "cs ! i = None"
      if "heap_block (rb_buf d) (w\<lparr>w_net := net\<rparr>) = Ok cs" "?e \<le> i" "i < ?e + length bs" "i < length cs" for cs i
    proof -
      have "rb_end_ptr d \<le> int i" "int i < rb_length d" using that(2,3) e len by linarith+
      then show ?thesis using r that(1,4) by (simp add: room_def)
    qed
    note grow = heap_write_grow[OF wr none]
    have "room (d\<lparr>rb_end_ptr := rb_end_ptr d + int (length bs)\<rparr>) w'"
      unfolding room_def
    proof (intro conjI allI impI)
      fix cs' i
      assume a: "heap_block (rb_buf (d\<lparr>rb_end_ptr := rb_end_ptr d + int (length bs)\<rparr>)) w' = Ok cs'"
        "rb_end_ptr (d\<lparr>rb_end_ptr := rb_end_ptr d + int (length bs)\<rparr>) \<le> int i"
        "int i < rb_length (d\<lparr>rb_end_ptr := rb_end_ptr d + int (length bs)\<rparr>)" "i < length cs'"
      obtain cs where cs: "heap_block (rb_buf d) (w\<lparr>w_net := net\<rparr>) = Ok cs"
        using wr by (auto simp: heap_write_def bind_res_Inr_iff)
      have le: "?e + length bs \<le> length cs" and cs': "cs' = take ?e cs @ map Some bs @ drop (?e + length bs) cs"
        using heap_write_block[OF wr cs] a(1) by simp_all
      have i: "?e + length bs \<le> i" using a(2) e by (simp del: int_nat_eq)
      then have "cs' ! i = cs ! i" and "i < length cs" using le a(4) by (auto simp: cs' nth_append)
      moreover have "cs ! i = None"
        using r cs i e a(3) \<open>i < length cs\<close> by (auto simp: room_def)
      ultimately show "cs' ! i = None" by simp
    qed (use r in \<open>simp add: room_def\<close>)
    then show ?thesis using grow res by simp
  next
    case False
    then have "w' = w\<lparr>w_net := net\<rparr>" "res = got"
      using fill lt got by (auto simp: rp_fill_remaining_def split: recv_result.splits)
    then show ?thesis using False r by (cases got) auto
  qed
qed

lemma create_grow:
  assumes "rp_create_buffer mal sz w = Ok (a, w')"
  shows "heap_le w w'" and "0 \<le> sz \<Longrightarrow> rb_buf d = a \<Longrightarrow> 0 \<le> rb_end_ptr d \<Longrightarrow> rb_length d = sz \<Longrightarrow> room d w'"
proof -
  show "heap_le w w'"
    by (rule heap_le_kept) (use create_frame(2)[OF assms, of NULL] heap_block_bound in \<open>fastforce simp: rp_frame_def\<close>)
  have "w' = w\<lparr>w_heap := w_heap w @ [Some ((replicate (nat (size_t (sz + 1))) None)[nat sz := Some 0])]\<rparr>"
    "a = length (w_heap w) + 1"
    using assms by (auto simp: rp_create_buffer_def Let_def split: if_splits)
  then show "0 \<le> sz \<Longrightarrow> rb_buf d = a \<Longrightarrow> 0 \<le> rb_end_ptr d \<Longrightarrow> rb_length d = sz \<Longrightarrow> room d w'"
    by (auto simp: room_def heap_block_def nth_list_update)
qed

section \<open>Every label\<close>

definition grow_out :: "rp_world \<Rightarrow> 'u rp_out \<Rightarrow> bool" where
  "grow_out w out \<longleftrightarrow> (\<forall>n sm' w'. out = Ok (n, sm', w') \<longrightarrow> heap_le w w' \<and> room (sm_data sm') w')"

lemma grow_out_Ok [simp]: "grow_out w (Ok (n, sm', w')) \<longleftrightarrow> heap_le w w' \<and> room (sm_data sm') w'"
  by (simp add: grow_out_def)

lemma grow_out_Fault [simp]: "grow_out w (Fault e)"
  by (simp add: grow_out_def)

lemma grow_out_bind:
  assumes "\<And>x. m = Ok x \<Longrightarrow> grow_out w (f x)"
  shows "grow_out w (bind_res m f)"
  using assms by (cases m) (simp_all add: grow_out_def)

lemma grow_out_trans:
  assumes "heap_le w w1" and "grow_out w1 out"
  shows "grow_out w out"
  using assms heap_le_trans by (fastforce simp: grow_out_def)

lemma receive_grow:
  assumes r: "room (sm_data sm) w" and k: "\<And>sm1 w1. room (sm_data sm1) w1 \<Longrightarrow> grow_out w1 (k sm1 w1)"
  shows "grow_out w (rp_receive sm w k)"
  unfolding rp_receive_def Let_def
proof (rule grow_out_bind)
  fix x assume fill: "rp_fill_remaining (rb_buf (sm_data sm)) (rb_end_ptr (sm_data sm)) (rb_length (sm_data sm)) w = Ok x"
  obtain res w1 where x: "x = (res, w1)" by (cases x)
  note g = fill_grow[OF r fill[unfolded x]]
  show "grow_out w
     (case x of (r, w') \<Rightarrow> case r of
        Received bs \<Rightarrow> k (on_data (\<lambda>d. d\<lparr>rb_end_ptr := rb_end_ptr d + int (length bs)\<rparr>) sm) w'
      | RecvAgain \<Rightarrow> Ok (Return RESP_SM_STATUS_EMPTY, sm, w')
      | RecvEnd \<Rightarrow> Ok (Return RESP_SM_STATUS_CLOSED, sm, w'))"
  proof (cases res)
    case (Received bs)
    let ?sm1 = "on_data (\<lambda>d. d\<lparr>rb_end_ptr := rb_end_ptr d + int (length bs)\<rparr>) sm"
    have "grow_out w1 (k ?sm1 w1)" using g Received by (intro k) simp
    from grow_out_trans[OF _ this] show ?thesis using g Received x by simp
  qed (use g x in simp_all)
qed

lemma receive_grow_go:
  "room (sm_data sm) w \<Longrightarrow> grow_out w (rp_receive sm w (\<lambda>sm w. Ok (Goto l, sm, w)))"
  by (rule receive_grow) simp_all

lemma fresh_grow:
  assumes "rp_fresh_buffer mal sz sm w = Ok (sm', w')" and "0 \<le> sz"
  shows "heap_le w w' \<and> room (sm_data sm') w'"
  using assms create_grow by (auto simp: rp_fresh_buffer_def bind_res_Inr_iff split: prod.splits)

text \<open>A fresh buffer, recorded in the result, and filled.\<close>

lemma fresh_receive_grow:
  assumes "0 \<le> sz"
  shows "grow_out w (bind_res (rp_fresh_buffer mal sz sm w) (\<lambda>(sm, w).
     bind_res (on_result (f sm) sm) (\<lambda>sm. rp_receive sm w (\<lambda>sm w. Ok (Goto l, sm, w)))))"
proof (rule grow_out_bind)
  fix x assume x: "rp_fresh_buffer mal sz sm w = Ok x"
  obtain sm1 w1 where x1: "x = (sm1, w1)" by (cases x)
  note g = fresh_grow[OF x[unfolded x1] assms]
  have "grow_out w1 (bind_res (on_result (f sm1) sm1) (\<lambda>sm. rp_receive sm w1 (\<lambda>sm w. Ok (Goto l, sm, w))))"
    by (rule grow_out_bind) (metis on_result_data receive_grow_go g)
  then show "grow_out w (case x of (sm, w) \<Rightarrow>
     bind_res (on_result (f sm) sm) (\<lambda>sm. rp_receive sm w (\<lambda>sm w. Ok (Goto l, sm, w))))"
    unfolding x1 prod.case by (rule grow_out_trans[OF conjunct1[OF g]])
qed

lemma clean_check_grow: "room (sm_data sm) w \<Longrightarrow> grow_out w (rp_clean_check sm w)"
  unfolding rp_clean_check_def by (intro grow_out_bind) simp

lemma clean_grow:
  assumes "room (sm_data sm) w"
  shows "grow_out w (rp_clean mal sm w)"
proof -
  let ?sm = "sm\<lparr>sm_result := Some (resp_cmd_init 0)\<rparr>"
  have body: "grow_out v (if rb_start_ptr (sm_data s) = rb_end_ptr (sm_data s)
      then rp_receive s v rp_clean_check else rp_clean_check s v)" if "room (sm_data s) v" for s :: "'a resp_sm" and v
    using that by (auto intro: receive_grow clean_check_grow)
  have "grow_out w
      (bind_res (if rb_buf (sm_data ?sm) = NULL then rp_fresh_buffer mal BUFSIZE ?sm w else Ok (?sm, w)) (\<lambda>(sm, w).
          if rb_start_ptr (sm_data sm) = rb_end_ptr (sm_data sm) then rp_receive sm w rp_clean_check
          else rp_clean_check sm w))"
  proof (rule grow_out_bind)
    fix x assume x: "(if rb_buf (sm_data ?sm) = NULL then rp_fresh_buffer mal BUFSIZE ?sm w else Ok (?sm, w)) = Ok x"
    obtain sm1 w1 where x1: "x = (sm1, w1)" by (cases x)
    have g: "heap_le w w1 \<and> room (sm_data sm1) w1"
      using x assms fresh_grow[of mal BUFSIZE ?sm w sm1 w1] by (auto simp: x1 BUFSIZE_def split: if_splits)
    then show "grow_out w (case x of (sm, w) \<Rightarrow>
          if rb_start_ptr (sm_data sm) = rb_end_ptr (sm_data sm) then rp_receive sm w rp_clean_check
          else rp_clean_check sm w)"
      unfolding x1 prod.case using grow_out_trans body by blast
  qed
  then show ?thesis by (auto simp: rp_clean_def Let_def split: if_splits)
qed

lemma ary_start_grow: "room (sm_data sm) w \<Longrightarrow> grow_out w (rp_ary_start mal sm w)"
  unfolding rp_ary_start_def Let_def
  by (auto intro!: grow_out_bind receive_grow_go dest!: on_result_data split: prod.splits)

lemma bs_start_pre_grow: "room (sm_data sm) w \<Longrightarrow> grow_out w (rp_bs_start_pre mal sm w)"
  unfolding rp_bs_start_pre_def Let_def
  using fresh_receive_grow[of BUFSIZE w mal sm "\<lambda>sm. result_add_allocation (rb_buf (sm_data sm))"]
  by (auto intro!: grow_out_bind[where m = "buf_at _ _ _"] receive_grow_go simp: BUFSIZE_def)

lemma bs_start_grow: "room (sm_data sm) w \<Longrightarrow> grow_out w (rp_bs_start mal sm w)"
  unfolding rp_bs_start_def Let_def
  by (auto intro!: grow_out_bind[where m = "buf_memchr _ _ _ _ _"] grow_out_bind[where m = "buf_strtol _ _ _"]
      grow_out_bind[where m = "long_op _"] grow_out_bind[where m = "crlf_at _ _ _"]
      grow_out_bind[where m = "if _ then _ else _"] fresh_receive_grow receive_grow_go simp: BUFSIZE_def split: prod.splits)

lemma bs_body_grow: "room (sm_data sm) w \<Longrightarrow> grow_out w (rp_bs_body mal sm w)"
  unfolding rp_bs_body_def Let_def
  by (auto intro!: grow_out_bind[where m = "long_op _"] fresh_receive_grow simp: size_t_def)

lemma bs_body_fit_grow: "room (sm_data sm) w \<Longrightarrow> grow_out w (rp_bs_body_fit sm w)"
  unfolding rp_bs_body_fit_def Let_def
  by (auto intro!: grow_out_bind receive_grow_go dest!: on_result_data)

lemma bs_body_bigbuf_grow: "room (sm_data sm) w \<Longrightarrow> grow_out w (rp_bs_body_bigbuf mal sm w)"
  unfolding rp_bs_body_bigbuf_def Let_def
  by (auto intro!: grow_out_bind receive_grow_go dest!: on_result_data fresh_grow simp: BUFSIZE_def)

lemma nth_behind: "length ys \<le> i \<Longrightarrow> i < length zs \<Longrightarrow> (ys @ drop (length ys) zs) ! i = zs ! i"
  by (simp add: nth_append)

lemma bs_body_finish_grow:
  assumes "room (sm_data sm) w"
  shows "grow_out w (rp_bs_body_finish mal sm w)"
proof -
  have copy: "heap_le w w2 \<and> room (d\<lparr>rb_buf := a, rb_start_ptr := s, rb_end_ptr := n, rb_length := BUFSIZE\<rparr>) w2"
    if cr: "rp_create_buffer mal BUFSIZE w = Ok (a, w1)" and wr: "heap_write a 0 (take (nat n) xs) w1 = Ok w2"
      and n: "0 \<le> n" for a w1 xs w2 n s and d :: resp_sm_buf
  proof -
    have w1: "w1 = w\<lparr>w_heap := w_heap w @ [Some ((replicate (nat (size_t (BUFSIZE + 1))) None)[nat BUFSIZE := Some 0])]\<rparr>"
      and a: "a = length (w_heap w) + 1" using cr by (auto simp: rp_create_buffer_def Let_def split: if_splits)
    have keep: "heap_block b w2 = Ok cs" if "heap_block b w = Ok cs" for b cs
      using heap_block_bound[OF that] a heap_block_write_other[OF wr, of b] create_frame(1)[OF cr, of NULL] that
      by (auto simp: rp_frame_def)
    have blk: "heap_block a w1 = Ok ((replicate 257 None)[256 := Some 0])"
      by (simp add: w1 a heap_block_def BUFSIZE_def size_t_def)
    have "cs ! i = None"
      if "heap_block a w2 = Ok cs" "n \<le> int i" "int i < BUFSIZE" for cs i
    proof -
      have "length (take (nat n) xs) \<le> nat n" "nat n \<le> i" using that(2) by simp_all
      then have "length (take (nat n) xs) \<le> i" by (rule order_trans)
      moreover have "cs = take (nat n) xs @ drop (length (take (nat n) xs)) ((replicate 257 None)[256 := Some 0])"
        using heap_write_block[OF wr blk] that(1) by simp
      ultimately have "cs ! i = (replicate 257 None)[256 := Some 0] ! i"
        using that(3) nth_behind[of "take (nat n) xs" i "(replicate 257 None)[256 := Some (0 :: byte)]"] by (simp add: BUFSIZE_def)
      then show ?thesis using that(3) by (simp add: BUFSIZE_def)
    qed
    then show ?thesis using heap_le_kept[OF keep] n by (simp add: room_def)
  qed
  show ?thesis
    unfolding rp_bs_body_finish_def Let_def
    using assms copy by (auto intro!: grow_out_bind simp: size_t_def split: prod.splits)
qed

lemma rp_step_grow: "room (sm_data sm) w \<Longrightarrow> grow_out w (rp_step mal l sm w)"
  by (cases l) (simp_all add: clean_grow ary_start_grow rp_bs_init_def bs_start_pre_grow bs_start_grow
      bs_body_grow bs_body_fit_grow bs_body_bigbuf_grow bs_body_finish_grow)

lemma rp_run_grow:
  assumes "rp_run mal l sm w = returns (st, sm', w')" and "room (sm_data sm) w"
  shows "heap_le w w' \<and> room (sm_data sm') w'"
proof -
  have "room (sm_data sm) w \<longrightarrow> (case r of Inl e \<Rightarrow> True | Inr (st, sm', w') \<Rightarrow> heap_le w w' \<and> room (sm_data sm') w')"
    if "rp_run mal l sm w = Some r" for r
    using that
  proof (induction rule: rp_run.raw_induct[rotated 1, consumes 1, case_names step])
    case (step run mal l sm w y)
    show ?case
    proof
      assume r: "room (sm_data sm) w"
      show "case y of Inl e \<Rightarrow> True | Inr (st, sm', w') \<Rightarrow> heap_le w w' \<and> room (sm_data sm') w'"
      proof (cases "rp_step mal l sm w")
        case (Inl e)
        then show ?thesis using step(2) by auto
      next
        case (Inr x)
        obtain n sm1 w1 where x: "x = (n, sm1, w1)" by (cases x) auto
        have g: "heap_le w w1" "room (sm_data sm1) w1" using rp_step_grow[OF r, of mal l] Inr x by simp_all
        show ?thesis
        proof (cases n)
          case (Return s)
          then show ?thesis using step(2) Inr x g by auto
        next
          case (Goto l')
          then have "run mal l' sm1 w1 = Some y" using step(2) Inr x by simp
          from step(1)[OF this] show ?thesis using g heap_le_trans by (auto split: sum.splits)
        qed
      qed
    qed
  qed
  from this[OF assms(1)] show ?thesis using assms(2) by simp
qed

lemma process_grow:
  assumes "resp_cmd_process_sm mal sm w = returns (st, sm', w')" and "room (sm_data sm) w"
  shows "heap_le w w' \<and> room (sm_data sm') w'"
proof (cases "rp_entry (sm_state sm)")
  case None
  then show ?thesis using assms by (simp add: resp_cmd_process_sm_def)
next
  case (Some l)
  then show ?thesis using assms rp_run_grow[of mal l sm w st sm' w'] by (simp add: resp_cmd_process_sm_def)
qed

end
