(* ===== verification/Clients.thy ===== *)
theory Clients
  imports Worker_Map Resp_Grow
begin

text \<open>
  Any number of clients: the connections share the server, and a worker serves whichever becomes
  readable.  Between two pieces of a request the requests of other clients are served.
\<close>

section \<open>Connections\<close>

text \<open>
  What \<open>epoll_wait\<close> gives for a connection: its parser and its reply queue; and what the network has for
  it.  The pipe is shared.
\<close>

record conn =
  cn_sm :: "unit resp_sm"
  cn_head :: nat
  cn_window :: "pre_send option list"
  cn_net :: "segment list"

record clients =
  cl_state :: rn_state
  cl_conns :: "nat \<Rightarrow> conn"
  cl_pipe :: "(resp_allocations option \<times> nat) list"

definition clients_start :: "rn_state \<Rightarrow> clients" where
  "clients_start s =
     \<lparr>cl_state = s, cl_conns = (\<lambda>c. \<lparr>cn_sm = resp_sm_init 0 0 (int c) (), cn_head = 0, cn_window = [], cn_net = []\<rparr>),
      cl_pipe = []\<rparr>"

text \<open>A worker reads from connection \<open>c\<close> once; what it sends is the result.\<close>

definition client_worker :: "clients \<Rightarrow> nat \<Rightarrow> worker" where
  "client_worker cl c =
     (let k = cl_conns cl c; s = cl_state cl in
      \<lparr>wk_sm = cn_sm k, wk_state = s\<lparr>rs_mem := (rs_mem s)\<lparr>w_net := cn_net k\<rparr>\<rparr>, wk_head = cn_head k,
       wk_window = cn_window k, wk_pipe = cl_pipe cl, wk_sent = []\<rparr>)"

definition worker_clients :: "clients \<Rightarrow> nat \<Rightarrow> worker \<Rightarrow> clients" where
  "worker_clients cl c w =
     \<lparr>cl_state = wk_state w,
      cl_conns = (cl_conns cl)(c := \<lparr>cn_sm = wk_sm w, cn_head = wk_head w, cn_window = wk_window w, cn_net = w_net (wk_mem w)\<rparr>),
      cl_pipe = wk_pipe w\<rparr>"

definition client_read :: "rn_env \<Rightarrow> nat \<Rightarrow> clients \<Rightarrow> (clients \<times> bytes) run" where
  "client_read env c cl =
     bind_run (onestep_read env (client_worker cl c)) (\<lambda>(status, w). returns (worker_clients cl c w, wk_sent w))"

text \<open>The connections that become readable, one after the other, and what is sent on each.\<close>

fun read_all :: "rn_env \<Rightarrow> nat list \<Rightarrow> clients \<Rightarrow> (clients \<times> (nat \<times> bytes) list) run" where
  "read_all env [] cl = returns (cl, [])"
| "read_all env (c # cs) cl =
     bind_run (client_read env c cl) (\<lambda>(cl', out).
     bind_run (read_all env cs cl') (\<lambda>(cl'', outs). returns (cl'', (c, out) # outs)))"

text \<open>The client of connection \<open>c\<close> sends.\<close>

definition client_send :: "nat \<Rightarrow> segment list \<Rightarrow> clients \<Rightarrow> clients" where
  "client_send c segs cl =
     cl\<lparr>cl_conns := (cl_conns cl)(c := (cl_conns cl c)\<lparr>cn_net := cn_net (cl_conns cl c) @ segs\<rparr>)\<rparr>"

text \<open>
  The commands that any client may send at any time; a \<open>del\<close> of a key that is not there is not defined, and
  whether a key is there depends on the other clients.
\<close>

fun set_or_get :: "db_op \<Rightarrow> bool" where
  "set_or_get (Db_del k) = False"
| "set_or_get _ = True"

text \<open>
  A server with clients that wait for their replies, after \<open>n\<close> replies: \<open>p\<close> has the command that a client
  has sent, in whatever pieces, and that is not answered yet, and \<open>m\<close> is the map that the answers so
  far have made.
\<close>

inductive serving :: "rn_env \<Rightarrow> nat \<Rightarrow> clients \<Rightarrow> (nat \<Rightarrow> db_op option) \<Rightarrow> (bytes \<rightharpoonup> bytes) \<Rightarrow> bool" for env where
  start: "server_start env = returns s \<Longrightarrow> serving env 0 (clients_start s) (\<lambda>_. None) Map.empty"
| send: "serving env n cl p m \<Longrightarrow> p c = None \<Longrightarrow> set_or_get (fst x) \<Longrightarrow>
    good_send {env_junk (en_ht env)} Map.empty x \<Longrightarrow>
    serving env n (client_send c (snd x) cl) (p(c := Some (fst x))) m"
| wait: "serving env n cl p m \<Longrightarrow> client_read env c cl = returns (cl', []) \<Longrightarrow> serving env n cl' p m"
| answer: "serving env n cl p m \<Longrightarrow> client_read env c cl = returns (cl', out) \<Longrightarrow> out \<noteq> [] \<Longrightarrow> p c = Some x \<Longrightarrow>
    serving env (Suc n) cl' (p(c := None)) (db_next m x)"

section \<open>What a connection knows of memory\<close>

lemma buf_ok_kept:
  assumes "heap_block a w' = heap_block a w" and "w_net w' = w_net w"
  shows "buf_ok S a e w' = buf_ok S a e w"
  using assms by (simp add: buf_ok_def)

lemma rp_clean_inv_kept:
  assumes "heap_block (rb_buf (sm_data sm)) w' = heap_block (rb_buf (sm_data sm)) w" and "w_net w' = w_net w"
  shows "rp_clean_inv S sm w' = rp_clean_inv S sm w"
  using assms buf_ok_kept[OF assms] by (simp add: rp_clean_inv_def)

lemma rp_ready_kept:
  assumes "heap_block (rb_buf (sm_data sm)) w' = heap_block (rb_buf (sm_data sm)) w" and "w_net w' = w_net w"
  shows "rp_ready args rest sm w' = rp_ready args rest sm w"
  using buf_ok_kept[OF assms] rp_clean_inv_kept[OF assms] by (simp add: rp_ready_def rp_inv_def)

lemma rp_ready_block:
  assumes "rp_ready args rest sm w"
  shows "rb_buf (sm_data sm) = NULL \<or> (\<exists>cs. heap_block (rb_buf (sm_data sm)) w = Ok cs)"
  using assms by (auto simp: rp_ready_def rp_inv_def rp_clean_inv_def buf_ok_def split: if_splits)

text \<open>A connection without, and with, an open command.\<close>

definition conn_ok :: "u32 set \<Rightarrow> db_op option \<Rightarrow> conn \<Rightarrow> rp_world \<Rightarrow> bool" where
  "conn_ok J q k w \<longleftrightarrow>
     cn_window k = [] \<and> room (sm_data (cn_sm k)) w \<and>
     (rb_buf (sm_data (cn_sm k)) = NULL \<or> (\<exists>cs. heap_block (rb_buf (sm_data (cn_sm k))) w = Ok cs)) \<and>
     (case q of None \<Rightarrow> rp_clean_inv [] (cn_sm k) (w\<lparr>w_net := cn_net k\<rparr>)
      | Some x \<Rightarrow> set_or_get x \<and> good_op J Map.empty x \<and> small_command (db_args x) \<and>
          rp_ready (db_args x) [] (cn_sm k) (w\<lparr>w_net := cn_net k\<rparr>))"

lemma conn_ok_kept:
  assumes "conn_ok J q k w" and "heap_block (rb_buf (sm_data (cn_sm k))) w' = heap_block (rb_buf (sm_data (cn_sm k))) w"
  shows "conn_ok J q k w'"
  using assms rp_clean_inv_kept[of "cn_sm k" "w'\<lparr>w_net := cn_net k\<rparr>" "w\<lparr>w_net := cn_net k\<rparr>" "[]"]
    rp_ready_kept[of "cn_sm k" "w'\<lparr>w_net := cn_net k\<rparr>" "w\<lparr>w_net := cn_net k\<rparr>" _ "[]"] room_kept[of "sm_data (cn_sm k)" w w']
  by (auto simp: conn_ok_def split: option.splits)

section \<open>The server's state\<close>

lemma text_at_grow:
  assumes "heap_le w w'" and "text_at w p v"
  shows "text_at w' p v"
proof -
  obtain cs r where cs: "heap_block (fst p) w = Ok cs" "0 \<le> snd p" "snd p \<le> int (length cs)"
    "drop (nat (snd p)) cs = map Some v @ r" and p: "fst p \<noteq> NULL"
    using assms(2) by (auto simp: text_at_def ptr_cells_def bind_res_Inr_iff split: if_splits)
  obtain cs' where cs': "heap_block (fst p) w' = Ok cs'" "cells_le cs cs'"
    using assms(1) cs(1) by (auto simp: heap_le_def)
  let ?o = "nat (snd p)"
  have len: "length cs' = length cs" using cs'(2) by (simp add: cells_le_def)
  have fits: "?o + length v \<le> length cs" using arg_cong[OF cs(4), of length] cs(2,3) by simp
  have "take (length v) (drop ?o cs') = map Some v"
  proof (rule nth_equalityI)
    fix i assume i: "i < length (take (length v) (drop ?o cs'))"
    then have iv: "i < length v" by simp
    have "drop ?o cs ! i = Some (v ! i)" using iv by (simp add: cs(4) nth_append)
    then have "cs ! (?o + i) = Some (v ! i)" using fits iv by simp
    then have "cs' ! (?o + i) = Some (v ! i)" using cs'(2) fits iv by (simp add: cells_le_def)
    then show "take (length v) (drop ?o cs') ! i = map Some v ! i" using iv fits len by simp
  qed (use fits len in simp)
  then have "drop ?o cs' = map Some v @ drop (length v) (drop ?o cs')" by (metis append_take_drop_id)
  then show ?thesis using p cs' cs(2,3) len by (auto simp: text_at_def ptr_cells_def)
qed

lemma server_rep_grow:
  assumes rep: "server_rep J ty env s m" and le: "heap_le (rs_mem s) w'"
  shows "server_rep J ty env (s\<lparr>rs_mem := w', rs_ctx := c\<rparr>) m"
proof -
  obtain tm where tm: "ht_map J (rs_table s) tm" "db_values ty s tm m"
    using rep by (auto simp: server_rep_def db_rel_def)
  have obj: "obj_at a (s\<lparr>rs_mem := w', rs_ctx := c\<rparr>) = obj_at a s" for a by (simp add: obj_at_def)
  have "string_value ty (s\<lparr>rs_mem := w', rs_ctx := c\<rparr>) d v" if "string_value ty s d v" for d v
    using that text_at_grow[OF le] unfolding string_value_def string_obj_def obj by auto
  then have "db_values ty (s\<lparr>rs_mem := w', rs_ctx := c\<rparr>) tm m"
    using tm(2) unfolding db_values_def by blast
  then show ?thesis using rep tm(1) by (auto simp: server_rep_def db_rel_def)
qed

section \<open>The invariant\<close>

abbreviation cn_buf :: "conn \<Rightarrow> addr" where
  "cn_buf k \<equiv> rb_buf (sm_data (cn_sm k))"

definition clients_rep ::
    "u32 set \<Rightarrow> u32 \<Rightarrow> rn_env \<Rightarrow> nat \<Rightarrow> clients \<Rightarrow> (nat \<Rightarrow> db_op option) \<Rightarrow> (bytes \<rightharpoonup> bytes) \<Rightarrow> bool" where
  "clients_rep J ty env n cl p m \<longleftrightarrow>
     server_rep J ty env (cl_state cl) m \<and> server_load (cl_state cl) \<le> n \<and> cl_pipe cl = [] \<and>
     (\<forall>c. cn_head (cl_conns cl c) \<le> n \<and> conn_ok J (p c) (cl_conns cl c) (rs_mem (cl_state cl))) \<and>
     (\<forall>c d. c \<noteq> d \<longrightarrow> cn_buf (cl_conns cl c) = cn_buf (cl_conns cl d) \<longrightarrow> cn_buf (cl_conns cl c) = NULL)"

lemma clients_repI:
  assumes "clients_rep J ty env n0 cl0 p0 m0"
    and "server_rep J ty env s m" and "server_load s \<le> n" and "n0 \<le> n"
    and "cn_head k \<le> n" and "conn_ok J q k (rs_mem s)"
    and "\<And>d. d \<noteq> c \<Longrightarrow> conn_ok J (p0 d) (cl_conns cl0 d) (rs_mem s)"
    and "\<And>d. d \<noteq> c \<Longrightarrow> cn_buf (cl_conns cl0 d) = cn_buf k \<Longrightarrow> cn_buf k = NULL"
  shows "clients_rep J ty env n \<lparr>cl_state = s, cl_conns = (cl_conns cl0)(c := k), cl_pipe = []\<rparr> (p0(c := q)) m"
  unfolding clients_rep_def
proof (intro conjI allI impI)
  fix d
  have "cn_head (cl_conns cl0 d) \<le> n" using assms(1,4) order_trans unfolding clients_rep_def by blast
  then show "cn_head (cl_conns \<lparr>cl_state = s, cl_conns = (cl_conns cl0)(c := k), cl_pipe = []\<rparr> d) \<le> n"
    using assms(5) by simp
  show "conn_ok J ((p0(c := q)) d) (cl_conns \<lparr>cl_state = s, cl_conns = (cl_conns cl0)(c := k), cl_pipe = []\<rparr> d)
      (rs_mem (cl_state \<lparr>cl_state = s, cl_conns = (cl_conns cl0)(c := k), cl_pipe = []\<rparr>))"
    using assms(6,7) by simp
next
  fix b d
  assume a: "b \<noteq> d" "cn_buf (cl_conns \<lparr>cl_state = s, cl_conns = (cl_conns cl0)(c := k), cl_pipe = []\<rparr> b) =
      cn_buf (cl_conns \<lparr>cl_state = s, cl_conns = (cl_conns cl0)(c := k), cl_pipe = []\<rparr> d)"
  have "b \<noteq> d \<longrightarrow> cn_buf (cl_conns cl0 b) = cn_buf (cl_conns cl0 d) \<longrightarrow> cn_buf (cl_conns cl0 b) = NULL"
    using assms(1) unfolding clients_rep_def by blast
  then show "cn_buf (cl_conns \<lparr>cl_state = s, cl_conns = (cl_conns cl0)(c := k), cl_pipe = []\<rparr> b) = NULL"
    using a assms(8)[of b] assms(8)[of d] by (auto split: if_splits)
qed (use assms(2,3) in simp_all)

text \<open>What a call of the parser for connection \<open>c\<close> leaves as it is.\<close>

lemma parser_call:
  assumes rep: "clients_rep J ty env n cl p m"
    and call: "resp_cmd_process_sm mal (cn_sm (cl_conns cl c)) ((rs_mem (cl_state cl))\<lparr>w_net := net\<rparr>) = returns (st, sm', m')"
  shows "server_rep J ty env ((cl_state cl)\<lparr>rs_mem := m', rs_ctx := ctx\<rparr>) m"
    and "d \<noteq> c \<Longrightarrow> conn_ok J (p d) (cl_conns cl d) m'"
    and "room (sm_data sm') m'"
    and "d \<noteq> c \<Longrightarrow> cn_buf (cl_conns cl d) = rb_buf (sm_data sm') \<Longrightarrow> rb_buf (sm_data sm') = NULL"
proof -
  let ?w = "rs_mem (cl_state cl)" and ?b = "cn_buf (cl_conns cl c)"
  have ok: "conn_ok J (p d) (cl_conns cl d) ?w" for d using rep by (simp add: clients_rep_def)
  have fr: "rp_frame ?b ?w (rb_buf (sm_data sm')) m'"
    using process_frame[OF call] by simp
  have g: "heap_le ?w m'" "room (sm_data sm') m'"
    using process_grow[OF call] ok[of c] by (simp_all add: conn_ok_def)
  show "room (sm_data sm') m'" by (rule g(2))
  show "server_rep J ty env ((cl_state cl)\<lparr>rs_mem := m', rs_ctx := ctx\<rparr>) m"
    using rep g(1) by (intro server_rep_grow) (simp_all add: clients_rep_def)
  have other: "cn_buf (cl_conns cl d) = NULL \<or>
      cn_buf (cl_conns cl d) \<noteq> ?b \<and> (\<exists>cs. heap_block (cn_buf (cl_conns cl d)) ?w = Ok cs)" if "d \<noteq> c" for d
  proof -
    have "cn_buf (cl_conns cl d) = NULL \<or> (\<exists>cs. heap_block (cn_buf (cl_conns cl d)) ?w = Ok cs)"
      using ok[of d] by (simp add: conn_ok_def)
    moreover have "cn_buf (cl_conns cl d) = ?b \<longrightarrow> cn_buf (cl_conns cl d) = NULL"
      using rep that unfolding clients_rep_def by blast
    ultimately show ?thesis by blast
  qed
  show "conn_ok J (p d) (cl_conns cl d) m'" if "d \<noteq> c"
  proof (rule conn_ok_kept[OF ok])
    show "heap_block (cn_buf (cl_conns cl d)) m' = heap_block (cn_buf (cl_conns cl d)) ?w"
      using other[OF that] fr by (auto simp: rp_frame_def heap_block_def[of NULL])
  qed
  show "rb_buf (sm_data sm') = NULL" if "d \<noteq> c" "cn_buf (cl_conns cl d) = rb_buf (sm_data sm')"
    using other[OF that(1)] fr heap_block_bound that(2) by (fastforce simp: rp_frame_def)
qed

text \<open>A read after which the connection still waits.\<close>

lemma read_waits:
  assumes rep: "clients_rep J ty env n cl p m"
    and call: "resp_cmd_process_sm (en_malloc env) (cn_sm (cl_conns cl c))
        ((rs_mem (cl_state cl))\<lparr>w_net := cn_net (cl_conns cl c)\<rparr>) = returns (RESP_SM_STATUS_EMPTY, sm', m')"
    and ok: "rb_buf (sm_data sm') = NULL \<or> (\<exists>cs. heap_block (rb_buf (sm_data sm')) m' = Ok cs)"
      "case p c of None \<Rightarrow> rp_clean_inv [] sm' m' | Some x \<Rightarrow> rp_ready (db_args x) [] sm' m'"
  shows "\<exists>cl'. client_read env c cl = returns (cl', []) \<and> clients_rep J ty env n cl' p m \<and>
           cn_net (cl_conns cl' c) = w_net m'"
proof -
  let ?w = "client_worker cl c"
  have w: "wk_sm ?w = cn_sm (cl_conns cl c)" "wk_mem ?w = (rs_mem (cl_state cl))\<lparr>w_net := cn_net (cl_conns cl c)\<rparr>"
    "wk_pipe ?w = cl_pipe cl" "wk_sent ?w = []" "wk_head ?w = cn_head (cl_conns cl c)" "wk_window ?w = cn_window (cl_conns cl c)"
    by (simp_all add: client_worker_def wk_mem_def Let_def)
  have "onestep_read env ?w = returns (PR_REARM_AGAIN, with_mem m' (?w\<lparr>wk_sm := sm'\<rparr>))"
    using call by (intro reads_wait) (simp add: w)
  then have run: "client_read env c cl = returns (worker_clients cl c (with_mem m' (?w\<lparr>wk_sm := sm'\<rparr>)), [])"
    by (simp add: client_read_def w)
  let ?k = "\<lparr>cn_sm = sm', cn_head = cn_head (cl_conns cl c), cn_window = cn_window (cl_conns cl c), cn_net = w_net m'\<rparr>"
  have cl': "worker_clients cl c (with_mem m' (?w\<lparr>wk_sm := sm'\<rparr>)) =
      \<lparr>cl_state = (cl_state cl)\<lparr>rs_mem := m'\<rparr>, cl_conns = (cl_conns cl)(c := ?k), cl_pipe = cl_pipe cl\<rparr>"
    by (simp add: worker_clients_def with_mem_def wk_mem_def client_worker_def Let_def)
  note pc = parser_call[OF rep call]
  have "conn_ok J (p c) (cl_conns cl c) (rs_mem (cl_state cl))" using rep by (simp add: clients_rep_def)
  then have "conn_ok J (p c) ?k m'"
    using ok pc(3) by (auto simp: conn_ok_def split: option.splits)
  moreover have "server_rep J ty env ((cl_state cl)\<lparr>rs_mem := m'\<rparr>) m"
    using pc(1)[of "rs_ctx (cl_state cl)"] by simp
  moreover have pipe: "cl_pipe cl = []" and heads: "cn_head (cl_conns cl c) \<le> n" "server_load (cl_state cl) \<le> n"
    using rep by (simp_all add: clients_rep_def)
  ultimately have "clients_rep J ty env n (worker_clients cl c (with_mem m' (?w\<lparr>wk_sm := sm'\<rparr>))) (p(c := p c)) m"
    unfolding cl' pipe by (intro clients_repI[OF rep]) (use pc(2,4) in \<open>simp_all\<close>)
  then have "clients_rep J ty env n (worker_clients cl c (with_mem m' (?w\<lparr>wk_sm := sm'\<rparr>))) p m" by simp
  then show ?thesis using run by (simp add: cl')
qed

text \<open>A read that ends in a reply.\<close>

lemma read_answers:
  assumes rep: "clients_rep J ty env n cl p m" and load: "n < 2 ^ 30" and x: "p c = Some x"
    and call: "resp_cmd_process_sm (en_malloc env) (cn_sm (cl_conns cl c))
        ((rs_mem (cl_state cl))\<lparr>w_net := cn_net (cl_conns cl c)\<rparr>) = returns (RESP_SM_STATUS_DONE, sm', m')"
    and r: "resp_cmd_sm_allocs sm' = Some r" "command_args m' r = Some (db_args x)" "ra_allocation_count r = 1"
    and null: "rb_buf (sm_data sm') = NULL" and clean: "rp_clean_inv [] sm' m'"
  shows "\<exists>cl'. client_read env c cl = returns (cl', wire (db_answer m x)) \<and>
           clients_rep J ty env (Suc n) cl' (p(c := None)) (db_next m x)"
proof -
  let ?k = "cl_conns cl c" and ?w = "client_worker cl c"
  have k: "conn_ok J (Some x) ?k (rs_mem (cl_state cl))" "cn_head ?k \<le> n" "server_load (cl_state cl) \<le> n"
    using rep x by (auto simp: clients_rep_def dest: spec[of _ c])
  have w: "wk_sm ?w = cn_sm ?k" "wk_mem ?w = (rs_mem (cl_state cl))\<lparr>w_net := cn_net ?k\<rparr>"
    "wk_pipe ?w = []" "wk_sent ?w = []" "wk_head ?w = cn_head ?k" "wk_window ?w = []"
    using rep k(1) by (simp_all add: client_worker_def wk_mem_def Let_def clients_rep_def conn_ok_def)
  define w1 where "w1 = (with_mem m' (?w\<lparr>wk_sm := sm'\<rparr>))\<lparr>wk_window := [None]\<rparr>"
  have w1: "wk_mem w1 = m'" "wk_window w1 = [None]" "wk_head w1 = cn_head ?k" "wk_sent w1 = []" "wk_sm w1 = sm'"
    "wk_pipe w1 = []" "wk_state w1 = (cl_state cl)\<lparr>rs_mem := m'\<rparr>"
    by (simp_all add: w1_def w) (simp add: client_worker_def Let_def)
  note pc = parser_call[OF rep call]
  have srv: "server_rep J ty env (wk_state w1) m" using pc(1)[of "rs_ctx (cl_state cl)"] by (simp add: w1)
  have good: "good_op J m x" using k(1) by (cases x) (auto simp: conn_ok_def)
  have args: "length (db_args x) < 2 ^ 31" "db_args x \<noteq> []" by (cases x; simp)+
  have req: "request (db_args x) r (wk_mem w1)" using parsed_request[OF r(2) _ args(1)] r(3) by (simp add: w1)
  have argc: "0 < ra_argc r"
    using r(2) args(2) zip_args_texts by (cases "db_args x") (fastforce simp: command_args_def resp_cmd_args_def split: option.splits if_splits)+
  obtain s' where s': "run_ticket env (Some r) (wk_head w1) w1 =
       returns (w1\<lparr>wk_state := s', wk_window := [], wk_head := wk_head w1 + 1,
         wk_sent := wk_sent w1 @ wire (db_answer m x)\<rparr>)"
    "server_rep J ty env s' (db_next m x)" "server_load s' \<le> server_load (wk_state w1) + 1" "w_net (rs_mem s') = w_net m'"
    "\<And>a cs. heap_block a m' = Ok cs \<Longrightarrow> heap_block a (rs_mem s') = Ok cs"
    using runs_ticket[OF srv _ good req w1(2)] load k(2,3) by (auto simp: w1)
  define w2 where "w2 = w1\<lparr>wk_state := s', wk_window := [], wk_head := wk_head w1 + 1,
         wk_sent := wk_sent w1 @ wire (db_answer m x)\<rparr>"
  have w2: "wk_state w2 = s'" "wk_window w2 = []" "wk_head w2 = cn_head ?k + 1" "wk_sent w2 = wire (db_answer m x)"
    "wk_sm w2 = sm'" "wk_pipe w2 = []" "wk_mem w2 = rs_mem s'"
    by (simp_all add: w2_def w1) (simp add: wk_mem_def)
  have "onestep_read env ?w = bind_run (run_ticket env (Some r) (cn_head ?k) w1) (\<lambda>w'. returns (PR_DONE, w'))"
    using reads_run[of env ?w sm' m' r] call r(1) argc unfolding w w1_def by blast
  also have "\<dots> = returns (PR_DONE, w2)" unfolding s'(1)[unfolded w1(3), folded w1(3), folded w2_def, unfolded w1(3)] by simp
  finally have "onestep_read env ?w = returns (PR_DONE, w2)" .
  then have run: "client_read env c cl = returns (\<lparr>cl_state = s',
      cl_conns = (cl_conns cl)(c := \<lparr>cn_sm = sm', cn_head = cn_head ?k + 1, cn_window = [], cn_net = w_net m'\<rparr>), cl_pipe = []\<rparr>,
      wire (db_answer m x))"
    using s'(4) by (simp add: client_read_def worker_clients_def w2)
  have "room (sm_data sm') (rs_mem s')" using pc(3) null by (simp add: room_def heap_block_def)
  moreover have "rp_clean_inv [] sm' ((rs_mem s')\<lparr>w_net := w_net m'\<rparr>)" using clean null by (simp add: rp_clean_inv_def)
  ultimately have kc: "conn_ok J None \<lparr>cn_sm = sm', cn_head = cn_head ?k + 1, cn_window = [], cn_net = w_net m'\<rparr> (rs_mem s')"
    using null by (simp add: conn_ok_def)
  have kd: "conn_ok J (p d) (cl_conns cl d) (rs_mem s')" if "d \<noteq> c" for d
  proof (rule conn_ok_kept[OF pc(2)[OF that]])
    show "heap_block (cn_buf (cl_conns cl d)) (rs_mem s') = heap_block (cn_buf (cl_conns cl d)) m'"
      using pc(2)[OF that] s'(5) by (auto simp: conn_ok_def heap_block_def[of NULL])
  qed
  have "clients_rep J ty env (Suc n) \<lparr>cl_state = s',
      cl_conns = (cl_conns cl)(c := \<lparr>cn_sm = sm', cn_head = cn_head ?k + 1, cn_window = [], cn_net = w_net m'\<rparr>), cl_pipe = []\<rparr>
      (p(c := None)) (db_next m x)"
    by (rule clients_repI[OF rep]) (use s'(2,3) k kc kd null w1(7) in auto)
  then show ?thesis using run by blast
qed

text \<open>What a read does: the connection waits, with less to come if it has an open command, or is answered.\<close>

lemma read_cases:
  assumes rep: "clients_rep J ty env n cl p m" and load: "n < 2 ^ 30"
  shows "(\<exists>cl'. client_read env c cl = returns (cl', []) \<and> clients_rep J ty env n cl' p m \<and>
            (p c = None \<or> net_weight (cn_net (cl_conns cl' c)) < net_weight (cn_net (cl_conns cl c)))) \<or>
         (\<exists>cl' x. client_read env c cl = returns (cl', wire (db_answer m x)) \<and> p c = Some x \<and>
            clients_rep J ty env (Suc n) cl' (p(c := None)) (db_next m x))"
proof -
  let ?k = "cl_conns cl c" and ?w = "(rs_mem (cl_state cl))\<lparr>w_net := cn_net (cl_conns cl c)\<rparr>"
  have k: "conn_ok J (p c) ?k (rs_mem (cl_state cl))" using rep by (simp add: clients_rep_def)
  have mal: "small_grants (en_malloc env)"
    using rep by (simp add: clients_rep_def server_rep_def plenty_def small_grants_def)
  show ?thesis
  proof (cases "p c")
    case None
    then have "rp_clean_inv [] (cn_sm ?k) ?w" using k by (simp add: conn_ok_def)
    then obtain sm' m' where s: "resp_cmd_process_sm (en_malloc env) (cn_sm ?k) ?w = returns (RESP_SM_STATUS_EMPTY, sm', m')"
      "rp_clean_inv [] sm' m'"
      using process_idle[OF mal] by metis
    have "rb_buf (sm_data sm') = NULL \<or> (\<exists>cs. heap_block (rb_buf (sm_data sm')) m' = Ok cs)"
    proof (cases "rb_buf (sm_data sm') = NULL")
      case False
      then show ?thesis using s(2) by (auto simp: rp_clean_inv_def buf_ok_def simp del: One_nat_def)
    qed simp
    then show ?thesis using read_waits[OF rep s(1)] s(2) None by auto
  next
    case (Some x)
    then have x: "small_command (db_args x)" "rp_ready (db_args x) [] (cn_sm ?k) ?w" using k by (simp_all add: conn_ok_def)
    from x(1) mal x(2) show ?thesis
    proof (cases rule: process_ready)
      case (Empty sm' m')
      then show ?thesis using read_waits[OF rep Empty(1)] rp_ready_block[OF Empty(2)] Some by auto
    next
      case (Done st sm' m' r)
      then have "st = RESP_SM_STATUS_DONE" "rb_buf (sm_data sm') = NULL" by auto
      then show ?thesis using read_answers[OF rep load Some] Done Some by blast
    qed
  qed
qed

lemma read_step:
  assumes "clients_rep J ty env n cl p m" and "n < 2 ^ 30"
  obtains (Wait) cl' where "client_read env c cl = returns (cl', [])" "clients_rep J ty env n cl' p m"
      "p c = None \<or> net_weight (cn_net (cl_conns cl' c)) < net_weight (cn_net (cl_conns cl c))"
  | (Answer) cl' x where "client_read env c cl = returns (cl', wire (db_answer m x))" "p c = Some x"
      "clients_rep J ty env (Suc n) cl' (p(c := None)) (db_next m x)"
  using read_cases[OF assms, of c] by blast

section \<open>Sending\<close>

lemma buf_ok_send:
  assumes "buf_ok S a e w" and "net_open net"
  shows "buf_ok (S @ net_bytes net) a e (w\<lparr>w_net := w_net w @ net\<rparr>)"
  using assms by (auto simp: buf_ok_def)

lemma send_step:
  assumes rep: "clients_rep J ty env n cl p m" and idle: "p c = None"
    and x: "set_or_get (fst x)" "good_send J Map.empty x"
  shows "clients_rep J ty env n (client_send c (snd x) cl) (p(c := Some (fst x))) m"
proof -
  let ?k = "cl_conns cl c" and ?w = "rs_mem (cl_state cl)"
  have k: "conn_ok J None ?k ?w" using rep idle by (auto simp: clients_rep_def dest: spec[of _ c])
  have net: "net_open (snd x)" "net_bytes (snd x) = enc_command (db_args (fst x))" and
    op: "good_op J Map.empty (fst x)" "small_command (db_args (fst x))"
    using x(2) by (simp_all add: good_send_def)
  have "rp_clean_inv (enc_command (db_args (fst x))) (cn_sm ?k) (?w\<lparr>w_net := cn_net ?k @ snd x\<rparr>)"
    using k net buf_ok_send[of "[]" _ _ "?w\<lparr>w_net := cn_net ?k\<rparr>" "snd x"]
    by (auto simp: conn_ok_def rp_clean_inv_def)
  then have "conn_ok J (Some (fst x)) (?k\<lparr>cn_net := cn_net ?k @ snd x\<rparr>) ?w"
    using k x(1) op by (simp add: conn_ok_def rp_ready_def)
  then show ?thesis using rep by (auto simp: clients_rep_def client_send_def)
qed

section \<open>Starting\<close>

lemma start_step:
  assumes env: "roomy env" and s: "server_start env = returns s"
  shows "clients_rep {env_junk (en_ht env)} 252 env 0 (clients_start s) (\<lambda>_. None) Map.empty"
proof -
  have "server_rep {env_junk (en_ht env)} 252 env s Map.empty" "server_load s = 0"
    using server_start_ok[OF env] s by (metis prod.inject sum.inject(2) option.inject)+
  then show ?thesis
    by (simp add: clients_rep_def clients_start_def conn_ok_def room_def heap_block_def rp_clean_inv_def resp_sm_init_def)
qed

lemma wire_some [simp]: "wire x \<noteq> []" "[] \<noteq> wire x"
  by (cases x; simp)+

lemma serving_rep:
  assumes "roomy env" and "serving env n cl p m" and "n < 2 ^ 30"
  shows "clients_rep {env_junk (en_ht env)} 252 env n cl p m"
  using assms(2,3)
proof (induction rule: serving.induct)
  case (start s)
  then show ?case using start_step[OF assms(1)] by blast
next
  case (send n cl p m c x)
  then show ?case using send_step by blast
next
  case (wait n cl p m c cl')
  from wait.IH[OF wait.prems] wait.prems show ?case
    by (rule read_step[where c = c]) (use wait.hyps(2) in auto)
next
  case (answer n cl p m c cl' out x)
  then have n: "n < 2 ^ 30" by simp
  from answer.IH[OF n] n show ?case
  proof (rule read_step[where c = c])
    fix cl1 assume "client_read env c cl = returns (cl1, [])"
    then show ?thesis using answer.hyps by simp
  next
    fix cl1 y
    assume "client_read env c cl = returns (cl1, wire (db_answer m y))" "p c = Some y"
      "clients_rep {env_junk (en_ht env)} 252 env (Suc n) cl1 (p(c := None)) (db_next m y)"
    then show ?thesis using answer.hyps by (simp del: fun_upd_apply)
  qed
qed

section \<open>A schedule of reads\<close>

lemma read_others:
  assumes "client_read env c cl = returns (cl', out)" and "d \<noteq> c"
  shows "cl_conns cl' d = cl_conns cl d"
proof -
  obtain r where "cl' = worker_clients cl c r"
    using assms(1) by (auto simp: client_read_def bind_run_returns)
  then show ?thesis using assms(2) by (simp add: worker_clients_def)
qed

text \<open>
  The replies of a schedule: clients in the order in which they are answered, each as the map says that
  the answers before it have made.
\<close>

definition linearized :: "(nat \<Rightarrow> db_op option) \<Rightarrow> (bytes \<rightharpoonup> bytes) \<Rightarrow> (nat \<times> bytes) list \<Rightarrow> nat list \<Rightarrow> bool" where
  "linearized p m outs ds \<longleftrightarrow>
     distinct ds \<and> (\<forall>c \<in> set ds. p c \<noteq> None) \<and>
     filter (\<lambda>(c, out). out \<noteq> []) outs = zip ds (map wire (db_answers m (map (the \<circ> p) ds)))"

lemma linearized_wait: "linearized p m outs ds \<Longrightarrow> linearized p m ((c, []) # outs) ds"
  by (simp add: linearized_def)

lemma linearized_answer:
  assumes "linearized (p(c := None)) (db_next m x) outs ds" and "p c = Some x"
  shows "linearized p m ((c, wire (db_answer m x)) # outs) (c # ds)"
proof -
  have c: "c \<notin> set ds" using assms(1) by (auto simp: linearized_def)
  then have same: "map (the \<circ> p(c := None)) ds = map (the \<circ> p) ds" by auto
  show ?thesis using assms c unfolding linearized_def same by (auto split: if_splits)
qed

lemma schedule:
  assumes "clients_rep J ty env n cl p m" and "n + length cs \<le> 2 ^ 30"
  shows "\<exists>cl' outs ds. read_all env cs cl = returns (cl', outs) \<and> linearized p m outs ds \<and>
           (\<forall>c. p c \<noteq> None \<longrightarrow> net_weight (cn_net (cl_conns cl c)) < count_list cs c \<longrightarrow> c \<in> set ds)"
  using assms
proof (induction cs arbitrary: n cl p m)
  case Nil
  then show ?case by (auto simp: linearized_def intro!: exI[of _ "[]"])
next
  case (Cons b cs)
  have n: "n < 2 ^ 30" and len: "Suc n + length cs \<le> 2 ^ 30" using Cons.prems(2) by simp_all
  from Cons.prems(1) n show ?case
  proof (rule read_step[where c = b])
    fix cl1
    assume r: "client_read env b cl = returns (cl1, [])" and rep: "clients_rep J ty env n cl1 p m"
      and less: "p b = None \<or> net_weight (cn_net (cl_conns cl1 b)) < net_weight (cn_net (cl_conns cl b))"
    obtain cl' outs ds where s: "read_all env cs cl1 = returns (cl', outs)" "linearized p m outs ds"
      "\<forall>c. p c \<noteq> None \<longrightarrow> net_weight (cn_net (cl_conns cl1 c)) < count_list cs c \<longrightarrow> c \<in> set ds"
      using Cons.IH[OF rep] Cons.prems(2) by auto
    have "c \<in> set ds" if "p c \<noteq> None" "net_weight (cn_net (cl_conns cl c)) < count_list (b # cs) c" for c
      using s(3) that less read_others[OF r, of c] by (cases "c = b") auto
    then have all: "\<forall>c. p c \<noteq> None \<longrightarrow> net_weight (cn_net (cl_conns cl c)) < count_list (b # cs) c \<longrightarrow> c \<in> set ds"
      by blast
    have "read_all env (b # cs) cl = returns (cl', (b, []) # outs)" using r s(1) by simp
    then show ?thesis using linearized_wait[OF s(2)] all by blast
  next
    fix cl1 x
    assume r: "client_read env b cl = returns (cl1, wire (db_answer m x))" and x: "p b = Some x"
      and rep: "clients_rep J ty env (Suc n) cl1 (p(b := None)) (db_next m x)"
    obtain cl' outs ds where s: "read_all env cs cl1 = returns (cl', outs)" "linearized (p(b := None)) (db_next m x) outs ds"
      "\<forall>c. (p(b := None)) c \<noteq> None \<longrightarrow> net_weight (cn_net (cl_conns cl1 c)) < count_list cs c \<longrightarrow> c \<in> set ds"
      using Cons.IH[OF rep len] by blast
    have "c \<in> set (b # ds)" if "p c \<noteq> None" "net_weight (cn_net (cl_conns cl c)) < count_list (b # cs) c" for c
      using s(3) that read_others[OF r, of c] by (cases "c = b") auto
    then have all: "\<forall>c. p c \<noteq> None \<longrightarrow> net_weight (cn_net (cl_conns cl c)) < count_list (b # cs) c \<longrightarrow> c \<in> set (b # ds)"
      by blast
    have "read_all env (b # cs) cl = returns (cl', (b, wire (db_answer m x)) # outs)" using r s(1) by simp
    then show ?thesis using linearized_answer[where p = p, OF s(2) x] all by blast
  qed
qed

section \<open>Properties\<close>

text \<open>
  C2. Many clients at once: on a server that has started, with every allocation granted, let clients each send a \<open>SET\<close> or
  \<open>GET\<close> in any pieces and wait for its reply, and let a thread read from the connections in any order, whether or not they
  have a whole command.  A command must fit into 256 bytes on the wire, a value must have no NUL, and a key must
  be one the table can hold (\<open>key_ok\<close>).  Then, for fewer than \<open>2 ^ 30\<close> commands and reads, no read faults; the replies are those of a
  finite map to the commands in some order, one for each; and a client whose connection is read more often
  than what it has sent weighs (its bytes and its pieces) has its reply.
\<close>

theorem clients_are_linearized:
  assumes "roomy env" and "serving env n cl p m" and "n + length cs < 2 ^ 30"
  shows "\<exists>cl' outs ds. read_all env cs cl = returns (cl', outs) \<and> linearized p m outs ds \<and>
           (\<forall>c. p c \<noteq> None \<longrightarrow> net_weight (cn_net (cl_conns cl c)) < count_list cs c \<longrightarrow> c \<in> set ds)"
proof -
  have "clients_rep {env_junk (en_ht env)} 252 env n cl p m"
    by (rule serving_rep[OF assms(1,2)]) (use assms(3) in simp)
  then show ?thesis by (rule schedule) (use assms(3) in simp)
qed

text \<open>Client 0 sets a key in two pieces, client 1 asks for it in one.\<close>

abbreviation two_sends :: "(db_op \<times> segment list) \<times> (db_op \<times> segment list)" where
  "two_sends \<equiv>
     ((Db_set [97] [98], [Bytes (take 7 (enc_command [[83, 69, 84], [97], [98]])), WouldBlock,
         Bytes (drop 7 (enc_command [[83, 69, 84], [97], [98]]))]),
      (Db_get [97], [Bytes (enc_command [[71, 69, 84], [97]])]))"

abbreviation rounds :: "nat \<Rightarrow> nat list" where
  "rounds k \<equiv> concat (replicate k [0, 1])"

lemma rounds_length: "length (rounds k) = 2 * k"
  by (induction k) simp_all

lemma rounds_count: "count_list (rounds k) 0 = k" "count_list (rounds k) 1 = k"
  by (induction k) simp_all

theorem clients_are_linearized_witness:
  "\<exists>s cl. server_start calm_server = returns s \<and>
     cl = client_send 1 (snd (snd two_sends)) (client_send 0 (snd (fst two_sends)) (clients_start s)) \<and>
     (\<exists>cl' outs ds. read_all calm_server (rounds 100) cl = returns (cl', outs) \<and>
        linearized [0 \<mapsto> Db_set [97] [98], 1 \<mapsto> Db_get [97]] Map.empty outs ds \<and> set ds = {0, 1})"
proof -
  obtain s where s: "server_start calm_server = returns s" using server_start_ok[OF roomy_calm] by blast
  have junk: "env_junk (en_ht calm_server) = 0" by (simp add: calm_server_def)
  have args: "ascii ''GET'' = [71, 69, 84]" "ascii ''SET'' = [83, 69, 84]" by (simp_all add: ascii_def)
  have good: "good_send {env_junk (en_ht calm_server)} Map.empty (fst two_sends)"
      "good_send {env_junk (en_ht calm_server)} Map.empty (snd two_sends)"
    by (simp_all add: junk good_send_def args key_ok_a plain_text_def small_command_def enc_command_def
        enc_head_def enc_arg_def dec.simps)
  let ?cl = "client_send 1 (snd (snd two_sends)) (client_send 0 (snd (fst two_sends)) (clients_start s))"
  let ?p = "[0 \<mapsto> Db_set [97] [98], 1 \<mapsto> Db_get [97]]"
  have "serving calm_server 0 (client_send 0 (snd (fst two_sends)) (clients_start s)) [0 \<mapsto> fst (fst two_sends)] Map.empty"
    by (rule serving.send[OF serving.start[OF s]]) (use good in simp_all)
  then have "serving calm_server 0 ?cl ([0 \<mapsto> fst (fst two_sends)](1 \<mapsto> fst (snd two_sends))) Map.empty"
    by (rule serving.send) (use good in simp_all)
  then have served: "serving calm_server 0 ?cl ?p Map.empty" by simp
  have net: "net_weight (cn_net (cl_conns ?cl 0)) < 100" "net_weight (cn_net (cl_conns ?cl 1)) < 100"
    by (simp_all add: client_send_def clients_start_def enc_command_def enc_head_def enc_arg_def dec.simps)
  obtain cl' outs ds where r: "read_all calm_server (rounds 100) ?cl = returns (cl', outs)"
    "linearized ?p Map.empty outs ds"
    "\<forall>c. ?p c \<noteq> None \<longrightarrow> net_weight (cn_net (cl_conns ?cl c)) < count_list (rounds 100) c \<longrightarrow> c \<in> set ds"
    using clients_are_linearized[OF roomy_calm served, of "rounds 100"] rounds_length by fastforce
  have "0 \<in> set ds" "1 \<in> set ds"
    using r(3)[THEN spec, of 0] r(3)[THEN spec, of 1] net rounds_count by simp_all
  moreover have "set ds \<subseteq> {0, 1}" using r(2) by (auto simp: linearized_def split: if_splits)
  ultimately show ?thesis using s r(1,2) by blast
qed

end
