(* ===== verification/Spec2Isabelle.thy ===== *)
theory Spec2Isabelle
  imports Prelude Ring_Queue Ring_Spsc Send_Queue Ht_Iter Command_Ht Redis_Bits Resp_Faults Resp_Lost Worker_Map Reply_Once Pipeline Runner_Faults Timer Gc Resp_Dw Resp_Ends Clients
begin

text \<open>
  A model of predis, a server that speaks the protocol of Redis, and the theorems that make its parts
  correct.

  \<^bold>\<open>The program.\<close>  \<^verbatim>\<open>main\<close> (\<^verbatim>\<open>network_parser.c\<close>) builds the table of keys, the table of types and the table of
  commands, loads the shared objects under \<^verbatim>\<open>types/\<close> and \<^verbatim>\<open>commands/\<close>, which register themselves, and
  starts worker threads.  A worker (\<^verbatim>\<open>onestep_thread\<close>) waits for a connection to become readable, calls the
  incremental parser (\<^verbatim>\<open>lib/resp_parser.c\<close>), takes a ticket of the connection's reply queue
  (\<^verbatim>\<open>lib/send_queue.c\<close>) for every parsed command, runs it (\<^verbatim>\<open>runner\<close>) and sends the replies that are ready in
  the order of the tickets.  The runner looks the command up (\<^verbatim>\<open>lib/command_ht.c\<close>), fetches the keys that
  its format string names from the lock-free table (\<^verbatim>\<open>lib/hashtable.c\<close>) and calls it
  (\<^verbatim>\<open>commands/\<close>, \<^verbatim>\<open>types/\<close>, \<^verbatim>\<open>lib/commands.c\<close>).

  \<^bold>\<open>The theories\<close>, from the bottom up:
  \<^item> \<open>Prelude\<close>: results with faults (\<open>res\<close>), runs that may also not end (\<open>run\<close>: \<open>None\<close> is a run that goes on
    for ever), flat memory and the types of machine words.
  \<^item> \<open>Fifo_Spec\<close>, \<open>Ring_Queue\<close>, \<open>Ring_Spsc\<close>: \<^verbatim>\<open>lib/1r1w_queue.c\<close>, as functions and as a step relation of one
    reader and one writer; the queue is first in first out as long as the length divides \<open>2 ^ 32\<close>.
  \<^item> \<open>Reply_Order\<close>, \<open>Send_Queue\<close>: \<^verbatim>\<open>lib/send_queue.c\<close> and its use by the workers; replies leave in the order
    of their tickets whatever order they are committed in, and none stays behind.
  \<^item> \<open>Ht_Bits\<close>, \<open>Ht_Table\<close>, \<open>Ht_Chain\<close>, \<open>Ht_Inv\<close>, \<open>Ht_Update\<close>, \<open>Ht_Sentinel\<close>, \<open>Hashtable\<close>, \<open>Kv_Spec\<close>,
    \<open>Ht_Map\<close>, \<open>Ht_Iter\<close>: \<^verbatim>\<open>lib/hashtable.c\<close>, the split-ordered list, its invariant and its refinement of a finite
    map; iteration and \<^verbatim>\<open>ht_free\<close>.
  \<^item> \<open>C_Strings\<close>, \<open>Probe_Table\<close>, \<open>Type_Ht\<close>, \<open>Format_String\<close>, \<open>Command_Ht\<close>: \<^verbatim>\<open>lib/type_ht.c\<close> and
    \<^verbatim>\<open>lib/command_ht.c\<close>; what is registered is found, and formats are parsed back.
  \<^item> \<open>Redis_Bits\<close>: \<^verbatim>\<open>commands/redis/string.c\<close>; the two bit routines against their one-line specifications.
  \<^item> \<open>Resp_Parser\<close>, \<open>Resp_Encode\<close>, \<open>Resp_Roundtrip\<close>, \<open>Resp_Frame\<close>, \<open>Resp_Faults\<close>, \<open>Resp_Lost\<close>: \<^verbatim>\<open>resp_cmd_process_sm\<close>, label
    by label; the round trip with the encoding of clients, what it leaves alone, what malformed requests do, and
    that a last argument that does not end in the first buffer is lost.
  \<^item> \<open>Resp_Block\<close>, \<open>Resp_Batch\<close>, \<open>Resp_Ends\<close>: the older \<open>resp_cmd_process\<close>, which takes a whole command per
    call, from its \<^verbatim>\<open>epoll_wait\<close> on; batches of commands are read back through its spare pages as far as the socket
    keeps reporting, every call that a connection was reported to returns, and where it goes wrong.
  \<^item> \<open>Replies\<close>: the reply functions of \<^verbatim>\<open>lib/commands.c\<close> and \<^verbatim>\<open>send_pre_data\<close>.
  \<^item> \<open>Values\<close>, \<open>Commands\<close>, \<open>Runner\<close>: \<^verbatim>\<open>types/\<close>, \<^verbatim>\<open>predis_arg_*\<close>, every command, and \<^verbatim>\<open>runner\<close>.
  \<^item> \<open>Server\<close>, \<open>Server_Start\<close>: registration and the initialisation by \<^verbatim>\<open>main\<close>.
  \<^item> \<open>Worker\<close>: \<^verbatim>\<open>packet_reciever\<close> and \<^verbatim>\<open>onestep_thread\<close> for one connection.
  \<^item> \<open>Db_Spec\<close>, \<open>Runner_Map\<close>, \<open>Server_Map\<close>, \<open>Worker_Map\<close>: the contract of a store of strings, and that the whole
    path from bytes received to bytes sent keeps it.
  \<^item> \<open>Resp_Grow\<close>, \<open>Clients\<close>: any number of connections served by one thread, which reads from them in any order;
    a call of the parser writes only where nothing was known, so the parts of requests that have arrived do
    not disturb each other, and the replies are those of one order of the commands (\<open>clients_are_linearized\<close>).
  \<^item> \<open>Gc\<close>: \<^verbatim>\<open>lib/gc.c\<close>; no collection returns, and one that meets an object in use writes out of bounds.  What the
    other theories say of a server holds up to its first collection.
  \<^item> \<open>Netwrap\<close>, \<open>Resp_Dw\<close>: \<^verbatim>\<open>lib/netwrap.c\<close> and the older parser \<^verbatim>\<open>lib/resp_parser_dw.c\<close>; reading from the buffer is
    reading from a stream, nested values are read back, and where that fails.
  \<^item> \<open>Timer\<close>: \<^verbatim>\<open>lib/timer.c\<close>; sums add up, and the printed lines are the merge of what the threads recorded.

  \<^bold>\<open>How code becomes definitions.\<close>  Structures are records, enumerations and tagged unions are datatypes,
  \<^verbatim>\<open>unsigned int\<close> is a 32 bit word, \<^verbatim>\<open>long\<close> an \<open>int\<close> with its overflow written out.  A null or dangling
  pointer, an index out of bounds, a read of memory that is not initialised, a failed assertion and a signed
  overflow are faults.  Objects live in heaps addressed by numbers; 0 is \<^verbatim>\<open>NULL\<close>.  Whether \<^verbatim>\<open>malloc\<close>
  succeeds is a parameter (\<open>grants\<close>, \<open>ht_env\<close>, \<open>fs_env\<close>, collected in \<open>rn_env\<close>), and so is what \<^verbatim>\<open>dlopen\<close> finds.
  The network is a list of segments with pauses, its end and errors between them.

  \<^bold>\<open>Interfaces.\<close>  The locales \<open>bounded_fifo\<close>, \<open>reply_queue\<close>, \<open>kv_store\<close>, \<open>registry\<close> and \<open>db_server\<close> state what a client of a
  component relies on; each is interpreted on the model of the code.

  \<^bold>\<open>Bounds.\<close>  At most \<open>2 ^ 30\<close> elements in a table and \<open>2 ^ 30\<close> commands of a session, so that the 32 bit counters
  do not wrap; commands of up to 256 bytes on the wire for the round trip (the size of a buffer of the parser),
  which small grants of 4096 bytes always allow; fewer than \<open>2 ^ 31\<close> tickets.  No fuel is used: loops are
  structural recursions or \<open>partial_function\<close>s, and that they return is proved.

  \<^bold>\<open>Not modelled.\<close>  The set-up of sockets, signals and threads and the option parsing of \<^verbatim>\<open>main\<close> (calls of the
  system); \<^verbatim>\<open>runner_queue\<close> and \<^verbatim>\<open>sender\<close>, which nothing calls; the interleaving of several worker threads
  inside one table operation (\<open>Clients\<close> interleaves connections between two reads); the test programs.
\<close>

end
